(* ===== verification/Prelude.thy ===== *)
theory Prelude
  imports Main "HOL-Library.Word"
begin

text \<open>
  Shared vocabulary of the development: the failures a C++ operation can end in, the result
  type of operations that may fail, bounds-checked memory access, machine integers and the
  generic lemmas on them. Two collections carry the component proofs: \<open>res_simps\<close>
  (when a composed operation returns, and with what) and \<open>size_simps\<close> (what \<open>size_t\<close>
  arithmetic means on natural numbers).
\<close>

named_theorems res_simps \<open>inversion of composed fallible operations\<close>
named_theorems size_simps \<open>size_t arithmetic read as arithmetic on nat\<close>

section \<open>Failures and results\<close>

text \<open>
  \<open>Assertion\<close> is a failed \<open>assert\<close> (the build does not define \<open>NDEBUG\<close>, so it aborts);
  \<open>Out_of_bounds\<close>, \<open>Null_pointer\<close> and \<open>Use_after_free\<close> are memory errors, which C++
  leaves undefined; \<open>Exception\<close> is a C++ exception that leaves the operation.
\<close>

datatype error =
    Assertion string
  | Out_of_bounds
  | Null_pointer
  | Use_after_free
  | Exception string

type_synonym 'a res = "error + 'a"

definition bindE :: "'a res \<Rightarrow> ('a \<Rightarrow> 'b res) \<Rightarrow> 'b res" where
  "bindE m f = (case m of Inl e \<Rightarrow> Inl e | Inr x \<Rightarrow> f x)"

definition assertE :: "bool \<Rightarrow> string \<Rightarrow> 'a res \<Rightarrow> 'a res" where
  "assertE c what k = (if c then k else Inl (Assertion what))"

definition deref :: "'a option \<Rightarrow> 'a res" where
  "deref p = (case p of None \<Rightarrow> Inl Null_pointer | Some x \<Rightarrow> Inr x)"

lemma bindE_simps [simp]: "bindE (Inl e) f = Inl e" "bindE (Inr x) f = f x"
  by (simp_all add: bindE_def)

lemma bindE_Inr_iff [res_simps]: "bindE m f = Inr y \<longleftrightarrow> (\<exists>x. m = Inr x \<and> f x = Inr y)"
  by (cases m) auto

lemma bindE_Inl_iff [res_simps]:
  "bindE m f = Inl e \<longleftrightarrow> m = Inl e \<or> (\<exists>x. m = Inr x \<and> f x = Inl e)"
  by (cases m) auto

lemma bindE_assoc: "bindE (bindE m f) g = bindE m (\<lambda>x. bindE (f x) g)"
  by (cases m) simp_all

lemma bindE_cong [fundef_cong]:
  "m = m' \<Longrightarrow> (\<And>x. m' = Inr x \<Longrightarrow> f x = f' x) \<Longrightarrow> bindE m f = bindE m' f'"
  by (cases m') auto

lemma assertE_simps [simp]:
  "assertE True s k = k" "assertE False s k = Inl (Assertion s)"
  by (simp_all add: assertE_def)

lemma assertE_Inr_iff [res_simps]: "assertE c s k = Inr y \<longleftrightarrow> c \<and> k = Inr y"
  by (simp add: assertE_def)

lemma assertE_Inl_iff [res_simps]:
  "assertE c s k = Inl e \<longleftrightarrow> (\<not> c \<and> e = Assertion s) \<or> (c \<and> k = Inl e)"
  by (auto simp: assertE_def)

lemma deref_simps [simp]: "deref None = Inl Null_pointer" "deref (Some x) = Inr x"
  by (simp_all add: deref_def)

lemma deref_Inr_iff [res_simps]: "deref p = Inr x \<longleftrightarrow> p = Some x"
  by (cases p) auto

section \<open>Results that fail for lack of memory only\<close>

text \<open>The result satisfies \<open>P\<close>, or a vector would have grown beyond its maximal size.\<close>

definition safe :: "('a \<Rightarrow> bool) \<Rightarrow> 'a res \<Rightarrow> bool" where
  "safe P r = (case r of Inr x \<Rightarrow> P x | Inl e \<Rightarrow> e = Exception ''length_error'')"

lemma safe_simps [simp]:
  "safe P (Inr x) = P x" "safe P (Inl e) = (e = Exception ''length_error'')"
  by (simp_all add: safe_def)

lemma safe_bind:
  assumes "safe P m" and "\<And>x. P x \<Longrightarrow> safe Q (f x)"
  shows "safe Q (bindE m f)"
  using assms by (cases m) simp_all

lemma safe_mono: "safe P r \<Longrightarrow> (\<And>x. P x \<Longrightarrow> Q x) \<Longrightarrow> safe Q r"
  by (cases r) simp_all

lemma safe_bind_Inr: "(\<exists>x. m = Inr x \<and> safe Q (f x)) \<Longrightarrow> safe Q (bindE m f)"
  by auto

section \<open>Reachability\<close>

text \<open>
  The results a system can come to: \<open>step s r\<close> says that a step from state \<open>s\<close> has the
  result \<open>r\<close>, a state or a failure, after which nothing follows.
\<close>

inductive reach :: "('s \<Rightarrow> 's res \<Rightarrow> bool) \<Rightarrow> 's \<Rightarrow> 's res \<Rightarrow> bool" for step init where
  reach_init: "reach step init (Inr init)"
| reach_step: "reach step init (Inr s) \<Longrightarrow> step s r \<Longrightarrow> reach step init r"

lemma reach_first: "step init r \<Longrightarrow> reach step init r"
  using reach_step [OF reach_init] .

lemma reach_inv:
  assumes "reach step init r" and "I init"
    and "\<And>s r. I s \<Longrightarrow> step s r \<Longrightarrow> \<exists>s'. r = Inr s' \<and> I s'"
  shows "\<exists>s. r = Inr s \<and> I s"
  using assms(1)
proof (induction rule: reach.induct)
  case reach_init
  then show ?case using assms(2) by blast
next
  case (reach_step s r)
  then show ?case using assms(3) by blast
qed

text \<open>For systems in which a step may fail: what holds of every state reached.\<close>

lemma reach_inv_Inr:
  assumes "reach step init (Inr s)" and "I init"
    and "\<And>s s'. I s \<Longrightarrow> step s (Inr s') \<Longrightarrow> I s'"
  shows "I s"
proof -
  have "\<forall>s. r = Inr s \<longrightarrow> I s" if "reach step init r" for r
    using that
  proof (induction rule: reach.induct)
    case reach_init
    then show ?case using assms(2) by simp
  next
    case (reach_step s r)
    then show ?case using assms(3) by blast
  qed
  with assms(1) show ?thesis by blast
qed

text \<open>A failure is that of a step.\<close>

lemma reach_Inl: "reach step init (Inl e) \<Longrightarrow> \<exists>s. reach step init (Inr s) \<and> step s (Inl e)"
  by (auto elim: reach.cases)

section \<open>Bounds-checked memory\<close>

text \<open>A block of memory is a list of cells; reading or writing outside it is an error.\<close>

definition mem_read :: "'a list \<Rightarrow> nat \<Rightarrow> nat \<Rightarrow> 'a list res" where
  "mem_read xs off n =
     (if off + n \<le> length xs then Inr (take n (drop off xs)) else Inl Out_of_bounds)"

definition mem_write :: "'a list \<Rightarrow> nat \<Rightarrow> 'a list \<Rightarrow> 'a list res" where
  "mem_write xs off d =
     (if off + length d \<le> length xs
      then Inr (take off xs @ d @ drop (off + length d) xs) else Inl Out_of_bounds)"

lemma mem_read_ok [simp]: "off + n \<le> length xs \<Longrightarrow> mem_read xs off n = Inr (take n (drop off xs))"
  by (simp add: mem_read_def)

lemma mem_write_ok [simp]:
  "off + length d \<le> length xs
   \<Longrightarrow> mem_write xs off d = Inr (take off xs @ d @ drop (off + length d) xs)"
  by (simp add: mem_write_def)

lemma mem_write_Inr_iff [res_simps]:
  "mem_write xs off d = Inr ys \<longleftrightarrow>
     off + length d \<le> length xs \<and> ys = take off xs @ d @ drop (off + length d) xs"
  by (auto simp: mem_write_def)

lemma mem_read_Inr_iff [res_simps]:
  "mem_read xs off n = Inr ys \<longleftrightarrow> off + n \<le> length xs \<and> ys = take n (drop off xs)"
  by (auto simp: mem_read_def)

section \<open>Machine integers\<close>

type_synonym byte = "8 word"
type_synonym size_t = "64 word"

text \<open>The size of a \<open>std::vector\<close>, and the most elements a vector of bytes can hold.\<close>

definition vec_size :: "'a list \<Rightarrow> size_t" where
  "vec_size xs = word_of_nat (length xs)"

definition vec_max_size :: nat where
  "vec_max_size = 2 ^ 63 - 1"

text \<open>\<open>static_cast<int>\<close> of a \<open>size_t\<close>: the low 32 bits read as two's complement.\<close>

definition size_to_int :: "size_t \<Rightarrow> int" where
  "size_to_int n = sint (ucast n :: 32 word)"

lemma unat_size_lt [simp]: "unat (n :: size_t) < 2 ^ 64"
  using unsigned_less [of n] by simp

lemma unat_vec_size [size_simps]: "length xs < 2 ^ 64 \<Longrightarrow> unat (vec_size xs) = length xs"
  by (simp add: vec_size_def unat_of_nat take_bit_nat_eq_self)

lemma unat_size_plus [size_simps]:
  "unat a + unat b < 2 ^ 64 \<Longrightarrow> unat (a + b :: size_t) = unat a + unat b"
  by (simp add: unat_word_ariths)

lemma unat_size_minus [size_simps]:
  "unat b \<le> unat a \<Longrightarrow> unat (a - b :: size_t) = unat a - unat b"
  by (simp add: unat_sub word_le_nat_alt)

lemma size_le_iff [size_simps]: "(a :: size_t) \<le> b \<longleftrightarrow> unat a \<le> unat b"
  by (simp add: word_le_nat_alt)

lemma size_less_iff [size_simps]: "(a :: size_t) < b \<longleftrightarrow> unat a < unat b"
  by (simp add: word_less_nat_alt)

lemma size_eq_iff: "(a :: size_t) = b \<longleftrightarrow> unat a = unat b"
  by (simp add: word_unat_eq_iff)

lemma unat_size_of_nat: "n < 2 ^ 64 \<Longrightarrow> unat (word_of_nat n :: size_t) = n"
  by (simp add: unat_of_nat take_bit_nat_eq_self)

lemma size_to_int_small:
  assumes a: "unat n < 2 ^ 31"
  shows "size_to_int n = int (unat n)"
proof -
  have u: "uint n < 2 ^ 31"
    using a by (simp only: uint_nat of_nat_less_numeral_power_cancel_iff)
  have z: "0 \<le> uint n" by simp
  have "- (2 ^ 31) \<le> (0 :: int)" by simp
  then have l: "- (2 ^ 31) \<le> uint n"
    using z by (rule order.trans)
  have "uint (ucast n :: 32 word) = take_bit 32 (uint n)"
    by (simp add: unsigned_ucast_eq)
  also have "\<dots> = uint n"
    by (rule take_bit_int_eq_self) (use u in simp_all)
  finally have "uint (ucast n :: 32 word) = uint n" .
  then have "size_to_int n = signed_take_bit 31 (uint n)"
    by (simp add: size_to_int_def sint_uint)
  also have "\<dots> = uint n"
    by (rule signed_take_bit_int_eq_self [OF l u])
  finally show ?thesis by (simp only: uint_nat)
qed

section \<open>Lists\<close>

lemma take_take_drop: "take m xs @ take n (drop m xs) = take (m + n) xs"
  by (simp add: take_add)

lemma replicate_2 [simp]: "replicate 2 x = [x, x]"
  by (simp add: numeral_2_eq_2)

lemma list_all_replicate [simp]: "list_all P (replicate n x) \<longleftrightarrow> n = 0 \<or> P x"
  by (induction n) auto

end
