(* ===== verification/Circular_Buffer.thy ===== *)
theory Circular_Buffer
  imports Prelude
begin

text \<open>
  The fixed-capacity ring \<open>circular_buffer<T, N>\<close> of \<open>base/CircularBuffer.h\<close> and
  \<open>base/CircularBufferImpl.h\<close>. The template parameter \<open>N\<close> is the first argument of every
  operation. A cell is \<open>None\<close> where no object lives (destroyed and not constructed again);
  \<open>start_\<close> is \<open>None\<close> once the storage was moved away. The indices are C++ \<open>int\<close>s,
  and \<open>%\<close> and \<open><=\<close> against the \<open>size_t\<close> parameter \<open>N\<close> convert them to 64 bits first, as
  the code does.
\<close>

section \<open>State and index arithmetic\<close>

record 'a cbuf =
  cb_start :: "'a option list option"
  cb_finish :: "int option"
  indexOfHead :: int
  indexOfTail :: int
  cb_size :: int

definition cb_nextIndex :: "nat \<Rightarrow> int \<Rightarrow> int" where
  "cb_nextIndex N index = size_to_int (word_of_int (index + 1) mod word_of_nat N)"

definition cb_full :: "nat \<Rightarrow> 'a cbuf \<Rightarrow> bool" where
  "cb_full N cb \<longleftrightarrow> (word_of_int (cb_size cb) :: size_t) = word_of_nat N"

definition cb_empty :: "'a cbuf \<Rightarrow> bool" where
  "cb_empty cb \<longleftrightarrow> cb_size cb = 0"

text \<open>Reading, destroying and constructing the object at \<open>start_ + i\<close>.\<close>

definition cb_cell :: "'a cbuf \<Rightarrow> int \<Rightarrow> 'a res" where
  "cb_cell cb i =
     bindE (deref (cb_start cb)) (\<lambda>xs.
     if 0 \<le> i \<and> i < int (length xs)
     then (case xs ! nat i of None \<Rightarrow> Inl Use_after_free | Some v \<Rightarrow> Inr v)
     else Inl Out_of_bounds)"

definition cb_destroy :: "'a cbuf \<Rightarrow> int \<Rightarrow> 'a cbuf res" where
  "cb_destroy cb i =
     bindE (cb_cell cb i) (\<lambda>_.
     bindE (deref (cb_start cb)) (\<lambda>xs. Inr (cb\<lparr>cb_start := Some (xs[nat i := None])\<rparr>)))"

definition cb_construct :: "'a cbuf \<Rightarrow> int \<Rightarrow> 'a \<Rightarrow> 'a cbuf res" where
  "cb_construct cb i v =
     bindE (deref (cb_start cb)) (\<lambda>xs.
     if 0 \<le> i \<and> i < int (length xs)
     then Inr (cb\<lparr>cb_start := Some (xs[nat i := Some v])\<rparr>) else Inl Out_of_bounds)"

section \<open>Operations\<close>

text \<open>\<open>allocateAndFillN\<close>, the constructor's body; \<open>dflt\<close> is \<open>value_type()\<close>.\<close>

definition cb_new :: "nat \<Rightarrow> 'a \<Rightarrow> int \<Rightarrow> 'a \<Rightarrow> 'a cbuf" where
  "cb_new N dflt n val =
     (if (word_of_nat N :: size_t) \<le> word_of_int n
      then \<lparr>cb_start = Some (replicate N (Some val)), cb_finish = Some (int N),
            indexOfHead = 0, indexOfTail = size_to_int (word_of_nat N - 1), cb_size = int N\<rparr>
      else \<lparr>cb_start = Some (replicate (nat n) (Some val) @ replicate (N - nat n) (Some dflt)),
            cb_finish = Some (int N), indexOfHead = 0, indexOfTail = n - 1, cb_size = n\<rparr>)"

definition cb_push_back :: "nat \<Rightarrow> 'a cbuf \<Rightarrow> 'a \<Rightarrow> 'a cbuf res" where
  "cb_push_back N cb val =
     (let t = cb_nextIndex N (indexOfTail cb); cb1 = cb\<lparr>indexOfTail := t\<rparr> in
      if cb_full N cb
      then
        bindE (cb_destroy cb1 t) (\<lambda>cb2.
        bindE (cb_construct cb2 t val) (\<lambda>cb3.
        Inr (cb3\<lparr>indexOfHead := cb_nextIndex N (indexOfHead cb3)\<rparr>)))
      else
        bindE (cb_construct cb1 t val) (\<lambda>cb2. Inr (cb2\<lparr>cb_size := cb_size cb2 + 1\<rparr>)))"

text \<open>The loop of \<open>clear\<close>; \<open>None\<close> would be a loop that does not end.\<close>

partial_function (option) cb_clear_loop :: "nat \<Rightarrow> 'a cbuf \<Rightarrow> 'a cbuf res option" where
  "cb_clear_loop N cb =
     (if cb_empty cb then Some (Inr cb)
      else case cb_destroy cb (indexOfHead cb) of
        Inl e \<Rightarrow> Some (Inl e)
      | Inr cb1 \<Rightarrow>
          cb_clear_loop N (cb1\<lparr>indexOfHead := cb_nextIndex N (indexOfHead cb1),
                               cb_size := cb_size cb1 - 1\<rparr>))"

definition cb_clear :: "nat \<Rightarrow> 'a cbuf \<Rightarrow> 'a cbuf res option" where
  "cb_clear N cb =
     map_option (\<lambda>r. bindE r (\<lambda>cb'. Inr (cb'\<lparr>indexOfHead := 0, indexOfTail := 0\<rparr>)))
       (cb_clear_loop N cb)"

definition cb_dtor :: "nat \<Rightarrow> 'a cbuf \<Rightarrow> 'a cbuf res option" where
  "cb_dtor N cb =
     map_option (\<lambda>r. bindE r (\<lambda>cb'. Inr (cb'\<lparr>cb_start := None\<rparr>))) (cb_clear N cb)"

definition cb_front :: "'a cbuf \<Rightarrow> 'a res" where
  "cb_front cb = cb_cell cb (indexOfHead cb)"

definition cb_back :: "'a cbuf \<Rightarrow> 'a res" where
  "cb_back cb = cb_cell cb (indexOfTail cb)"

text \<open>
  Copy construction (\<open>clone\<close>) and move construction (\<open>copyAllMembers\<close>, then
  \<open>zeroCircular\<close> on the source); the latter returns the new object and the emptied source.
\<close>

definition cb_clone :: "nat \<Rightarrow> 'a cbuf \<Rightarrow> 'a cbuf res" where
  "cb_clone N cb =
     (case cb_start cb of
        None \<Rightarrow> Inr \<lparr>cb_start = Some (replicate N None), cb_finish = Some (int N),
                   indexOfHead = indexOfHead cb, indexOfTail = indexOfTail cb, cb_size = int N\<rparr>
      | Some xs \<Rightarrow>
          if list_all (\<lambda>c. c \<noteq> None) xs
          then Inr \<lparr>cb_start = Some xs, cb_finish = Some (int N), indexOfHead = indexOfHead cb,
                    indexOfTail = indexOfTail cb, cb_size = int N\<rparr>
          else Inl Use_after_free)"

definition cb_copyAllMembers :: "'a cbuf \<Rightarrow> 'a cbuf" where
  "cb_copyAllMembers cb =
     \<lparr>cb_start = cb_start cb, cb_finish = cb_finish cb, indexOfHead = indexOfHead cb,
      indexOfTail = indexOfTail cb, cb_size = cb_size cb\<rparr>"

definition cb_zeroCircular :: "'a cbuf \<Rightarrow> 'a cbuf" where
  "cb_zeroCircular cb =
     cb\<lparr>cb_start := None, cb_finish := None, indexOfHead := 0, indexOfTail := 0, cb_size := 0\<rparr>"

definition cb_move :: "'a cbuf \<Rightarrow> 'a cbuf \<times> 'a cbuf" where
  "cb_move cb = (cb_copyAllMembers cb, cb_zeroCircular cb)"

section \<open>Iterators\<close>

text \<open>An iterator is the pointer (an offset from \<open>start_\<close>) and the index.\<close>

record cb_iter =
  it_ptr :: int
  it_index :: int

text \<open>The constructor from a pointer: the index is the distance from \<open>start_\<close>.\<close>

definition it_new :: "int \<Rightarrow> cb_iter" where
  [simp]: "it_new ptr = \<lparr>it_ptr = ptr, it_index = ptr\<rparr>"

definition it_setIndex :: "int \<Rightarrow> cb_iter \<Rightarrow> cb_iter" where
  [simp]: "it_setIndex index it = it\<lparr>it_index := index\<rparr>"

definition it_setPtr :: "int \<Rightarrow> cb_iter \<Rightarrow> cb_iter" where
  [simp]: "it_setPtr ptr it = it\<lparr>it_ptr := ptr\<rparr>"

definition it_nextIndex :: "nat \<Rightarrow> int \<Rightarrow> int" where
  "it_nextIndex N index = (let i = index + 1 in size_to_int (word_of_int i mod word_of_nat N))"

lemma it_nextIndex_same [simp]: "it_nextIndex N index = cb_nextIndex N index"
  by (simp add: it_nextIndex_def cb_nextIndex_def Let_def)

definition cb_begin :: "'a cbuf \<Rightarrow> cb_iter" where
  "cb_begin cb = it_new (indexOfHead cb)"

definition cb_end :: "'a cbuf \<Rightarrow> cb_iter" where
  "cb_end cb = it_new (indexOfTail cb)"

definition it_prevIndex :: "nat \<Rightarrow> int \<Rightarrow> int" where
  "it_prevIndex N index =
     (let i = index - 1
      in size_to_int (if i = -1 then word_of_int i + word_of_nat N else word_of_int i))"

definition it_inc :: "nat \<Rightarrow> cb_iter \<Rightarrow> cb_iter" where
  "it_inc N it =
     (let it1 = it_setIndex (it_nextIndex N (it_index it)) it in it_setPtr (it_index it1) it1)"

definition it_dec :: "nat \<Rightarrow> cb_iter \<Rightarrow> cb_iter" where
  "it_dec N it =
     (let it1 = it_setIndex (it_prevIndex N (it_index it)) it in it_setPtr (it_index it1) it1)"

text \<open>\<open>for (it = cb.begin(); it != cb.end(); ++it)\<close>, collecting \<open>*it\<close>.\<close>

partial_function (option) cb_collect :: "nat \<Rightarrow> 'a cbuf \<Rightarrow> cb_iter \<Rightarrow> 'a list \<Rightarrow> 'a list res option" where
  "cb_collect N cb it acc =
     (if it_ptr it = it_ptr (cb_end cb) then Some (Inr acc)
      else case cb_cell cb (it_ptr it) of
        Inl e \<Rightarrow> Some (Inl e)
      | Inr v \<Rightarrow> cb_collect N cb (it_inc N it) (acc @ [v]))"

section \<open>The abstract value and the invariant\<close>

definition cb_list :: "nat \<Rightarrow> 'a cbuf \<Rightarrow> 'a list" where
  "cb_list N cb =
     map (\<lambda>k. the (the (cb_start cb) ! ((nat (indexOfHead cb) + k) mod N))) [0..<nat (cb_size cb)]"

definition cb_inv :: "nat \<Rightarrow> 'a cbuf \<Rightarrow> bool" where
  "cb_inv N cb \<longleftrightarrow>
     0 < N \<and> N < 2 ^ 31 \<and>
     0 \<le> indexOfHead cb \<and> indexOfHead cb < int N \<and>
     -1 \<le> indexOfTail cb \<and> indexOfTail cb < int N \<and>
     (cb_size cb \<noteq> 0 \<longrightarrow> 0 \<le> indexOfTail cb) \<and>
     0 \<le> cb_size cb \<and> cb_size cb \<le> int N \<and>
     (indexOfTail cb + 1) mod int N = (indexOfHead cb + cb_size cb) mod int N \<and>
     (case cb_start cb of None \<Rightarrow> False
      | Some xs \<Rightarrow> length xs = N \<and>
          (\<forall>k < nat (cb_size cb). xs ! ((nat (indexOfHead cb) + k) mod N) \<noteq> None))"

lemma cb_nextIndex_eq:
  assumes "0 < N" "N < 2 ^ 31" "-1 \<le> i" "i < int N"
  shows "cb_nextIndex N i = (i + 1) mod int N"
proof -
  have n: "uint (word_of_nat N :: size_t) = int N"
    using assms(2) by (simp only: uint_nat) (simp add: unat_size_of_nat)
  have i: "uint (word_of_int (i + 1) :: size_t) = i + 1"
    using assms by (simp add: uint_word_of_int_eq take_bit_int_eq_self del: of_int_add)
  let ?w = "word_of_int (i + 1) mod word_of_nat N :: size_t"
  have u: "uint ?w = (i + 1) mod int N"
    by (simp only: uint_mod n i)
  then have "uint ?w < 2 ^ 31"
    using assms(1,2) by (simp only: u) (rule order.strict_trans [OF pos_mod_bound], simp_all)
  then have "unat ?w < 2 ^ 31"
    by (simp only: uint_nat of_nat_less_numeral_power_cancel_iff)
  then show ?thesis
    using u by (simp only: cb_nextIndex_def size_to_int_small uint_nat)
qed

lemma cb_nextIndex_mod:
  assumes "0 < N" "N < 2 ^ 31"
  shows "cb_nextIndex N (int (m mod N)) = int (Suc m mod N)"
proof -
  have "cb_nextIndex N (int (m mod N)) = (int (m mod N) + 1) mod int N"
    using assms by (intro cb_nextIndex_eq) simp_all
  also have "\<dots> = int (Suc (m mod N) mod N)"
    by (simp add: zmod_int add.commute)
  finally show ?thesis by (simp only: mod_Suc_eq)
qed

text \<open>The same facts on natural numbers: head, length of the window and the cells.\<close>

lemma cb_invE:
  assumes "cb_inv N cb"
  obtains xs h s where "cb_start cb = Some xs" "length xs = N" "0 < N" "N < 2 ^ 31"
    "indexOfHead cb = int h" "h < N" "cb_size cb = int s" "s \<le> N"
    "-1 \<le> indexOfTail cb" "indexOfTail cb < int N"
    "cb_nextIndex N (indexOfTail cb) = int ((h + s) mod N)"
    "\<And>k. k < s \<Longrightarrow> xs ! ((h + k) mod N) \<noteq> None"
    "cb_list N cb = map (\<lambda>k. the (xs ! ((h + k) mod N))) [0..<s]"
    "0 < s \<Longrightarrow> indexOfTail cb = int ((h + (s - 1)) mod N)"
proof -
  obtain xs where xs: "cb_start cb = Some xs" "length xs = N"
    "\<And>k. k < nat (cb_size cb) \<Longrightarrow> xs ! ((nat (indexOfHead cb) + k) mod N) \<noteq> None"
    using assms unfolding cb_inv_def by (auto split: option.splits)
  define h s where "h = nat (indexOfHead cb)" and "s = nat (cb_size cb)"
  have i: "indexOfHead cb = int h" "h < N" "cb_size cb = int s" "s \<le> N" "0 < N" "N < 2 ^ 31"
    "-1 \<le> indexOfTail cb" "indexOfTail cb < int N"
    using assms by (auto simp: cb_inv_def h_def s_def)
  have "cb_nextIndex N (indexOfTail cb) = (indexOfTail cb + 1) mod int N"
    using i by (intro cb_nextIndex_eq) auto
  also have "\<dots> = int ((h + s) mod N)"
    using assms i by (simp add: cb_inv_def zmod_int)
  finally have nt: "cb_nextIndex N (indexOfTail cb) = int ((h + s) mod N)" .
  have tl: "indexOfTail cb = int ((h + (s - 1)) mod N)" if "0 < s"
  proof -
    have "(indexOfTail cb + 1) mod int N = (int h + int s) mod int N"
      using assms i by (simp add: cb_inv_def)
    then have "(indexOfTail cb + 1 - 1) mod int N = (int h + int s - 1) mod int N"
      by (rule mod_diff_cong) simp
    moreover have "0 \<le> indexOfTail cb" using assms that i(3) by (simp add: cb_inv_def)
    moreover have "int h + int s - 1 = int (h + (s - 1))" using that by simp
    moreover have "(indexOfTail cb + 1 - 1) mod int N = indexOfTail cb"
      using \<open>0 \<le> indexOfTail cb\<close> i(8) by (simp add: mod_pos_pos_trivial)
    ultimately show ?thesis by (metis zmod_int)
  qed
  have l: "cb_list N cb = map (\<lambda>k. the (xs ! ((h + k) mod N))) [0..<s]"
    by (simp add: cb_list_def xs(1) h_def s_def)
  have lv: "\<And>k. k < s \<Longrightarrow> xs ! ((h + k) mod N) \<noteq> None"
    using xs(3) by (simp add: h_def s_def)
  show ?thesis by (rule that [OF xs(1,2) i(5,6,1,2,3,4,7,8) nt lv l tl])
qed

lemma length_cb_list [simp]: "length (cb_list N cb) = nat (cb_size cb)"
  by (simp add: cb_list_def)

lemma cb_full_iff:
  assumes "cb_inv N cb"
  shows "cb_full N cb \<longleftrightarrow> cb_size cb = int N"
proof (rule cb_invE [OF assms])
  fix s assume s: "cb_size cb = int s" "s \<le> N" "N < 2 ^ 31"
  then have "unat (word_of_nat s :: size_t) = s" "unat (word_of_nat N :: size_t) = N"
    by (simp_all add: unat_size_of_nat)
  with s show ?thesis
    by (simp add: cb_full_def size_eq_iff)
qed

lemma ring_index_inj:
  fixes h :: nat
  assumes "j < N" "k < N" "(h + j) mod N = (h + k) mod N"
  shows "j = k"
proof -
  have "(int h + int j) mod int N = (int h + int k) mod int N"
    using assms(3) by (metis of_nat_add zmod_int)
  then have "int N dvd int j - int k"
    by (simp add: mod_eq_dvd_iff)
  moreover have "\<bar>int j - int k\<bar> < int N" using assms(1,2) by auto
  ultimately have "int j - int k = 0"
    using dvd_imp_le_int [of "int j - int k" "int N"] by (cases "int j = int k") auto
  then show ?thesis by simp
qed

text \<open>Building an instance of the invariant from natural numbers.\<close>

lemma cb_invI:
  assumes "cb_start cb = Some xs" "length xs = N" "0 < N" "N < 2 ^ 31"
    "indexOfHead cb = int h" "h < N" "cb_size cb = int s" "s \<le> N"
    "indexOfTail cb = int t" "t < N" "(t + 1) mod N = (h + s) mod N"
    "\<And>k. k < s \<Longrightarrow> xs ! ((h + k) mod N) \<noteq> None"
  shows "cb_inv N cb \<and> cb_list N cb = map (\<lambda>k. the (xs ! ((h + k) mod N))) [0..<s]"
proof -
  have "(indexOfTail cb + 1) mod int N = (indexOfHead cb + cb_size cb) mod int N"
    using assms(5,7,9,11) by (metis of_nat_1 of_nat_add zmod_int)
  then show ?thesis using assms by (simp add: cb_inv_def cb_list_def)
qed

section \<open>push_back\<close>

lemma cb_push_back_room:
  assumes inv: "cb_inv N cb" and room: "cb_size cb < int N"
  shows "\<exists>cb'. cb_push_back N cb v = Inr cb' \<and> cb_inv N cb' \<and> cb_list N cb' = cb_list N cb @ [v]"
proof (rule cb_invE [OF inv])
  fix xs h s
  assume a: "cb_start cb = Some xs" "length xs = N" "0 < N" "N < 2 ^ 31"
    "indexOfHead cb = int h" "h < N" "cb_size cb = int s" "s \<le> N"
    "cb_nextIndex N (indexOfTail cb) = int ((h + s) mod N)"
    and live: "\<And>k. k < s \<Longrightarrow> xs ! ((h + k) mod N) \<noteq> None"
    and l: "cb_list N cb = map (\<lambda>k. the (xs ! ((h + k) mod N))) [0..<s]"
  let ?t = "(h + s) mod N"
  have t: "?t < N" using a(3) by simp
  have sN: "s < N" using room a(7) by simp
  let ?ys = "xs[?t := Some v]"
  let ?cb = "cb\<lparr>indexOfTail := int ?t, cb_start := Some ?ys, cb_size := int (Suc s)\<rparr>"
  have other: "?ys ! ((h + k) mod N) = xs ! ((h + k) mod N)" if "k < s" for k
    using that sN ring_index_inj [of k N s h] by (metis nth_list_update_neq less_trans less_irrefl)
  have last: "?ys ! ?t = Some v" using t a(2) by simp
  have "cb_push_back N cb v = Inr ?cb"
    using a t room cb_full_iff [OF inv]
    by (simp add: cb_push_back_def cb_construct_def)
  moreover have "cb_inv N ?cb \<and> cb_list N ?cb = map (\<lambda>k. the (?ys ! ((h + k) mod N))) [0..<Suc s]"
  proof (rule cb_invI [where t = ?t])
    fix k assume "k < Suc s"
    then show "?ys ! ((h + k) mod N) \<noteq> None"
      using other [of k] live [of k] last by (cases "k = s") simp_all
  qed (use a t sN in \<open>auto simp: mod_Suc_eq\<close>)
  moreover have "map (\<lambda>k. the (?ys ! ((h + k) mod N))) [0..<Suc s] = cb_list N cb @ [v]"
    unfolding l using other last by simp
  ultimately show ?thesis by metis
qed

lemma cb_push_back_full:
  assumes inv: "cb_inv N cb" and full: "cb_size cb = int N"
  shows "\<exists>cb'. cb_push_back N cb v = Inr cb' \<and> cb_inv N cb' \<and>
               cb_list N cb' = tl (cb_list N cb) @ [v]"
proof (rule cb_invE [OF inv])
  fix xs h s
  assume a: "cb_start cb = Some xs" "length xs = N" "0 < N" "N < 2 ^ 31"
    "indexOfHead cb = int h" "h < N" "cb_size cb = int s" "s \<le> N"
    "cb_nextIndex N (indexOfTail cb) = int ((h + s) mod N)"
    and live: "\<And>k. k < s \<Longrightarrow> xs ! ((h + k) mod N) \<noteq> None"
    and l: "cb_list N cb = map (\<lambda>k. the (xs ! ((h + k) mod N))) [0..<s]"
  have s: "s = N" using full a(7) by simp
  have nt: "cb_nextIndex N (indexOfTail cb) = int h" using a(6,9) s by simp
  have nh: "cb_nextIndex N (int h) = int ((h + 1) mod N)"
    using cb_nextIndex_eq [of N "int h"] a(3,4,6) by (simp add: zmod_int add.commute)
  have lh: "xs ! h \<noteq> None" using live [of 0] a(3,6) s by simp
  let ?ys = "xs[h := Some v]"
  let ?h = "(h + 1) mod N"
  let ?cb = "cb\<lparr>indexOfTail := int h, cb_start := Some ?ys, indexOfHead := int ?h\<rparr>"
  have idx: "(?h + k) mod N = (h + Suc k) mod N" for k
    by (simp add: mod_add_left_eq)
  have other: "?ys ! ((h + Suc k) mod N) = xs ! ((h + Suc k) mod N)" if "Suc k < N" for k
    using that ring_index_inj [of "Suc k" N 0 h] a(3,6)
    by (metis Nat.add_0_right mod_less nat.distinct(1) nth_list_update_neq)
  have wrap: "(h + Suc (N - 1)) mod N = h" using a(3,6) by simp
  have "cb_push_back N cb v = Inr ?cb"
    using a(1-8) nt nh lh full cb_full_iff [OF inv]
    by (auto simp: cb_push_back_def cb_destroy_def cb_cell_def cb_construct_def)
  moreover have "cb_inv N ?cb \<and> cb_list N ?cb = map (\<lambda>k. the (?ys ! ((?h + k) mod N))) [0..<N]"
  proof (rule cb_invI [where t = h])
    fix k assume k: "k < N"
    show "?ys ! ((?h + k) mod N) \<noteq> None"
    proof (cases "Suc k < N")
      case True
      then show ?thesis using other [OF True] live [of "Suc k"] s by (metis idx)
    next
      case False
      with k have "k = N - 1" by simp
      then show ?thesis using wrap a(2,6) by (simp only: idx) simp
    qed
  qed (use a s full in \<open>auto simp: mod_Suc_eq\<close>)
  moreover have "map (\<lambda>k. the (?ys ! ((?h + k) mod N))) [0..<N] = tl (cb_list N cb) @ [v]"
  proof -
    obtain m where m: "N = Suc m" using a(3) by (cases N) auto
    have "map (\<lambda>k. the (?ys ! ((h + Suc k) mod N))) [0..<m]
        = map (\<lambda>k. the (xs ! ((h + Suc k) mod N))) [0..<m]"
      using other m by (intro map_cong) auto
    moreover have "cb_list N cb = map (\<lambda>k. the (xs ! ((h + k) mod N))) [0..<Suc m]"
      using l s m by metis
    then have "tl (cb_list N cb) = map (\<lambda>k. the (xs ! ((h + Suc k) mod N))) [0..<m]"
      by (simp only: map_upt_Suc list.sel)
    moreover have "the (?ys ! ((h + Suc m) mod N)) = v"
      using wrap m a(2,6) by simp
    ultimately show ?thesis
      unfolding idx by (simp only: m upt_Suc_append [of 0 m] map_append list.map le0)
  qed
  ultimately show ?thesis by metis
qed

section \<open>A ring is a bounded queue that drops its oldest element\<close>

fun push_all :: "('q \<Rightarrow> 'a \<Rightarrow> 'q res) \<Rightarrow> 'q \<Rightarrow> 'a list \<Rightarrow> 'q res" where
  "push_all push q [] = Inr q"
| "push_all push q (v # vs) = bindE (push q v) (\<lambda>q'. push_all push q' vs)"

definition last_n :: "nat \<Rightarrow> 'a list \<Rightarrow> 'a list" where
  "last_n n xs = drop (length xs - n) xs"

locale bounded_queue =
  fixes cap :: nat
    and inv :: "'q \<Rightarrow> bool"
    and items :: "'q \<Rightarrow> 'a list"
    and push :: "'q \<Rightarrow> 'a \<Rightarrow> 'q res"
  assumes bounded: "inv q \<Longrightarrow> length (items q) \<le> cap \<and> 0 < cap"
    and push_room: "\<lbrakk>inv q; length (items q) < cap\<rbrakk>
      \<Longrightarrow> \<exists>q'. push q v = Inr q' \<and> inv q' \<and> items q' = items q @ [v]"
    and push_full: "\<lbrakk>inv q; length (items q) = cap\<rbrakk>
      \<Longrightarrow> \<exists>q'. push q v = Inr q' \<and> inv q' \<and> items q' = tl (items q) @ [v]"
begin

lemma push_last_n:
  assumes "inv q"
  shows "\<exists>q'. push q v = Inr q' \<and> inv q' \<and> items q' = last_n cap (items q @ [v])"
proof (cases "length (items q) < cap")
  case True
  then show ?thesis using push_room [OF assms] by (simp add: last_n_def)
next
  case False
  then have "length (items q) = cap" using bounded [OF assms] by simp
  then show ?thesis
    using push_full [OF assms, of v] bounded [OF assms] by (simp add: last_n_def drop_Suc)
qed

lemma push_all_last_n:
  assumes "inv q"
  shows "\<exists>q'. push_all push q vs = Inr q' \<and> inv q' \<and> items q' = last_n cap (items q @ vs)"
  using assms
proof (induction vs arbitrary: q)
  case Nil
  then show ?case using bounded by (simp add: last_n_def)
next
  case (Cons v vs)
  then obtain q1 where q1: "push q v = Inr q1" "inv q1" "items q1 = last_n cap (items q @ [v])"
    using push_last_n by blast
  then obtain q2 where "push_all push q1 vs = Inr q2" "inv q2"
    "items q2 = last_n cap (items q1 @ vs)"
    using Cons.IH by blast
  moreover have "last_n cap (last_n cap (items q @ [v]) @ vs) = last_n cap (items q @ v # vs)"
    by (simp add: last_n_def drop_Cons' split: nat_diff_split)
  ultimately show ?case using q1 by simp
qed

end

interpretation ring: bounded_queue N "cb_inv N" "cb_list N" "cb_push_back N" for N
proof unfold_locales
  fix q :: "'a cbuf" and v
  assume inv: "cb_inv N q"
  show "length (cb_list N q) \<le> N \<and> 0 < N"
    using inv by (auto simp: cb_inv_def)
  have s: "0 \<le> cb_size q" using inv by (simp add: cb_inv_def)
  show "\<exists>q'. cb_push_back N q v = Inr q' \<and> cb_inv N q' \<and> cb_list N q' = cb_list N q @ [v]"
    if "length (cb_list N q) < N"
    using cb_push_back_room [OF inv] that s by auto
  show "\<exists>q'. cb_push_back N q v = Inr q' \<and> cb_inv N q' \<and> cb_list N q' = tl (cb_list N q) @ [v]"
    if "length (cb_list N q) = N"
    using cb_push_back_full [OF inv] that s by auto
qed

section \<open>Construction, ends, iteration\<close>

lemma cb_new_fresh:
  assumes N: "0 < N" "N < 2 ^ 31" and n: "m < 2 ^ 31"
  shows "cb_inv N (cb_new N dflt (int m) val) \<and>
         cb_list N (cb_new N dflt (int m) val) = replicate (min N m) val"
proof (cases "N \<le> m")
  case True
  have w: "unat (word_of_nat N - 1 :: size_t) = N - 1"
    using N by (subst unat_size_minus) (simp_all add: unat_size_of_nat)
  then have t: "size_to_int (word_of_nat N - 1) = int (N - 1)"
    using N by (subst size_to_int_small) simp_all
  have "(word_of_nat N :: size_t) \<le> word_of_int (int m)"
    using True N n by (simp add: size_le_iff unat_size_of_nat)
  then have c: "cb_new N dflt (int m) val =
      \<lparr>cb_start = Some (replicate N (Some val)), cb_finish = Some (int N), indexOfHead = 0,
       indexOfTail = int (N - 1), cb_size = int N\<rparr>"
    using t by (simp add: cb_new_def)
  have "cb_inv N (cb_new N dflt (int m) val) \<and> cb_list N (cb_new N dflt (int m) val)
      = map (\<lambda>k. the (replicate N (Some val) ! ((0 + k) mod N))) [0..<N]"
    by (rule cb_invI [where t = "N - 1"]) (use N in \<open>auto simp: c\<close>)
  moreover have "map (\<lambda>k. the (replicate N (Some val) ! ((0 + k) mod N))) [0..<N]
      = replicate N val"
    by (rule nth_equalityI) auto
  ultimately show ?thesis using True by (simp add: min_def)
next
  case False
  have "\<not> (word_of_nat N :: size_t) \<le> word_of_int (int m)"
    using False N n by (simp add: size_le_iff unat_size_of_nat)
  then have c: "cb_new N dflt (int m) val =
      \<lparr>cb_start = Some (replicate m (Some val) @ replicate (N - m) (Some dflt)),
       cb_finish = Some (int N), indexOfHead = 0, indexOfTail = int m - 1, cb_size = int m\<rparr>"
    by (simp add: cb_new_def)
  have "cb_list N (cb_new N dflt (int m) val) = replicate m val"
    unfolding c cb_list_def using False by (intro nth_equalityI) (auto simp: nth_append)
  moreover have "cb_inv N (cb_new N dflt (int m) val)"
    unfolding c cb_inv_def using False N by (auto simp: nth_append)
  ultimately show ?thesis using False by (simp add: min_def)
qed

lemma cb_cell_window:
  assumes inv: "cb_inv N cb" and k: "k < nat (cb_size cb)"
  shows "cb_cell cb (int ((nat (indexOfHead cb) + k) mod N)) = Inr (cb_list N cb ! k)"
proof (rule cb_invE [OF inv])
  fix xs h s
  assume a: "cb_start cb = Some xs" "length xs = N" "0 < N" "indexOfHead cb = int h"
    "cb_size cb = int s"
    and live: "\<And>k. k < s \<Longrightarrow> xs ! ((h + k) mod N) \<noteq> None"
    and l: "cb_list N cb = map (\<lambda>k. the (xs ! ((h + k) mod N))) [0..<s]"
  from live [of k] k a(5) obtain v where "xs ! ((h + k) mod N) = Some v" by auto
  with a k show ?thesis by (simp add: cb_cell_def l)
qed

lemma cb_list_nonempty: "0 < cb_size cb \<Longrightarrow> cb_list N cb \<noteq> []"
  by (metis length_cb_list list.size(3) less_irrefl zero_less_nat_eq)

lemma cb_front_hd:
  assumes inv: "cb_inv N cb" and s: "0 < cb_size cb"
  shows "cb_front cb = Inr (hd (cb_list N cb))"
proof (rule cb_invE [OF inv])
  fix h
  assume "indexOfHead cb = int h" "h < N"
  then have "cb_front cb = Inr (cb_list N cb ! 0)"
    using cb_cell_window [OF inv, of 0] s by (simp add: cb_front_def)
  then show ?thesis using cb_list_nonempty [OF s] by (simp add: hd_conv_nth)
qed

lemma cb_back_last:
  assumes inv: "cb_inv N cb" and s: "0 < cb_size cb"
  shows "cb_back cb = Inr (last (cb_list N cb))"
proof (rule cb_invE [OF inv])
  fix h n
  assume a: "indexOfHead cb = int h" "cb_size cb = int n"
    "0 < n \<Longrightarrow> indexOfTail cb = int ((h + (n - 1)) mod N)"
  with s have "cb_back cb = Inr (cb_list N cb ! (n - 1))"
    using cb_cell_window [OF inv, of "n - 1"] by (simp add: cb_back_def)
  then show ?thesis using a(2) cb_list_nonempty [OF s] by (simp add: last_conv_nth)
qed

text \<open>Iterating from \<open>begin()\<close> to \<open>end()\<close> stops on the last element.\<close>

lemma cb_collect_from:
  assumes inv: "cb_inv N cb" and k: "k < nat (cb_size cb)"
    and it: "it_ptr it = int ((nat (indexOfHead cb) + k) mod N)" "it_index it = it_ptr it"
  shows "cb_collect N cb it acc = Some (Inr (acc @ butlast (drop k (cb_list N cb))))"
  using k it
proof (induction "nat (cb_size cb) - k" arbitrary: k it acc)
  case 0
  then show ?case by simp
next
  case (Suc d)
  let ?h = "nat (indexOfHead cb)" and ?s = "nat (cb_size cb)"
  have N: "0 < N" "N < 2 ^ 31" "?s \<le> N" using inv by (auto simp: cb_inv_def)
  have tl: "indexOfTail cb = int ((?h + (?s - 1)) mod N)"
    by (rule cb_invE [OF inv]) (use Suc.prems(1) in auto)
  have stop: "it_ptr it = it_ptr (cb_end cb) \<longleftrightarrow> k = ?s - 1"
  proof -
    have "?s - 1 < N" using Suc.prems(1) N(3) by linarith
    then show ?thesis
      using ring_index_inj [of k N "?s - 1" ?h] Suc.prems N(3)
      by (auto simp: cb_end_def tl simp del: One_nat_def)
  qed
  show ?case
  proof (cases "k = ?s - 1")
    case True
    then have "butlast (drop k (cb_list N cb)) = []"
      by (simp add: butlast_conv_take)
    then show ?thesis using True stop by (simp add: cb_collect.simps [of N cb it])
  next
    case False
    with Suc.prems(1) have k1: "Suc k < ?s" by simp
    have nx: "cb_nextIndex N (it_index it) = int ((?h + Suc k) mod N)"
      using cb_nextIndex_mod [OF N(1,2), of "?h + k"] Suc.prems(2,3) by simp
    then have it': "it_ptr (it_inc N it) = int ((?h + Suc k) mod N)"
      "it_index (it_inc N it) = it_ptr (it_inc N it)"
      by (simp_all add: it_inc_def Let_def)
    have cell: "cb_cell cb (it_ptr it) = Inr (cb_list N cb ! k)"
      using cb_cell_window [OF inv Suc.prems(1)] Suc.prems(2) by simp
    have "drop k (cb_list N cb) = cb_list N cb ! k # drop (Suc k) (cb_list N cb)"
      using Suc.prems(1) by (simp add: Cons_nth_drop_Suc)
    moreover have "drop (Suc k) (cb_list N cb) \<noteq> []" using k1 by simp
    ultimately have "butlast (drop k (cb_list N cb))
        = cb_list N cb ! k # butlast (drop (Suc k) (cb_list N cb))" by simp
    then show ?thesis
      using Suc.hyps(1) [OF _ k1 it'] Suc.hyps(2) stop False cell
      by (simp add: cb_collect.simps [of N cb it])
  qed
qed

section \<open>clear\<close>

lemma cb_clear_loop_destroys:
  assumes "cb_start cb = Some xs" "length xs = N" "0 < N" "N < 2 ^ 31"
    "indexOfHead cb = int h" "h < N" "cb_size cb = int s" "s \<le> N"
    "\<And>k. k < s \<Longrightarrow> xs ! ((h + k) mod N) \<noteq> None"
  shows "\<exists>ys. cb_clear_loop N cb = Some (Inr (cb\<lparr>cb_start := Some ys,
              indexOfHead := int ((h + s) mod N), cb_size := 0\<rparr>)) \<and> length ys = N \<and>
            (\<forall>k < s. ys ! ((h + k) mod N) = None) \<and> (\<forall>j. xs ! j = None \<and> j < N \<longrightarrow> ys ! j = None)"
  using assms
proof (induction s arbitrary: h xs cb)
  case 0
  then show ?case
    by (intro exI [of _ xs]) (simp add: cb_clear_loop.simps [of N cb] cb_empty_def)
next
  case (Suc s)
  let ?h = "(h + 1) mod N" and ?xs = "xs[h := None]"
  let ?cb = "cb\<lparr>cb_start := Some ?xs, indexOfHead := int ?h, cb_size := int s\<rparr>"
  have idx: "(?h + k) mod N = (h + Suc k) mod N" for k by (simp add: mod_add_left_eq)
  have "xs ! h \<noteq> None" using Suc.prems(6) Suc.prems(9) [of 0] by simp
  then have d: "cb_destroy cb (indexOfHead cb) = Inr (cb\<lparr>cb_start := Some ?xs\<rparr>)"
    using Suc.prems by (auto simp: cb_destroy_def cb_cell_def)
  have n: "cb_nextIndex N (int h) = int ?h"
    using cb_nextIndex_eq [of N "int h"] Suc.prems by (simp add: zmod_int add.commute)
  have step: "cb_clear_loop N cb = cb_clear_loop N ?cb"
    using Suc.prems(5,7) d n
    by (simp add: cb_clear_loop.simps [of N cb] cb_empty_def)
  have live: "?xs ! ((?h + k) mod N) \<noteq> None" if "k < s" for k
    using that Suc.prems(6,8) Suc.prems(9) [of "Suc k"] ring_index_inj [of "Suc k" N 0 h]
    unfolding idx by (metis Nat.add_0_right Suc_less_eq less_le_trans mod_less nat.distinct(1)
        nth_list_update_neq zero_less_Suc)
  obtain ys where ys: "cb_clear_loop N ?cb = Some (Inr (?cb\<lparr>cb_start := Some ys,
      indexOfHead := int ((?h + s) mod N), cb_size := 0\<rparr>))" "length ys = N"
    "\<forall>k < s. ys ! ((?h + k) mod N) = None" "\<forall>j. ?xs ! j = None \<and> j < N \<longrightarrow> ys ! j = None"
    using Suc.IH [of ?cb ?xs ?h, OF _ _ Suc.prems(3,4) _ _ _ _ live] Suc.prems by fastforce
  have "ys ! ((h + k) mod N) = None" if "k < Suc s" for k
  proof (cases k)
    case 0
    then show ?thesis using ys(4) Suc.prems(2,6) by simp
  next
    case (Suc k')
    then have "ys ! ((?h + k') mod N) = None" using that ys(3) by simp
    then show ?thesis by (simp only: idx Suc)
  qed
  moreover have "ys ! j = None" if "xs ! j = None" "j < N" for j
    using that ys(4) by (metis nth_list_update_eq nth_list_update_neq Suc.prems(2))
  ultimately show ?case
    using ys(1,2) step by (intro exI [of _ ys]) (simp add: mod_add_left_eq)
qed

lemma cb_clear_full:
  assumes inv: "cb_inv N cb" and full: "cb_size cb = int N"
  shows "cb_clear N cb = Some (Inr (cb\<lparr>cb_start := Some (replicate N None),
           indexOfHead := 0, indexOfTail := 0, cb_size := 0\<rparr>))"
proof (rule cb_invE [OF inv])
  fix xs h s
  assume a: "cb_start cb = Some xs" "length xs = N" "0 < N" "N < 2 ^ 31"
    "indexOfHead cb = int h" "h < N" "cb_size cb = int s" "s \<le> N"
    "\<And>k. k < s \<Longrightarrow> xs ! ((h + k) mod N) \<noteq> None"
  then obtain ys where ys: "cb_clear_loop N cb = Some (Inr (cb\<lparr>cb_start := Some ys,
      indexOfHead := int ((h + s) mod N), cb_size := 0\<rparr>))" "length ys = N"
    "\<forall>k < s. ys ! ((h + k) mod N) = None"
    using cb_clear_loop_destroys [OF a] by blast
  have "ys ! j = None" if "j < N" for j
  proof -
    let ?k = "(j + N - h) mod N"
    have "(h + ?k) mod N = (h + (j + N - h)) mod N" by (rule mod_add_right_eq)
    also have "h + (j + N - h) = j + N" using a(6) by simp
    finally have "(h + ?k) mod N = j" using that by simp
    moreover have "?k < s" using a(3,7) full by simp
    ultimately show ?thesis using ys(3) by metis
  qed
  then have "ys = replicate N None"
    using ys(2) by (simp add: list_eq_iff_nth_eq)
  then show ?thesis using ys(1) by (simp add: cb_clear_def)
qed

section \<open>Properties\<close>

text \<open>C34. The ring implements a bounded queue that forgets its oldest element: after any
  sequence of \<open>push_back\<close> on a ring constructed with \<open>n\<close> copies of \<open>val\<close>, the elements
  from head to tail are the last \<open>N\<close> of all elements ever stored, in order, and no push
  fails or leaves the storage.\<close>
theorem ring_keeps_last_N:
  assumes "0 < N" "N < 2 ^ 31" "n < 2 ^ 31"
  shows "\<exists>cb. push_all (cb_push_back N) (cb_new N dflt (int n) val) vs = Inr cb \<and> cb_inv N cb \<and>
              cb_list N cb = last_n N (replicate (min N n) val @ vs)"
  using ring.push_all_last_n [of N "cb_new N dflt (int n) val" vs]
    cb_new_fresh [OF assms, of dflt val] by simp

theorem ring_keeps_last_N_witness:
  "\<exists>cb. push_all (cb_push_back 3) (cb_new 3 0 (int 2) 7) [1, 2, 3 :: nat] = Inr cb \<and>
        cb_list 3 cb = [1, 2, 3]"
  using ring_keeps_last_N [of 3 2 0 "7 :: nat" "[1, 2, 3]"]
  by (auto simp: last_n_def min_def)

text \<open>\<open>front()\<close> and \<open>back()\<close> of a non-empty ring are its oldest and newest element, and
  the loop from \<open>begin()\<close> to \<open>end()\<close> ends and visits every element but the newest, because
  \<open>end()\<close> denotes the newest element and not a position behind it.\<close>
theorem ring_ends_and_iteration:
  assumes "cb_inv N cb" and "0 < cb_size cb"
  shows "cb_front cb = Inr (hd (cb_list N cb)) \<and> cb_back cb = Inr (last (cb_list N cb)) \<and>
         cb_collect N cb (cb_begin cb) [] = Some (Inr (butlast (cb_list N cb)))"
proof -
  have "it_ptr (cb_begin cb) = int ((nat (indexOfHead cb) + 0) mod N)"
    using assms(1) by (simp add: cb_begin_def cb_inv_def nat_less_iff)
  then show ?thesis
    using cb_front_hd [OF assms] cb_back_last [OF assms] assms(2)
      cb_collect_from [OF assms(1), of 0 "cb_begin cb" "[]"]
    by (simp add: cb_begin_def)
qed

theorem ring_ends_and_iteration_witness:
  "cb_collect 3 (cb_new 3 0 (int 2) (5 :: nat)) (cb_begin (cb_new 3 0 (int 2) (5 :: nat))) []
     = Some (Inr [5])"
proof -
  have i: "cb_inv 3 (cb_new 3 0 (int 2) (5 :: nat))"
    and l: "cb_list 3 (cb_new 3 0 (int 2) (5 :: nat)) = [5, 5]"
    using cb_new_fresh [of 3 2 0 "5 :: nat"] by (simp_all add: min_def)
  have "nat (cb_size (cb_new 3 0 (int 2) (5 :: nat))) = 2"
    using arg_cong [OF l, of length] by simp
  then have "0 < cb_size (cb_new 3 0 (int 2) (5 :: nat))" by linarith
  then show ?thesis using ring_ends_and_iteration [OF i] l by simp
qed

text \<open>\<open>clear()\<close> leaves the tail index on 0 instead of before the head: after clearing a
  full ring of at least two cells and pushing one element, the ring has size 1, the element is
  in cell 1 (\<open>back()\<close> finds it), and \<open>front()\<close> reads cell 0, whose object was destroyed.\<close>
theorem ring_clear_breaks_front:
  assumes "cb_inv N cb" and "cb_size cb = int N" and "2 \<le> N"
  shows "\<exists>cb1 cb2. cb_clear N cb = Some (Inr cb1) \<and> cb_size cb1 = 0 \<and>
           cb_push_back N cb1 v = Inr cb2 \<and> cb_size cb2 = 1 \<and>
           cb_back cb2 = Inr v \<and> cb_front cb2 = Inl Use_after_free"
proof -
  let ?cb1 = "cb\<lparr>cb_start := Some (replicate N None), indexOfHead := 0, indexOfTail := 0,
                 cb_size := 0\<rparr>"
  have N: "0 < N" "N < 2 ^ 31" using assms(1) by (auto simp: cb_inv_def)
  have nx: "cb_nextIndex N 0 = 1"
    using cb_nextIndex_mod [OF N, of 0] assms(3) by simp
  have "\<not> cb_full N ?cb1"
    using N by (simp add: cb_full_def size_eq_iff unat_size_of_nat)
  then have p: "cb_push_back N ?cb1 v = Inr (?cb1\<lparr>indexOfTail := 1,
      cb_start := Some ((replicate N None)[1 := Some v]), cb_size := 1\<rparr>)"
    using nx assms(3) by (simp add: cb_push_back_def cb_construct_def)
  show ?thesis
    using cb_clear_full [OF assms(1,2)] assms(3) p
    by (intro exI [of _ ?cb1] exI [of _ "?cb1\<lparr>indexOfTail := 1,
        cb_start := Some ((replicate N None)[1 := Some v]), cb_size := 1\<rparr>"])
      (simp add: cb_back_def cb_front_def cb_cell_def)
qed

theorem ring_clear_breaks_front_witness:
  "\<exists>cb1 cb2. cb_clear 2 (cb_new 2 0 (int 2) (5 :: nat)) = Some (Inr cb1) \<and>
     cb_push_back 2 cb1 9 = Inr cb2 \<and> cb_front cb2 = Inl Use_after_free"
proof -
  have i: "cb_inv 2 (cb_new 2 0 (int 2) (5 :: nat))"
    and l: "cb_list 2 (cb_new 2 0 (int 2) (5 :: nat)) = [5, 5]"
    using cb_new_fresh [of 2 2 0 "5 :: nat"] by simp_all
  have "nat (cb_size (cb_new 2 0 (int 2) (5 :: nat))) = 2"
    using arg_cong [OF l, of length] by simp
  then have "cb_size (cb_new 2 0 (int 2) (5 :: nat)) = int 2" by linarith
  then show ?thesis using ring_clear_breaks_front [OF i, of 9] by auto
qed

text \<open>Copy construction does not copy the size: the copy of a well-formed ring whose cells
  all hold objects always counts as full, so a copied ring with room is not equal to its
  source (it lists \<open>N\<close> elements instead of the source's).\<close>
theorem ring_copy_is_full:
  assumes "cb_inv N cb" and "cb_clone N cb = Inr cb'"
  shows "cb_full N cb' \<and> length (cb_list N cb') = N \<and>
         (cb_size cb < int N \<longrightarrow> cb_list N cb' \<noteq> cb_list N cb)"
proof -
  obtain xs where "cb_start cb = Some xs" using assms(1) by (auto elim: cb_invE)
  with assms(2) have s: "cb_size cb' = int N"
    by (auto simp: cb_clone_def split: if_splits)
  then have l: "length (cb_list N cb') = N" by simp
  have "cb_full N cb'" using s by (simp add: cb_full_def)
  moreover have "cb_list N cb' \<noteq> cb_list N cb" if "cb_size cb < int N"
  proof -
    have "length (cb_list N cb) < N" using that assms(1) by (auto simp: cb_inv_def)
    with l show ?thesis by (metis less_irrefl)
  qed
  ultimately show ?thesis using l by blast
qed

theorem ring_copy_is_full_witness:
  "\<exists>cb'. cb_clone 3 (cb_new 3 0 (int 1) (5 :: nat)) = Inr cb' \<and>
         length (cb_list 3 cb') = 3 \<and> length (cb_list 3 (cb_new 3 0 (int 1) (5 :: nat))) = 1"
proof -
  have i: "cb_inv 3 (cb_new 3 0 (int 1) (5 :: nat))"
    and l: "cb_list 3 (cb_new 3 0 (int 1) (5 :: nat)) = [5]"
    using cb_new_fresh [of 3 1 0 "5 :: nat"] by simp_all
  have "\<exists>cb'. cb_clone 3 (cb_new 3 0 (int 1) (5 :: nat)) = Inr cb'"
    by (simp add: cb_new_def cb_clone_def size_le_iff)
  then show ?thesis using ring_copy_is_full [OF i] l by auto
qed

end
