(* ===== verification/Ring_Test.thy ===== *)
theory Ring_Test
  imports Circular_Buffer
begin

text \<open>
  The rest of the ring's iterator (\<open>base/CircularBuffer.h\<close>, \<open>base/CircularBufferImpl.h\<close>) and
  the ring's test program \<open>base/Test1/main.cpp\<close>: the comparison of two rings by their
  iterators and the test cases. The lemmas show what the comparison computes, that it
  terminates on non-empty rings and not on empty ones, and that every assertion of the test
  program holds.
\<close>

section \<open>Iterators\<close>

definition it_assign :: "bool \<Rightarrow> cb_iter \<Rightarrow> cb_iter \<Rightarrow> cb_iter" where
  "it_assign same this cit =
     (if \<not> same then \<lparr>it_ptr = it_ptr cit, it_index = it_index cit\<rparr> else this)"

text \<open>The postfix operators return the old iterator beside the new state of \<open>*this\<close>.\<close>

definition it_post_inc :: "nat \<Rightarrow> cb_iter \<Rightarrow> cb_iter \<times> cb_iter" where
  "it_post_inc N this = (let temp = this; this' = it_inc N this in (temp, this'))"

definition it_post_dec :: "nat \<Rightarrow> cb_iter \<Rightarrow> cb_iter \<times> cb_iter" where
  "it_post_dec N this = (let temp = this; this' = it_dec N this in (temp, this'))"

definition it_deref :: "'a cbuf \<Rightarrow> cb_iter \<Rightarrow> 'a res" where
  "it_deref cb it = cb_cell cb (it_ptr it)"

text \<open>\<open>cb[i] = v\<close>: the object at \<open>start_ + i\<close> is assigned, so one must be there.\<close>

definition cb_assign_cell :: "'a cbuf \<Rightarrow> int \<Rightarrow> 'a \<Rightarrow> 'a cbuf res" where
  "cb_assign_cell cb i v = bindE (cb_cell cb i) (\<lambda>_. cb_construct cb i v)"

section \<open>The comparison\<close>

text \<open>
  Results of code with loops: \<open>None\<close> is a loop that does not end. The two iterators point into
  the storages of different rings, so \<open>it2 != cb1.end()\<close> is always true.
\<close>

definition bindO :: "'a res option \<Rightarrow> ('a \<Rightarrow> 'b res option) \<Rightarrow> 'b res option" where
  "bindO m f = (case m of None \<Rightarrow> None | Some (Inl e) \<Rightarrow> Some (Inl e) | Some (Inr x) \<Rightarrow> f x)"

definition assertO :: "bool \<Rightarrow> string \<Rightarrow> 'a res option \<Rightarrow> 'a res option" where
  "assertO c what k = (if c then k else Some (Inl (Assertion what)))"

lemma bindO_simps [simp]:
  "bindO None f = None" "bindO (Some (Inl e)) f = Some (Inl e)" "bindO (Some (Inr x)) f = f x"
  by (simp_all add: bindO_def)

lemma assertO_simps [simp]:
  "assertO True s k = k" "assertO False s k = Some (Inl (Assertion s))"
  by (simp_all add: assertO_def)

definition same_element :: "'a cbuf \<Rightarrow> 'a cbuf \<Rightarrow> cb_iter \<Rightarrow> cb_iter \<Rightarrow> bool res" where
  "same_element cb1 cb2 it1 it2 =
     bindE (it_deref cb1 it1) (\<lambda>x. bindE (it_deref cb2 it2) (\<lambda>y. Inr (x = y)))"

partial_function (option) cb_equal_loop ::
  "nat \<Rightarrow> 'a cbuf \<Rightarrow> 'a cbuf \<Rightarrow> cb_iter \<Rightarrow> cb_iter \<Rightarrow> bool res option" where
  "cb_equal_loop N cb1 cb2 it1 it2 =
     (if it_ptr it1 \<noteq> it_ptr (cb_end cb1)
      then (case same_element cb1 cb2 it1 it2 of
              Inl e \<Rightarrow> Some (Inl e)
            | Inr eq \<Rightarrow> if \<not> eq then Some (Inr False)
                        else cb_equal_loop N cb1 cb2 (it_inc N it1) (it_inc N it2))
      else if it_ptr it2 = it_ptr (cb_end cb2)
      then Some (same_element cb1 cb2 (cb_end cb1) (cb_end cb2))
      else Some (Inr False))"

text \<open>The second ring is passed by value: copied, and destroyed on return.\<close>

definition circular_buffer_equal :: "nat \<Rightarrow> 'a cbuf \<Rightarrow> 'a cbuf \<Rightarrow> bool res option" where
  "circular_buffer_equal N cb1 cb =
     bindO (Some (cb_clone N cb)) (\<lambda>cb2.
     bindO (cb_equal_loop N cb1 cb2 (cb_begin cb1) (cb_begin cb2)) (\<lambda>b.
     bindO (cb_dtor N cb2) (\<lambda>_. Some (Inr b))))"

section \<open>The test cases\<close>

definition testCase1 :: "unit res option" where
  "testCase1 =
     (let cb = cb_new 2 0 1 (0 :: int) in
      assertO (cb_size cb = 1) ''cb.size() == 1'' (
      assertO (\<not> cb_full 2 cb) ''!cb.full()'' (
      bindO (Some (cb_push_back 2 cb 1)) (\<lambda>cb. bindO (Some (cb_push_back 2 cb 2)) (\<lambda>cb.
      assertO (cb_full 2 cb) ''cb.full()'' (
      assertO (\<not> cb_empty cb) ''!cb.empty()'' (
      assertO (cb_size cb = 2) ''cb.size() == 2'' (
      bindO (cb_dtor 2 cb) (\<lambda>_. Some (Inr ()))))))))))"

definition testCase2 :: "unit res option" where
  "testCase2 =
     (let cb = cb_new 3 [] 3 ([] :: string) in
      bindO (Some (cb_assign_cell cb 0 ''one'')) (\<lambda>cb.
      bindO (Some (cb_assign_cell cb 1 ''two'')) (\<lambda>cb.
      bindO (Some (cb_assign_cell cb 2 ''three'')) (\<lambda>cb.
      bindO (Some (it_deref cb (cb_begin cb))) (\<lambda>b.
      bindO (Some (it_deref cb (cb_end cb))) (\<lambda>e.
      assertO (b = ''one'' \<and> e = ''three'') ''begin, end'' (
      bindO (Some (cb_front cb)) (\<lambda>f.
      bindO (Some (cb_back cb)) (\<lambda>l.
      assertO (f = ''one'' \<and> l = ''three'') ''front, back'' (
      bindO (cb_dtor 3 cb) (\<lambda>_. Some (Inr ()))))))))))))"

definition testCase3 :: "unit res option" where
  "testCase3 =
     (let cb = cb_new 3 [] 0 ([] :: string) in
      bindO (Some (cb_front cb)) (\<lambda>f.
      assertO (f = []) ''cb.front() == std::string()'' (
      bindO (Some (cb_push_back 3 cb ''zxh'')) (\<lambda>cb.
      bindO (Some (cb_push_back 3 cb ''jwl'')) (\<lambda>cb.
      bindO (Some (cb_back cb)) (\<lambda>l.
      assertO (l = ''jwl'') ''cb.back()'' (
      bindO (Some (cb_front cb)) (\<lambda>f.
      assertO (f = ''zxh'') ''cb.front()'' (
      bindO (cb_dtor 3 cb) (\<lambda>_. Some (Inr ())))))))))))"

definition testCase4 :: "unit res option" where
  "testCase4 =
     (let cb = cb_new 4 [] 0 ([] :: string) in
      bindO (Some (cb_push_back 4 cb ''a'')) (\<lambda>cb.
      bindO (Some (cb_push_back 4 cb ''b'')) (\<lambda>cb.
      bindO (Some (cb_push_back 4 cb ''c'')) (\<lambda>cb.
      bindO (circular_buffer_equal 4 cb cb) (\<lambda>b.
      assertO b ''circular_buffer_equal(cb, cb)'' (
      bindO (cb_dtor 4 cb) (\<lambda>_. Some (Inr ()))))))))"

definition testAllCases :: "unit res option" where
  "testAllCases =
     bindO testCase1 (\<lambda>_. bindO testCase2 (\<lambda>_. bindO testCase3 (\<lambda>_. testCase4)))"

section \<open>Destruction and copies\<close>

definition cb_all_live :: "'a cbuf \<Rightarrow> bool" where
  "cb_all_live cb \<longleftrightarrow> (\<exists>xs. cb_start cb = Some xs \<and> list_all (\<lambda>c. c \<noteq> None) xs)"

lemma cb_dtor_inv:
  assumes inv: "cb_inv N cb"
  shows "\<exists>cb'. cb_dtor N cb = Some (Inr cb')"
proof (rule cb_invE [OF inv])
  fix xs h s
  assume a: "cb_start cb = Some xs" "length xs = N" "0 < N" "N < 2 ^ 31"
    "indexOfHead cb = int h" "h < N" "cb_size cb = int s" "s \<le> N"
    "\<And>k. k < s \<Longrightarrow> xs ! ((h + k) mod N) \<noteq> None"
  from cb_clear_loop_destroys [OF a] show ?thesis
    by (auto simp: cb_dtor_def cb_clear_def)
qed

text \<open>The copy holds the same cells and indices; only its size may differ.\<close>

lemma cb_clone_live:
  assumes inv: "cb_inv N cb" and live: "cb_all_live cb"
  shows "\<exists>cb2. cb_clone N cb = Inr cb2 \<and> cb_start cb2 = cb_start cb \<and>
    indexOfHead cb2 = indexOfHead cb \<and> indexOfTail cb2 = indexOfTail cb \<and>
    (\<exists>cb'. cb_dtor N cb2 = Some (Inr cb'))"
proof (rule cb_invE [OF inv])
  fix xs h
  assume a: "cb_start cb = Some xs" "length xs = N" "0 < N" "N < 2 ^ 31"
    "indexOfHead cb = int h" "h < N"
  have l: "list_all (\<lambda>c. c \<noteq> None) xs" using live a(1) by (auto simp: cb_all_live_def)
  let ?cb2 = "\<lparr>cb_start = Some xs, cb_finish = Some (int N), indexOfHead = indexOfHead cb,
               indexOfTail = indexOfTail cb, cb_size = int N\<rparr>"
  have c: "cb_clone N cb = Inr ?cb2" using a(1) l by (simp add: cb_clone_def)
  have "xs ! ((h + k) mod N) \<noteq> None" if "k < N" for k
    using l a(2,3) by (simp add: list_all_length)
  from cb_clear_loop_destroys [of ?cb2 xs N h N, OF _ a(2-4) _ a(6) _ _ this] a(5)
  have "\<exists>cb'. cb_dtor N ?cb2 = Some (Inr cb')" by (auto simp: cb_dtor_def cb_clear_def)
  then show ?thesis using c a(1) by simp
qed

lemma cb_push_live:
  assumes inv: "cb_inv N cb" and live: "cb_all_live cb" and push: "cb_push_back N cb v = Inr cb'"
  shows "cb_all_live cb'"
proof -
  obtain xs where xs: "cb_start cb = Some xs" "\<And>i. i < length xs \<Longrightarrow> xs ! i \<noteq> None"
    using live by (auto simp: cb_all_live_def list_all_length)
  have "\<exists>i. cb_start cb' = Some (xs[i := Some v])"
    using push xs(1)
    by (auto simp: cb_push_back_def Let_def res_simps cb_destroy_def cb_construct_def split: if_splits)
  then obtain i where i: "cb_start cb' = Some (xs[i := Some v])" by blast
  have "xs[i := Some v] ! n \<noteq> None" if "n < length xs" for n
    using xs(2) [OF that] that by (cases "n = i") simp_all
  then show ?thesis using i by (simp add: cb_all_live_def list_all_length)
qed

lemma cb_new_live: "cb_all_live (cb_new N dflt n val)"
  by (simp add: cb_all_live_def cb_new_def list_all_length nth_append)

section \<open>What the comparison computes\<close>

text \<open>The element of a live ring at distance \<open>k\<close> from its head, wherever its tail is.\<close>

definition cb_at :: "nat \<Rightarrow> 'a cbuf \<Rightarrow> nat \<Rightarrow> 'a" where
  "cb_at N cb k = the (the (cb_start cb) ! ((nat (indexOfHead cb) + k) mod N))"

lemma cb_cell_live:
  assumes "cb_start cb = Some xs" "length xs = N" "0 < N" "list_all (\<lambda>c. c \<noteq> None) xs"
  shows "cb_cell cb (int ((nat (indexOfHead cb) + k) mod N)) = Inr (cb_at N cb k)"
proof -
  have "xs ! ((nat (indexOfHead cb) + k) mod N) \<noteq> None"
    using assms by (simp add: list_all_length)
  then show ?thesis using assms by (auto simp: cb_cell_def cb_at_def)
qed

lemma cb_list_at: "k < nat (cb_size cb) \<Longrightarrow> cb_list N cb ! k = cb_at N cb k"
  by (simp add: cb_list_def cb_at_def)

lemma it_inc_at:
  assumes "0 < N" "N < 2 ^ 31" "it_ptr it = int ((h + k) mod N)" "it_index it = it_ptr it"
  shows "it_ptr (it_inc N it) = int ((h + Suc k) mod N) \<and> it_index (it_inc N it) = it_ptr (it_inc N it)"
  using cb_nextIndex_mod [OF assms(1,2), of "h + k"] assms(3,4) by (simp add: it_inc_def Let_def)

lemma cb_equal_from:
  assumes inv: "cb_inv N cb1" "cb_inv N cb" and live: "cb_all_live cb"
    and ne: "0 < cb_size cb"
    and c2: "cb_start cb2 = cb_start cb" "indexOfHead cb2 = indexOfHead cb"
      "indexOfTail cb2 = indexOfTail cb"
    and k: "k < nat (cb_size cb1)"
    and it1: "it_ptr it1 = int ((nat (indexOfHead cb1) + k) mod N)" "it_index it1 = it_ptr it1"
    and it2: "it_ptr it2 = int ((nat (indexOfHead cb) + k) mod N)" "it_index it2 = it_ptr it2"
  shows "cb_equal_loop N cb1 cb2 it1 it2 = Some (Inr (
    (\<forall>i. k \<le> i \<and> i < nat (cb_size cb1) \<longrightarrow> cb_at N cb1 i = cb_at N cb i) \<and> cb_size cb1 = cb_size cb))"
  using k it1 it2
proof (induction "nat (cb_size cb1) - k" arbitrary: k it1 it2)
  case 0
  then show ?case by simp
next
  case (Suc d)
  let ?h = "nat (indexOfHead cb1)" and ?s = "nat (cb_size cb1)"
  let ?h2 = "nat (indexOfHead cb)" and ?s2 = "nat (cb_size cb)"
  have N: "0 < N" "N < 2 ^ 31" "?s \<le> N" "?s2 \<le> N" "0 \<le> cb_size cb1" "0 \<le> cb_size cb"
    using inv by (auto simp: cb_inv_def)
  have tl: "indexOfTail cb1 = int ((?h + (?s - 1)) mod N)"
    by (rule cb_invE [OF inv(1)]) (use Suc.prems(1) in auto)
  have tl2: "indexOfTail cb = int ((?h2 + (?s2 - 1)) mod N)"
    by (rule cb_invE [OF inv(2)]) (use ne in auto)
  have stop: "it_ptr it1 = it_ptr (cb_end cb1) \<longleftrightarrow> k = ?s - 1"
  proof -
    have "?s - 1 < N" using Suc.prems(1) N(3) by linarith
    then show ?thesis
      using ring_index_inj [of k N "?s - 1" ?h] Suc.prems N(3)
      by (auto simp: cb_end_def tl simp del: One_nat_def)
  qed
  have stop2: "it_ptr it2 = it_ptr (cb_end cb2) \<longleftrightarrow> k = ?s2 - 1"
  proof -
    have "?s2 - 1 < N" using N(1,4) by linarith
    then show ?thesis
      using ring_index_inj [of k N "?s2 - 1" ?h2] Suc.prems N(3)
      by (auto simp: cb_end_def tl2 c2 simp del: One_nat_def)
  qed
  have cell1: "cb_cell cb1 (int ((?h + k) mod N)) = Inr (cb_at N cb1 k)"
    using cb_cell_window [OF inv(1) Suc.prems(1)] cb_list_at [OF Suc.prems(1), of N] by simp
  have at2: "cb_at N cb2 i = cb_at N cb i" for i by (simp add: cb_at_def c2)
  obtain xs where xs: "cb_start cb2 = Some xs" "length xs = N" "list_all (\<lambda>c. c \<noteq> None) xs"
    using live c2(1) inv(2) by (auto simp: cb_all_live_def cb_inv_def)
  have cell2: "cb_cell cb2 (int ((?h2 + i) mod N)) = Inr (cb_at N cb i)" for i
    using cb_cell_live [OF xs(1,2) N(1) xs(3), of i] by (simp add: c2 at2)
  show ?case
  proof (cases "k = ?s - 1")
    case True
    have rng: "k \<le> i \<and> i < ?s \<longleftrightarrow> i = k" for i using True Suc.prems(1) by linarith
    have one: "(\<forall>i. k \<le> i \<and> i < ?s \<longrightarrow> cb_at N cb1 i = cb_at N cb i) \<longleftrightarrow> cb_at N cb1 k = cb_at N cb k"
      using rng by simp
    have sz: "k = ?s2 - 1 \<longleftrightarrow> cb_size cb1 = cb_size cb"
    proof -
      have "0 < ?s2" using ne by simp
      then have "k = ?s2 - 1 \<longleftrightarrow> ?s = ?s2" using True Suc.prems(1) by linarith
      also have "\<dots> \<longleftrightarrow> cb_size cb1 = cb_size cb" using N(5,6) by (rule eq_nat_nat_iff)
      finally show ?thesis .
    qed
    show ?thesis
    proof (cases "k = ?s2 - 1")
      case k2: True
      have "same_element cb1 cb2 (cb_end cb1) (cb_end cb2) = Inr (cb_at N cb1 k = cb_at N cb k)"
      proof -
        have "it_ptr (cb_end cb1) = int ((?h + k) mod N)" "it_ptr (cb_end cb2) = int ((?h2 + k) mod N)"
          using stop stop2 True k2 Suc.prems(2,4) by metis+
        then show ?thesis by (simp only: same_element_def it_deref_def cell1 cell2 bindE_simps)
      qed
      then show ?thesis
        unfolding one cb_equal_loop.simps [of N cb1 cb2 it1 it2]
        using stop [THEN iffD2, OF True] stop2 [THEN iffD2, OF k2] sz [THEN iffD1, OF k2] by simp
    next
      case False
      then show ?thesis
        unfolding cb_equal_loop.simps [of N cb1 cb2 it1 it2]
        using stop [THEN iffD2, OF True] False [folded stop2] False [unfolded sz] by simp
    qed
  next
    case False
    with Suc.prems(1) have k1: "Suc k < ?s" by simp
    note i1 = it_inc_at [OF N(1,2) Suc.prems(2,3)] and i2 = it_inc_at [OF N(1,2) Suc.prems(4,5)]
    have eq: "same_element cb1 cb2 it1 it2 = Inr (cb_at N cb1 k = cb_at N cb k)"
      using cell1 cell2 [of k] Suc.prems by (simp add: same_element_def it_deref_def)
    have ih: "cb_equal_loop N cb1 cb2 (it_inc N it1) (it_inc N it2) = Some (Inr (
      (\<forall>i. Suc k \<le> i \<and> i < ?s \<longrightarrow> cb_at N cb1 i = cb_at N cb i) \<and> cb_size cb1 = cb_size cb))"
      using Suc.hyps(1) [OF _ k1] Suc.hyps(2) i1 i2 by simp
    have all: "(\<forall>i. k \<le> i \<and> i < ?s \<longrightarrow> cb_at N cb1 i = cb_at N cb i) \<longleftrightarrow>
      cb_at N cb1 k = cb_at N cb k \<and> (\<forall>i. Suc k \<le> i \<and> i < ?s \<longrightarrow> cb_at N cb1 i = cb_at N cb i)"
    proof -
      have "k \<le> i \<and> i < ?s \<longleftrightarrow> i = k \<or> (Suc k \<le> i \<and> i < ?s)" for i using Suc.prems(1) by linarith
      then show ?thesis by metis
    qed
    show ?thesis
      unfolding all cb_equal_loop.simps [of N cb1 cb2 it1 it2] eq ih
      using False [folded stop] by simp
  qed
qed

lemma it_begin: "cb_inv N cb \<Longrightarrow> it_ptr (cb_begin cb) = int ((nat (indexOfHead cb) + 0) mod N)"
  by (simp add: cb_begin_def cb_inv_def nat_less_iff)

lemma cb_equal_decides:
  assumes "cb_inv N cb1" and "cb_inv N cb" and "cb_all_live cb"
    and "0 < cb_size cb1" and "0 < cb_size cb"
  shows "circular_buffer_equal N cb1 cb = Some (Inr (cb_list N cb1 = cb_list N cb))"
proof -
  obtain cb2 cb' where c: "cb_clone N cb = Inr cb2" "cb_start cb2 = cb_start cb"
    "indexOfHead cb2 = indexOfHead cb" "indexOfTail cb2 = indexOfTail cb"
    "cb_dtor N cb2 = Some (Inr cb')"
    using cb_clone_live [OF assms(2,3)] by blast
  have b: "it_ptr (cb_begin cb2) = int ((nat (indexOfHead cb) + 0) mod N)"
    using it_begin [OF assms(2)] by (simp add: cb_begin_def c)
  have i: "it_index (cb_begin x) = it_ptr (cb_begin x)" for x :: "'a cbuf"
    by (simp add: cb_begin_def)
  have k: "0 < nat (cb_size cb1)" using assms(4) by simp
  have loop: "cb_equal_loop N cb1 cb2 (cb_begin cb1) (cb_begin cb2) = Some (Inr (
    (\<forall>i. 0 \<le> i \<and> i < nat (cb_size cb1) \<longrightarrow> cb_at N cb1 i = cb_at N cb i) \<and> cb_size cb1 = cb_size cb))"
    by (rule cb_equal_from [OF assms(1-3,5) c(2-4) k it_begin [OF assms(1)] i b i])
  have "(\<forall>i. 0 \<le> i \<and> i < nat (cb_size cb1) \<longrightarrow> cb_at N cb1 i = cb_at N cb i) \<and> cb_size cb1 = cb_size cb
    \<longleftrightarrow> cb_list N cb1 = cb_list N cb"
    using assms(4,5) by (auto simp: list_eq_iff_nth_eq cb_list_at)
  then show ?thesis by (simp add: circular_buffer_equal_def c loop)
qed

text \<open>C35. 
  \<open>circular_buffer_equal\<close> decides equality: on two non-empty rings (the second one without
  destroyed cells, as it is copied) it terminates without an error and returns whether the
  rings hold the same elements in the same order.
\<close>
theorem circular_buffer_equal_correct:
  assumes "cb_inv N cb1" and "cb_inv N cb" and "cb_all_live cb"
    and "0 < cb_size cb1" and "0 < cb_size cb"
  shows "circular_buffer_equal N cb1 cb = Some (Inr (cb_list N cb1 = cb_list N cb))"
  by (rule cb_equal_decides [OF assms])

theorem circular_buffer_equal_correct_witness:
  "circular_buffer_equal 3 (cb_new 3 0 (int 2) (5 :: nat)) (cb_new 3 0 (int 1) 5) = Some (Inr False)"
proof -
  have i: "cb_inv 3 (cb_new 3 0 (int 2) (5 :: nat))" "cb_inv 3 (cb_new 3 0 (int 1) (5 :: nat))"
    and l: "cb_list 3 (cb_new 3 0 (int 2) (5 :: nat)) = [5, 5]"
      "cb_list 3 (cb_new 3 0 (int 1) (5 :: nat)) = [5]"
    using cb_new_fresh [of 3 2 0 "5 :: nat"] cb_new_fresh [of 3 1 0 "5 :: nat"]
    by (simp_all add: min_def)
  have "nat (cb_size (cb_new 3 0 (int 2) (5 :: nat))) = 2"
    "nat (cb_size (cb_new 3 0 (int 1) (5 :: nat))) = 1"
    using arg_cong [OF l(1), of length] arg_cong [OF l(2), of length] by simp_all
  then have "0 < cb_size (cb_new 3 0 (int 2) (5 :: nat))" "0 < cb_size (cb_new 3 0 (int 1) (5 :: nat))"
    by linarith+
  from circular_buffer_equal_correct [OF i cb_new_live this] show ?thesis unfolding l by simp
qed

text \<open>On empty rings the loop never meets \<open>end()\<close>, which is a position before the first cell.\<close>

lemma cb_equal_loop_empty:
  assumes N: "0 < N" "N < 2 ^ 31"
    and cb1: "cb_start cb1 = Some (replicate N (Some d))" "indexOfTail cb1 = -1"
    and cb2: "cb_start cb2 = Some (replicate N (Some d))"
    and it: "it_ptr it1 = int (i mod N)" "it_index it1 = it_ptr it1"
  shows "cb_equal_loop N cb1 cb2 it1 it1 = None"
proof (rule ccontr)
  assume "cb_equal_loop N cb1 cb2 it1 it1 \<noteq> None"
  then obtain y where y: "cb_equal_loop N cb1 cb2 it1 it1 = Some y" by blast
  have "\<not> (M = N \<and> c1 = cb1 \<and> c2 = cb2 \<and> (\<exists>i. it_ptr it = int (i mod N)) \<and> it_index it = it_ptr it \<and> it' = it)"
    if "cb_equal_loop M c1 c2 it it' = Some y" for M c1 c2 it it' y
  proof (rule cb_equal_loop.raw_induct [OF _ that], rule notI, elim conjE exE)
    fix loop M c1 c2 it it' y i
    assume ih: "\<And>M c1 c2 it it' y. loop M c1 c2 it it' = Some y \<Longrightarrow>
        \<not> (M = N \<and> c1 = cb1 \<and> c2 = cb2 \<and> (\<exists>i. it_ptr it = int (i mod N)) \<and>
           it_index it = it_ptr it \<and> it' = it)"
      and body: "(if it_ptr it \<noteq> it_ptr (cb_end c1)
        then (case same_element c1 c2 it it' of
                Inl e \<Rightarrow> Some (Inl e)
              | Inr eq \<Rightarrow> if \<not> eq then Some (Inr False)
                          else loop M c1 c2 (it_inc M it) (it_inc M it'))
        else if it_ptr it' = it_ptr (cb_end c2)
        then Some (same_element c1 c2 (cb_end c1) (cb_end c2)) else Some (Inr False)) = Some y"
      and a: "M = N" "c1 = cb1" "c2 = cb2" "it_ptr it = int (i mod N)" "it_index it = it_ptr it" "it' = it"
    have ne: "it_ptr it \<noteq> it_ptr (cb_end cb1)" using a(4) cb1(2) by (simp add: cb_end_def)
    have "cb_cell cb1 (it_ptr it) = Inr d" "cb_cell cb2 (it_ptr it) = Inr d"
      using a(4) cb1(1) cb2 N(1) by (simp_all add: cb_cell_def)
    then have eq: "same_element cb1 cb2 it it = Inr True" by (simp add: same_element_def it_deref_def)
    have step: "loop N cb1 cb2 (it_inc N it) (it_inc N it) = Some y"
      using body ne eq unfolding a(1-3,6) by simp
    have nx: "it_ptr (it_inc N it) = int (Suc i mod N)" "it_index (it_inc N it) = it_ptr (it_inc N it)"
      using it_inc_at [OF N, of it 0 i] a(4,5) by simp_all
    from ih [OF step] nx show False by blast
  qed
  from this [OF y] it show False by blast
qed

text \<open>
  On two empty rings the comparison does not end: the iterators go round the storage for ever,
  since \<open>end()\<close> of an empty ring is a position before its first cell.
\<close>
theorem circular_buffer_equal_empty:
  assumes "0 < N" and "N < 2 ^ 31"
  shows "circular_buffer_equal N (cb_new N d 0 v) (cb_new N d 0 v) = None"
proof -
  let ?c = "cb_new N d 0 v"
  have "\<not> (word_of_nat N :: size_t) \<le> word_of_int 0"
    using assms by (simp add: size_le_iff unat_size_of_nat)
  then have c: "?c = \<lparr>cb_start = Some (replicate N (Some d)), cb_finish = Some (int N), indexOfHead = 0,
    indexOfTail = -1, cb_size = 0\<rparr>" by (simp add: cb_new_def)
  let ?c2 = "?c\<lparr>cb_size := int N\<rparr>"
  have cl: "cb_clone N ?c = Inr ?c2" by (simp add: c cb_clone_def list_all_length)
  have "cb_begin ?c2 = cb_begin ?c" by (simp add: cb_begin_def)
  moreover have "cb_equal_loop N ?c ?c2 (cb_begin ?c) (cb_begin ?c) = None"
    by (rule cb_equal_loop_empty [OF assms, of _ d _ _ 0]) (simp_all add: c cb_begin_def)
  ultimately show ?thesis by (simp add: circular_buffer_equal_def cl)
qed

theorem circular_buffer_equal_empty_witness:
  "circular_buffer_equal 4 (cb_new 4 0 0 1) (cb_new 4 0 0 (1 :: nat)) = None"
  by (rule circular_buffer_equal_empty) simp_all

section \<open>The test program\<close>

lemma cb_push_both:
  assumes "cb_inv N cb" and "cb_all_live cb" and "length (cb_list N cb) < N"
  shows "\<exists>cb'. cb_push_back N cb v = Inr cb' \<and> cb_inv N cb' \<and> cb_all_live cb' \<and>
    cb_list N cb' = cb_list N cb @ [v]"
  using ring.push_room [OF assms(1,3)] cb_push_live [OF assms(1,2)] by metis

lemma cb_size_list: "cb_inv N cb \<Longrightarrow> cb_size cb = int (length (cb_list N cb))"
  by (simp add: cb_inv_def)

lemma testCase1_passes: "testCase1 = Some (Inr ())"
proof -
  let ?c = "cb_new 2 0 1 (0 :: int)"
  have c: "cb_inv 2 ?c" "cb_list 2 ?c = [0]" using cb_new_fresh [of 2 1 0 "0 :: int"] by simp_all
  obtain c1 where c1: "cb_push_back 2 ?c 1 = Inr c1" "cb_inv 2 c1" "cb_list 2 c1 = [0, 1]"
    using ring.push_room [OF c(1), of 1] c(2) by auto
  obtain c2 where c2: "cb_push_back 2 c1 2 = Inr c2" "cb_inv 2 c2" "cb_list 2 c2 = [1, 2]"
    using ring.push_full [OF c1(2), of 2] c1(3) by auto
  obtain d where d: "cb_dtor 2 c2 = Some (Inr d)" using cb_dtor_inv [OF c2(2)] by blast
  show ?thesis
    by (simp add: testCase1_def Let_def c1(1) c2(1) d cb_full_iff [OF c(1)] cb_full_iff [OF c2(2)]
        cb_empty_def cb_size_list [OF c(1)] cb_size_list [OF c2(2)] c(2) c2(3))
qed

lemma testCase2_passes: "testCase2 = Some (Inr ())"
proof -
  let ?c = "cb_new 3 [] 3 ([] :: string)"
  have c: "?c = \<lparr>cb_start = Some [Some [], Some [], Some []], cb_finish = Some 3, indexOfHead = 0,
    indexOfTail = 2, cb_size = 3\<rparr>"
    by (simp add: cb_new_def size_to_int_def numeral_3_eq_3)
  let ?e = "?c\<lparr>cb_start := Some [Some ''one'', Some ''two'', Some ''three'']\<rparr>"
  have live: "[Some ''one'', Some ''two'', Some ''three''] ! ((0 + k) mod 3) \<noteq> None" if "k < 3" for k
  proof -
    have "k = 0 \<or> k = 1 \<or> k = 2" using that by arith
    then show ?thesis by (elim disjE) simp_all
  qed
  have i: "cb_inv 3 ?e"
    by (rule cb_invI [where t = 2, THEN conjunct1, OF _ _ _ _ _ _ _ _ _ _ _ live]) (simp_all add: c)
  obtain d where d: "cb_dtor 3 ?e = Some (Inr d)" using cb_dtor_inv [OF i] by blast
  then show ?thesis
    by (simp add: testCase2_def Let_def c cb_assign_cell_def cb_cell_def cb_construct_def it_deref_def
        cb_begin_def cb_end_def cb_front_def cb_back_def nat_numeral numeral_2_eq_2)
qed

lemma testCase3_passes: "testCase3 = Some (Inr ())"
proof -
  let ?c = "cb_new 3 [] 0 ([] :: string)"
  have c: "cb_inv 3 ?c" "cb_list 3 ?c = []" using cb_new_fresh [of 3 0 "[]" "[] :: string"] by simp_all
  have f: "cb_front ?c = Inr []"
    by (simp add: cb_front_def cb_cell_def cb_new_def size_le_iff numeral_3_eq_3)
  obtain c1 where c1: "cb_push_back 3 ?c ''zxh'' = Inr c1" "cb_inv 3 c1" "cb_list 3 c1 = [''zxh'']"
    using ring.push_room [OF c(1), of "''zxh''"] c(2) by auto
  obtain c2 where c2: "cb_push_back 3 c1 ''jwl'' = Inr c2" "cb_inv 3 c2" "cb_list 3 c2 = [''zxh'', ''jwl'']"
    using ring.push_room [OF c1(2), of "''jwl''"] c1(3) by auto
  obtain d where d: "cb_dtor 3 c2 = Some (Inr d)" using cb_dtor_inv [OF c2(2)] by blast
  have s: "0 < cb_size c2" by (simp add: cb_size_list [OF c2(2)] c2(3))
  show ?thesis
    by (simp add: testCase3_def Let_def f c1(1) c2(1) d cb_front_hd [OF c2(2) s] cb_back_last [OF c2(2) s] c2(3))
qed

lemma testCase4_passes: "testCase4 = Some (Inr ())"
proof -
  let ?c = "cb_new 4 [] 0 ([] :: string)"
  have c: "cb_inv 4 ?c" "cb_list 4 ?c = []" using cb_new_fresh [of 4 0 "[]" "[] :: string"] by simp_all
  obtain c1 where c1: "cb_push_back 4 ?c ''a'' = Inr c1" "cb_inv 4 c1" "cb_all_live c1" "cb_list 4 c1 = [''a'']"
    using cb_push_both [OF c(1) cb_new_live, of "''a''"] c(2) by auto
  obtain c2 where c2: "cb_push_back 4 c1 ''b'' = Inr c2" "cb_inv 4 c2" "cb_all_live c2"
    "cb_list 4 c2 = [''a'', ''b'']"
    using cb_push_both [OF c1(2,3), of "''b''"] c1(4) by auto
  obtain c3 where c3: "cb_push_back 4 c2 ''c'' = Inr c3" "cb_inv 4 c3" "cb_all_live c3"
    "cb_list 4 c3 = [''a'', ''b'', ''c'']"
    using cb_push_both [OF c2(2,3), of "''c''"] c2(4) by auto
  obtain d where d: "cb_dtor 4 c3 = Some (Inr d)" using cb_dtor_inv [OF c3(2)] by blast
  have s: "0 < cb_size c3" by (simp add: cb_size_list [OF c3(2)] c3(4))
  have e: "circular_buffer_equal 4 c3 c3 = Some (Inr True)"
    using cb_equal_decides [OF c3(2,2,3) s s] by simp
  show ?thesis by (simp add: testCase4_def Let_def c1(1) c2(1) c3(1) d e)
qed

text \<open>Every assertion of the ring's test program holds, and the program ends.\<close>
theorem ring_test_program: "testAllCases = Some (Inr ())"
  by (simp add: testAllCases_def testCase1_passes testCase2_passes testCase3_passes testCase4_passes)

end
