(* ===== verification/Any_Value.thy ===== *)
theory Any_Value
  imports Prelude
begin

text \<open>
  The dynamically typed value of \<open>anyone.h\<close>: class \<open>any\<close>, its holders and \<open>any_cast\<close>. A
  holder is a cell of the free store, with the type it was made for and the value it holds;
  an \<open>any\<close> object is a variable whose content is null or the address of a holder. Value types
  are a type parameter \<open>'t\<close> of the model and values a type parameter \<open>'v\<close>; \<open>void\<close> is no value
  type, so \<open>typeid(void)\<close> is a \<open>type_info\<close> of its own. The lemmas show that every object owns
  its holder alone, that nothing leaks or is freed twice, that the class behaves as a value
  with its type beside it, and that a cast yields a value of the type it asks for or throws.
\<close>

section \<open>State\<close>

datatype 't type_info = Typeid_void | Typeid 't

text \<open>The objects of the program are named; \<open>Temporary\<close> is the unnamed one of an assignment.\<close>

datatype any_var = Temporary | Named nat

record ('t, 'v) holder =
  hd_type :: 't
  hd_held :: 'v

record ('t, 'v) any_state =
  an_heap :: "nat \<Rightarrow> ('t, 'v) holder option"
  an_next :: nat
  an_objs :: "any_var \<Rightarrow> nat option option"

definition any_start :: "('t, 'v) any_state" where
  "any_start = \<lparr>an_heap = (\<lambda>_. None), an_next = 0, an_objs = (\<lambda>_. None)\<rparr>"

section \<open>Holders\<close>

definition holder_new :: "'t \<Rightarrow> 'v \<Rightarrow> ('t, 'v) any_state \<Rightarrow> nat \<times> ('t, 'v) any_state" where
  "holder_new T v s =
     (an_next s,
      s\<lparr>an_heap := (an_heap s)(an_next s \<mapsto> \<lparr>hd_type = T, hd_held = v\<rparr>), an_next := Suc (an_next s)\<rparr>)"

definition holder_at :: "nat \<Rightarrow> ('t, 'v) any_state \<Rightarrow> ('t, 'v) holder res" where
  "holder_at p s = (case an_heap s p of None \<Rightarrow> Inl Use_after_free | Some h \<Rightarrow> Inr h)"

definition holder_type :: "nat \<Rightarrow> ('t, 'v) any_state \<Rightarrow> 't type_info res" where
  "holder_type p s = bindE (holder_at p s) (\<lambda>h. Inr (Typeid (hd_type h)))"

definition holder_clone :: "nat \<Rightarrow> ('t, 'v) any_state \<Rightarrow> (nat \<times> ('t, 'v) any_state) res" where
  "holder_clone p s = bindE (holder_at p s) (\<lambda>h. Inr (holder_new (hd_type h) (hd_held h) s))"

text \<open>\<open>delete content\<close>: nothing for a null pointer.\<close>

definition holder_delete :: "nat option \<Rightarrow> ('t, 'v) any_state \<Rightarrow> ('t, 'v) any_state res" where
  "holder_delete c s =
     (case c of
        None \<Rightarrow> Inr s
      | Some p \<Rightarrow> bindE (holder_at p s) (\<lambda>_. Inr (s\<lparr>an_heap := (an_heap s)(p := None)\<rparr>)))"

section \<open>The objects\<close>

definition any_content :: "any_var \<Rightarrow> ('t, 'v) any_state \<Rightarrow> nat option res" where
  "any_content x s = (case an_objs s x of None \<Rightarrow> Inl Use_after_free | Some c \<Rightarrow> Inr c)"

definition any_set_content ::
  "any_var \<Rightarrow> nat option \<Rightarrow> ('t, 'v) any_state \<Rightarrow> ('t, 'v) any_state" where
  "any_set_content x c s = s\<lparr>an_objs := (an_objs s)(x \<mapsto> c)\<rparr>"

definition any_default :: "any_var \<Rightarrow> ('t, 'v) any_state \<Rightarrow> ('t, 'v) any_state" where
  "any_default x s = any_set_content x None s"

definition any_of_value :: "any_var \<Rightarrow> 't \<Rightarrow> 'v \<Rightarrow> ('t, 'v) any_state \<Rightarrow> ('t, 'v) any_state" where
  "any_of_value x T v s = (case holder_new T v s of (p, s1) \<Rightarrow> any_set_content x (Some p) s1)"

definition any_copy :: "any_var \<Rightarrow> any_var \<Rightarrow> ('t, 'v) any_state \<Rightarrow> ('t, 'v) any_state res" where
  "any_copy x other s =
     bindE (any_content other s) (\<lambda>c.
     case c of
       None \<Rightarrow> Inr (any_set_content x None s)
     | Some p \<Rightarrow> bindE (holder_clone p s) (\<lambda>(q, s1). Inr (any_set_content x (Some q) s1)))"

definition any_dtor :: "any_var \<Rightarrow> ('t, 'v) any_state \<Rightarrow> ('t, 'v) any_state res" where
  "any_dtor x s =
     bindE (any_content x s) (\<lambda>c.
     bindE (holder_delete c s) (\<lambda>s1. Inr (s1\<lparr>an_objs := (an_objs s1)(x := None)\<rparr>)))"

definition any_swap :: "any_var \<Rightarrow> any_var \<Rightarrow> ('t, 'v) any_state \<Rightarrow> ('t, 'v) any_state res" where
  "any_swap x rhs s =
     bindE (any_content x s) (\<lambda>c.
     bindE (any_content rhs s) (\<lambda>d.
     Inr (any_set_content rhs c (any_set_content x d s))))"

text \<open>Assignment: \<open>any(rhs).swap(*this)\<close>, then the temporary is destroyed.\<close>

definition any_assign_value ::
  "any_var \<Rightarrow> 't \<Rightarrow> 'v \<Rightarrow> ('t, 'v) any_state \<Rightarrow> ('t, 'v) any_state res" where
  "any_assign_value x T v s =
     bindE (any_swap Temporary x (any_of_value Temporary T v s)) (any_dtor Temporary)"

definition any_assign :: "any_var \<Rightarrow> any_var \<Rightarrow> ('t, 'v) any_state \<Rightarrow> ('t, 'v) any_state res" where
  "any_assign x rhs s =
     bindE (any_copy Temporary rhs s) (\<lambda>s1.
     bindE (any_swap Temporary x s1) (any_dtor Temporary))"

definition any_empty :: "any_var \<Rightarrow> ('t, 'v) any_state \<Rightarrow> bool res" where
  "any_empty x s = bindE (any_content x s) (\<lambda>c. Inr (c = None))"

definition any_type :: "any_var \<Rightarrow> ('t, 'v) any_state \<Rightarrow> 't type_info res" where
  "any_type x s =
     bindE (any_content x s) (\<lambda>c.
     case c of None \<Rightarrow> Inr Typeid_void | Some p \<Rightarrow> holder_type p s)"

section \<open>any_cast\<close>

text \<open>\<open>any_cast<T>(any*)\<close>: the address of the held value, or null.\<close>

definition any_cast_ptr :: "'t \<Rightarrow> any_var option \<Rightarrow> ('t, 'v) any_state \<Rightarrow> nat option res" where
  "any_cast_ptr T operand s =
     (case operand of
        None \<Rightarrow> Inr None
      | Some x \<Rightarrow> bindE (any_type x s) (\<lambda>t. if t = Typeid T then any_content x s else Inr None))"

definition bad_any_cast :: string where
  "bad_any_cast = ''bad_any_cast: failed conversion using any_cast''"

text \<open>\<open>any_cast<T>(const any&)\<close>: a copy of the value, or the exception.\<close>

definition any_cast :: "'t \<Rightarrow> any_var \<Rightarrow> ('t, 'v) any_state \<Rightarrow> 'v res" where
  "any_cast T x s =
     bindE (any_cast_ptr T (Some x) s) (\<lambda>result.
     case result of
       None \<Rightarrow> Inl (Exception bad_any_cast)
     | Some p \<Rightarrow> bindE (holder_at p s) (\<lambda>h. Inr (hd_held h)))"

text \<open>What a caller does with the pointer: \<open>*any_cast<T>(&x) = v\<close>.\<close>

definition any_store :: "any_var \<Rightarrow> 't \<Rightarrow> 'v \<Rightarrow> ('t, 'v) any_state \<Rightarrow> ('t, 'v) any_state res" where
  "any_store x T v s =
     bindE (any_cast_ptr T (Some x) s) (\<lambda>result.
     bindE (deref result) (\<lambda>p.
     bindE (holder_at p s) (\<lambda>h. Inr (s\<lparr>an_heap := (an_heap s)(p \<mapsto> h\<lparr>hd_held := v\<rparr>)\<rparr>))))"

section \<open>Programs over any\<close>

datatype ('t, 'v) any_op =
    An_default nat
  | An_value nat 't 'v
  | An_copy nat nat
  | An_dtor nat
  | An_swap nat nat
  | An_assign_value nat 't 'v
  | An_assign nat nat
  | An_store nat 't 'v

fun any_do :: "('t, 'v) any_op \<Rightarrow> ('t, 'v) any_state \<Rightarrow> ('t, 'v) any_state res" where
  "any_do (An_default x) s = Inr (any_default (Named x) s)"
| "any_do (An_value x T v) s = Inr (any_of_value (Named x) T v s)"
| "any_do (An_copy x y) s = any_copy (Named x) (Named y) s"
| "any_do (An_dtor x) s = any_dtor (Named x) s"
| "any_do (An_swap x y) s = any_swap (Named x) (Named y) s"
| "any_do (An_assign_value x T v) s = any_assign_value (Named x) T v s"
| "any_do (An_assign x y) s = any_assign (Named x) (Named y) s"
| "any_do (An_store x T v) s = any_store (Named x) T v s"

fun any_run :: "('t, 'v) any_op list \<Rightarrow> ('t, 'v) any_state \<Rightarrow> ('t, 'v) any_state res" where
  "any_run [] s = Inr s"
| "any_run (a # as) s = bindE (any_do a s) (any_run as)"

text \<open>
  The same program over plain values: a live object is empty or a value with its type. The
  language constructs an object once, and uses and destroys only live ones.
\<close>

type_synonym ('t, 'v) any_spec = "any_var \<Rightarrow> ('t, 'v) holder option option"

fun spec_ok :: "('t, 'v) any_op \<Rightarrow> ('t, 'v) any_spec \<Rightarrow> bool" where
  "spec_ok (An_default x) m = (m (Named x) = None)"
| "spec_ok (An_value x T v) m = (m (Named x) = None)"
| "spec_ok (An_copy x y) m = (m (Named x) = None \<and> m (Named y) \<noteq> None)"
| "spec_ok (An_dtor x) m = (m (Named x) \<noteq> None)"
| "spec_ok (An_swap x y) m = (m (Named x) \<noteq> None \<and> m (Named y) \<noteq> None)"
| "spec_ok (An_assign_value x T v) m = (m (Named x) \<noteq> None)"
| "spec_ok (An_assign x y) m = (m (Named x) \<noteq> None \<and> m (Named y) \<noteq> None)"
| "spec_ok (An_store x T v) m = (\<exists>h. m (Named x) = Some (Some h) \<and> hd_type h = T)"

fun spec_do :: "('t, 'v) any_op \<Rightarrow> ('t, 'v) any_spec \<Rightarrow> ('t, 'v) any_spec" where
  "spec_do (An_default x) m = m(Named x \<mapsto> None)"
| "spec_do (An_value x T v) m = m(Named x \<mapsto> Some \<lparr>hd_type = T, hd_held = v\<rparr>)"
| "spec_do (An_copy x y) m = m(Named x := m (Named y))"
| "spec_do (An_dtor x) m = m(Named x := None)"
| "spec_do (An_swap x y) m = m(Named x := m (Named y), Named y := m (Named x))"
| "spec_do (An_assign_value x T v) m = m(Named x \<mapsto> Some \<lparr>hd_type = T, hd_held = v\<rparr>)"
| "spec_do (An_assign x y) m = m(Named x := m (Named y))"
| "spec_do (An_store x T v) m = m(Named x \<mapsto> Some \<lparr>hd_type = T, hd_held = v\<rparr>)"

fun spec_run :: "('t, 'v) any_op list \<Rightarrow> ('t, 'v) any_spec \<Rightarrow> ('t, 'v) any_spec" where
  "spec_run [] m = m"
| "spec_run (a # as) m = spec_run as (spec_do a m)"

fun spec_oks :: "('t, 'v) any_op list \<Rightarrow> ('t, 'v) any_spec \<Rightarrow> bool" where
  "spec_oks [] m = True"
| "spec_oks (a # as) m = (spec_ok a m \<and> spec_oks as (spec_do a m))"

section \<open>Ownership\<close>

definition any_abs :: "('t, 'v) any_state \<Rightarrow> ('t, 'v) any_spec" where
  "any_abs s x =
     (case an_objs s x of
        None \<Rightarrow> None
      | Some None \<Rightarrow> Some None
      | Some (Some p) \<Rightarrow> Some (an_heap s p))"

text \<open>Every holder is the content of exactly one object, and contents are alive.\<close>

definition any_inv :: "('t, 'v) any_state \<Rightarrow> bool" where
  "any_inv s \<longleftrightarrow>
     (\<forall>x p. an_objs s x = Some (Some p) \<longrightarrow> an_heap s p \<noteq> None) \<and>
     (\<forall>x y p. an_objs s x = Some (Some p) \<longrightarrow> an_objs s y = Some (Some p) \<longrightarrow> x = y) \<and>
     (\<forall>p. an_heap s p \<noteq> None \<longrightarrow> p < an_next s \<and> (\<exists>x. an_objs s x = Some (Some p)))"

lemma any_inv_start: "any_inv any_start" "any_abs any_start = (\<lambda>_. None)"
  by (simp_all add: any_inv_def any_start_def any_abs_def fun_eq_iff)

lemma any_inv_owner:
  "any_inv s \<Longrightarrow> an_heap s p \<noteq> None \<Longrightarrow> p < an_next s \<and> (\<exists>x. an_objs s x = Some (Some p))"
  unfolding any_inv_def by blast

lemma any_inv_own:
  "any_inv s \<Longrightarrow> an_objs s x = Some (Some p) \<Longrightarrow> an_objs s y = Some (Some p) \<Longrightarrow> x = y"
  unfolding any_inv_def by blast

lemma any_abs_obj:
  "an_objs s x = None \<Longrightarrow> any_abs s x = None"
  "an_objs s x = Some None \<Longrightarrow> any_abs s x = Some None"
  "an_objs s x = Some (Some p) \<Longrightarrow> any_abs s x = Some (an_heap s p)"
  by (simp_all add: any_abs_def)

lemma any_inv_next: "any_inv s \<Longrightarrow> an_heap s (an_next s) = None"
  unfolding any_inv_def by blast

lemma any_inv_next_objs: "any_inv s \<Longrightarrow> an_objs s x \<noteq> Some (Some (an_next s))"
  using any_inv_next [of s] unfolding any_inv_def by fastforce

lemma any_abs_None: "any_abs s x = None \<longleftrightarrow> an_objs s x = None"
  by (simp add: any_abs_def split: option.splits)

lemma any_abs_content:
  assumes "any_inv s" "any_abs s x = Some c"
  shows "(c = None \<and> an_objs s x = Some None) \<or>
    (\<exists>p h. c = Some h \<and> an_objs s x = Some (Some p) \<and> an_heap s p = Some h)"
  using assms unfolding any_inv_def any_abs_def
  by (auto split: option.splits)

lemma any_default_sim:
  assumes "any_inv s" "any_abs s x = None"
  shows "any_inv (any_default x s)" "any_abs (any_default x s) = (any_abs s)(x \<mapsto> None)"
proof -
  have n: "an_objs s x = None" using assms(2) by (simp add: any_abs_None)
  show "any_inv (any_default x s)"
    using assms(1) n unfolding any_inv_def any_default_def any_set_content_def
    by simp (metis option.distinct(1))
  show "any_abs (any_default x s) = (any_abs s)(x \<mapsto> None)"
    by (auto simp: fun_eq_iff any_abs_def any_default_def any_set_content_def split: option.splits)
qed

lemma any_of_value_sim:
  assumes inv: "any_inv s" and x: "any_abs s x = None"
  shows "any_inv (any_of_value x T v s)"
    "any_abs (any_of_value x T v s) = (any_abs s)(x \<mapsto> Some \<lparr>hd_type = T, hd_held = v\<rparr>)"
proof -
  have n: "an_objs s x = None" using x by (simp add: any_abs_None)
  have f: "an_heap s (an_next s) = None" by (rule any_inv_next [OF inv])
  have o: "an_objs s y \<noteq> Some (Some (an_next s))" for y by (rule any_inv_next_objs [OF inv])
  have i: "\<And>x p. an_objs s x = Some (Some p) \<Longrightarrow> an_heap s p \<noteq> None"
    "\<And>x y p. an_objs s x = Some (Some p) \<Longrightarrow> an_objs s y = Some (Some p) \<Longrightarrow> x = y"
    "\<And>p. an_heap s p \<noteq> None \<Longrightarrow> p < an_next s \<and> (\<exists>x. an_objs s x = Some (Some p))"
    using inv unfolding any_inv_def by blast+
  show "any_inv (any_of_value x T v s)"
    unfolding any_inv_def
  proof (intro conjI allI impI)
    fix y p assume "an_objs (any_of_value x T v s) y = Some (Some p)"
    then show "an_heap (any_of_value x T v s) p \<noteq> None"
      using i(1) by (auto simp: any_of_value_def holder_new_def any_set_content_def split: if_splits)
  next
    fix y z p
    assume "an_objs (any_of_value x T v s) y = Some (Some p)"
      "an_objs (any_of_value x T v s) z = Some (Some p)"
    then show "y = z"
      using i(2) o by (auto simp: any_of_value_def holder_new_def any_set_content_def split: if_splits)
  next
    fix p assume a: "an_heap (any_of_value x T v s) p \<noteq> None"
    show "p < an_next (any_of_value x T v s)"
      using a i(3) [of p] by (auto simp: any_of_value_def holder_new_def any_set_content_def split: if_splits)
    show "\<exists>y. an_objs (any_of_value x T v s) y = Some (Some p)"
    proof (cases "p = an_next s")
      case True
      then show ?thesis by (simp add: any_of_value_def holder_new_def any_set_content_def) blast
    next
      case False
      then obtain y where "an_objs s y = Some (Some p)"
        using a i(3) [of p] by (auto simp: any_of_value_def holder_new_def any_set_content_def)
      then show ?thesis
        using n by (auto simp: any_of_value_def holder_new_def any_set_content_def intro!: exI [of _ y])
    qed
  qed
  show "any_abs (any_of_value x T v s) = (any_abs s)(x \<mapsto> Some \<lparr>hd_type = T, hd_held = v\<rparr>)"
    using o by (auto simp: fun_eq_iff any_abs_def any_of_value_def holder_new_def any_set_content_def
        split: option.splits)
qed

text \<open>A copy is an empty object or a new holder with the same type and value.\<close>

lemma any_copy_eq:
  assumes inv: "any_inv s" and y: "any_abs s y = Some c"
  shows "any_copy x y s =
    Inr (case c of None \<Rightarrow> any_default x s | Some h \<Rightarrow> any_of_value x (hd_type h) (hd_held h) s)"
  using any_abs_content [OF inv y]
  by (auto simp: any_copy_def any_content_def holder_clone_def holder_at_def any_default_def
      any_of_value_def holder_new_def)

lemma any_copy_sim:
  assumes inv: "any_inv s" and x: "any_abs s x = None" and y: "any_abs s y \<noteq> None"
  shows "\<exists>s'. any_copy x y s = Inr s' \<and> any_inv s' \<and> any_abs s' = (any_abs s)(x := any_abs s y)"
proof -
  obtain c where c: "any_abs s y = Some c" using y by blast
  show ?thesis
    using any_copy_eq [OF inv c, of x] any_default_sim [OF inv x] any_of_value_sim [OF inv x] c
    by (cases c) auto
qed

lemma any_dtor_sim:
  assumes inv: "any_inv s" and x: "any_abs s x \<noteq> None"
  shows "\<exists>s'. any_dtor x s = Inr s' \<and> any_inv s' \<and> any_abs s' = (any_abs s)(x := None)"
proof -
  obtain c where c: "any_abs s x = Some c" using x by blast
  have i: "\<And>x p. an_objs s x = Some (Some p) \<Longrightarrow> an_heap s p \<noteq> None"
    "\<And>x y p. an_objs s x = Some (Some p) \<Longrightarrow> an_objs s y = Some (Some p) \<Longrightarrow> x = y"
    "\<And>p. an_heap s p \<noteq> None \<Longrightarrow> p < an_next s \<and> (\<exists>x. an_objs s x = Some (Some p))"
    using inv unfolding any_inv_def by blast+
  from any_abs_content [OF inv c] show ?thesis
  proof (elim disjE exE conjE)
    assume o: "an_objs s x = Some None"
    let ?s = "s\<lparr>an_objs := (an_objs s)(x := None)\<rparr>"
    have "any_dtor x s = Inr ?s"
      by (simp add: any_dtor_def any_content_def holder_delete_def o)
    moreover have "any_inv ?s"
      using i o unfolding any_inv_def
      by simp (metis option.distinct(1) option.inject)
    moreover have "any_abs ?s = (any_abs s)(x := None)"
      by (auto simp: fun_eq_iff any_abs_def split: option.splits)
    ultimately show ?thesis by blast
  next
    fix p h assume o: "an_objs s x = Some (Some p)" and h: "an_heap s p = Some h"
    let ?s = "s\<lparr>an_heap := (an_heap s)(p := None), an_objs := (an_objs s)(x := None)\<rparr>"
    have "any_dtor x s = Inr ?s"
      by (simp add: any_dtor_def any_content_def holder_delete_def holder_at_def o h)
    moreover have "any_inv ?s"
      unfolding any_inv_def
    proof (intro conjI allI impI)
      fix y q assume a: "an_objs ?s y = Some (Some q)"
      then have "an_objs s y = Some (Some q)" "y \<noteq> x" by (auto split: if_splits)
      moreover have "q \<noteq> p" using i(2) [of x p y] o calculation by blast
      ultimately show "an_heap ?s q \<noteq> None" using i(1) by simp
    next
      fix y z q assume "an_objs ?s y = Some (Some q)" "an_objs ?s z = Some (Some q)"
      then show "y = z" using i(2) by (auto split: if_splits)
    next
      fix q assume "an_heap ?s q \<noteq> None"
      then have q: "q \<noteq> p" "an_heap s q \<noteq> None" by (auto split: if_splits)
      then obtain y where y: "an_objs s y = Some (Some q)" using i(3) by blast
      show "q < an_next ?s" using i(3) q by simp
      show "\<exists>y. an_objs ?s y = Some (Some q)"
        using y o q(1) by (intro exI [of _ y]) auto
    qed
    moreover have "any_abs ?s = (any_abs s)(x := None)"
    proof
      fix y
      show "any_abs ?s y = ((any_abs s)(x := None)) y"
      proof (cases "y = x")
        case False
        then have "an_objs s y \<noteq> Some (Some p)" using i(2) [of x p y] o by blast
        then show ?thesis using False by (simp add: any_abs_def split: option.splits)
      qed (simp add: any_abs_def)
    qed
    ultimately show ?thesis by blast
  qed
qed

lemma any_swap_sim:
  assumes inv: "any_inv s" and x: "any_abs s x \<noteq> None" and y: "any_abs s y \<noteq> None"
  shows "\<exists>s'. any_swap x y s = Inr s' \<and> any_inv s' \<and>
    any_abs s' = (any_abs s)(x := any_abs s y, y := any_abs s x)"
proof -
  obtain c d where cd: "an_objs s x = Some c" "an_objs s y = Some d"
    using x y by (auto simp: any_abs_None)
  let ?o = "(an_objs s)(x \<mapsto> d, y \<mapsto> c)"
  have o: "?o z = an_objs s (if z = x then y else if z = y then x else z)" for z
    using cd by auto
  let ?s = "s\<lparr>an_objs := ?o\<rparr>"
  have "any_swap x y s = Inr ?s"
    by (simp add: any_swap_def any_content_def any_set_content_def cd)
  moreover have "any_inv ?s"
  proof -
    have "an_heap s p \<noteq> None" if "?o z = Some (Some p)" for z p
      using inv that unfolding o any_inv_def by blast
    moreover have "z = z'" if "?o z = Some (Some p)" "?o z' = Some (Some p)" for z z' p
    proof -
      have "(if z = x then y else if z = y then x else z) = (if z' = x then y else if z' = y then x else z')"
        using inv that unfolding o any_inv_def by blast
      then show ?thesis by (auto split: if_splits)
    qed
    moreover have "p < an_next s \<and> (\<exists>z. ?o z = Some (Some p))" if "an_heap s p \<noteq> None" for p
    proof -
      have "\<exists>z. an_objs s z = Some (Some p) \<and> p < an_next s"
        using any_inv_owner [OF inv that] by blast
      then obtain z where z: "an_objs s z = Some (Some p)" "p < an_next s" by blast
      have "?o (if z = x then y else if z = y then x else z) = Some (Some p)"
        unfolding o using z(1) by auto
      then show ?thesis using z(2) by blast
    qed
    ultimately have "(\<forall>z p. ?o z = Some (Some p) \<longrightarrow> an_heap s p \<noteq> None) \<and>
      (\<forall>z z' p. ?o z = Some (Some p) \<longrightarrow> ?o z' = Some (Some p) \<longrightarrow> z = z') \<and>
      (\<forall>p. an_heap s p \<noteq> None \<longrightarrow> p < an_next s \<and> (\<exists>z. ?o z = Some (Some p)))"
      by (intro conjI allI impI) blast+
    moreover have "an_objs ?s = ?o" "an_heap ?s = an_heap s" "an_next ?s = an_next s" by simp_all
    ultimately show ?thesis by (simp only: any_inv_def)
  qed
  moreover have "any_abs ?s = (any_abs s)(x := any_abs s y, y := any_abs s x)"
  proof
    fix z
    show "any_abs ?s z = ((any_abs s)(x := any_abs s y, y := any_abs s x)) z"
      using cd by (cases "z = y"; cases "z = x") (simp_all add: any_abs_def split: option.splits)
  qed
  ultimately show ?thesis by blast
qed

lemma swap_out:
  assumes inv: "any_inv s" and t: "any_abs s Temporary \<noteq> None" and x: "any_abs s (Named x) \<noteq> None"
  shows "\<exists>s'. bindE (any_swap Temporary (Named x) s) (any_dtor Temporary) = Inr s' \<and> any_inv s' \<and>
    any_abs s' = (any_abs s)(Named x := any_abs s Temporary, Temporary := None)"
proof -
  obtain s1 where s1: "any_swap Temporary (Named x) s = Inr s1" "any_inv s1"
    "any_abs s1 = (any_abs s)(Temporary := any_abs s (Named x), Named x := any_abs s Temporary)"
    using any_swap_sim [OF inv t x] by blast
  have t1: "any_abs s1 Temporary \<noteq> None" unfolding s1(3) using x by simp
  obtain s2 where "any_dtor Temporary s1 = Inr s2" "any_inv s2"
    "any_abs s2 = (any_abs s1)(Temporary := None)"
    using any_dtor_sim [OF s1(2) t1] by blast
  then show ?thesis using s1 by (simp add: fun_eq_iff)
qed

lemma any_assign_value_sim:
  assumes inv: "any_inv s" and t: "any_abs s Temporary = None" and x: "any_abs s (Named x) \<noteq> None"
  shows "\<exists>s'. any_assign_value (Named x) T v s = Inr s' \<and> any_inv s' \<and>
    any_abs s' = (any_abs s)(Named x \<mapsto> Some \<lparr>hd_type = T, hd_held = v\<rparr>)"
proof -
  let ?s = "any_of_value Temporary T v s"
  note n = any_of_value_sim [OF inv t, of T v]
  obtain s' where "bindE (any_swap Temporary (Named x) ?s) (any_dtor Temporary) = Inr s'" "any_inv s'"
    "any_abs s' = (any_abs ?s)(Named x := any_abs ?s Temporary, Temporary := None)"
    using swap_out [OF n(1), of x] x by (auto simp: n(2))
  then show ?thesis using t by (simp add: any_assign_value_def n(2) fun_eq_iff)
qed

lemma any_assign_sim:
  assumes inv: "any_inv s" and t: "any_abs s Temporary = None"
    and x: "any_abs s (Named x) \<noteq> None" and y: "any_abs s (Named y) \<noteq> None"
  shows "\<exists>s'. any_assign (Named x) (Named y) s = Inr s' \<and> any_inv s' \<and>
    any_abs s' = (any_abs s)(Named x := any_abs s (Named y))"
proof -
  obtain s1 where s1: "any_copy Temporary (Named y) s = Inr s1" "any_inv s1"
    "any_abs s1 = (any_abs s)(Temporary := any_abs s (Named y))"
    using any_copy_sim [OF inv t y] by blast
  obtain s' where "bindE (any_swap Temporary (Named x) s1) (any_dtor Temporary) = Inr s'" "any_inv s'"
    "any_abs s' = (any_abs s1)(Named x := any_abs s1 Temporary, Temporary := None)"
    using swap_out [OF s1(2), of x] x y by (auto simp: s1(3))
  then show ?thesis using t by (simp add: any_assign_def s1 fun_eq_iff)
qed

section \<open>Casts\<close>

lemma any_cast_ptr_holder:
  assumes "an_objs s x = Some (Some p)" "an_heap s p = Some h"
  shows "any_cast_ptr T (Some x) s = Inr (if hd_type h = T then Some p else None)"
  using assms
  by (simp add: any_cast_ptr_def any_type_def any_content_def holder_type_def holder_at_def)

lemma any_cast_ptr_empty:
  assumes "an_objs s x = Some None"
  shows "any_cast_ptr T (Some x) s = Inr None"
  using assms by (simp add: any_cast_ptr_def any_type_def any_content_def)

lemma any_cast_eq:
  assumes inv: "any_inv s" and x: "any_abs s x = Some c"
  shows "any_cast T x s =
    (case c of
       Some h \<Rightarrow> if hd_type h = T then Inr (hd_held h) else Inl (Exception bad_any_cast)
     | None \<Rightarrow> Inl (Exception bad_any_cast))"
  using any_abs_content [OF inv x]
  by (auto simp: any_cast_def any_cast_ptr_holder any_cast_ptr_empty holder_at_def)

lemma any_store_sim:
  assumes inv: "any_inv s" and x: "any_abs s x = Some (Some h)" and T: "hd_type h = T"
  shows "\<exists>s'. any_store x T v s = Inr s' \<and> any_inv s' \<and>
    any_abs s' = (any_abs s)(x \<mapsto> Some \<lparr>hd_type = T, hd_held = v\<rparr>)"
proof -
  obtain p where p: "an_objs s x = Some (Some p)" "an_heap s p = Some h"
    using any_abs_content [OF inv x] by auto
  have own: "y = x" if "an_objs s y = Some (Some p)" for y
    using inv p(1) that unfolding any_inv_def by blast
  let ?h = "h\<lparr>hd_held := v\<rparr>"
  let ?s = "s\<lparr>an_heap := (an_heap s)(p \<mapsto> ?h)\<rparr>"
  have "any_store x T v s = Inr ?s"
    using T by (simp add: any_store_def any_cast_ptr_holder [OF p] holder_at_def p(2))
  moreover have "any_inv ?s"
    using inv p unfolding any_inv_def by auto
  moreover have "?h = \<lparr>hd_type = T, hd_held = v\<rparr>" using T by (cases h) simp
  moreover have "any_abs ?s = (any_abs s)(x \<mapsto> Some ?h)"
  proof
    fix y
    show "any_abs ?s y = ((any_abs s)(x \<mapsto> Some ?h)) y"
    proof (cases "y = x")
      case False
      then have "an_objs s y \<noteq> Some (Some p)" using own by blast
      then show ?thesis using False by (simp add: any_abs_def split: option.splits)
    qed (simp add: any_abs_def p)
  qed
  ultimately show ?thesis by auto
qed

section \<open>The class is a value with its type\<close>

lemma any_do_sim:
  assumes inv: "any_inv s" and t: "any_abs s Temporary = None" and ok: "spec_ok a (any_abs s)"
  shows "\<exists>s'. any_do a s = Inr s' \<and> any_inv s' \<and> any_abs s' = spec_do a (any_abs s)"
proof (cases a)
  case (An_store x T v)
  with ok obtain h where "any_abs s (Named x) = Some (Some h)" "hd_type h = T" by auto
  then show ?thesis using any_store_sim [OF inv] An_store by simp
qed (use ok t any_default_sim [OF inv] any_of_value_sim [OF inv] any_copy_sim [OF inv]
    any_dtor_sim [OF inv] any_swap_sim [OF inv] any_assign_value_sim [OF inv t]
    any_assign_sim [OF inv t] in simp_all)

lemma spec_do_Temporary: "spec_do a m Temporary = m Temporary"
  by (cases a) simp_all

lemma any_run_sim:
  assumes "any_inv s" "any_abs s Temporary = None" "spec_oks as (any_abs s)"
  shows "\<exists>s'. any_run as s = Inr s' \<and> any_inv s' \<and> any_abs s' = spec_run as (any_abs s)"
  using assms
proof (induction as arbitrary: s)
  case (Cons a as)
  obtain s1 where s1: "any_do a s = Inr s1" "any_inv s1" "any_abs s1 = spec_do a (any_abs s)"
    using any_do_sim [of s a] Cons.prems by auto
  moreover have "any_abs s1 Temporary = None" using Cons.prems(2) by (simp add: s1(3) spec_do_Temporary)
  ultimately show ?case using Cons.IH [of s1] Cons.prems(3) by simp
qed simp

lemma any_run_start:
  assumes "spec_oks as (\<lambda>_. None)"
  shows "\<exists>s. any_run as any_start = Inr s \<and> any_inv s \<and> any_abs s = spec_run as (\<lambda>_. None)"
proof -
  have "spec_oks as (any_abs any_start)" "any_abs any_start Temporary = None"
    using assms by (simp_all add: any_inv_start)
  from any_run_sim [OF any_inv_start(1) this(2,1)] show ?thesis by (simp add: any_inv_start)
qed

text \<open>C19. 
  Programs over \<open>any\<close> objects, in which objects are used as the language allows, behave as
  programs over values with their types: construction, copy, assignment (to itself as well),
  \<open>swap\<close> and writes through a cast pointer never meet a freed holder, a copy is independent of
  its original, the casts return the value where the type is the one asked for and throw
  \<open>bad_any_cast\<close> otherwise, and when all objects are destroyed no holder is left.
\<close>
theorem any_refines:
  assumes "spec_oks as (\<lambda>_. None)"
  shows "\<exists>s. any_run as any_start = Inr s \<and> any_abs s = spec_run as (\<lambda>_. None) \<and> any_inv s \<and>
    (\<forall>x T c. any_abs s x = Some c \<longrightarrow> any_cast T x s =
       (case c of
          Some h \<Rightarrow> if hd_type h = T then Inr (hd_held h) else Inl (Exception bad_any_cast)
        | None \<Rightarrow> Inl (Exception bad_any_cast))) \<and>
    ((\<forall>x. any_abs s x = None) \<longrightarrow> (\<forall>p. an_heap s p = None))"
proof -
  obtain s where s: "any_run as any_start = Inr s" "any_inv s" "any_abs s = spec_run as (\<lambda>_. None)"
    using any_run_start [OF assms] by blast
  have "an_heap s p = None" if dead: "\<forall>x. any_abs s x = None" for p
  proof (rule ccontr)
    assume "an_heap s p \<noteq> None"
    then obtain x where "an_objs s x = Some (Some p)" using any_inv_owner [OF s(2)] by blast
    then show False using dead any_abs_None [of s x] by simp
  qed
  then show ?thesis using s any_cast_eq [OF s(2)] by blast
qed

lemma any_refines_witness:
  "\<exists>s. any_run [An_value 0 ''int'' (5::int), An_copy 1 0, An_assign_value 0 ''char'' 7, An_dtor 0]
      any_start = Inr s \<and> any_cast ''int'' (Named 1) s = Inr 5 \<and>
    any_cast ''char'' (Named 1) s = Inl (Exception bad_any_cast)"
proof -
  let ?as = "[An_value 0 ''int'' (5::int), An_copy 1 0, An_assign_value 0 ''char'' 7, An_dtor 0]"
  have "spec_oks ?as (\<lambda>_. None)" by simp
  from any_refines [OF this] obtain s where s: "any_run ?as any_start = Inr s"
    "any_abs s = spec_run ?as (\<lambda>_. None)"
    "\<And>x T c. any_abs s x = Some c \<Longrightarrow> any_cast T x s =
       (case c of Some h \<Rightarrow> if hd_type h = T then Inr (hd_held h) else Inl (Exception bad_any_cast)
        | None \<Rightarrow> Inl (Exception bad_any_cast))" by blast
  have a: "any_abs s (Named 1) = Some (Some \<lparr>hd_type = ''int'', hd_held = 5\<rparr>)"
    unfolding s(2) by simp
  show ?thesis using s(1) s(3) [OF a] by simp
qed

section \<open>Type safety\<close>

text \<open>\<open>V T\<close> is the set of values of type \<open>T\<close>; the compiler checks what is stored.\<close>

fun op_typed :: "('t \<Rightarrow> 'v set) \<Rightarrow> ('t, 'v) any_op \<Rightarrow> bool" where
  "op_typed V (An_value x T v) = (v \<in> V T)"
| "op_typed V (An_assign_value x T v) = (v \<in> V T)"
| "op_typed V (An_store x T v) = (v \<in> V T)"
| "op_typed V _ = True"

definition spec_typed :: "('t \<Rightarrow> 'v set) \<Rightarrow> ('t, 'v) any_spec \<Rightarrow> bool" where
  "spec_typed V m \<longleftrightarrow> (\<forall>x h. m x = Some (Some h) \<longrightarrow> hd_held h \<in> V (hd_type h))"

lemma spec_do_typed: "op_typed V a \<Longrightarrow> spec_typed V m \<Longrightarrow> spec_typed V (spec_do a m)"
  by (cases a) (auto simp: spec_typed_def)

lemma spec_run_typed: "list_all (op_typed V) as \<Longrightarrow> spec_typed V m \<Longrightarrow> spec_typed V (spec_run as m)"
  by (induction as arbitrary: m) (simp_all add: spec_do_typed)

text \<open>C20. 
  Type safety: however a program creates, copies, assigns, swaps and overwrites \<open>any\<close> objects,
  a cast of a live object to \<open>T\<close> returns a value of type \<open>T\<close>, and can fail only by
  throwing \<open>bad_any_cast\<close>, which it does exactly when \<open>type()\<close> is another type.
\<close>
theorem any_cast_type_safe:
  assumes "spec_oks as (\<lambda>_. None)" and "list_all (op_typed V) as"
    and "any_run as any_start = Inr s" and "any_abs s x \<noteq> None"
  shows "(\<exists>v. any_cast T x s = Inr v \<and> v \<in> V T \<and> any_type x s = Inr (Typeid T)) \<or>
    (any_cast T x s = Inl (Exception bad_any_cast) \<and>
     (\<exists>t. any_type x s = Inr t \<and> t \<noteq> Typeid T))"
proof -
  obtain s' where "any_run as any_start = Inr s'" "any_inv s'" "any_abs s' = spec_run as (\<lambda>_. None)"
    using any_run_start [OF assms(1)] by blast
  then have inv: "any_inv s" and abs: "any_abs s = spec_run as (\<lambda>_. None)" using assms(3) by simp_all
  have ty: "spec_typed V (any_abs s)"
    unfolding abs by (rule spec_run_typed [OF assms(2)]) (simp add: spec_typed_def)
  obtain c where c: "any_abs s x = Some c" using assms(4) by blast
  from any_abs_content [OF inv c] show ?thesis
  proof (elim disjE exE conjE)
    assume "c = None" "an_objs s x = Some None"
    then show ?thesis using any_cast_eq [OF inv c] by (simp add: any_type_def any_content_def)
  next
    fix p h assume h: "c = Some h" "an_objs s x = Some (Some p)" "an_heap s p = Some h"
    have "any_type x s = Inr (Typeid (hd_type h))"
      using h by (simp add: any_type_def any_content_def holder_type_def holder_at_def)
    moreover have "hd_held h \<in> V (hd_type h)" using ty c h(1) by (simp add: spec_typed_def)
    ultimately show ?thesis using any_cast_eq [OF inv c, of T] h(1) by (auto split: if_splits)
  qed
qed

lemma any_cast_type_safe_witness:
  "\<exists>s. any_run [An_value 0 True (3::int), An_default 1, An_assign 1 0] any_start = Inr s \<and>
     any_cast True (Named 1) s = Inr 3"
proof -
  let ?as = "[An_value 0 True (3::int), An_default 1, An_assign 1 0]"
  have ok: "spec_oks ?as (\<lambda>_. None)" by simp
  obtain s where s: "any_run ?as any_start = Inr s" "any_abs s = spec_run ?as (\<lambda>_. None)"
    using any_run_start [OF ok] by blast
  have t: "list_all (op_typed (\<lambda>T. if T then {3} else {})) ?as" by simp
  have l: "any_abs s (Named 1) \<noteq> None" unfolding s(2) by simp
  have ty: "any_type (Named 1) s = Inr (Typeid True)"
    using s(1) by (auto simp: any_default_def any_of_value_def any_assign_def any_copy_def any_content_def
        any_set_content_def holder_new_def holder_clone_def holder_at_def any_swap_def any_dtor_def
        holder_delete_def any_start_def any_type_def holder_type_def)
  from any_cast_type_safe [OF ok t s(1) l, of True] show ?thesis using s(1) ty by auto
qed

end
