(* ===== verification/Log_Stream.thy ===== *)
theory Log_Stream
  imports Prelude "HOL-Library.Signed_Division" "HOL-Library.Char_ord"
begin

text \<open>
  The fixed-size character buffer and the formatting stream of \<open>base/LogStream.h\<close> and
  \<open>base/LogStream.cpp\<close>. A \<open>FixedBuffer<SIZE>\<close> is its array (its length is \<open>SIZE\<close>) and the
  write position \<open>cur_\<close>, an offset into it; its abstract value \<open>fb_text\<close> is the text in front
  of \<open>cur_\<close>. The lemmas show that \<open>convert\<close> prints exactly the decimal numeral of every
  machine integer, that a stream insertion appends its text or, for lack of room, nothing, and
  that it never writes outside the array unless a text of 2^31 bytes or more is inserted.
\<close>

section \<open>FixedBuffer\<close>

record fixed_buffer =
  fb_data :: string
  fb_cur :: nat

definition kSmallBuffer :: nat where
  "kSmallBuffer = 4000"

definition kLargeBuffer :: nat where
  "kLargeBuffer = 4000 * 1000"

definition fb_new :: "nat \<Rightarrow> fixed_buffer" where
  "fb_new SIZE = \<lparr>fb_data = replicate SIZE (CHR 0x00), fb_cur = 0\<rparr>"

definition fb_avail :: "fixed_buffer \<Rightarrow> int" where
  "fb_avail fb = int (length (fb_data fb)) - int (fb_cur fb)"

definition fb_length :: "fixed_buffer \<Rightarrow> nat" where
  "fb_length fb = fb_cur fb"

definition fb_append :: "fixed_buffer \<Rightarrow> string \<Rightarrow> fixed_buffer res" where
  "fb_append fb buf =
     (if size_to_int (vec_size buf) < fb_avail fb
      then bindE (mem_write (fb_data fb) (fb_cur fb) buf) (\<lambda>d.
           Inr (fb\<lparr>fb_data := d, fb_cur := fb_cur fb + length buf\<rparr>))
      else Inr fb)"

definition fb_add :: "fixed_buffer \<Rightarrow> nat \<Rightarrow> fixed_buffer" where
  "fb_add fb len = fb\<lparr>fb_cur := fb_cur fb + len\<rparr>"

definition fb_reset :: "fixed_buffer \<Rightarrow> fixed_buffer" where
  "fb_reset fb = fb\<lparr>fb_cur := 0\<rparr>"

definition fb_bzero :: "fixed_buffer \<Rightarrow> fixed_buffer" where
  "fb_bzero fb = fb\<lparr>fb_data := replicate (length (fb_data fb)) (CHR 0x00)\<rparr>"

text \<open>The bytes \<open>data()[0 .. length())\<close> that a reader of the buffer gets.\<close>

definition fb_text :: "fixed_buffer \<Rightarrow> string" where
  "fb_text fb = take (fb_cur fb) (fb_data fb)"

definition fb_inv :: "nat \<Rightarrow> fixed_buffer \<Rightarrow> bool" where
  "fb_inv SIZE fb \<longleftrightarrow> length (fb_data fb) = SIZE \<and> fb_cur fb \<le> SIZE \<and> SIZE < 2 ^ 31"

lemma fb_new_spec [simp]:
  "SIZE < 2 ^ 31 \<Longrightarrow> fb_inv SIZE (fb_new SIZE)" "fb_text (fb_new SIZE) = []"
  "fb_cur (fb_new SIZE) = 0"
  by (simp_all add: fb_inv_def fb_new_def fb_text_def)

lemma fb_reset_spec [simp]:
  "fb_inv SIZE fb \<Longrightarrow> fb_inv SIZE (fb_reset fb)" "fb_text (fb_reset fb) = []"
  "fb_cur (fb_reset fb) = 0"
  by (simp_all add: fb_inv_def fb_reset_def fb_text_def)

lemma fb_bzero_spec [simp]:
  "fb_inv SIZE fb \<Longrightarrow> fb_inv SIZE (fb_bzero fb)" "fb_cur (fb_bzero fb) = fb_cur fb"
  by (simp_all add: fb_inv_def fb_bzero_def)

lemma length_fb_text: "fb_inv SIZE fb \<Longrightarrow> length (fb_text fb) = fb_cur fb"
  by (simp add: fb_inv_def fb_text_def)

lemma size_to_int_length:
  "length xs < 2 ^ 31 \<Longrightarrow> size_to_int (vec_size xs) = int (length xs)"
  by (simp add: size_to_int_small unat_vec_size)

lemma fb_append_spec:
  assumes inv: "fb_inv SIZE fb" and len: "length buf < 2 ^ 31"
  shows "\<exists>fb'. fb_append fb buf = Inr fb' \<and> fb_inv SIZE fb' \<and>
     fb_text fb' = (if fb_cur fb + length buf < SIZE then fb_text fb @ buf else fb_text fb)"
proof (cases "fb_cur fb + length buf < SIZE")
  case True
  let ?d = "take (fb_cur fb) (fb_data fb) @ buf @ drop (fb_cur fb + length buf) (fb_data fb)"
  let ?fb = "fb\<lparr>fb_data := ?d, fb_cur := fb_cur fb + length buf\<rparr>"
  have "fb_append fb buf = Inr ?fb"
    using True inv len
    by (simp add: fb_append_def fb_avail_def fb_inv_def size_to_int_length)
  moreover have "fb_inv SIZE ?fb" "fb_text ?fb = fb_text fb @ buf"
    using True inv by (simp_all add: fb_inv_def fb_text_def)
  ultimately show ?thesis using True by auto
next
  case False
  then have "fb_append fb buf = Inr fb"
    using inv len by (simp add: fb_append_def fb_avail_def fb_inv_def size_to_int_length)
  with False inv show ?thesis by auto
qed

section \<open>Printing integers\<close>

definition conv_digits :: string where
  "conv_digits = ''9876543210123456789''"

text \<open>\<open>zero[lsd]\<close>, where \<open>zero = digits + 9\<close> and \<open>lsd\<close> may be negative.\<close>

definition zero_at :: "int \<Rightarrow> char" where
  "zero_at lsd = conv_digits ! nat (9 + lsd)"

text \<open>The \<open>do\<close> loop: digits from the least significant on, with C's truncating division.\<close>

function convert_loop :: "int \<Rightarrow> string" where
  "convert_loop i =
     (let c = zero_at (i smod 10); i' = i sdiv 10
      in if i' \<noteq> 0 then c # convert_loop i' else [c])"
  by pat_completeness auto
termination
proof (relation "measure (\<lambda>i. nat \<bar>i\<bar>)")
  fix i c i' :: int
  assume "i' = i sdiv 10" "i' \<noteq> 0"
  then show "(i', i) \<in> measure (\<lambda>i. nat \<bar>i\<bar>)"
    by (auto simp: signed_divide_int_def sgn_if abs_mult split: if_splits)
qed simp

declare convert_loop.simps [simp del]

text \<open>\<open>convert\<close>: what it leaves in \<open>buf\<close> (without the final NUL); it returns the length.\<close>

definition convert :: "int \<Rightarrow> string" where
  "convert v = rev (convert_loop v @ (if v < 0 then ''-'' else []))"

section \<open>Decimal numerals, as a reference\<close>

definition digit_char :: "nat \<Rightarrow> char" where
  "digit_char d = ''0123456789'' ! d"

fun decimal :: "nat \<Rightarrow> string" where
  "decimal n = (if n < 10 then [digit_char n] else decimal (n div 10) @ [digit_char (n mod 10)])"

declare decimal.simps [simp del]

definition int_decimal :: "int \<Rightarrow> string" where
  "int_decimal v = (if v < 0 then ''-'' @ decimal (nat (- v)) else decimal (nat v))"

definition digit_val :: "char \<Rightarrow> nat" where
  "digit_val c = of_char c - 48"

definition parse_decimal :: "string \<Rightarrow> nat" where
  "parse_decimal s = foldl (\<lambda>a c. 10 * a + digit_val c) 0 s"

definition parse_int :: "string \<Rightarrow> int" where
  "parse_int s =
     (case s of [] \<Rightarrow> 0
      | c # cs \<Rightarrow> if c = CHR ''-'' then - int (parse_decimal cs) else int (parse_decimal s))"

lemma zero_at_digit: "\<bar>d\<bar> \<le> 9 \<Longrightarrow> zero_at d = digit_char (nat \<bar>d\<bar>)"
proof -
  assume "\<bar>d\<bar> \<le> 9"
  then have "d = -9 \<or> d = -8 \<or> d = -7 \<or> d = -6 \<or> d = -5 \<or> d = -4 \<or> d = -3 \<or> d = -2 \<or>
    d = -1 \<or> d = 0 \<or> d = 1 \<or> d = 2 \<or> d = 3 \<or> d = 4 \<or> d = 5 \<or> d = 6 \<or> d = 7 \<or> d = 8 \<or> d = 9"
    by presburger
  then show ?thesis
    by (auto simp: zero_at_def conv_digits_def digit_char_def)
qed

lemma abs_sdiv_10: "nat \<bar>i sdiv 10\<bar> = nat \<bar>i\<bar> div 10"
  by (simp add: signed_divide_int_def abs_mult sgn_if nat_div_distrib)

lemma abs_smod_10: "nat \<bar>i smod 10\<bar> = nat \<bar>i\<bar> mod 10"
  by (simp add: smod_int_alt_def abs_mult sgn_if nat_mod_distrib)

lemma convert_loop_decimal: "convert_loop i = rev (decimal (nat \<bar>i\<bar>))"
proof (induction i rule: convert_loop.induct)
  case (1 i)
  have "nat \<bar>i smod 10\<bar> \<le> 9" by (simp add: abs_smod_10)
  then have "\<bar>i smod 10\<bar> \<le> 9" by linarith
  then have c: "zero_at (i smod 10) = digit_char (nat \<bar>i\<bar> mod 10)"
    by (simp add: zero_at_digit abs_smod_10)
  have z: "i sdiv 10 = 0 \<longleftrightarrow> nat \<bar>i\<bar> < 10"
    using abs_sdiv_10 [of i] by auto
  show ?case
  proof (cases "nat \<bar>i\<bar> < 10")
    case True
    with z c show ?thesis
      by (simp add: convert_loop.simps [of i] decimal.simps [of "nat \<bar>i\<bar>"])
  next
    case False
    with z have "i sdiv 10 \<noteq> 0" by simp
    with 1 [OF refl refl] False c show ?thesis
      by (simp add: convert_loop.simps [of i] decimal.simps [of "nat \<bar>i\<bar>"] abs_sdiv_10)
  qed
qed

lemma convert_int_decimal: "convert v = int_decimal v"
  by (simp add: convert_def int_decimal_def convert_loop_decimal)

lemma less_10_cases:
  "d < (10 :: nat) \<Longrightarrow> d = 0 \<or> d = 1 \<or> d = 2 \<or> d = 3 \<or> d = 4 \<or> d = 5 \<or> d = 6 \<or> d = 7 \<or> d = 8 \<or> d = 9"
  by presburger

lemma digit_val_char [simp]: "d < 10 \<Longrightarrow> digit_val (digit_char d) = d"
  by (drule less_10_cases) (auto simp: digit_val_def digit_char_def)

lemma digit_char_not_minus: "d < 10 \<Longrightarrow> digit_char d \<noteq> CHR ''-''"
  by (drule less_10_cases) (auto simp: digit_char_def)

lemma parse_decimal_decimal: "parse_decimal (decimal n) = n"
proof (induction n rule: decimal.induct)
  case (1 n)
  show ?case
  proof (cases "n < 10")
    case True
    then show ?thesis by (simp add: decimal.simps [of n] parse_decimal_def)
  next
    case False
    with 1 show ?thesis
      by (simp add: decimal.simps [of n] parse_decimal_def)
  qed
qed

lemma decimal_head: "\<exists>d ds. d < 10 \<and> decimal n = digit_char d # ds"
proof (induction n rule: decimal.induct)
  case (1 n)
  show ?case
  proof (cases "n < 10")
    case True
    then show ?thesis by (auto simp: decimal.simps [of n])
  next
    case False
    with 1 show ?thesis by (auto simp: decimal.simps [of n])
  qed
qed

lemma parse_int_decimal: "parse_int (int_decimal v) = v"
proof (cases "v < 0")
  case True
  then show ?thesis by (simp add: int_decimal_def parse_int_def parse_decimal_decimal)
next
  case False
  obtain d ds where d: "d < 10" "decimal (nat v) = digit_char d # ds"
    using decimal_head by blast
  with False show ?thesis
    using parse_decimal_decimal [of "nat v"] digit_char_not_minus [OF d(1)]
    by (simp add: int_decimal_def parse_int_def)
qed

lemma length_decimal: "n < 10 ^ k \<Longrightarrow> 0 < k \<Longrightarrow> length (decimal n) \<le> k"
proof (induction k arbitrary: n)
  case 0
  then show ?case by simp
next
  case (Suc k)
  show ?case
  proof (cases "n < 10")
    case True
    then show ?thesis by (simp add: decimal.simps [of n])
  next
    case False
    then have "0 < k" using Suc.prems(1) by (cases k) auto
    moreover have "n div 10 < 10 ^ k" using Suc.prems(1) by (simp add: less_mult_imp_div_less mult.commute)
    ultimately show ?thesis
      using Suc.IH [of "n div 10"] False by (simp add: decimal.simps [of n])
  qed
qed

lemma length_convert:
  assumes "- (2 ^ 63) \<le> v" "v < 2 ^ 64"
  shows "length (convert v) \<le> 20"
proof (cases "v < 0")
  case True
  then have "nat (- v) < 10 ^ 19" using assms(1) by simp
  then have "length (decimal (nat (- v))) \<le> 19" by (rule length_decimal) simp
  with True show ?thesis by (simp add: convert_int_decimal int_decimal_def)
next
  case False
  then have "nat v < 10 ^ 20" using assms(2) by simp
  then have "length (decimal (nat v)) \<le> 20" by (rule length_decimal) simp
  with False show ?thesis by (simp add: convert_int_decimal int_decimal_def)
qed

section \<open>LogStream\<close>

definition kMaxNumericSize :: int where
  "kMaxNumericSize = 32"

text \<open>
  \<open>convert\<close> writes the numeral and a final NUL at \<open>current()\<close>, behind the buffer's back;
  \<open>add\<close> then moves \<open>cur_\<close> over the numeral.
\<close>

definition formatInteger :: "fixed_buffer \<Rightarrow> int \<Rightarrow> fixed_buffer res" where
  "formatInteger fb v =
     (if kMaxNumericSize \<le> fb_avail fb
      then bindE (mem_write (fb_data fb) (fb_cur fb) (convert v @ [CHR 0x00])) (\<lambda>d.
           Inr (fb_add (fb\<lparr>fb_data := d\<rparr>) (length (convert v))))
      else Inr fb)"

text \<open>
  A floating-point insertion prints with \<open>snprintf\<close>, limited to \<open>kMaxNumericSize\<close> bytes with
  the NUL; \<open>s\<close> is the text of the number, and the value returned its full length.
\<close>

definition formatFloating :: "fixed_buffer \<Rightarrow> string \<Rightarrow> fixed_buffer res" where
  "formatFloating fb s =
     (if kMaxNumericSize \<le> fb_avail fb
      then bindE (mem_write (fb_data fb) (fb_cur fb)
                    (take (nat kMaxNumericSize - 1) s @ [CHR 0x00])) (\<lambda>d.
           Inr (fb_add (fb\<lparr>fb_data := d\<rparr>) (length s)))
      else Inr fb)"

text \<open>
  The operands of \<open>operator<<\<close>, one constructor per overload; \<open>'d\<close> is the type of
  floating-point values and \<open>fmt\<close> their \<open>"%.12g"\<close> text. A null \<open>const char*\<close> is
  \<open>None\<close>.
\<close>

datatype 'd log_arg =
    LBool bool
  | LShort "16 word" | LUShort "16 word"
  | LInt "32 word" | LUInt "32 word"
  | LLong "64 word" | LULong "64 word"
  | LLongLong "64 word" | LULongLong "64 word"
  | LFloat 'd | LDouble 'd | LLongDouble 'd
  | LChar char
  | LCString "string option" | LUCString "string option"
  | LString string

fun ls_put :: "('d \<Rightarrow> string) \<Rightarrow> fixed_buffer \<Rightarrow> 'd log_arg \<Rightarrow> fixed_buffer res" where
  "ls_put fmt fb (LBool v) = fb_append fb (if v then ''1'' else ''0'')"
| "ls_put fmt fb (LShort v) = formatInteger fb (sint v)"
| "ls_put fmt fb (LUShort v) = formatInteger fb (uint v)"
| "ls_put fmt fb (LInt v) = formatInteger fb (sint v)"
| "ls_put fmt fb (LUInt v) = formatInteger fb (uint v)"
| "ls_put fmt fb (LLong v) = formatInteger fb (sint v)"
| "ls_put fmt fb (LULong v) = formatInteger fb (uint v)"
| "ls_put fmt fb (LLongLong v) = formatInteger fb (sint v)"
| "ls_put fmt fb (LULongLong v) = formatInteger fb (uint v)"
| "ls_put fmt fb (LFloat v) = formatFloating fb (fmt v)"
| "ls_put fmt fb (LDouble v) = formatFloating fb (fmt v)"
| "ls_put fmt fb (LLongDouble v) = formatFloating fb (fmt v)"
| "ls_put fmt fb (LChar v) = fb_append fb [v]"
| "ls_put fmt fb (LCString str) =
     fb_append fb (case str of Some s \<Rightarrow> s | None \<Rightarrow> ''(null)'')"
| "ls_put fmt fb (LUCString str) =
     fb_append fb (case str of Some s \<Rightarrow> s | None \<Rightarrow> ''(null)'')"
| "ls_put fmt fb (LString v) = fb_append fb v"

text \<open>A chain \<open>stream << a << b << ...\<close>.\<close>

fun ls_puts :: "('d \<Rightarrow> string) \<Rightarrow> fixed_buffer \<Rightarrow> 'd log_arg list \<Rightarrow> fixed_buffer res" where
  "ls_puts fmt fb [] = Inr fb"
| "ls_puts fmt fb (a # as) = bindE (ls_put fmt fb a) (\<lambda>fb'. ls_puts fmt fb' as)"

subsection \<open>What an insertion means\<close>

fun render :: "('d \<Rightarrow> string) \<Rightarrow> 'd log_arg \<Rightarrow> string" where
  "render fmt (LBool v) = (if v then ''1'' else ''0'')"
| "render fmt (LShort v) = int_decimal (sint v)"
| "render fmt (LUShort v) = int_decimal (uint v)"
| "render fmt (LInt v) = int_decimal (sint v)"
| "render fmt (LUInt v) = int_decimal (uint v)"
| "render fmt (LLong v) = int_decimal (sint v)"
| "render fmt (LULong v) = int_decimal (uint v)"
| "render fmt (LLongLong v) = int_decimal (sint v)"
| "render fmt (LULongLong v) = int_decimal (uint v)"
| "render fmt (LFloat v) = fmt v"
| "render fmt (LDouble v) = fmt v"
| "render fmt (LLongDouble v) = fmt v"
| "render fmt (LChar v) = [v]"
| "render fmt (LCString str) = (case str of Some s \<Rightarrow> s | None \<Rightarrow> ''(null)'')"
| "render fmt (LUCString str) = (case str of Some s \<Rightarrow> s | None \<Rightarrow> ''(null)'')"
| "render fmt (LString v) = v"

text \<open>The stream's buffer from outside: \<open>append\<close>, \<open>buffer\<close> and \<open>resetBuffer\<close>.\<close>

definition ls_append :: "fixed_buffer \<Rightarrow> string \<Rightarrow> fixed_buffer res" where
  "ls_append fb data = fb_append fb data"

definition ls_buffer :: "fixed_buffer \<Rightarrow> fixed_buffer" where
  "ls_buffer fb = fb"

definition ls_resetBuffer :: "fixed_buffer \<Rightarrow> fixed_buffer" where
  "ls_resetBuffer fb = fb_reset fb"

lemma ls_resetBuffer_text: "fb_text (ls_buffer (ls_resetBuffer fb)) = []"
  by (simp add: ls_buffer_def ls_resetBuffer_def)

text \<open>Numbers need \<open>kMaxNumericSize\<close> free bytes, texts one more than their length.\<close>

fun room_for :: "'d log_arg \<Rightarrow> string \<Rightarrow> nat" where
  "room_for (LBool v) s = length s + 1"
| "room_for (LChar v) s = length s + 1"
| "room_for (LCString v) s = length s + 1"
| "room_for (LUCString v) s = length s + 1"
| "room_for (LString v) s = length s + 1"
| "room_for _ s = 32"

lemma fb_write_current:
  assumes inv: "fb_inv SIZE fb" and room: "fb_cur fb + 32 \<le> SIZE" and len: "length s < 32"
  shows "\<exists>d. mem_write (fb_data fb) (fb_cur fb) (s @ [c]) = Inr d \<and>
             fb_inv SIZE (fb_add (fb\<lparr>fb_data := d\<rparr>) (length s)) \<and>
             fb_text (fb_add (fb\<lparr>fb_data := d\<rparr>) (length s)) = fb_text fb @ s \<and>
             fb_cur (fb_add (fb\<lparr>fb_data := d\<rparr>) (length s)) = fb_cur fb + length s"
  using assms by (simp add: fb_inv_def fb_add_def fb_text_def)

lemma formatInteger_spec:
  assumes inv: "fb_inv SIZE fb" and v: "- (2 ^ 63) \<le> v" "v < 2 ^ 64"
  shows "\<exists>fb'. formatInteger fb v = Inr fb' \<and> fb_inv SIZE fb' \<and>
     fb_text fb' = (if fb_cur fb + 32 \<le> SIZE then fb_text fb @ int_decimal v else fb_text fb)"
proof (cases "fb_cur fb + 32 \<le> SIZE")
  case True
  have "length (convert v) < 32" using length_convert [OF v] by simp
  with fb_write_current [OF inv True, of "convert v" "CHR 0x00"] True inv show ?thesis
    by (auto simp: formatInteger_def kMaxNumericSize_def fb_avail_def fb_inv_def convert_int_decimal)
next
  case False
  with inv show ?thesis
    by (simp add: formatInteger_def kMaxNumericSize_def fb_avail_def fb_inv_def)
qed

lemma formatFloating_spec:
  assumes inv: "fb_inv SIZE fb" and len: "length s < 32"
  shows "\<exists>fb'. formatFloating fb s = Inr fb' \<and> fb_inv SIZE fb' \<and>
     fb_text fb' = (if fb_cur fb + 32 \<le> SIZE then fb_text fb @ s else fb_text fb)"
proof (cases "fb_cur fb + 32 \<le> SIZE")
  case True
  with fb_write_current [OF inv True len, of "CHR 0x00"] len inv show ?thesis
    by (auto simp: formatFloating_def kMaxNumericSize_def fb_avail_def fb_inv_def)
next
  case False
  with inv show ?thesis
    by (simp add: formatFloating_def kMaxNumericSize_def fb_avail_def fb_inv_def)
qed

lemma sint16_range: "- (2 ^ 63) \<le> sint (v :: 16 word)" "sint (v :: 16 word) < 2 ^ 64"
  using sint_range_size [of v] by (simp_all add: word_size)

lemma sint32_range: "- (2 ^ 63) \<le> sint (v :: 32 word)" "sint (v :: 32 word) < 2 ^ 64"
  using sint_range_size [of v] by (simp_all add: word_size)

lemma sint64_range: "- (2 ^ 63) \<le> sint (v :: 64 word)" "sint (v :: 64 word) < 2 ^ 64"
  using sint_range_size [of v] by (simp_all add: word_size)

lemma uint_range:
  "- (2 ^ 63) \<le> uint (v :: 16 word)" "uint (v :: 16 word) < 2 ^ 64"
  "- (2 ^ 63) \<le> uint (w :: 32 word)" "uint (w :: 32 word) < 2 ^ 64"
  "- (2 ^ 63) \<le> uint (x :: 64 word)" "uint (x :: 64 word) < 2 ^ 64"
proof -
  have p: "- (2 ^ 63) \<le> (0 :: int)" by simp
  show "- (2 ^ 63) \<le> uint (v :: 16 word)" "- (2 ^ 63) \<le> uint (w :: 32 word)"
    "- (2 ^ 63) \<le> uint (x :: 64 word)"
    by (rule order.trans [OF p], simp)+
  show "uint (v :: 16 word) < 2 ^ 64" "uint (w :: 32 word) < 2 ^ 64" "uint (x :: 64 word) < 2 ^ 64"
    by (rule order.strict_trans2 [OF unsigned_less], simp)+
qed

lemmas int_ranges = sint16_range sint32_range sint64_range uint_range

lemma ls_put_spec:
  assumes inv: "fb_inv SIZE fb" and fmt: "\<And>d. length (fmt d) < 32"
    and len: "length (render fmt a) < 2 ^ 31"
  shows "\<exists>fb'. ls_put fmt fb a = Inr fb' \<and> fb_inv SIZE fb' \<and>
     fb_text fb' = (if fb_cur fb + room_for a (render fmt a) \<le> SIZE
                    then fb_text fb @ render fmt a else fb_text fb)"
proof -
  have string_put: "\<exists>fb'. fb_append fb s = Inr fb' \<and> fb_inv SIZE fb' \<and>
      fb_text fb' = (if fb_cur fb + (length s + 1) \<le> SIZE then fb_text fb @ s else fb_text fb)"
    if "length s < 2 ^ 31" for s
    using fb_append_spec [OF inv that] by (simp only: add_Suc_right Suc_eq_plus1 [symmetric] Suc_le_eq)
  note number = formatInteger_spec [OF inv] formatFloating_spec [OF inv fmt]
  show ?thesis
    by (insert len; cases a; simp only: ls_put.simps render.simps room_for.simps;
        (rule string_put | rule number); (assumption | rule int_ranges)?)
qed

section \<open>Properties\<close>

text \<open>\<open>convert\<close> prints every integer, the most negative one included, as its decimal
  numeral: reading the text back gives the integer, and it is the text of the reference
  definition (a minus sign for negative values, no leading zeros).\<close>
theorem convert_roundtrip:
  "parse_int (convert v) = v \<and> convert v = int_decimal v"
  by (simp add: convert_int_decimal parse_int_decimal)

text \<open>A stream insertion is all or nothing and memory safe: on a well-formed buffer every
  overload of \<open>operator<<\<close> returns, appends exactly the text of its operand when the room it
  asks for is free (32 bytes for a number, one more than its length for a text), and otherwise
  leaves the text as it was; the buffer stays well-formed. Assumed: a formatted floating-point
  value has at most 31 characters and a text operand less than 2^31.\<close>
theorem stream_insertion:
  assumes "fb_inv SIZE fb" and "\<And>d. length (fmt d) < 32" and "length (render fmt a) < 2 ^ 31"
  shows "\<exists>fb'. ls_put fmt fb a = Inr fb' \<and> fb_inv SIZE fb' \<and>
     fb_text fb' = (if fb_cur fb + room_for a (render fmt a) \<le> SIZE
                    then fb_text fb @ render fmt a else fb_text fb)"
  by (rule ls_put_spec [OF assms])

theorem stream_insertion_witness:
  "\<exists>fb'. ls_put (\<lambda>_ :: unit. ''1.5'') (fb_new 4000) (LInt (- 2147483648)) = Inr fb' \<and>
     fb_text fb' = ''-2147483648''"
proof -
  have i: "fb_inv 4000 (fb_new 4000)" by simp
  have v: "sint (- 2147483648 :: 32 word) = - 2147483648" by simp
  have "int_decimal (- 2147483648) = ''-2147483648''"
    by (simp add: int_decimal_def decimal.simps digit_char_def)
  then show ?thesis
    using stream_insertion [OF i, of "\<lambda>_. ''1.5''" "LInt (- 2147483648)"] v by auto
qed

text \<open>The narrowing cast in \<open>FixedBuffer::append\<close>: a text of 2^31 to 2^32 - 1 bytes has
  a negative length after \<open>static_cast<int>(len)\<close>, so the room check passes and \<open>memcpy\<close>
  writes past the end of the array, whatever the state of the buffer.\<close>
theorem fb_append_huge_overflows:
  assumes "fb_inv SIZE fb" and "2 ^ 31 \<le> length buf" and "length buf < 2 ^ 32"
  shows "fb_append fb buf = Inl Out_of_bounds"
proof -
  have n: "unat (vec_size buf) = length buf"
    using assms(3) by (intro unat_vec_size) simp
  have "uint (ucast (vec_size buf) :: 32 word) = take_bit 32 (uint (vec_size buf))"
    by (simp add: unsigned_ucast_eq)
  also have "\<dots> = take_bit 32 (int (length buf))"
    by (simp only: uint_nat n)
  also have t: "take_bit 32 (int (length buf)) = int (length buf)"
    by (rule take_bit_int_eq_self) (use assms(3) in \<open>simp_all only: of_nat_0_le_iff of_nat_less_numeral_power_cancel_iff\<close>)
  finally have u: "uint (ucast (vec_size buf) :: 32 word) = int (length buf)" .
  have "size_to_int (vec_size buf) = signed_take_bit 31 (int (length buf))"
    by (simp add: size_to_int_def sint_uint u)
  also have "\<dots> = int (length buf) - 2 ^ 32"
  proof -
    have "length buf div 2 ^ 31 = 1"
      using assms(2,3) by (intro div_nat_eqI) simp_all
    then have "int (length buf) div 2 ^ 31 = 1"
      by (metis of_nat_1 of_nat_numeral of_nat_power zdiv_int)
    then have "bit (int (length buf)) 31"
      by (simp add: bit_iff_odd)
    then show ?thesis using t
      by (simp add: signed_take_bit_eq_take_bit_minus)
  qed
  also have "\<dots> < 0" using assms(3) by simp
  finally have "size_to_int (vec_size buf) < fb_avail fb"
    using assms(1) by (simp add: fb_avail_def fb_inv_def)
  moreover have "\<not> fb_cur fb + length buf \<le> length (fb_data fb)"
    using assms(1,2) by (simp add: fb_inv_def)
  ultimately show ?thesis by (simp add: fb_append_def mem_write_def)
qed

theorem fb_append_huge_overflows_witness:
  "\<exists>buf. length buf = 2 ^ 31 \<and> fb_append (fb_new 4000) buf = Inl Out_of_bounds"
proof -
  have "fb_append (fb_new 4000) (replicate (2 ^ 31) (CHR ''x'')) = Inl Out_of_bounds"
    by (rule fb_append_huge_overflows [of 4000]) simp_all
  then show ?thesis by (intro exI [of _ "replicate (2 ^ 31) (CHR ''x'')"]) simp
qed

end
