(* ===== verification/Log_File.thy ===== *)
theory Log_File
  imports Prelude
begin

text \<open>
  The log file: \<open>AppendFile\<close> (\<open>base/FileUtil.h\<close>, \<open>base/FileUtil.cpp\<close>), which writes a line
  with \<open>fwrite_unlocked\<close> until all of it is accepted or a write accepts nothing, and
  \<open>LogFile\<close> (\<open>base/LogFile.h\<close>, \<open>base/LogFile.cpp\<close>), which flushes after every
  \<open>flushEveryN\<close> lines. What \<open>fwrite_unlocked\<close> accepts is the environment's: \<open>wr k n\<close> is
  the number of bytes its \<open>k\<close>-th call accepts out of \<open>n\<close> offered; its documentation promises
  \<open>wr k n \<le> n\<close>. \<open>fopen\<close> is taken to succeed; the code does not check it.
\<close>

section \<open>AppendFile\<close>

text \<open>The bytes the stream accepted so far, how many of them were flushed, the number of calls
  of \<open>fwrite_unlocked\<close>, and how often the failure message was printed.\<close>

record append_file =
  af_out :: string
  af_flushed :: nat
  af_calls :: nat
  af_errors :: nat

definition af_new :: append_file where
  "af_new = \<lparr>af_out = [], af_flushed = 0, af_calls = 0, af_errors = 0\<rparr>"

definition af_write :: "(nat \<Rightarrow> nat \<Rightarrow> nat) \<Rightarrow> append_file \<Rightarrow> string \<Rightarrow> nat \<times> append_file" where
  "af_write wr f line =
     (let n = wr (af_calls f) (length line)
      in (n, f\<lparr>af_out := af_out f @ take n line, af_calls := af_calls f + 1\<rparr>))"

text \<open>The \<open>while\<close> loop of \<open>append\<close>; \<open>err\<close> is what \<open>ferror\<close> answers.\<close>

partial_function (option) af_append_loop ::
  "(nat \<Rightarrow> nat \<Rightarrow> nat) \<Rightarrow> bool \<Rightarrow> append_file \<Rightarrow> string \<Rightarrow> nat \<Rightarrow> nat \<Rightarrow> append_file option" where
  "af_append_loop wr err f line n remain =
     (if 0 < remain
      then (case af_write wr f (take remain (drop n line)) of (x, f1) \<Rightarrow>
        if x = 0
        then Some (if err then f1\<lparr>af_errors := af_errors f1 + 1\<rparr> else f1)
        else af_append_loop wr err f1 line (n + x) (length line - (n + x)))
      else Some f)"

definition af_append ::
  "(nat \<Rightarrow> nat \<Rightarrow> nat) \<Rightarrow> bool \<Rightarrow> append_file \<Rightarrow> string \<Rightarrow> append_file option" where
  "af_append wr err f line =
     (case af_write wr f line of (n, f1) \<Rightarrow> af_append_loop wr err f1 line n (length line - n))"

definition af_flush :: "append_file \<Rightarrow> append_file" where
  "af_flush f = f\<lparr>af_flushed := length (af_out f)\<rparr>"

section \<open>LogFile\<close>

record log_file =
  lf_flushEveryN :: int
  lf_count :: int
  lf_file :: append_file

definition lf_new :: "int \<Rightarrow> log_file" where
  "lf_new n = \<lparr>lf_flushEveryN = n, lf_count = 0, lf_file = af_new\<rparr>"

definition lf_append ::
  "(nat \<Rightarrow> nat \<Rightarrow> nat) \<Rightarrow> bool \<Rightarrow> log_file \<Rightarrow> string \<Rightarrow> log_file option" where
  "lf_append wr err lf line =
     map_option (\<lambda>f.
       let c = lf_count lf + 1 in
       if lf_flushEveryN lf \<le> c
       then lf\<lparr>lf_file := af_flush f, lf_count := 0\<rparr>
       else lf\<lparr>lf_file := f, lf_count := c\<rparr>)
     (af_append wr err (lf_file lf) line)"

definition lf_flush :: "log_file \<Rightarrow> log_file" where
  "lf_flush lf = lf\<lparr>lf_file := af_flush (lf_file lf)\<rparr>"

text \<open>Writing several lines, as the logging thread does with its buffers.\<close>

fun sink_all :: "('f \<Rightarrow> string \<Rightarrow> 'f option) \<Rightarrow> 'f \<Rightarrow> string list \<Rightarrow> 'f option" where
  "sink_all put f [] = Some f"
| "sink_all put f (l # ls) = Option.bind (put f l) (\<lambda>f'. sink_all put f' ls)"

section \<open>The loop ends and writes a prefix, all of it when no write stalls\<close>

definition bounded_writes :: "(nat \<Rightarrow> nat \<Rightarrow> nat) \<Rightarrow> bool" where
  "bounded_writes wr \<longleftrightarrow> (\<forall>k n. wr k n \<le> n)"

definition progressing_writes :: "(nat \<Rightarrow> nat \<Rightarrow> nat) \<Rightarrow> bool" where
  "progressing_writes wr \<longleftrightarrow> (\<forall>k n. wr k n \<le> n \<and> (0 < n \<longrightarrow> 0 < wr k n))"

lemma progressing_bounded: "progressing_writes wr \<Longrightarrow> bounded_writes wr"
  by (simp add: progressing_writes_def bounded_writes_def)

lemma af_append_loop_ends:
  assumes "bounded_writes wr" and "n \<le> length line"
  shows "\<exists>f' m. af_append_loop wr err f line n (length line - n) = Some f' \<and>
           n + m \<le> length line \<and> af_out f' = af_out f @ take m (drop n line) \<and>
           af_flushed f' = af_flushed f \<and>
           (progressing_writes wr \<longrightarrow> n + m = length line \<and> af_errors f' = af_errors f)"
  using assms(2)
proof (induction "length line - n" arbitrary: n f rule: less_induct)
  case less
  let ?r = "length line - n"
  show ?case
  proof (cases "?r = 0")
    case True
    with less.prems show ?thesis
      by (intro exI [of _ f] exI [of _ 0]) (simp add: af_append_loop.simps [of wr err f])
  next
    case False
    define x where "x = wr (af_calls f) ?r"
    define f1 where "f1 = f\<lparr>af_out := af_out f @ take x (drop n line), af_calls := af_calls f + 1\<rparr>"
    have xr: "x \<le> ?r" using assms(1) by (simp add: bounded_writes_def x_def)
    have w: "af_write wr f (take ?r (drop n line)) = (x, f1)"
      by (simp add: af_write_def x_def f1_def Let_def)
    show ?thesis
    proof (cases "x = 0")
      case True
      then have "\<not> progressing_writes wr"
        using False unfolding progressing_writes_def x_def by (metis less_irrefl neq0_conv)
      with True False w less.prems show ?thesis
        by (intro exI [of _ "if err then f1\<lparr>af_errors := af_errors f1 + 1\<rparr> else f1"] exI [of _ 0])
          (simp add: af_append_loop.simps [of wr err f] f1_def)
    next
      case x0: False
      have lt: "length line - (n + x) < ?r" "n + x \<le> length line"
        using False x0 xr by auto
      obtain f' m where f': "af_append_loop wr err f1 line (n + x) (length line - (n + x)) = Some f'"
        "n + x + m \<le> length line" "af_out f' = af_out f1 @ take m (drop (n + x) line)"
        "af_flushed f' = af_flushed f1"
        "progressing_writes wr \<longrightarrow> n + x + m = length line \<and> af_errors f' = af_errors f1"
        using less.hyps [OF lt] by blast
      have "take x (drop n line) @ take m (drop (n + x) line) = take (x + m) (drop n line)"
        by (simp add: take_add add.commute [of n])
      then show ?thesis
        using f' False x0 w
        by (intro exI [of _ f'] exI [of _ "x + m"])
          (simp add: af_append_loop.simps [of wr err f] f1_def add.assoc)
    qed
  qed
qed

lemma af_append_ends:
  assumes "bounded_writes wr"
  shows "\<exists>f' m. af_append wr err f line = Some f' \<and> m \<le> length line \<and>
           af_out f' = af_out f @ take m line \<and> af_flushed f' = af_flushed f \<and>
           (progressing_writes wr \<longrightarrow> m = length line \<and> af_errors f' = af_errors f)"
proof -
  define n where "n = wr (af_calls f) (length line)"
  define f1 where "f1 = f\<lparr>af_out := af_out f @ take n line, af_calls := af_calls f + 1\<rparr>"
  have w: "af_write wr f line = (n, f1)" by (simp add: af_write_def n_def f1_def Let_def)
  have n: "n \<le> length line" using assms by (simp add: bounded_writes_def n_def)
  obtain f' m where "af_append_loop wr err f1 line n (length line - n) = Some f'"
    "n + m \<le> length line" "af_out f' = af_out f1 @ take m (drop n line)"
    "af_flushed f' = af_flushed f1"
    "progressing_writes wr \<longrightarrow> n + m = length line \<and> af_errors f' = af_errors f1"
    using af_append_loop_ends [OF assms n] by blast
  then show ?thesis
    using w by (intro exI [of _ f'] exI [of _ "n + m"]) (simp add: af_append_def f1_def take_add)
qed

lemma lf_append_complete:
  assumes "progressing_writes wr"
  shows "\<exists>lf'. lf_append wr err lf line = Some lf' \<and>
     af_out (lf_file lf') = af_out (lf_file lf) @ line \<and> lf_flushEveryN lf' = lf_flushEveryN lf \<and>
     (if lf_flushEveryN lf \<le> lf_count lf + 1
      then lf_count lf' = 0 \<and> af_flushed (lf_file lf') = length (af_out (lf_file lf'))
      else lf_count lf' = lf_count lf + 1 \<and> af_flushed (lf_file lf') = af_flushed (lf_file lf))"
proof -
  obtain f' where "af_append wr err (lf_file lf) line = Some f'"
    "af_out f' = af_out (lf_file lf) @ line" "af_flushed f' = af_flushed (lf_file lf)"
    using af_append_ends [OF progressing_bounded [OF assms], of err "lf_file lf" line] assms by auto
  then show ?thesis by (auto simp: lf_append_def af_flush_def Let_def)
qed

lemma sink_all_snoc:
  "sink_all put f (ls @ [l]) = Option.bind (sink_all put f ls) (\<lambda>f'. put f' l)"
  by (induction ls arbitrary: f) (simp_all add: bind_assoc)

lemma sink_all_counts:
  assumes "progressing_writes wr" and "0 < N"
  shows "\<exists>lf. sink_all (lf_append wr err) (lf_new (int N)) lines = Some lf \<and> lf_flushEveryN lf = int N \<and>
     af_out (lf_file lf) = concat lines \<and> lf_count lf = int (length lines mod N) \<and>
     af_flushed (lf_file lf) =
       length (concat (take (length lines - length lines mod N) lines))"
proof (induction lines rule: rev_induct)
  case Nil
  then show ?case by (simp add: lf_new_def af_new_def)
next
  case (snoc l ls)
  let ?k = "length ls"
  from snoc obtain lf where lf: "sink_all (lf_append wr err) (lf_new (int N)) ls = Some lf"
    "lf_flushEveryN lf = int N"
    "af_out (lf_file lf) = concat ls" "lf_count lf = int (?k mod N)"
    "af_flushed (lf_file lf) = length (concat (take (?k - ?k mod N) ls))"
    by blast
  obtain lf' where lf': "lf_append wr err lf l = Some lf'"
    "af_out (lf_file lf') = concat ls @ l" "lf_flushEveryN lf' = int N"
    "if int N \<le> int (?k mod N) + 1
     then lf_count lf' = 0 \<and> af_flushed (lf_file lf') = length (af_out (lf_file lf'))
     else lf_count lf' = int (?k mod N) + 1 \<and> af_flushed (lf_file lf') = af_flushed (lf_file lf)"
    using lf_append_complete [OF assms(1), of err lf l] lf(2-4) by auto
  have run: "sink_all (lf_append wr err) (lf_new (int N)) (ls @ [l]) = Some lf'"
    using lf(1) lf'(1) by (simp add: sink_all_snoc)
  show ?case
  proof (cases "Suc (?k mod N) = N")
    case True
    then have "Suc ?k mod N = 0" by (simp add: mod_Suc)
    with True run lf' show ?thesis by simp
  next
    case False
    have "?k mod N < N" using assms(2) by simp
    with False have less: "Suc (?k mod N) < N" by linarith
    then have "Suc ?k mod N = Suc (?k mod N)" by (simp add: mod_Suc)
    with less run lf' lf(5) show ?thesis by simp
  qed
qed

section \<open>The file as a sink of texts\<close>

text \<open>
  What the logging thread relies on: a sink in good order takes every text whole and behind
  the earlier ones, and flushing changes nothing of what it holds.
\<close>

locale log_sink =
  fixes good :: "'f \<Rightarrow> bool"
    and out :: "'f \<Rightarrow> string"
    and put :: "'f \<Rightarrow> string \<Rightarrow> 'f option"
    and flush :: "'f \<Rightarrow> 'f"
  assumes put_appends: "good f \<Longrightarrow> \<exists>f'. put f s = Some f' \<and> good f' \<and> out f' = out f @ s"
    and flush_keeps: "good f \<Longrightarrow> good (flush f) \<and> out (flush f) = out f"
begin

lemma sink_all_appends:
  assumes "good f"
  shows "\<exists>f'. sink_all put f ls = Some f' \<and> good f' \<and> out f' = out f @ concat ls"
  using assms
proof (induction ls arbitrary: f)
  case Nil
  then show ?case by simp
next
  case (Cons l ls)
  then obtain f1 where f1: "put f l = Some f1" "good f1" "out f1 = out f @ l"
    using put_appends by blast
  with Cons.IH [OF f1(2)] show ?case by auto
qed

end

interpretation logfile: log_sink "\<lambda>_. progressing_writes wr" "\<lambda>lf. af_out (lf_file lf)"
  "lf_append wr err" lf_flush for wr err
proof unfold_locales
  fix f s
  assume "progressing_writes wr"
  from lf_append_complete [OF this, of err f s]
  show "\<exists>f'. lf_append wr err f s = Some f' \<and> progressing_writes wr \<and>
          af_out (lf_file f') = af_out (lf_file f) @ s"
    using \<open>progressing_writes wr\<close> by blast
qed (simp add: lf_flush_def af_flush_def)

section \<open>Properties\<close>

text \<open>\<open>AppendFile::append\<close> always returns, having written a prefix of the line behind
  what was there; if every write accepts at least one byte it writes the whole line and
  reports no error.\<close>
theorem append_file_total:
  assumes "bounded_writes wr"
  shows "\<exists>f' m. af_append wr err f line = Some f' \<and> m \<le> length line \<and>
           af_out f' = af_out f @ take m line \<and>
           (progressing_writes wr \<longrightarrow> m = length line \<and> af_errors f' = af_errors f)"
  using af_append_ends [OF assms, of err f line] by blast

theorem append_file_total_witness:
  "\<exists>f'. af_append (\<lambda>k n. min n 2) False af_new ''hello'' = Some f' \<and> af_out f' = ''hello''"
proof -
  have p: "progressing_writes (\<lambda>k n. min n 2)" by (simp add: progressing_writes_def)
  then show ?thesis
    using append_file_total [OF progressing_bounded [OF p], of False af_new "''hello''"]
    by (auto simp: af_new_def)
qed

text \<open>\<open>LogFile\<close> never has \<open>flushEveryN\<close> unflushed lines: after appending any lines to a
  fresh log file (with writes that make progress) all of them are in the stream in order,
  \<open>count_\<close> is their number modulo \<open>flushEveryN\<close>, and everything up to the last multiple of
  \<open>flushEveryN\<close> lines has been flushed.\<close>
theorem log_file_flushes:
  assumes "progressing_writes wr" and "0 < N"
  shows "\<exists>lf. sink_all (lf_append wr err) (lf_new (int N)) lines = Some lf \<and>
     af_out (lf_file lf) = concat lines \<and> lf_count lf = int (length lines mod N) \<and>
     af_flushed (lf_file lf) =
       length (concat (take (length lines - length lines mod N) lines))"
  using sink_all_counts [OF assms, of err lines] by blast

theorem log_file_flushes_witness:
  "\<exists>lf. sink_all (lf_append (\<lambda>k n. n) False) (lf_new 2) [''a'', ''b'', ''c''] = Some lf \<and>
     af_out (lf_file lf) = ''abc'' \<and> af_flushed (lf_file lf) = 2"
proof -
  have p: "progressing_writes (\<lambda>k n. n)" by (simp add: progressing_writes_def)
  show ?thesis
    using log_file_flushes [OF p, of 2 False "[''a'', ''b'', ''c'']"] by auto
qed

end
