(* ===== verification/Async_Logging.thy ===== *)
theory Async_Logging
  imports Log_Stream Log_File "HOL-Library.Sublist"
begin

text \<open>
  The asynchronous log of \<open>base/AsyncLogging.h\<close> and \<open>base/AsyncLogging.cpp\<close>: front ends
  append lines under the mutex to a current buffer, a background thread swaps the full buffers
  out and writes them. A \<open>unique_ptr\<close> is an option; \<open>SIZE\<close> is the template argument of
  \<open>FixedBuffer\<close> (\<open>kLargeBuffer\<close> in the code). Every critical section is one atomic step,
  the thread's work between them another; the steps interleave freely. The lemmas show that no
  assertion and no null pointer is ever hit, and which lines reach the file.
\<close>

section \<open>The shared object\<close>

type_synonym bufptr = "fixed_buffer option"

record async_log =
  al_running :: bool
  al_current :: bufptr
  al_next :: bufptr
  al_buffers :: "bufptr list"

text \<open>What the constructor leaves behind, and the constructor with its assertion on the file name.\<close>

definition al_init :: "nat \<Rightarrow> async_log" where
  "al_init SIZE =
     \<lparr>al_running = False, al_current = Some (fb_bzero (fb_new SIZE)),
      al_next = Some (fb_bzero (fb_new SIZE)), al_buffers = []\<rparr>"

definition al_new :: "nat \<Rightarrow> string \<Rightarrow> async_log res" where
  "al_new SIZE basename =
     assertE (1 < length basename) ''basename_.size() > 1'' (Inr (al_init SIZE))"

definition al_append :: "nat \<Rightarrow> async_log \<Rightarrow> string \<Rightarrow> async_log res" where
  "al_append SIZE a line =
     bindE (deref (al_current a)) (\<lambda>c.
       if int (length line) < fb_avail c
       then bindE (fb_append c line) (\<lambda>c'. Inr (a\<lparr>al_current := Some c'\<rparr>))
       else
         let a1 = a\<lparr>al_buffers := al_buffers a @ [al_current a], al_current := None\<rparr>;
             a2 = (case al_next a1 of
                     Some b \<Rightarrow> a1\<lparr>al_current := Some b, al_next := None\<rparr>
                   | None \<Rightarrow> a1\<lparr>al_current := Some (fb_new SIZE)\<rparr>)
         in bindE (deref (al_current a2)) (\<lambda>c2.
            bindE (fb_append c2 line) (\<lambda>c'. Inr (a2\<lparr>al_current := Some c'\<rparr>))))"

section \<open>The thread\<close>

record log_thread =
  lt_new1 :: bufptr
  lt_new2 :: bufptr
  lt_toWrite :: "bufptr list"
  lt_output :: log_file

definition lt_new :: "nat \<Rightarrow> log_thread" where
  "lt_new SIZE =
     \<lparr>lt_new1 = Some (fb_bzero (fb_new SIZE)), lt_new2 = Some (fb_bzero (fb_new SIZE)),
      lt_toWrite = [], lt_output = lf_new 1024\<rparr>"

definition is_empty_buffer :: "bufptr \<Rightarrow> bool" where
  "is_empty_buffer p = (case p of None \<Rightarrow> False | Some b \<Rightarrow> fb_length b = 0)"

definition lt_head :: "log_thread \<Rightarrow> unit res" where
  "lt_head t =
     assertE (is_empty_buffer (lt_new1 t)) ''newBuffer1 && newBuffer1->length() == 0'' (
     assertE (is_empty_buffer (lt_new2 t)) ''newBuffer2 && newBuffer2->length() == 0'' (
     assertE (lt_toWrite t = []) ''buffersToWrite.empty()'' (Inr ())))"

text \<open>The critical section, from the end of the wait on.\<close>

definition al_swap :: "async_log \<Rightarrow> log_thread \<Rightarrow> async_log \<times> log_thread" where
  "al_swap a t =
     (let a1 = a\<lparr>al_buffers := al_buffers a @ [al_current a], al_current := None\<rparr>;
          a2 = a1\<lparr>al_current := lt_new1 t\<rparr>; t2 = t\<lparr>lt_new1 := None\<rparr>;
          a3 = a2\<lparr>al_buffers := lt_toWrite t2\<rparr>; t3 = t2\<lparr>lt_toWrite := al_buffers a2\<rparr>
      in (case al_next a3 of
            None \<Rightarrow> (a3\<lparr>al_next := lt_new2 t3\<rparr>, t3\<lparr>lt_new2 := None\<rparr>)
          | Some _ \<Rightarrow> (a3, t3)))"

fun texts :: "bufptr list \<Rightarrow> string list res" where
  "texts [] = Inr []"
| "texts (p # ps) = bindE (deref p) (\<lambda>b. bindE (texts ps) (\<lambda>ss. Inr (fb_text b # ss)))"

text \<open>Writing the batch: a backlog of more than 25 buffers is cut to its first two. The result
  is \<open>None\<close> if a write never returns.\<close>

definition lt_write ::
  "(nat \<Rightarrow> nat \<Rightarrow> nat) \<Rightarrow> bool \<Rightarrow> log_thread \<Rightarrow> log_thread res option" where
  "lt_write wr err t =
     (if lt_toWrite t = [] then Some (Inl (Assertion ''!buffersToWrite.empty()''))
      else
        let w = (if 25 < length (lt_toWrite t) then take 2 (lt_toWrite t) else lt_toWrite t)
        in case texts w of
             Inl e \<Rightarrow> Some (Inl e)
           | Inr ss \<Rightarrow> map_option (\<lambda>out.
               Inr (t\<lparr>lt_toWrite := (if 2 < length w then take 2 w else w), lt_output := out\<rparr>))
               (sink_all (lf_append wr err) (lt_output t) ss))"

text \<open>Taking a buffer back from the batch: \<open>back()\<close>, \<open>pop_back()\<close>, \<open>reset()\<close>.\<close>

definition take_back :: "bufptr list \<Rightarrow> (bufptr \<times> bufptr list) res" where
  "take_back w =
     assertE (w \<noteq> []) ''!buffersToWrite.empty()'' (
     bindE (deref (last w)) (\<lambda>b. Inr (Some (fb_reset b), butlast w)))"

definition lt_recycle :: "log_thread \<Rightarrow> log_thread res" where
  "lt_recycle t =
     bindE (if lt_new1 t = None
            then bindE (take_back (lt_toWrite t)) (\<lambda>(p, w). Inr (t\<lparr>lt_new1 := p, lt_toWrite := w\<rparr>))
            else Inr t) (\<lambda>t1.
     bindE (if lt_new2 t1 = None
            then bindE (take_back (lt_toWrite t1)) (\<lambda>(p, w). Inr (t1\<lparr>lt_new2 := p, lt_toWrite := w\<rparr>))
            else Inr t1) (\<lambda>t2.
     Inr (t2\<lparr>lt_toWrite := [], lt_output := lf_flush (lt_output t2)\<rparr>)))"

section \<open>The system\<close>

text \<open>
  Where the thread is; \<open>Waiting\<close> is inside \<open>waitForSeconds\<close>, with the mutex released.
  \<open>sys_lines\<close> records the lines passed to \<open>append\<close> and \<open>sys_overrun\<close> whether a batch was
  ever cut; the program has neither.
\<close>

datatype log_phase = Not_started | Started | Loop_head | Waiting | Writing | Recycling | Done

record log_sys =
  sys_log :: async_log
  sys_thr :: log_thread
  sys_phase :: log_phase
  sys_lines :: "string list"
  sys_overrun :: bool

definition sys_init :: "nat \<Rightarrow> log_sys" where
  "sys_init SIZE =
     \<lparr>sys_log = al_init SIZE, sys_thr = lt_new SIZE, sys_phase = Not_started,
      sys_lines = [], sys_overrun = False\<rparr>"

definition do_swap :: "log_sys \<Rightarrow> log_sys" where
  "do_swap s =
     (case al_swap (sys_log s) (sys_thr s) of
        (a, t) \<Rightarrow> s\<lparr>sys_log := a, sys_thr := t, sys_phase := Writing\<rparr>)"

text \<open>One step of \<open>threadFunc\<close>.\<close>

definition thread_step ::
  "(nat \<Rightarrow> nat \<Rightarrow> nat) \<Rightarrow> bool \<Rightarrow> nat \<Rightarrow> log_sys \<Rightarrow> log_sys res option" where
  "thread_step wr err SIZE s =
     (case sys_phase s of
        Not_started \<Rightarrow> None
      | Started \<Rightarrow> Some (assertE (al_running (sys_log s)) ''running_ == true''
                      (Inr (s\<lparr>sys_thr := lt_new SIZE, sys_phase := Loop_head\<rparr>)))
      | Loop_head \<Rightarrow>
          if al_running (sys_log s)
          then Some (bindE (lt_head (sys_thr s)) (\<lambda>_.
                 Inr (if al_buffers (sys_log s) = [] then s\<lparr>sys_phase := Waiting\<rparr> else do_swap s)))
          else Some (Inr (s\<lparr>sys_thr := (sys_thr s)\<lparr>lt_output := lf_flush (lt_output (sys_thr s))\<rparr>,
                            sys_phase := Done\<rparr>))
      | Waiting \<Rightarrow> Some (Inr (do_swap s))
      | Writing \<Rightarrow> map_option (\<lambda>r. bindE r (\<lambda>t.
            Inr (s\<lparr>sys_thr := t, sys_phase := Recycling,
                   sys_overrun := (sys_overrun s \<or> 25 < length (lt_toWrite (sys_thr s)))\<rparr>)))
            (lt_write wr err (sys_thr s))
      | Recycling \<Rightarrow> Some (bindE (lt_recycle (sys_thr s)) (\<lambda>t.
            Inr (s\<lparr>sys_thr := t, sys_phase := Loop_head\<rparr>)))
      | Done \<Rightarrow> None)"

text \<open>
  \<open>start()\<close> returns only when the thread has counted the latch down, so \<open>stop()\<close> comes after
  the first step of the thread; \<open>append\<close> may come at any time.
\<close>

inductive log_step ::
  "(nat \<Rightarrow> nat \<Rightarrow> nat) \<Rightarrow> bool \<Rightarrow> nat \<Rightarrow> log_sys \<Rightarrow> log_sys res \<Rightarrow> bool"
  for wr err SIZE where
  start: "sys_phase s = Not_started \<Longrightarrow>
    log_step wr err SIZE s
      (Inr (s\<lparr>sys_log := (sys_log s)\<lparr>al_running := True\<rparr>, sys_phase := Started\<rparr>))"
| stop: "sys_phase s \<noteq> Not_started \<Longrightarrow> sys_phase s \<noteq> Started \<Longrightarrow>
    log_step wr err SIZE s (Inr (s\<lparr>sys_log := (sys_log s)\<lparr>al_running := False\<rparr>\<rparr>))"
| line: "length l < 2 ^ 31 \<Longrightarrow>
    log_step wr err SIZE s (bindE (al_append SIZE (sys_log s) l) (\<lambda>a.
      Inr (s\<lparr>sys_log := a, sys_lines := sys_lines s @ [l]\<rparr>)))"
| thread: "thread_step wr err SIZE s = Some r \<Longrightarrow> log_step wr err SIZE s r"

abbreviation log_reach :: "(nat \<Rightarrow> nat \<Rightarrow> nat) \<Rightarrow> bool \<Rightarrow> nat \<Rightarrow> log_sys res \<Rightarrow> bool" where
  "log_reach wr err SIZE \<equiv> reach (log_step wr err SIZE) (sys_init SIZE)"

section \<open>Invariant of the shared object\<close>

definition ok_ptr :: "nat \<Rightarrow> bufptr \<Rightarrow> bool" where
  "ok_ptr SIZE p = (case p of None \<Rightarrow> False | Some b \<Rightarrow> fb_inv SIZE b)"

definition fresh_ptr :: "nat \<Rightarrow> bufptr \<Rightarrow> bool" where
  "fresh_ptr SIZE p = (case p of None \<Rightarrow> False | Some b \<Rightarrow> fb_inv SIZE b \<and> fb_cur b = 0)"

definition ptr_text :: "bufptr \<Rightarrow> string" where
  "ptr_text p = (case p of None \<Rightarrow> [] | Some b \<Rightarrow> fb_text b)"

definition al_inv :: "nat \<Rightarrow> async_log \<Rightarrow> bool" where
  "al_inv SIZE a \<longleftrightarrow>
     ok_ptr SIZE (al_current a) \<and> list_all (ok_ptr SIZE) (al_buffers a) \<and>
     (al_next a = None \<longrightarrow> al_buffers a \<noteq> []) \<and> (al_next a \<noteq> None \<longrightarrow> fresh_ptr SIZE (al_next a))"

text \<open>The buffers hold whole lines: \<open>lss\<close> are those of the full buffers, \<open>cs\<close> those of the
  current one.\<close>

definition al_lines :: "async_log \<Rightarrow> string list list \<Rightarrow> string list \<Rightarrow> bool" where
  "al_lines a lss cs \<longleftrightarrow>
     map ptr_text (al_buffers a) = map concat lss \<and> ptr_text (al_current a) = concat cs"

text \<open>A line that fills a whole buffer never fits and is dropped by \<open>FixedBuffer::append\<close>.\<close>

definition fitting :: "nat \<Rightarrow> string list \<Rightarrow> string list" where
  "fitting SIZE ls = filter (\<lambda>l. length l < SIZE) ls"

lemma ptr_simps [simp]:
  "ok_ptr SIZE (Some b) \<longleftrightarrow> fb_inv SIZE b" "\<not> ok_ptr SIZE None"
  "fresh_ptr SIZE (Some b) \<longleftrightarrow> fb_inv SIZE b \<and> fb_cur b = 0" "\<not> fresh_ptr SIZE None"
  "ptr_text (Some b) = fb_text b"
  by (simp_all add: ok_ptr_def fresh_ptr_def ptr_text_def)

lemma fresh_ok: "fresh_ptr SIZE p \<Longrightarrow> ok_ptr SIZE p"
  by (cases p) simp_all

lemma fresh_some: "fresh_ptr SIZE p \<Longrightarrow> \<exists>b. p = Some b"
  by (cases p) simp_all

lemma fresh_text: "fresh_ptr SIZE p \<Longrightarrow> ptr_text p = []"
  by (cases p) (simp_all add: fb_text_def)

lemma ok_ptr_cases: "ok_ptr SIZE p \<Longrightarrow> (\<And>b. p = Some b \<Longrightarrow> fb_inv SIZE b \<Longrightarrow> thesis) \<Longrightarrow> thesis"
  by (cases p) simp_all

lemma fitting_append: "fitting SIZE (ls @ ls') = fitting SIZE ls @ fitting SIZE ls'"
  by (simp add: fitting_def)

lemma fresh_append:
  assumes "fb_inv SIZE b" "fb_cur b = 0" "length l < 2 ^ 31"
  shows "\<exists>b'. fb_append b l = Inr b' \<and> fb_inv SIZE b' \<and>
              fb_text b' = (if length l < SIZE then l else [])"
proof -
  have "fb_text b = []" using assms(2) by (simp add: fb_text_def)
  then show ?thesis using fb_append_spec [OF assms(1,3)] assms(2) by auto
qed

lemma al_append_spec:
  assumes inv: "al_inv SIZE a" and lines: "al_lines a lss cs"
    and len: "length l < 2 ^ 31" and size: "SIZE < 2 ^ 31"
  shows "\<exists>a' lss' cs'. al_append SIZE a l = Inr a' \<and> al_inv SIZE a' \<and>
     al_running a' = al_running a \<and> al_lines a' lss' cs' \<and>
     concat lss' @ cs' = concat lss @ cs @ fitting SIZE [l]"
proof -
  obtain c where c: "al_current a = Some c" "fb_inv SIZE c"
    using inv by (auto simp: al_inv_def elim: ok_ptr_cases)
  have room: "int (length l) < fb_avail c \<longleftrightarrow> fb_cur c + length l < SIZE"
    using c(2) by (auto simp: fb_avail_def fb_inv_def)
  show ?thesis
  proof (cases "fb_cur c + length l < SIZE")
    case True
    obtain c' where c': "fb_append c l = Inr c'" "fb_inv SIZE c'" "fb_text c' = fb_text c @ l"
      using fb_append_spec [OF c(2) len] True by auto
    let ?a = "a\<lparr>al_current := Some c'\<rparr>"
    have "al_append SIZE a l = Inr ?a" using True c c' room by (simp add: al_append_def)
    moreover have "al_inv SIZE ?a" using inv c' by (simp add: al_inv_def)
    moreover have "al_lines ?a lss (cs @ [l])" using lines c c' by (simp add: al_lines_def)
    ultimately show ?thesis using True
      by (intro exI [of _ ?a] exI [of _ lss] exI [of _ "cs @ [l]"]) (simp add: fitting_def)
  next
    case False
    define b where "b = (case al_next a of Some b \<Rightarrow> b | None \<Rightarrow> fb_new SIZE)"
    have b: "fb_inv SIZE b" "fb_cur b = 0"
      using inv size by (auto simp: b_def al_inv_def split: option.splits)
    obtain b' where b': "fb_append b l = Inr b'" "fb_inv SIZE b'"
        "fb_text b' = concat (fitting SIZE [l])"
      using fresh_append [OF b len] by (auto simp: fitting_def)
    let ?a = "a\<lparr>al_buffers := al_buffers a @ [Some c], al_current := Some b', al_next := None\<rparr>"
    have "al_append SIZE a l = Inr ?a" using False c b' room
      by (cases "al_next a") (simp_all add: al_append_def b_def Let_def)
    moreover have "al_inv SIZE ?a" using inv b' c by (simp add: al_inv_def)
    moreover have "al_lines ?a (lss @ [cs]) (fitting SIZE [l])"
      using lines c b' by (simp add: al_lines_def)
    ultimately show ?thesis
      by (intro exI [of _ ?a] exI [of _ "lss @ [cs]"] exI [of _ "fitting SIZE [l]"]) simp
  qed
qed

section \<open>Invariant of the thread\<close>

definition lt_idle :: "nat \<Rightarrow> log_thread \<Rightarrow> bool" where
  "lt_idle SIZE t \<longleftrightarrow> fresh_ptr SIZE (lt_new1 t) \<and> fresh_ptr SIZE (lt_new2 t) \<and> lt_toWrite t = []"

definition lt_busy :: "nat \<Rightarrow> log_thread \<Rightarrow> bool" where
  "lt_busy SIZE t \<longleftrightarrow>
     lt_new1 t = None \<and> list_all (ok_ptr SIZE) (lt_toWrite t) \<and> lt_toWrite t \<noteq> [] \<and>
     (lt_new2 t = None \<longrightarrow> 2 \<le> length (lt_toWrite t)) \<and>
     (lt_new2 t \<noteq> None \<longrightarrow> fresh_ptr SIZE (lt_new2 t))"

lemma lt_new_idle: "SIZE < 2 ^ 31 \<Longrightarrow> lt_idle SIZE (lt_new SIZE)"
  by (simp add: lt_idle_def lt_new_def)

lemma lt_head_idle: "lt_idle SIZE t \<Longrightarrow> lt_head t = Inr ()"
  by (auto simp: lt_idle_def lt_head_def is_empty_buffer_def fresh_ptr_def fb_length_def
      split: option.splits)

lemma al_swap_spec:
  assumes "al_inv SIZE a" "lt_idle SIZE t" "al_lines a lss cs"
  shows "\<exists>a' t'. al_swap a t = (a', t') \<and> al_inv SIZE a' \<and> lt_busy SIZE t' \<and>
     al_running a' = al_running a \<and> al_lines a' [] [] \<and>
     map ptr_text (lt_toWrite t') = map concat (lss @ [cs]) \<and> lt_output t' = lt_output t"
proof (cases "al_next a")
  case None
  then have "al_buffers a \<noteq> []" using assms(1) by (simp add: al_inv_def)
  then have "2 \<le> length (al_buffers a @ [al_current a])" by (cases "al_buffers a") simp_all
  with None assms show ?thesis
    by (auto simp: al_swap_def al_inv_def lt_idle_def lt_busy_def al_lines_def Let_def fresh_ok
        fresh_text dest: fresh_some)
next
  case (Some b)
  with assms show ?thesis
    by (auto simp: al_swap_def al_inv_def lt_idle_def lt_busy_def al_lines_def Let_def fresh_ok fresh_text)
qed

lemma texts_ok: "list_all (ok_ptr SIZE) ps \<Longrightarrow> texts ps = Inr (map ptr_text ps)"
  by (induction ps) (auto elim: ok_ptr_cases)

lemma sink_all_total:
  assumes "bounded_writes wr"
  shows "\<exists>out'. sink_all (lf_append wr err) out ss = Some out'"
proof (induction ss arbitrary: out)
  case Nil
  then show ?case by simp
next
  case (Cons l ss)
  obtain f' where "af_append wr err (lf_file out) l = Some f'"
    using af_append_ends [OF assms] by blast
  then show ?case using Cons by (simp add: lf_append_def Let_def)
qed

definition written :: "bufptr list \<Rightarrow> bufptr list" where
  "written w = (if 25 < length w then take 2 w else w)"

lemma list_all_take: "list_all P xs \<Longrightarrow> list_all P (take n xs)"
  by (metis append_take_drop_id list_all_append)

lemma lt_write_spec:
  assumes "lt_busy SIZE t" "sink_all (lf_append wr err) (lt_output t) (map ptr_text (written (lt_toWrite t))) = Some out"
  shows "\<exists>t'. lt_write wr err t = Some (Inr t') \<and> lt_busy SIZE t' \<and> lt_output t' = out"
proof -
  let ?w = "written (lt_toWrite t)"
  have w: "texts ?w = Inr (map ptr_text ?w)"
    using assms(1) by (intro texts_ok [of SIZE]) (simp add: written_def lt_busy_def list_all_take)
  have eq: "lt_write wr err t =
      Some (Inr (t\<lparr>lt_toWrite := (if 2 < length ?w then take 2 ?w else ?w), lt_output := out\<rparr>))"
    using assms w by (simp add: lt_write_def written_def [symmetric] Let_def lt_busy_def)
  have "lt_busy SIZE (t\<lparr>lt_toWrite := (if 2 < length ?w then take 2 ?w else ?w), lt_output := out\<rparr>)"
    using assms(1) by (auto simp: lt_busy_def written_def list_all_take split: if_splits)
  then show ?thesis by (simp add: eq)
qed

lemma take_back_spec:
  assumes "list_all (ok_ptr SIZE) w" "w \<noteq> []"
  shows "\<exists>p. take_back w = Inr (p, butlast w) \<and> fresh_ptr SIZE p"
proof -
  have "ok_ptr SIZE (last w)" using assms by (simp add: list_all_iff)
  then show ?thesis using assms(2) by (auto simp: take_back_def elim!: ok_ptr_cases)
qed

lemma lt_recycle_spec:
  assumes "lt_busy SIZE t"
  shows "\<exists>t'. lt_recycle t = Inr t' \<and> lt_idle SIZE t' \<and> lt_output t' = lf_flush (lt_output t)"
proof -
  let ?w = "lt_toWrite t"
  obtain p where p: "take_back ?w = Inr (p, butlast ?w)" "fresh_ptr SIZE p"
    using take_back_spec [of SIZE ?w] assms by (auto simp: lt_busy_def)
  show ?thesis
  proof (cases "lt_new2 t")
    case None
    with assms have "2 \<le> length ?w" by (simp add: lt_busy_def)
    then have "butlast ?w \<noteq> []" by (cases ?w rule: rev_cases) auto
    moreover have "list_all (ok_ptr SIZE) (butlast ?w)"
      using assms by (simp add: lt_busy_def butlast_conv_take list_all_take)
    ultimately obtain q where "take_back (butlast ?w) = Inr (q, butlast (butlast ?w))" "fresh_ptr SIZE q"
      using take_back_spec by blast
    with p None assms show ?thesis by (auto simp: lt_recycle_def lt_busy_def lt_idle_def)
  next
    case (Some b)
    with p assms show ?thesis by (auto simp: lt_recycle_def lt_busy_def lt_idle_def)
  qed
qed

section \<open>Invariant of the system\<close>

text \<open>
  \<open>fs\<close> are the lines in the file, \<open>wss\<close> those of the batch being written, \<open>lss\<close> and \<open>cs\<close>
  those of the shared buffers: together they are the lines appended so far in order, with
  whole groups missing if a batch was ever cut.
\<close>

definition lines_ok ::
  "(nat \<Rightarrow> nat \<Rightarrow> nat) \<Rightarrow> nat \<Rightarrow> log_sys \<Rightarrow> string list \<Rightarrow> string list list \<Rightarrow> string list list \<Rightarrow>
   string list \<Rightarrow> bool" where
  "lines_ok wr SIZE s fs wss lss cs \<longleftrightarrow>
     al_lines (sys_log s) lss cs \<and>
     (if sys_phase s = Writing then map ptr_text (lt_toWrite (sys_thr s)) = map concat wss
      else wss = []) \<and>
     (progressing_writes wr \<longrightarrow> af_out (lf_file (lt_output (sys_thr s))) = concat fs) \<and>
     subseq (fs @ concat wss @ concat lss @ cs) (fitting SIZE (sys_lines s)) \<and>
     (\<not> sys_overrun s \<longrightarrow> fs @ concat wss @ concat lss @ cs = fitting SIZE (sys_lines s))"

definition phase_ok :: "nat \<Rightarrow> log_sys \<Rightarrow> bool" where
  "phase_ok SIZE s =
     (case sys_phase s of
        Not_started \<Rightarrow> af_out (lf_file (lt_output (sys_thr s))) = []
      | Started \<Rightarrow> al_running (sys_log s) \<and> af_out (lf_file (lt_output (sys_thr s))) = []
      | Loop_head \<Rightarrow> lt_idle SIZE (sys_thr s)
      | Waiting \<Rightarrow> lt_idle SIZE (sys_thr s)
      | Writing \<Rightarrow> lt_busy SIZE (sys_thr s)
      | Recycling \<Rightarrow> lt_busy SIZE (sys_thr s)
      | Done \<Rightarrow> True)"

definition sys_inv :: "(nat \<Rightarrow> nat \<Rightarrow> nat) \<Rightarrow> nat \<Rightarrow> log_sys \<Rightarrow> bool" where
  "sys_inv wr SIZE s \<longleftrightarrow>
     al_inv SIZE (sys_log s) \<and> phase_ok SIZE s \<and> (\<exists>fs wss lss cs. lines_ok wr SIZE s fs wss lss cs)"

lemma sys_inv_same_lines:
  assumes "sys_inv wr SIZE s"
    and "al_buffers (sys_log s') = al_buffers (sys_log s)"
        "al_current (sys_log s') = al_current (sys_log s)" "al_next (sys_log s') = al_next (sys_log s)"
        "sys_phase s' = Writing \<longleftrightarrow> sys_phase s = Writing"
        "sys_phase s = Writing \<Longrightarrow> lt_toWrite (sys_thr s') = lt_toWrite (sys_thr s)"
        "af_out (lf_file (lt_output (sys_thr s'))) = af_out (lf_file (lt_output (sys_thr s)))"
        "sys_lines s' = sys_lines s" "sys_overrun s' = sys_overrun s"
    and "phase_ok SIZE s'"
  shows "sys_inv wr SIZE s'"
proof -
  have "lines_ok wr SIZE s' fs wss lss cs = lines_ok wr SIZE s fs wss lss cs" for fs wss lss cs
    using assms(2-9) by (simp add: lines_ok_def al_lines_def cong: if_cong)
  then show ?thesis using assms by (simp add: sys_inv_def al_inv_def)
qed

lemma sys_init_inv: "SIZE < 2 ^ 31 \<Longrightarrow> sys_inv wr SIZE (sys_init SIZE)"
  by (auto simp: sys_inv_def phase_ok_def sys_init_def al_init_def al_inv_def lines_ok_def al_lines_def lt_new_def
      lf_new_def af_new_def fitting_def fb_text_def intro!: exI [of _ "[]"])

lemma lf_flush_out [simp]: "af_out (lf_file (lf_flush lf)) = af_out (lf_file lf)"
  by (simp add: lf_flush_def af_flush_def)

lemma lines_ok_snoc:
  assumes ok: "lines_ok wr SIZE s fs wss lss cs"
    and a: "al_lines a lss' cs'" and eq: "concat lss' @ cs' = concat lss @ cs @ fitting SIZE [l]"
  shows "lines_ok wr SIZE (s\<lparr>sys_log := a, sys_lines := sys_lines s @ [l]\<rparr>) fs wss lss' cs'"
proof -
  let ?X = "fs @ concat wss @ concat lss @ cs" and ?F = "fitting SIZE (sys_lines s)"
  have X: "fs @ concat wss @ concat lss' @ cs' = ?X @ fitting SIZE [l]"
    using eq by simp
  have "subseq ?X ?F" "\<not> sys_overrun s \<longrightarrow> ?X = ?F"
    using ok by (auto simp: lines_ok_def)
  then have "subseq (?X @ fitting SIZE [l]) (?F @ fitting SIZE [l])"
      "\<not> sys_overrun s \<longrightarrow> ?X @ fitting SIZE [l] = ?F @ fitting SIZE [l]"
    by (simp only: list_emb_append_mono subseq_order.refl, metis)
  then show ?thesis
    unfolding lines_ok_def X using ok a by (simp add: lines_ok_def fitting_append)
qed

lemma append_keeps_inv:
  assumes inv: "sys_inv wr SIZE s" and l: "length l < 2 ^ 31" and size: "SIZE < 2 ^ 31"
  shows "\<exists>s'. bindE (al_append SIZE (sys_log s) l) (\<lambda>a.
      Inr (s\<lparr>sys_log := a, sys_lines := sys_lines s @ [l]\<rparr>)) = Inr s' \<and> sys_inv wr SIZE s'"
proof -
  obtain fs wss lss cs where ok: "lines_ok wr SIZE s fs wss lss cs"
    using inv by (auto simp: sys_inv_def)
  obtain a lss' cs' where a: "al_append SIZE (sys_log s) l = Inr a" "al_inv SIZE a"
      "al_running a = al_running (sys_log s)" "al_lines a lss' cs'"
      "concat lss' @ cs' = concat lss @ cs @ fitting SIZE [l]"
    using al_append_spec [of SIZE "sys_log s" lss cs l] inv ok l size
    by (auto simp: sys_inv_def lines_ok_def)
  have "lines_ok wr SIZE (s\<lparr>sys_log := a, sys_lines := sys_lines s @ [l]\<rparr>) fs wss lss' cs'"
    by (rule lines_ok_snoc [OF ok a(4,5)])
  then have "sys_inv wr SIZE (s\<lparr>sys_log := a, sys_lines := sys_lines s @ [l]\<rparr>)"
    using inv a(2,3) by (auto simp: sys_inv_def phase_ok_def split: log_phase.splits)
  with a(1) show ?thesis by simp
qed

lemma do_swap_inv:
  assumes inv: "sys_inv wr SIZE s" and ph: "sys_phase s = Loop_head \<or> sys_phase s = Waiting"
  shows "sys_inv wr SIZE (do_swap s)"
proof -
  obtain fs wss lss cs where ok: "lines_ok wr SIZE s fs wss lss cs"
    using inv by (auto simp: sys_inv_def)
  obtain a t where sw: "al_swap (sys_log s) (sys_thr s) = (a, t)" "al_inv SIZE a" "lt_busy SIZE t"
      "al_lines a [] []" "map ptr_text (lt_toWrite t) = map concat (lss @ [cs])"
      "lt_output t = lt_output (sys_thr s)"
    using al_swap_spec [of SIZE "sys_log s" "sys_thr s" lss cs] inv ph ok
    by (auto simp: sys_inv_def phase_ok_def lines_ok_def)
  have "lines_ok wr SIZE (do_swap s) fs (lss @ [cs]) [] []"
    using ok sw ph by (auto simp: lines_ok_def do_swap_def)
  with sw show ?thesis by (auto simp: sys_inv_def phase_ok_def do_swap_def)
qed

lemma subseq_concat_take: "subseq (concat (take n xss)) (concat xss)"
  by (metis append_take_drop_id concat_append list_emb_append2 subseq_append subseq_order.refl
      prefix_imp_subseq prefixI)

lemma concat_map_concat: "concat (map concat xss) = concat (concat xss)"
  by (induction xss) simp_all

lemma write_inv:
  assumes inv: "sys_inv wr SIZE s" and ph: "sys_phase s = Writing"
    and st: "thread_step wr err SIZE s = Some r"
  shows "\<exists>s'. r = Inr s' \<and> sys_inv wr SIZE s'"
proof -
  let ?t = "sys_thr s"
  let ?ss = "map ptr_text (written (lt_toWrite ?t))"
  obtain fs wss lss cs where ok: "lines_ok wr SIZE s fs wss lss cs"
    using inv by (auto simp: sys_inv_def)
  have busy: "lt_busy SIZE ?t" using inv ph by (simp add: sys_inv_def phase_ok_def)
  have w: "texts (written (lt_toWrite ?t)) = Inr ?ss"
    using busy by (intro texts_ok [of SIZE]) (simp add: written_def lt_busy_def list_all_take)
  obtain out where out: "sink_all (lf_append wr err) (lt_output ?t) ?ss = Some out"
    using st ph busy w
    by (auto simp: thread_step_def lt_write_def written_def [symmetric] Let_def lt_busy_def)
  obtain t' where t': "lt_write wr err ?t = Some (Inr t')" "lt_busy SIZE t'" "lt_output t' = out"
    using lt_write_spec [OF busy out] by blast
  let ?s = "s\<lparr>sys_thr := t', sys_phase := Recycling,
              sys_overrun := (sys_overrun s \<or> 25 < length (lt_toWrite ?t))\<rparr>"
  have r: "r = Inr ?s" using st ph t'(1) by (simp add: thread_step_def)
  have len: "length (lt_toWrite ?t) = length wss" and mw: "map ptr_text (lt_toWrite ?t) = map concat wss"
    using ok ph by (auto simp: lines_ok_def dest: map_eq_imp_length_eq)
  define vss where "vss = (if 25 < length wss then take 2 wss else wss)"
  have ss: "?ss = map concat vss"
    using mw len by (simp add: written_def vss_def take_map [symmetric])
  have vss: "subseq (concat vss) (concat wss)"
    by (simp add: vss_def subseq_concat_take)
  have "subseq ((fs @ concat vss) @ concat [] @ concat lss @ cs) (fs @ concat wss @ concat lss @ cs)"
    using vss by (simp add: list_emb_append_mono)
  then have sub: "subseq ((fs @ concat vss) @ concat [] @ concat lss @ cs) (fitting SIZE (sys_lines s))"
    using ok by (auto simp: lines_ok_def intro: subseq_order.trans)
  have outs: "af_out (lf_file out) = concat (fs @ concat vss)" if p: "progressing_writes wr"
    using logfile.sink_all_appends [OF p, of err "lt_output ?t" ?ss] out ok p
    by (simp add: ss lines_ok_def concat_map_concat)
  have "lines_ok wr SIZE ?s (fs @ concat vss) [] lss cs"
    using ok sub outs t'(3) len by (auto simp: lines_ok_def vss_def)
  then have "sys_inv wr SIZE ?s" using inv t'(2) by (auto simp: sys_inv_def phase_ok_def)
  with r show ?thesis by blast
qed

lemma thread_step_inv:
  assumes inv: "sys_inv wr SIZE s" and size: "SIZE < 2 ^ 31"
    and st: "thread_step wr err SIZE s = Some r"
  shows "\<exists>s'. r = Inr s' \<and> sys_inv wr SIZE s'"
proof (cases "sys_phase s")
  case Not_started
  with st show ?thesis by (simp add: thread_step_def)
next
  case Started
  let ?s = "s\<lparr>sys_thr := lt_new SIZE, sys_phase := Loop_head\<rparr>"
  have "r = Inr ?s" using Started st inv by (simp add: thread_step_def sys_inv_def phase_ok_def)
  moreover have "sys_inv wr SIZE ?s"
    by (rule sys_inv_same_lines [OF inv])
       (use Started inv size in \<open>simp_all add: sys_inv_def phase_ok_def lt_new_idle,
          simp_all add: lt_new_def lf_new_def af_new_def\<close>)
  ultimately show ?thesis by blast
next
  case Loop_head
  then have idle: "lt_idle SIZE (sys_thr s)" using inv by (simp add: sys_inv_def phase_ok_def)
  let ?done = "s\<lparr>sys_thr := (sys_thr s)\<lparr>lt_output := lf_flush (lt_output (sys_thr s))\<rparr>, sys_phase := Done\<rparr>"
  have "r = Inr (do_swap s) \<or> r = Inr (s\<lparr>sys_phase := Waiting\<rparr>) \<or> r = Inr ?done"
    using Loop_head st idle by (auto simp: thread_step_def lt_head_idle split: if_splits)
  moreover have "sys_inv wr SIZE (do_swap s)" using do_swap_inv [OF inv] Loop_head by simp
  moreover have "sys_inv wr SIZE (s\<lparr>sys_phase := Waiting\<rparr>)"
    by (rule sys_inv_same_lines [OF inv]) (use Loop_head idle in \<open>simp_all add: phase_ok_def\<close>)
  moreover have "sys_inv wr SIZE ?done"
    by (rule sys_inv_same_lines [OF inv]) (use Loop_head in \<open>simp_all add: phase_ok_def\<close>)
  ultimately show ?thesis by blast
next
  case Waiting
  with st have "r = Inr (do_swap s)" by (simp add: thread_step_def)
  with Waiting do_swap_inv [OF inv] show ?thesis by simp
next
  case Writing
  with write_inv [OF inv _ st] show ?thesis by simp
next
  case Recycling
  then have "lt_busy SIZE (sys_thr s)" using inv by (simp add: sys_inv_def phase_ok_def)
  then obtain t where t: "lt_recycle (sys_thr s) = Inr t" "lt_idle SIZE t"
      "lt_output t = lf_flush (lt_output (sys_thr s))"
    using lt_recycle_spec by blast
  have "sys_inv wr SIZE (s\<lparr>sys_thr := t, sys_phase := Loop_head\<rparr>)"
    by (rule sys_inv_same_lines [OF inv]) (use Recycling t in \<open>simp_all add: phase_ok_def\<close>)
  moreover have "r = Inr (s\<lparr>sys_thr := t, sys_phase := Loop_head\<rparr>)"
    using Recycling t st by (simp add: thread_step_def)
  ultimately show ?thesis by blast
next
  case Done
  with st show ?thesis by (simp add: thread_step_def)
qed

lemma log_step_inv:
  assumes "log_step wr err SIZE s r" and inv: "sys_inv wr SIZE s" and size: "SIZE < 2 ^ 31"
  shows "\<exists>s'. r = Inr s' \<and> sys_inv wr SIZE s'"
  using assms(1)
proof cases
  case start
  have "sys_inv wr SIZE (s\<lparr>sys_log := (sys_log s)\<lparr>al_running := True\<rparr>, sys_phase := Started\<rparr>)"
    by (rule sys_inv_same_lines [OF inv]) (use start inv in \<open>simp_all add: sys_inv_def phase_ok_def\<close>)
  with start show ?thesis by blast
next
  case stop
  have "sys_inv wr SIZE (s\<lparr>sys_log := (sys_log s)\<lparr>al_running := False\<rparr>\<rparr>)"
    by (rule sys_inv_same_lines [OF inv])
       (use stop inv in \<open>simp_all add: sys_inv_def phase_ok_def split: log_phase.splits\<close>)
  with stop show ?thesis by blast
next
  case (line l)
  with append_keeps_inv [OF inv line(2) size] show ?thesis by simp
next
  case thread
  with thread_step_inv [OF inv size] show ?thesis by simp
qed

lemma log_reach_inv:
  assumes "log_reach wr err SIZE r" and "SIZE < 2 ^ 31"
  shows "\<exists>s. r = Inr s \<and> sys_inv wr SIZE s"
  by (rule reach_inv [OF assms(1)]) (auto intro: sys_init_inv log_step_inv assms(2))

lemma thread_step_total:
  assumes inv: "sys_inv wr SIZE s" and wr: "bounded_writes wr"
    and ph: "sys_phase s \<noteq> Not_started" "sys_phase s \<noteq> Done"
  shows "\<exists>r. thread_step wr err SIZE s = Some r"
proof (cases "sys_phase s = Writing")
  case True
  let ?ss = "map ptr_text (written (lt_toWrite (sys_thr s)))"
  obtain out where "sink_all (lf_append wr err) (lt_output (sys_thr s)) ?ss = Some out"
    using sink_all_total [OF wr] by blast
  with True inv lt_write_spec show ?thesis by (fastforce simp: thread_step_def sys_inv_def phase_ok_def)
next
  case False
  with ph show ?thesis by (simp add: thread_step_def split: log_phase.splits)
qed

text \<open>What the file holds in every state the invariant allows.\<close>

lemma sys_inv_file:
  assumes inv: "sys_inv wr SIZE s" and wr: "progressing_writes wr"
  shows "\<exists>ls. af_out (lf_file (lt_output (sys_thr s))) = concat ls \<and>
     subseq ls (fitting SIZE (sys_lines s)) \<and>
     (\<not> sys_overrun s \<longrightarrow> prefix ls (fitting SIZE (sys_lines s)))"
proof -
  obtain fs wss lss cs where ok: "lines_ok wr SIZE s fs wss lss cs"
    using inv by (auto simp: sys_inv_def)
  then have "subseq (fs @ concat wss @ concat lss @ cs) (fitting SIZE (sys_lines s))"
    by (simp add: lines_ok_def)
  moreover have "subseq fs (fs @ concat wss @ concat lss @ cs)" by (rule prefix_imp_subseq) simp
  ultimately have "subseq fs (fitting SIZE (sys_lines s))" by (rule subseq_order.trans [rotated])
  with ok wr show ?thesis
    by (intro exI [of _ fs]) (auto simp: lines_ok_def prefix_def intro: sym)
qed

section \<open>A whole round of the thread\<close>

text \<open>\<open>n\<close> successive steps of the thread.\<close>

fun thread_run ::
  "nat \<Rightarrow> (nat \<Rightarrow> nat \<Rightarrow> nat) \<Rightarrow> bool \<Rightarrow> nat \<Rightarrow> log_sys \<Rightarrow> log_sys res option" where
  "thread_run 0 wr err SIZE s = Some (Inr s)"
| "thread_run (Suc n) wr err SIZE s =
     (case thread_step wr err SIZE s of
        Some (Inr s') \<Rightarrow> thread_run n wr err SIZE s' | r \<Rightarrow> r)"

lemma round_from_wait:
  assumes inv: "sys_inv wr SIZE s" and ph: "sys_phase s = Waiting" and wr: "progressing_writes wr"
    and no: "\<not> sys_overrun s" and len: "length (al_buffers (sys_log s)) < 25"
  shows "\<exists>s'. thread_run 3 wr err SIZE s = Some (Inr s') \<and> sys_phase s' = Loop_head \<and>
     af_out (lf_file (lt_output (sys_thr s'))) = concat (fitting SIZE (sys_lines s)) \<and>
     af_flushed (lf_file (lt_output (sys_thr s'))) = length (concat (fitting SIZE (sys_lines s)))"
proof -
  obtain fs wss lss cs where ok: "lines_ok wr SIZE s fs wss lss cs"
    using inv by (auto simp: sys_inv_def)
  have all: "fs @ concat lss @ cs = fitting SIZE (sys_lines s)"
    using ok no ph by (auto simp: lines_ok_def)
  obtain a t where sw: "al_swap (sys_log s) (sys_thr s) = (a, t)" "al_inv SIZE a" "lt_busy SIZE t"
      "al_lines a [] []" "map ptr_text (lt_toWrite t) = map concat (lss @ [cs])"
      "lt_output t = lt_output (sys_thr s)"
    using al_swap_spec [of SIZE "sys_log s" "sys_thr s" lss cs] inv ph ok
    by (auto simp: sys_inv_def phase_ok_def lines_ok_def)
  let ?s1 = "s\<lparr>sys_log := a, sys_thr := t, sys_phase := Writing\<rparr>"
  have "length (lt_toWrite t) = length lss + 1"
    using map_eq_imp_length_eq [OF sw(5)] by simp
  moreover have "length lss = length (al_buffers (sys_log s))"
    using ok by (auto simp: lines_ok_def al_lines_def dest: map_eq_imp_length_eq)
  ultimately have w: "written (lt_toWrite t) = lt_toWrite t" using len by (simp add: written_def)
  obtain out where out: "sink_all (lf_append wr err) (lt_output t) (map ptr_text (lt_toWrite t)) = Some out"
      "af_out (lf_file out) = concat fs @ concat (map ptr_text (lt_toWrite t))"
    using logfile.sink_all_appends [OF wr, of err "lt_output t" "map ptr_text (lt_toWrite t)"]
      ok wr sw(6) by (auto simp: lines_ok_def)
  have full: "af_out (lf_file out) = concat (fitting SIZE (sys_lines s))"
    using out(2) all [symmetric] sw(5) by (simp add: concat_map_concat)
  obtain t2 where t2: "lt_write wr err t = Some (Inr t2)" "lt_busy SIZE t2" "lt_output t2 = out"
    using lt_write_spec [of SIZE t wr err out] sw(3) out(1) w by auto
  obtain t3 where t3: "lt_recycle t2 = Inr t3" "lt_output t3 = lf_flush out"
    using lt_recycle_spec [OF t2(2)] t2(3) by auto
  have "thread_step wr err SIZE s = Some (Inr ?s1)"
    using ph sw(1) by (simp add: thread_step_def do_swap_def)
  with t2(1) t3 full show ?thesis
    by (simp add: numeral_3_eq_3 thread_step_def lf_flush_def af_flush_def)
qed

lemma reach_started:
  "log_reach wr err SIZE
     (Inr ((sys_init SIZE)\<lparr>sys_log := (sys_log (sys_init SIZE))\<lparr>al_running := True\<rparr>,
                            sys_phase := Started\<rparr>))"
proof (rule reach_step)
  show "log_reach wr err SIZE (Inr (sys_init SIZE))" by (rule reach_init)
  have "sys_phase (sys_init SIZE) = Not_started" by (simp add: sys_init_def)
  then show "log_step wr err SIZE (sys_init SIZE)
     (Inr ((sys_init SIZE)\<lparr>sys_log := (sys_log (sys_init SIZE))\<lparr>al_running := True\<rparr>,
                            sys_phase := Started\<rparr>))" by (rule log_step.start)
qed

lemma reach_logged:
  assumes size: "SIZE < 2 ^ 31" and l: "length l < SIZE"
  shows "\<exists>s. log_reach wr err SIZE (Inr s) \<and> sys_phase s = Loop_head \<and>
     al_running (sys_log s) \<and> al_buffers (sys_log s) = [] \<and> sys_lines s = [l] \<and>
     \<not> sys_overrun s \<and> sys_thr s = lt_new SIZE"
proof -
  let ?a0 = "(al_init SIZE)\<lparr>al_running := True\<rparr>"
  let ?s0 = "sys_init SIZE"
  let ?s1 = "?s0\<lparr>sys_log := (sys_log ?s0)\<lparr>al_running := True\<rparr>, sys_phase := Started\<rparr>"
  let ?s2 = "?s1\<lparr>sys_thr := lt_new SIZE, sys_phase := Loop_head\<rparr>"
  have r1: "log_reach wr err SIZE (Inr ?s1)"
    by (rule reach_started)
  have "thread_step wr err SIZE ?s1 = Some (Inr ?s2)"
    by (simp add: thread_step_def)
  then have r2: "log_reach wr err SIZE (Inr ?s2)"
    by (rule reach_step [OF r1 log_step.thread])
  let ?b = "fb_bzero (fb_new SIZE)"
  have b: "fb_inv SIZE ?b" "fb_cur ?b = 0" using size by simp_all
  have len: "length l < 2 ^ 31" using size l by simp
  obtain b' where b': "fb_append ?b l = Inr b'" using fresh_append [OF b len] by blast
  have room: "int (length l) < fb_avail ?b"
    using b l by (simp add: fb_avail_def fb_inv_def)
  have ap: "al_append SIZE (sys_log ?s2) l = Inr (?a0\<lparr>al_current := Some b'\<rparr>)"
    using b' room by (simp add: al_append_def sys_init_def al_init_def)
  let ?s3 = "?s2\<lparr>sys_log := ?a0\<lparr>al_current := Some b'\<rparr>, sys_lines := sys_lines ?s2 @ [l]\<rparr>"
  have "log_reach wr err SIZE (bindE (al_append SIZE (sys_log ?s2) l) (\<lambda>a.
      Inr (?s2\<lparr>sys_log := a, sys_lines := sys_lines ?s2 @ [l]\<rparr>)))"
    by (rule reach_step [OF r2 log_step.line [OF len]])
  then have "log_reach wr err SIZE (Inr ?s3)" by (simp only: ap bindE_simps)
  then show ?thesis by (intro exI [of _ ?s3]) (simp add: sys_init_def al_init_def)
qed

lemma kLargeBuffer_lt: "kLargeBuffer < 2 ^ 31"
  by (simp add: kLargeBuffer_def)

lemma wait_step:
  assumes "sys_phase s = Loop_head" "al_running (sys_log s)" "al_buffers (sys_log s) = []"
    "sys_thr s = lt_new SIZE" "SIZE < 2 ^ 31"
  shows "thread_step wr err SIZE s = Some (Inr (s\<lparr>sys_phase := Waiting\<rparr>))"
  using assms lt_head_idle [OF lt_new_idle] by (simp add: thread_step_def)

section \<open>Properties\<close>

text \<open>C13. The asynchronous log never fails: in every interleaving of \<open>start\<close>, appends, \<open>stop\<close>
  and the steps of the thread, no \<open>assert\<close> fires, no moved-from buffer is dereferenced and no
  array is overrun; and until it has finished the thread can always take its next step.
  Assumed: a write accepts at most what it is offered, lines are shorter than 2^31.\<close>
theorem async_log_safe:
  assumes "log_reach wr err SIZE r" and "SIZE < 2 ^ 31" and "bounded_writes wr"
  shows "\<exists>s. r = Inr s \<and>
     (sys_phase s \<noteq> Not_started \<and> sys_phase s \<noteq> Done \<longrightarrow>
        (\<exists>s'. thread_step wr err SIZE s = Some (Inr s')))"
proof -
  obtain s where s: "r = Inr s" "sys_inv wr SIZE s"
    using log_reach_inv [OF assms(1,2)] by blast
  then show ?thesis
    using thread_step_total [OF s(2) assms(3)] thread_step_inv [OF s(2) assms(2)] by blast
qed

theorem async_log_safe_witness:
  "\<exists>s'. thread_step (\<lambda>k n. n) False kLargeBuffer
          ((sys_init kLargeBuffer)\<lparr>sys_log := (sys_log (sys_init kLargeBuffer))\<lparr>al_running := True\<rparr>,
                                   sys_phase := Started\<rparr>) = Some (Inr s')"
proof -
  let ?s = "sys_init kLargeBuffer"
  let ?s1 = "?s\<lparr>sys_log := (sys_log ?s)\<lparr>al_running := True\<rparr>, sys_phase := Started\<rparr>"
  have r: "log_reach (\<lambda>k n. n) False kLargeBuffer (Inr ?s1)"
    by (rule reach_started)
  have b: "bounded_writes (\<lambda>k n. n)" by (simp add: bounded_writes_def)
  obtain s where "(Inr ?s1 :: log_sys res) = Inr s"
      "sys_phase s \<noteq> Not_started \<and> sys_phase s \<noteq> Done \<longrightarrow>
        (\<exists>s'. thread_step (\<lambda>k n. n) False kLargeBuffer s = Some (Inr s'))"
    using async_log_safe [OF r kLargeBuffer_lt b] by blast
  then show ?thesis by auto
qed

text \<open>Lines are never torn or reordered: in every reachable state the file holds a
  sequence of whole lines that is a subsequence of the lines appended (those that fit into a
  buffer at all), and as long as no backlog of more than 25 buffers was cut it is a prefix of
  them. Assumed: every write accepts at least one byte.\<close>
theorem async_log_lines_in_order:
  assumes "log_reach wr err SIZE (Inr s)" and "SIZE < 2 ^ 31" and "progressing_writes wr"
  shows "\<exists>ls. af_out (lf_file (lt_output (sys_thr s))) = concat ls \<and>
     subseq ls (fitting SIZE (sys_lines s)) \<and>
     (\<not> sys_overrun s \<longrightarrow> prefix ls (fitting SIZE (sys_lines s)))"
proof -
  have "sys_inv wr SIZE s" using log_reach_inv [OF assms(1,2)] by blast
  from sys_inv_file [OF this assms(3)] show ?thesis .
qed

theorem async_log_lines_in_order_witness:
  "\<exists>s ls. log_reach (\<lambda>k n. n) False kLargeBuffer (Inr s) \<and> sys_lines s = [''hello''] \<and>
     af_out (lf_file (lt_output (sys_thr s))) = concat ls \<and> prefix ls [''hello'']"
proof -
  have size: "kLargeBuffer < 2 ^ 31" "length ''hello'' < kLargeBuffer"
    by (simp_all add: kLargeBuffer_def)
  obtain s where s: "log_reach (\<lambda>k n. n) False kLargeBuffer (Inr s)" "sys_lines s = [''hello'']"
      "\<not> sys_overrun s"
    using reach_logged [OF size] by blast
  have p: "progressing_writes (\<lambda>k n. n)" by (simp add: progressing_writes_def)
  have "fitting kLargeBuffer (sys_lines s) = [''hello'']" using s(2) size(2) by (simp add: fitting_def)
  then show ?thesis
    using async_log_lines_in_order [OF s(1) size(1) p] s by metis
qed

text \<open>A round of the thread empties the log: from the end of its wait, with at most 24
  full buffers queued and nothing cut before, three steps (swap, write, recycle) bring every
  line appended so far (that fits) into the file, in order, and flush it.\<close>
theorem async_log_round_writes_all:
  assumes "log_reach wr err SIZE (Inr s)" and "SIZE < 2 ^ 31" and "progressing_writes wr"
    and "sys_phase s = Waiting" and "\<not> sys_overrun s" and "length (al_buffers (sys_log s)) < 25"
  shows "\<exists>s'. thread_run 3 wr err SIZE s = Some (Inr s') \<and> sys_phase s' = Loop_head \<and>
     af_out (lf_file (lt_output (sys_thr s'))) = concat (fitting SIZE (sys_lines s)) \<and>
     af_flushed (lf_file (lt_output (sys_thr s'))) = length (concat (fitting SIZE (sys_lines s)))"
  using round_from_wait log_reach_inv assms by blast

theorem async_log_round_writes_all_witness:
  "\<exists>s s'. log_reach (\<lambda>k n. n) False kLargeBuffer (Inr s) \<and> sys_phase s = Waiting \<and>
     thread_run 3 (\<lambda>k n. n) False kLargeBuffer s = Some (Inr s') \<and>
     af_out (lf_file (lt_output (sys_thr s'))) = ''hello''"
proof -
  have size: "kLargeBuffer < 2 ^ 31" "length ''hello'' < kLargeBuffer"
    by (simp_all add: kLargeBuffer_def)
  obtain s where s: "log_reach (\<lambda>k n. n) False kLargeBuffer (Inr s)" "sys_phase s = Loop_head"
      "al_running (sys_log s)" "al_buffers (sys_log s) = []" "sys_lines s = [''hello'']"
      "\<not> sys_overrun s" "sys_thr s = lt_new kLargeBuffer"
    using reach_logged [OF size] by blast
  let ?s = "s\<lparr>sys_phase := Waiting\<rparr>"
  have r: "log_reach (\<lambda>k n. n) False kLargeBuffer (Inr ?s)"
    using wait_step s size by (blast intro: reach_step log_step.thread)
  have p: "progressing_writes (\<lambda>k n. n)" by (simp add: progressing_writes_def)
  have "\<exists>s'. thread_run 3 (\<lambda>k n. n) False kLargeBuffer ?s = Some (Inr s') \<and>
      af_out (lf_file (lt_output (sys_thr s'))) = concat (fitting kLargeBuffer (sys_lines ?s))"
    using async_log_round_writes_all [OF r size(1) p] s(4,6) by auto
  moreover have "concat (fitting kLargeBuffer (sys_lines ?s)) = ''hello''"
    using s(5) size(2) by (simp add: fitting_def)
  moreover have "sys_phase ?s = Waiting" by simp
  ultimately show ?thesis using r by metis
qed

text \<open>\<open>stop()\<close> loses lines: the thread leaves its loop as soon as it sees \<open>running_\<close>
  false and never swaps the buffers out again. For every line that fits there is a run in which
  it is appended between \<open>start()\<close> and \<open>stop()\<close>, the thread then finishes, and the file is
  empty.\<close>
theorem async_log_stop_loses_lines:
  assumes "SIZE < 2 ^ 31" and "length l < SIZE"
  shows "\<exists>s1 s2 s3. log_reach wr err SIZE (Inr s1) \<and> al_running (sys_log s1) \<and> sys_lines s1 = [l] \<and>
     log_step wr err SIZE s1 (Inr s2) \<and> s2 = s1\<lparr>sys_log := (sys_log s1)\<lparr>al_running := False\<rparr>\<rparr> \<and>
     thread_step wr err SIZE s2 = Some (Inr s3) \<and> sys_phase s3 = Done \<and>
     af_out (lf_file (lt_output (sys_thr s3))) = []"
proof -
  obtain s where s: "log_reach wr err SIZE (Inr s)" "sys_phase s = Loop_head"
      "al_running (sys_log s)" "sys_lines s = [l]" "sys_thr s = lt_new SIZE"
    using reach_logged [OF assms] by blast
  let ?s2 = "s\<lparr>sys_log := (sys_log s)\<lparr>al_running := False\<rparr>\<rparr>"
  have "log_step wr err SIZE s (Inr ?s2)" by (rule log_step.stop) (simp_all add: s)
  moreover have "\<exists>s3. thread_step wr err SIZE ?s2 = Some (Inr s3) \<and> sys_phase s3 = Done \<and>
      af_out (lf_file (lt_output (sys_thr s3))) = []"
    using s by (simp add: thread_step_def lt_new_def lf_new_def af_new_def)
  ultimately show ?thesis using s by blast
qed

theorem async_log_stop_loses_lines_witness:
  "\<exists>s2 s3. thread_step (\<lambda>k n. n) False kLargeBuffer s2 = Some (Inr s3) \<and> sys_phase s3 = Done \<and>
     sys_lines s2 = [''last words''] \<and> af_out (lf_file (lt_output (sys_thr s3))) = []"
proof -
  have "length ''last words'' < kLargeBuffer" by (simp add: kLargeBuffer_def)
  from async_log_stop_loses_lines [OF kLargeBuffer_lt this, of "\<lambda>k n. n" False]
  obtain s1 s2 s3 where "sys_lines s1 = [''last words'']"
      "s2 = s1\<lparr>sys_log := (sys_log s1)\<lparr>al_running := False\<rparr>\<rparr>"
      "thread_step (\<lambda>k n. n) False kLargeBuffer s2 = Some (Inr s3)" "sys_phase s3 = Done"
      "af_out (lf_file (lt_output (sys_thr s3))) = []"
    by blast
  then show ?thesis by (intro exI [of _ s2] exI [of _ s3]) simp
qed

end
