(* ===== verification/Logger.thy ===== *)
theory Logger
  imports Async_Logging
begin

text \<open>
  The logging front end of \<open>base/Logging.h\<close> and \<open>base/Logging.cpp\<close>. A \<open>Logger\<close> object lives
  for one statement \<open>LOG_X << a << b\<close>: its constructor prints level, thread id and time into a
  small buffer, the statement inserts its operands, and the destructor adds file and line and
  gives the text to \<open>output\<close>, of which \<open>Log_Process\<close> is the model. The thread id text (\<open>CurrentThread::tidString\<close>) and
  the time text (\<open>strftime\<close>) are parameters.
\<close>

section \<open>The logger\<close>

datatype log_level = TRACE | DEBUG | INFO | WARN | ERROR | FATAL

fun LogLevelName :: "log_level \<Rightarrow> string" where
  "LogLevelName TRACE = ''TRACE ''"
| "LogLevelName DEBUG = ''DEBUG ''"
| "LogLevelName INFO = ''INFO ''"
| "LogLevelName WARN = ''WARN ''"
| "LogLevelName ERROR = ''ERROR ''"
| "LogLevelName FATAL = ''FATAL ''"

record logger =
  lg_stream :: fixed_buffer
  lg_level :: log_level
  lg_line :: "32 word"
  lg_basename :: string

definition header_args :: "log_level \<Rightarrow> string \<Rightarrow> string \<Rightarrow> 'd log_arg list" where
  "header_args level tid time =
     [LCString (Some (LogLevelName level)), LCString (Some '' ''),
      LCString (Some tid), LCString (Some '' ''), LCString (Some time)]"

definition logger_new ::
  "('d \<Rightarrow> string) \<Rightarrow> string \<Rightarrow> string \<Rightarrow> string \<Rightarrow> 32 word \<Rightarrow> log_level \<Rightarrow> logger res" where
  "logger_new fmt tid time file line level =
     bindE (ls_puts fmt (fb_new kSmallBuffer) (header_args level tid time)) (\<lambda>st.
       Inr \<lparr>lg_stream = st, lg_level = level, lg_line = line, lg_basename = file\<rparr>)"

definition tail_args :: "string \<Rightarrow> 32 word \<Rightarrow> 'd log_arg list" where
  "tail_args file line =
     [LCString (Some ''--''), LString file, LCString (Some '':''), LInt line,
      LCString (Some [CHR 0x0A])]"

text \<open>The destructor: the rest of the text, then \<open>output\<close>; the result is the line it emits.\<close>

definition logger_dtor :: "('d \<Rightarrow> string) \<Rightarrow> logger \<Rightarrow> string res" where
  "logger_dtor fmt lg =
     bindE (ls_puts fmt (lg_stream lg) (tail_args (lg_basename lg) (lg_line lg))) (\<lambda>st.
       Inr (fb_text st))"

text \<open>\<open>LOG_X << a1 << ... << an;\<close>\<close>

definition log_statement ::
  "('d \<Rightarrow> string) \<Rightarrow> string \<Rightarrow> string \<Rightarrow> string \<Rightarrow> 32 word \<Rightarrow> log_level \<Rightarrow> 'd log_arg list \<Rightarrow> string res"
  where
  "log_statement fmt tid time file line level args =
     bindE (logger_new fmt tid time file line level) (\<lambda>lg.
     bindE (ls_puts fmt (lg_stream lg) args) (\<lambda>st.
     logger_dtor fmt (lg\<lparr>lg_stream := st\<rparr>)))"

section \<open>What a statement prints\<close>

definition render_all :: "('d \<Rightarrow> string) \<Rightarrow> 'd log_arg list \<Rightarrow> string" where
  "render_all fmt args = concat (map (render fmt) args)"

lemma render_all_simps [simp]:
  "render_all fmt [] = []" "render_all fmt (a # as) = render fmt a @ render_all fmt as"
  by (simp_all add: render_all_def)

lemma room_for_le: "room_for a s \<le> length s + 32"
  by (cases a) simp_all

text \<open>
  The text of a chain of operands, on a buffer of \<open>SIZE\<close> bytes that holds \<open>t\<close>: an operand whose
  room is not free is left out, the ones after it are not.
\<close>

fun put_all :: "nat \<Rightarrow> ('d \<Rightarrow> string) \<Rightarrow> string \<Rightarrow> 'd log_arg list \<Rightarrow> string" where
  "put_all SIZE fmt t [] = t"
| "put_all SIZE fmt t (a # as) =
     put_all SIZE fmt (if length t + room_for a (render fmt a) \<le> SIZE then t @ render fmt a else t) as"

lemma put_all_append [simp]:
  "put_all SIZE fmt t (as @ bs) = put_all SIZE fmt (put_all SIZE fmt t as) bs"
  by (induction as arbitrary: t) simp_all

lemma put_all_fits:
  "length t + length (render_all fmt as) + 32 \<le> SIZE \<Longrightarrow> put_all SIZE fmt t as = t @ render_all fmt as"
proof (induction as arbitrary: t)
  case (Cons a as)
  then show ?case using room_for_le [of a "render fmt a"] by simp
qed simp

lemma put_all_full: "length t + 1 = SIZE \<Longrightarrow> put_all SIZE fmt t as = t"
proof (induction as)
  case (Cons a as)
  have "2 \<le> room_for a (render fmt a) \<or> render fmt a = []"
    by (cases "render fmt a"; cases a) simp_all
  with Cons show ?case by auto
qed simp

lemma put_all_length: "length t \<le> SIZE \<Longrightarrow> (\<And>d. length (fmt d) < 32) \<Longrightarrow> length (put_all SIZE fmt t as) \<le> SIZE"
proof (induction as arbitrary: t)
  case (Cons a as)
  have f: "\<And>d. length (fmt d) \<le> 32" using Cons.prems(2) by (simp add: less_imp_le)
  have "length (render fmt a) \<le> room_for a (render fmt a)"
    using length_convert [OF int_ranges(1,2)] length_convert [OF int_ranges(3,4)]
      length_convert [OF int_ranges(5,6)] length_convert [OF int_ranges(7,8)]
      length_convert [OF int_ranges(9,10)] length_convert [OF int_ranges(11,12)] f
    by (cases a) (auto simp: convert_int_decimal intro: order.trans [where b = 20])
  then show ?case using Cons by simp
qed simp

lemma ls_puts_put_all:
  assumes "fb_inv SIZE fb" and "\<And>d. length (fmt d) < 32"
    and "list_all (\<lambda>a. length (render fmt a) < 2 ^ 31) args"
  shows "\<exists>fb'. ls_puts fmt fb args = Inr fb' \<and> fb_inv SIZE fb' \<and>
               fb_text fb' = put_all SIZE fmt (fb_text fb) args"
  using assms(1,3)
proof (induction args arbitrary: fb)
  case (Cons a args)
  have len: "length (render fmt a) < 2 ^ 31" using Cons.prems(2) by simp
  obtain fb1 where fb1: "ls_put fmt fb a = Inr fb1" "fb_inv SIZE fb1"
      "fb_text fb1 = (if fb_cur fb + room_for a (render fmt a) \<le> SIZE then fb_text fb @ render fmt a else fb_text fb)"
    using ls_put_spec [where fmt = fmt, OF Cons.prems(1) assms(2) len] by blast
  from Cons.IH [OF fb1(2)] Cons.prems(2) fb1(1,3) length_fb_text [OF Cons.prems(1)] show ?case by simp
qed simp

definition log_line :: "('d \<Rightarrow> string) \<Rightarrow> string \<Rightarrow> string \<Rightarrow> string \<Rightarrow> 32 word \<Rightarrow> log_level \<Rightarrow>
  'd log_arg list \<Rightarrow> string" where
  "log_line fmt tid time file line level args =
     LogLevelName level @ '' '' @ tid @ '' '' @ time @ render_all fmt args @
     ''--'' @ file @ '':'' @ int_decimal (sint line) @ [CHR 0x0A]"

text \<open>All operands of a statement, those of the macro included; what it prints of them.\<close>

definition all_args :: "string \<Rightarrow> string \<Rightarrow> string \<Rightarrow> 32 word \<Rightarrow> log_level \<Rightarrow> 'd log_arg list \<Rightarrow> 'd log_arg list"
  where
  "all_args tid time file line level args = header_args level tid time @ args @ tail_args file line"

lemma render_all_append [simp]: "render_all fmt (as @ bs) = render_all fmt as @ render_all fmt bs"
  by (simp add: render_all_def)

lemma log_line_render: "log_line fmt tid time file line level args = render_all fmt (all_args tid time file line level args)"
  by (simp add: log_line_def all_args_def header_args_def tail_args_def)

lemma kSmallBuffer_inv: "fb_inv kSmallBuffer (fb_new kSmallBuffer)"
  by (simp add: kSmallBuffer_def)

lemma log_statement_total:
  assumes fmt: "\<And>d. length (fmt d) < 32"
    and ok: "list_all (\<lambda>a. length (render fmt a) < 2 ^ 31) (all_args tid time file line level args)"
  shows "log_statement fmt tid time file line level args =
         Inr (put_all kSmallBuffer fmt [] (all_args tid time file line level args))"
proof -
  note puts = ls_puts_put_all [where fmt = fmt, OF _ fmt]
  obtain st1 where st1: "ls_puts fmt (fb_new kSmallBuffer) (header_args level tid time) = Inr st1"
      "fb_inv kSmallBuffer st1" "fb_text st1 = put_all kSmallBuffer fmt [] (header_args level tid time)"
    using puts [OF kSmallBuffer_inv] ok by (fastforce simp: all_args_def)
  obtain st2 where st2: "ls_puts fmt st1 args = Inr st2"
      "fb_inv kSmallBuffer st2" "fb_text st2 = put_all kSmallBuffer fmt (fb_text st1) args"
    using puts [OF st1(2)] ok by (fastforce simp: all_args_def)
  obtain st3 where st3: "ls_puts fmt st2 (tail_args file line) = Inr st3"
      "fb_text st3 = put_all kSmallBuffer fmt (fb_text st2) (tail_args file line)"
    using puts [OF st2(2)] ok by (fastforce simp: all_args_def)
  show ?thesis
    using st1 st2 st3 by (simp add: log_statement_def logger_new_def logger_dtor_def all_args_def)
qed

lemma args_short: "length (render_all fmt as) < n \<Longrightarrow> list_all (\<lambda>a. length (render fmt a) < n) as"
  by (induction as) auto

lemma log_statement_spec:
  assumes fmt: "\<And>d. length (fmt d) < 32"
    and room: "length (log_line fmt tid time file line level args) + 32 \<le> kSmallBuffer"
  shows "log_statement fmt tid time file line level args =
         Inr (log_line fmt tid time file line level args)"
proof -
  have "length (render_all fmt (all_args tid time file line level args)) < 2 ^ 31"
    using room by (simp add: log_line_render kSmallBuffer_def)
  from log_statement_total [where fmt = fmt, OF fmt args_short [OF this]] room show ?thesis
    by (simp add: log_line_render put_all_fits)
qed

lemma log_statement_full:
  assumes fmt: "\<And>d. length (fmt d) < 32"
    and head: "length (LogLevelName level @ '' '' @ tid @ '' '' @ time) + 32 \<le> kSmallBuffer"
    and fill: "length (LogLevelName level @ '' '' @ tid @ '' '' @ time) + length s + 1 = kSmallBuffer"
    and flen: "length file < 2 ^ 31"
  shows "log_statement fmt tid time file line level [LString s] =
         Inr (LogLevelName level @ '' '' @ tid @ '' '' @ time @ s)"
proof -
  let ?h = "header_args level tid time" and ?t = "LogLevelName level @ '' '' @ tid @ '' '' @ time"
  have h: "render_all fmt ?h = ?t" by (simp add: header_args_def)
  have "length (int_decimal (sint line)) \<le> 20"
    using length_convert [OF int_ranges(3,4), of line] by (simp add: convert_int_decimal)
  then have "list_all (\<lambda>a. length (render fmt a) < 2 ^ 31) (all_args tid time file line level [LString s])"
    using flen fill by (simp add: all_args_def header_args_def tail_args_def kSmallBuffer_def)
  from log_statement_total [where fmt = fmt, OF fmt this]
  have "log_statement fmt tid time file line level [LString s] =
      Inr (put_all kSmallBuffer fmt (put_all kSmallBuffer fmt [] ?h) (LString s # tail_args file line))"
    by (simp add: all_args_def)
  moreover have "put_all kSmallBuffer fmt [] ?h = ?t" using put_all_fits [of "[]" fmt ?h] head h by simp
  moreover have "put_all kSmallBuffer fmt ?t (LString s # tail_args file line) = ?t @ s"
    using put_all_full [of "?t @ s" kSmallBuffer fmt] fill by simp
  ultimately show ?thesis by simp
qed

section \<open>Properties\<close>

text \<open>A log statement emits one complete line: level name, thread id, time, the operands
  in the order of the statement, then file, line number and a newline, provided the line is 32
  bytes shorter than the 4000 byte stream. This holds for every level: \<open>FATAL\<close> only prints.\<close>
theorem log_statement_line:
  assumes "\<And>d. length (fmt d) < 32"
    and "length (log_line fmt tid time file line level args) + 32 \<le> kSmallBuffer"
  shows "log_statement fmt tid time file line level args =
         Inr (LogLevelName level @ '' '' @ tid @ '' '' @ time @ concat (map (render fmt) args) @
              ''--'' @ file @ '':'' @ int_decimal (sint line) @ [CHR 0x0A])"
  using log_statement_spec [where fmt = fmt, OF assms] by (simp add: log_line_def render_all_def)

theorem log_statement_line_witness:
  "log_statement (\<lambda>_ :: unit. ''0.5'') ''  42 '' ''2019-01-01 00:00:00'' ''a.cpp'' 7 FATAL
     [LString ''x='', LInt (- 3)] =
   Inr (''FATAL    42  2019-01-01 00:00:00x=-3--a.cpp:7'' @ [CHR 0x0A])"
proof -
  have d: "int_decimal 7 = ''7''" "int_decimal (- 3) = ''-3''"
    by (simp_all add: int_decimal_def decimal.simps digit_char_def)
  show ?thesis
    using log_statement_line [of "\<lambda>_ :: unit. ''0.5''" "''  42 ''" "''2019-01-01 00:00:00''"
        "''a.cpp''" 7 FATAL "[LString ''x='', LInt (- 3)]"]
    by (simp add: log_line_def render_all_def kSmallBuffer_def d)
qed

text \<open>A long message loses its end of line: when the operands fill the stream to its last
  usable byte, file name, line number and even the newline are dropped, so the next line is
  glued to this one in the file.\<close>
theorem log_statement_unterminated:
  assumes "\<And>d. length (fmt d) < 32"
    and "length (LogLevelName level @ '' '' @ tid @ '' '' @ time) + 32 \<le> kSmallBuffer"
    and "length (LogLevelName level @ '' '' @ tid @ '' '' @ time) + length s + 1 = kSmallBuffer"
    and "length file < 2 ^ 31"
  shows "log_statement fmt tid time file line level [LString s] =
         Inr (LogLevelName level @ '' '' @ tid @ '' '' @ time @ s)"
  by (rule log_statement_full [where fmt = fmt, OF assms])

theorem log_statement_unterminated_witness:
  "log_statement (\<lambda>_ :: unit. ''0.5'') ''42'' ''noon'' ''a.cpp'' 7 INFO
     [LString (replicate 3986 (CHR ''x''))] =
   Inr (''INFO  42 noon'' @ replicate 3986 (CHR ''x''))"
  using log_statement_unterminated [of "\<lambda>_ :: unit. ''0.5''" INFO "''42''" "''noon''"
      "replicate 3986 (CHR ''x'')" "''a.cpp''" 7]
  by (simp add: kSmallBuffer_def)

end
