(* ===== verification/Log_Process.thy ===== *)
theory Log_Process
  imports Logger
begin

text \<open>
  The whole logging path of a process, from \<open>LOG_X << ...\<close> in any of its threads to the file:
  \<open>base/Logging.cpp\<close> (the macros' \<open>Logger\<close> object, \<open>output\<close>, \<open>once_init\<close> and the file name)
  in front of \<open>base/AsyncLogging.cpp\<close>. A statement formats its line by itself; the first one
  creates and starts the asynchronous log under the current file name; then it appends. Statements
  of several threads and the steps of the background thread interleave. The lemmas show that
  logging fails only if its file name is too short for the assertion of the log's constructor, and that
  the file holds what the statements print, whole and in order. Creating the log is one step with the
  statement that does it, and \<open>logFileName_\<close>, an unprotected string, is read and set in one step.
\<close>

section \<open>The process\<close>

record 'd log_stmt =
  stm_tid :: string
  stm_time :: string
  stm_file :: string
  stm_line :: "32 word"
  stm_level :: log_level
  stm_args :: "'d log_arg list"

text \<open>
  \<open>pr_name\<close> is \<open>logFileName_\<close>, \<open>pr_opened\<close> the name the log was created with; \<open>pr_done\<close>
  records the statements executed.
\<close>

record 'd log_proc =
  pr_sys :: log_sys
  pr_name :: string
  pr_opened :: "string option"
  pr_done :: "'d log_stmt list"

definition proc_start :: "'d log_proc" where
  "proc_start =
     \<lparr>pr_sys = sys_init kLargeBuffer, pr_name = ''./scc_WebServer.log'', pr_opened = None, pr_done = []\<rparr>"

definition setLogFileName :: "string \<Rightarrow> 'd log_proc \<Rightarrow> 'd log_proc" where
  "setLogFileName name p = p\<lparr>pr_name := name\<rparr>"

definition getLogFileName :: "'d log_proc \<Rightarrow> string" where
  "getLogFileName p = pr_name p"

text \<open>
  \<open>start\<close> of the log: \<open>running_\<close> is set, the thread starts, and the latch holds the caller
  until the thread has made its first step.
\<close>

definition async_start :: "(nat \<Rightarrow> nat \<Rightarrow> nat) \<Rightarrow> bool \<Rightarrow> log_sys \<Rightarrow> log_sys res option" where
  "async_start wr err s =
     thread_step wr err kLargeBuffer
       (s\<lparr>sys_log := (sys_log s)\<lparr>al_running := True\<rparr>, sys_phase := Started\<rparr>)"

definition once_init :: "(nat \<Rightarrow> nat \<Rightarrow> nat) \<Rightarrow> bool \<Rightarrow> 'd log_proc \<Rightarrow> 'd log_proc res option" where
  "once_init wr err p =
     (case al_new kLargeBuffer (getLogFileName p) of
        Inl e \<Rightarrow> Some (Inl e)
      | Inr a \<Rightarrow> map_option (\<lambda>r. bindE r (\<lambda>s. Inr (p\<lparr>pr_sys := s, pr_opened := Some (getLogFileName p)\<rparr>)))
          (async_start wr err ((pr_sys p)\<lparr>sys_log := a\<rparr>)))"

text \<open>\<open>output\<close>: \<open>pthread_once\<close>, then \<open>append\<close>.\<close>

definition proc_append :: "string \<Rightarrow> 'd log_proc \<Rightarrow> 'd log_proc res" where
  "proc_append msg p =
     bindE (al_append kLargeBuffer (sys_log (pr_sys p)) msg) (\<lambda>a.
       Inr (p\<lparr>pr_sys := (pr_sys p)\<lparr>sys_log := a, sys_lines := sys_lines (pr_sys p) @ [msg]\<rparr>\<rparr>))"

definition proc_output :: "(nat \<Rightarrow> nat \<Rightarrow> nat) \<Rightarrow> bool \<Rightarrow> string \<Rightarrow> 'd log_proc \<Rightarrow> 'd log_proc res option" where
  "proc_output wr err msg p =
     map_option (\<lambda>r. bindE r (proc_append msg))
       (if pr_opened p = None then once_init wr err p else Some (Inr p))"

definition stmt_text :: "('d \<Rightarrow> string) \<Rightarrow> 'd log_stmt \<Rightarrow> string res" where
  "stmt_text fmt st =
     log_statement fmt (stm_tid st) (stm_time st) (stm_file st) (stm_line st) (stm_level st) (stm_args st)"

definition proc_log ::
  "('d \<Rightarrow> string) \<Rightarrow> (nat \<Rightarrow> nat \<Rightarrow> nat) \<Rightarrow> bool \<Rightarrow> 'd log_stmt \<Rightarrow> 'd log_proc \<Rightarrow> 'd log_proc res option" where
  "proc_log fmt wr err st p =
     (case stmt_text fmt st of
        Inl e \<Rightarrow> Some (Inl e)
      | Inr msg \<Rightarrow> map_option (\<lambda>r. bindE r (\<lambda>p'. Inr (p'\<lparr>pr_done := pr_done p' @ [st]\<rparr>)))
          (proc_output wr err msg p))"

section \<open>Runs\<close>

text \<open>
  The operands of a statement, and what it prints of them: those the logger's small buffer has room for.
  A statement is admitted if each of its operands is a text of less than 2^31 bytes; it fits if all of it is
  32 bytes shorter than the buffer.
\<close>

definition stmt_all :: "'d log_stmt \<Rightarrow> 'd log_arg list" where
  "stmt_all st = all_args (stm_tid st) (stm_time st) (stm_file st) (stm_line st) (stm_level st) (stm_args st)"

definition stmt_line :: "('d \<Rightarrow> string) \<Rightarrow> 'd log_stmt \<Rightarrow> string" where
  "stmt_line fmt st = put_all kSmallBuffer fmt [] (stmt_all st)"

definition stmt_ok :: "('d \<Rightarrow> string) \<Rightarrow> 'd log_stmt \<Rightarrow> bool" where
  "stmt_ok fmt st \<longleftrightarrow> list_all (\<lambda>a. length (render fmt a) < 2 ^ 31) (stmt_all st)"

definition stmt_full :: "('d \<Rightarrow> string) \<Rightarrow> 'd log_stmt \<Rightarrow> string" where
  "stmt_full fmt st =
     log_line fmt (stm_tid st) (stm_time st) (stm_file st) (stm_line st) (stm_level st) (stm_args st)"

definition stmt_fits :: "('d \<Rightarrow> string) \<Rightarrow> 'd log_stmt \<Rightarrow> bool" where
  "stmt_fits fmt st \<longleftrightarrow> length (stmt_full fmt st) + 32 \<le> kSmallBuffer"

lemma stmt_full_all: "stmt_full fmt st = render_all fmt (stmt_all st)"
  by (simp add: stmt_full_def stmt_all_def log_line_render)

lemma stmt_fits_line: "stmt_fits fmt st \<Longrightarrow> stmt_line fmt st = stmt_full fmt st"
  using put_all_fits [of "[]" fmt "stmt_all st"] by (simp add: stmt_fits_def stmt_full_all stmt_line_def)

lemma stmt_fits_ok: "stmt_fits fmt st \<Longrightarrow> stmt_ok fmt st"
  using args_short [of fmt "stmt_all st" "2 ^ 31"] by (simp add: stmt_fits_def stmt_full_all stmt_ok_def kSmallBuffer_def)

inductive proc_step ::
  "('d \<Rightarrow> string) \<Rightarrow> (nat \<Rightarrow> nat \<Rightarrow> nat) \<Rightarrow> bool \<Rightarrow> 'd log_proc \<Rightarrow> 'd log_proc res \<Rightarrow> bool"
  for fmt wr err where
  statement: "stmt_ok fmt st \<Longrightarrow> proc_log fmt wr err st p = Some r \<Longrightarrow> proc_step fmt wr err p r"
| set_name: "proc_step fmt wr err p (Inr (setLogFileName name p))"
| background: "thread_step wr err kLargeBuffer (pr_sys p) = Some r \<Longrightarrow>
    proc_step fmt wr err p (bindE r (\<lambda>s. Inr (p\<lparr>pr_sys := s\<rparr>)))"

abbreviation proc_reach :: "('d \<Rightarrow> string) \<Rightarrow> (nat \<Rightarrow> nat \<Rightarrow> nat) \<Rightarrow> bool \<Rightarrow> 'd log_proc res \<Rightarrow> bool" where
  "proc_reach fmt wr err \<equiv> reach (proc_step fmt wr err) proc_start"

section \<open>Invariant\<close>

definition proc_inv :: "('d \<Rightarrow> string) \<Rightarrow> (nat \<Rightarrow> nat \<Rightarrow> nat) \<Rightarrow> 'd log_proc \<Rightarrow> bool" where
  "proc_inv fmt wr p \<longleftrightarrow>
     sys_inv wr kLargeBuffer (pr_sys p) \<and>
     sys_lines (pr_sys p) = map (stmt_line fmt) (pr_done p) \<and>
     (pr_opened p = None \<longleftrightarrow> sys_phase (pr_sys p) = Not_started) \<and>
     (pr_opened p = None \<longrightarrow> pr_sys p = sys_init kLargeBuffer) \<and>
     (pr_opened p = None \<longrightarrow> pr_done p = []) \<and>
     sys_phase (pr_sys p) \<noteq> Started"

lemma proc_start_inv: "proc_inv fmt wr proc_start"
  using sys_init_inv [OF kLargeBuffer_lt, of wr]
  by (simp add: proc_inv_def proc_start_def) (simp add: sys_init_def)

lemma stmt_text_ok:
  assumes "\<And>d. length (fmt d) < 32" and "stmt_ok fmt st"
  shows "stmt_text fmt st = Inr (stmt_line fmt st)"
  using log_statement_total [where fmt = fmt, OF assms(1)] assms(2)
  by (simp add: stmt_text_def stmt_line_def stmt_ok_def stmt_all_def)

lemma stmt_line_le: "(\<And>d. length (fmt d) < 32) \<Longrightarrow> length (stmt_line fmt st) \<le> kSmallBuffer"
  using put_all_length [of "[]" kSmallBuffer fmt] by (simp add: stmt_line_def)

lemma stmt_line_short:
  assumes "\<And>d. length (fmt d) < 32"
  shows "length (stmt_line fmt st) < kLargeBuffer"
  using stmt_line_le [where fmt = fmt and st = st, OF assms] by (simp add: kSmallBuffer_def kLargeBuffer_def)

lemma fitting_stmts:
  assumes "\<And>d. length (fmt d) < 32"
  shows "fitting kLargeBuffer (map (stmt_line fmt) sts) = map (stmt_line fmt) sts"
  using stmt_line_short [where fmt = fmt, OF assms] by (simp add: fitting_def)

text \<open>The thread changes neither the lines nor, once it runs, leaves the phases of a running one.\<close>

lemma thread_step_lines:
  assumes "thread_step wr err SIZE s = Some (Inr s')"
  shows "sys_lines s' = sys_lines s \<and> sys_phase s \<noteq> Not_started \<and> sys_phase s' \<noteq> Not_started \<and>
    sys_phase s' \<noteq> Started"
  using assms
  by (auto simp: thread_step_def do_swap_def res_simps split: log_phase.splits if_splits prod.splits)

lemma once_init_spec:
  assumes inv: "proc_inv fmt wr p" and new: "pr_opened p = None" and name: "1 < length (pr_name p)"
  shows "\<exists>p'. once_init wr err p = Some (Inr p') \<and> proc_inv fmt wr p' \<and>
    pr_opened p' = Some (pr_name p) \<and> pr_name p' = pr_name p \<and> pr_done p' = pr_done p"
proof -
  let ?s = "pr_sys p"
  let ?s1 = "?s\<lparr>sys_log := (sys_log ?s)\<lparr>al_running := True\<rparr>, sys_phase := Started\<rparr>"
  let ?s2 = "?s1\<lparr>sys_thr := lt_new kLargeBuffer, sys_phase := Loop_head\<rparr>"
  have ph: "sys_phase ?s = Not_started" and si: "sys_inv wr kLargeBuffer ?s"
    using inv new unfolding proc_inv_def by blast+
  have i1: "sys_inv wr kLargeBuffer ?s1"
    using log_step_inv [OF log_step.start [OF ph] si kLargeBuffer_lt] by simp
  have t: "thread_step wr err kLargeBuffer ?s1 = Some (Inr ?s2)" by (simp add: thread_step_def)
  have i2: "sys_inv wr kLargeBuffer ?s2"
    using log_step_inv [OF log_step.thread [OF t] i1 kLargeBuffer_lt] by simp
  have "?s = sys_init kLargeBuffer" using inv new by (simp add: proc_inv_def)
  then have "?s\<lparr>sys_log := al_init kLargeBuffer\<rparr> = ?s" by (simp add: sys_init_def)
  with t name have "once_init wr err p = Some (Inr (p\<lparr>pr_sys := ?s2, pr_opened := Some (pr_name p)\<rparr>))"
    by (simp add: once_init_def async_start_def getLogFileName_def al_new_def)
  moreover have "proc_inv fmt wr (p\<lparr>pr_sys := ?s2, pr_opened := Some (pr_name p)\<rparr>)"
    using inv i2 by (simp add: proc_inv_def)
  ultimately show ?thesis by simp
qed

lemma once_init_fails:
  "length (pr_name p) \<le> 1 \<Longrightarrow> once_init wr err p = Some (Inl (Assertion ''basename_.size() > 1''))"
  by (simp add: once_init_def al_new_def getLogFileName_def)

lemma proc_append_spec:
  assumes fmt: "\<And>d. length (fmt d) < 32" and inv: "proc_inv fmt wr p" and op: "pr_opened p \<noteq> None"
  shows "\<exists>p'. proc_append (stmt_line fmt st) p = Inr p' \<and>
    proc_inv fmt wr (p'\<lparr>pr_done := pr_done p' @ [st]\<rparr>) \<and>
    pr_opened p' = pr_opened p \<and> pr_name p' = pr_name p \<and> pr_done p' = pr_done p"
proof -
  let ?l = "stmt_line fmt st"
  have len: "length ?l < 2 ^ 31"
    using stmt_line_short [where fmt = fmt, OF fmt, of st] kLargeBuffer_lt by simp
  have si: "sys_inv wr kLargeBuffer (pr_sys p)" using inv by (simp add: proc_inv_def)
  obtain a where a: "al_append kLargeBuffer (sys_log (pr_sys p)) ?l = Inr a"
      "sys_inv wr kLargeBuffer ((pr_sys p)\<lparr>sys_log := a, sys_lines := sys_lines (pr_sys p) @ [?l]\<rparr>)"
    using append_keeps_inv [OF si len kLargeBuffer_lt] by (auto simp: bindE_Inr_iff)
  then show ?thesis using inv op by (auto simp: proc_append_def proc_inv_def)
qed

lemma proc_log_spec:
  assumes fmt: "\<And>d. length (fmt d) < 32" and inv: "proc_inv fmt wr p" and ok: "stmt_ok fmt st"
    and name: "pr_opened p \<noteq> None \<or> 1 < length (pr_name p)"
  shows "\<exists>p'. proc_log fmt wr err st p = Some (Inr p') \<and> proc_inv fmt wr p' \<and>
    pr_done p' = pr_done p @ [st] \<and> pr_name p' = pr_name p \<and>
    pr_opened p' = Some (case pr_opened p of None \<Rightarrow> pr_name p | Some f \<Rightarrow> f)"
proof -
  obtain p1 where p1: "(if pr_opened p = None then once_init wr err p else Some (Inr p)) = Some (Inr p1)"
      "proc_inv fmt wr p1" "pr_done p1 = pr_done p" "pr_name p1 = pr_name p"
      "pr_opened p1 = Some (case pr_opened p of None \<Rightarrow> pr_name p | Some f \<Rightarrow> f)"
    using once_init_spec [OF inv, of err] inv name by (cases "pr_opened p") auto
  have "pr_opened p1 \<noteq> None" using p1(5) by simp
  from proc_append_spec [where fmt = fmt, OF fmt p1(2) this] obtain p2 where p2: "proc_append (stmt_line fmt st) p1 = Inr p2"
    "proc_inv fmt wr (p2\<lparr>pr_done := pr_done p2 @ [st]\<rparr>)" "pr_opened p2 = pr_opened p1"
    "pr_name p2 = pr_name p1" "pr_done p2 = pr_done p1" by blast
  have "proc_log fmt wr err st p = Some (Inr (p2\<lparr>pr_done := pr_done p2 @ [st]\<rparr>))"
    by (simp only: proc_log_def stmt_text_ok [where fmt = fmt, OF fmt ok] proc_output_def p1(1) p2(1)
        sum.case option.map bindE_simps)
  then show ?thesis using p1 p2 by simp
qed

lemma proc_log_fails:
  assumes fmt: "\<And>d. length (fmt d) < 32" and ok: "stmt_ok fmt st" and "pr_opened p = None" "length (pr_name p) \<le> 1"
  shows "proc_log fmt wr err st p = Some (Inl (Assertion ''basename_.size() > 1''))"
  using assms(3,4) by (simp add: proc_log_def stmt_text_ok [where fmt = fmt, OF fmt ok] proc_output_def once_init_fails)

text \<open>What a step can fail with; and the name under which the log was opened never changes.\<close>

lemma proc_step_inv:
  assumes fmt: "\<And>d. length (fmt d) < 32" and step: "proc_step fmt wr err p r" and inv: "proc_inv fmt wr p"
  shows "case r of
      Inl e \<Rightarrow> e = Assertion ''basename_.size() > 1'' \<and> pr_opened p = None \<and> length (pr_name p) \<le> 1
    | Inr p' \<Rightarrow> proc_inv fmt wr p' \<and> (\<forall>f. pr_opened p = Some f \<longrightarrow> pr_opened p' = Some f)"
  using step
proof cases
  case (statement st)
  show ?thesis
  proof (cases "pr_opened p \<noteq> None \<or> 1 < length (pr_name p)")
    case True
    from proc_log_spec [where fmt = fmt, OF fmt inv statement(1) this, of err] statement(2) show ?thesis by auto
  next
    case False
    with proc_log_fails [where fmt = fmt, OF fmt statement(1), of p wr err] statement(2) show ?thesis by simp
  qed
next
  case (set_name name)
  then show ?thesis using inv by (simp add: setLogFileName_def proc_inv_def)
next
  case (background r')
  have si: "sys_inv wr kLargeBuffer (pr_sys p)" using inv by (simp add: proc_inv_def)
  obtain s' where s': "r' = Inr s'" "sys_inv wr kLargeBuffer s'"
    using log_step_inv [OF log_step.thread [OF background(2)] si kLargeBuffer_lt] by blast
  from thread_step_lines [OF background(2) [unfolded s'(1)]] inv s' show ?thesis
    using background(1) by (auto simp: proc_inv_def)
qed

lemma proc_reach_inv:
  assumes "\<And>d. length (fmt d) < 32" and "proc_reach fmt wr err (Inr p)"
  shows "proc_inv fmt wr p"
proof (rule reach_inv_Inr [OF assms(2)])
  show "proc_inv fmt wr proc_start" by (rule proc_start_inv)
  show "proc_inv fmt wr p'" if "proc_inv fmt wr p" "proc_step fmt wr err p (Inr p')" for p p'
    using proc_step_inv [where fmt = fmt, OF assms(1) that(2,1)] by simp
qed

lemma proc_fails:
  assumes fmt: "\<And>d. length (fmt d) < 32" and "proc_reach fmt wr err (Inl e)"
  shows "e = Assertion ''basename_.size() > 1''"
proof -
  obtain p where p: "proc_reach fmt wr err (Inr p)" "proc_step fmt wr err p (Inl e)"
    using reach_Inl [OF assms(2)] by blast
  from proc_step_inv [where fmt = fmt, OF fmt p(2) proc_reach_inv [where fmt = fmt, OF fmt p(1)]] show ?thesis by simp
qed

text \<open>The first statement of a process, and the thread going to wait after it.\<close>

lemma first_statement:
  assumes fmt: "\<And>d. length (fmt d) < 32" and ok: "stmt_ok fmt st"
  shows "\<exists>p. proc_reach fmt wr err (Inr p) \<and> sys_phase (pr_sys p) = Waiting \<and>
    al_buffers (sys_log (pr_sys p)) = [] \<and> \<not> sys_overrun (pr_sys p) \<and> pr_done p = [st] \<and>
    pr_opened p = Some ''./scc_WebServer.log''"
proof -
  let ?S = kLargeBuffer and ?l = "stmt_line fmt st"
  let ?a0 = "(al_init ?S)\<lparr>al_running := True\<rparr>" and ?b = "fb_bzero (fb_new ?S)"
  have b: "fb_inv ?S ?b" "fb_cur ?b = 0" using kLargeBuffer_lt by simp_all
  have short: "length ?l < ?S" by (rule stmt_line_short [where fmt = fmt, OF fmt])
  then have len: "length ?l < 2 ^ 31" using kLargeBuffer_lt by simp
  obtain b' where b': "fb_append ?b ?l = Inr b'" using fresh_append [OF b len] by blast
  have room: "int (length ?l) < fb_avail ?b" using b short by (simp add: fb_avail_def fb_inv_def)
  have ap: "al_append ?S ?a0 ?l = Inr (?a0\<lparr>al_current := Some b'\<rparr>)"
    using b' room by (simp add: al_append_def al_init_def)
  let ?s2 = "(sys_init ?S)\<lparr>sys_log := ?a0, sys_thr := lt_new ?S, sys_phase := Loop_head\<rparr>"
  let ?p1 = "(proc_start :: 'a log_proc)\<lparr>pr_sys := ?s2, pr_opened := Some ''./scc_WebServer.log''\<rparr>"
  have o: "once_init wr err (proc_start :: 'a log_proc) = Some (Inr ?p1)"
    by (simp add: once_init_def al_new_def async_start_def thread_step_def proc_start_def getLogFileName_def sys_init_def)
  let ?s3 = "?s2\<lparr>sys_log := ?a0\<lparr>al_current := Some b'\<rparr>, sys_lines := [?l]\<rparr>"
  have pa: "proc_append ?l ?p1 = Inr (?p1\<lparr>pr_sys := ?s3\<rparr>)"
    by (simp add: proc_append_def ap sys_init_def)
  let ?p2 = "?p1\<lparr>pr_sys := ?s3, pr_done := [st]\<rparr>"
  have n: "pr_opened (proc_start :: 'a log_proc) = None" "pr_done ?p1 = []" by (simp_all add: proc_start_def)
  have "proc_log fmt wr err st proc_start = Some (Inr ?p2)"
    using o pa n by (simp add: proc_log_def stmt_text_ok [where fmt = fmt, OF fmt ok] proc_output_def)
  then have r2: "proc_reach fmt wr err (Inr ?p2)"
    by (intro reach_first proc_step.statement [OF ok])
  have w: "thread_step wr err ?S ?s3 = Some (Inr (?s3\<lparr>sys_phase := Waiting\<rparr>))"
    by (rule wait_step [OF _ _ _ _ kLargeBuffer_lt]) (simp_all add: al_init_def)
  define p2 where "p2 = ?p2"
  define p3 where "p3 = ?p2\<lparr>pr_sys := ?s3\<lparr>sys_phase := Waiting\<rparr>\<rparr>"
  have w': "thread_step wr err ?S (pr_sys p2) = Some (Inr (pr_sys p3))" using w by (simp add: p2_def p3_def)
  have e: "p2\<lparr>pr_sys := pr_sys p3\<rparr> = p3" by (simp add: p2_def p3_def)
  have st3: "proc_step fmt wr err p2 (Inr p3)"
    using proc_step.background [where fmt = fmt, OF w'] by (simp add: e)
  have "proc_reach fmt wr err (Inr p2)" using r2 by (simp only: p2_def)
  then have r3: "proc_reach fmt wr err (Inr p3)" by (rule reach_step) (rule st3)
  show ?thesis by (rule exI [of _ p3]) (use r3 in \<open>simp add: p3_def al_init_def sys_init_def\<close>)
qed

section \<open>Properties\<close>

text \<open>C12. 
  Logging from end to end: whatever threads log, in whatever order, with whatever interleaving of
  the background thread and whatever short writes of the file system, the file is a
  concatenation of what the statements print, each whole, in the order in which the
  statements ran; unless the log was overrun (a batch of more than 25 buffers) no
  statement before the last one in the file is missing. What a statement prints is its complete line, with
  file, line number and newline, if that is 32 bytes shorter than the 4000 byte buffer; of a longer one
  the operands that do not fit are left out, and the newline may be one of them. The only failure is the
  assertion of the log's constructor: a statement fails exactly if it is the first one and the name set for the file has
  at most one character. Assumed: operands are shorter than 2^31 bytes and formatted numbers shorter than 32,
  a write accepts at least one byte, and the file can be opened.
\<close>
theorem log_process_lines:
  assumes "\<And>d. length (fmt d) < 32" and "proc_reach fmt wr err r" and "progressing_writes wr"
  shows "case r of
      Inl e \<Rightarrow> e = Assertion ''basename_.size() > 1''
    | Inr p \<Rightarrow>
        (\<exists>ls. af_out (lf_file (lt_output (sys_thr (pr_sys p)))) = concat ls \<and>
          subseq ls (map (stmt_line fmt) (pr_done p)) \<and>
          (\<not> sys_overrun (pr_sys p) \<longrightarrow> prefix ls (map (stmt_line fmt) (pr_done p)))) \<and>
        (\<forall>st. length (stmt_line fmt st) \<le> kSmallBuffer \<and>
          (stmt_fits fmt st \<longrightarrow> stmt_line fmt st = stmt_full fmt st)) \<and>
        (\<forall>st. stmt_ok fmt st \<longrightarrow>
          (if pr_opened p = None \<and> length (getLogFileName p) \<le> 1
           then proc_log fmt wr err st p = Some (Inl (Assertion ''basename_.size() > 1''))
           else \<exists>p'. proc_log fmt wr err st p = Some (Inr p') \<and> pr_done p' = pr_done p @ [st]))"
proof (cases r)
  case (Inl e)
  with proc_fails [where fmt = fmt, OF assms(1)] assms(2) show ?thesis by simp
next
  case (Inr p)
  have inv: "proc_inv fmt wr p"
    using proc_reach_inv [where fmt = fmt, OF assms(1)] assms(2) Inr by blast
  have i: "sys_inv wr kLargeBuffer (pr_sys p)"
      "fitting kLargeBuffer (sys_lines (pr_sys p)) = map (stmt_line fmt) (pr_done p)"
    using inv fitting_stmts [where fmt = fmt, OF assms(1)] by (simp_all add: proc_inv_def)
  have "if pr_opened p = None \<and> length (getLogFileName p) \<le> 1
      then proc_log fmt wr err st p = Some (Inl (Assertion ''basename_.size() > 1''))
      else \<exists>p'. proc_log fmt wr err st p = Some (Inr p') \<and> pr_done p' = pr_done p @ [st]" if "stmt_ok fmt st" for st
    using proc_log_spec [where fmt = fmt, OF assms(1) inv that, of err]
      proc_log_fails [where fmt = fmt, OF assms(1) that, of p wr err]
    by (cases "pr_opened p = None \<and> length (pr_name p) \<le> 1") (auto simp: getLogFileName_def not_le)
  then show ?thesis
    using sys_inv_file [OF i(1) assms(3)] stmt_line_le [where fmt = fmt, OF assms(1)] stmt_fits_line
    unfolding i(2) Inr sum.case by blast
qed

text \<open>An example statement.\<close>

definition example_stmt :: "unit log_stmt" where
  "example_stmt = \<lparr>stm_tid = ''  42 '', stm_time = ''2019-01-01 00:00:00'', stm_file = ''a.cpp'',
     stm_line = 7, stm_level = INFO, stm_args = [LString ''x='', LInt 3]\<rparr>"

lemma example_full: "stmt_full (\<lambda>_. ''0.5'') example_stmt =
    ''INFO    42  2019-01-01 00:00:00x=3--a.cpp:7'' @ [CHR 0x0A]"
  by (simp add: stmt_full_def log_line_def example_stmt_def render_all_def int_decimal_def decimal.simps
      digit_char_def)

lemma example_fits: "stmt_fits (\<lambda>_. ''0.5'') example_stmt"
  by (simp add: stmt_fits_def example_full kSmallBuffer_def)

lemmas example_line = stmt_fits_line [OF example_fits, unfolded example_full]
lemmas example_ok = stmt_fits_ok [OF example_fits]

lemma full_writes: "progressing_writes (\<lambda>k n. n)"
  by (simp add: progressing_writes_def)

theorem log_process_lines_witness:
  "\<exists>p ls. proc_reach (\<lambda>_. ''0.5'') (\<lambda>k n. n) False (Inr p) \<and> pr_done p = [example_stmt] \<and>
     af_out (lf_file (lt_output (sys_thr (pr_sys p)))) = concat ls \<and>
     prefix ls [''INFO    42  2019-01-01 00:00:00x=3--a.cpp:7'' @ [CHR 0x0A]]"
proof -
  let ?f = "\<lambda>_ :: unit. ''0.5''"
  obtain p where p: "proc_reach ?f (\<lambda>k n. n) False (Inr p)" "pr_done p = [example_stmt]"
      "\<not> sys_overrun (pr_sys p)"
    using first_statement [of ?f example_stmt "\<lambda>k n. n" False] example_ok by auto
  have f: "length (?f d) < 32" for d by simp
  from log_process_lines [where fmt = ?f, OF f p(1) full_writes] p example_line show ?thesis by (auto 4 3)
qed

text \<open>
  Every statement's line reaches the file: from every state a process can come to, if the thread waits,
  no batch has been cut and fewer than 25 buffers are full, the thread's next round (three steps)
  leaves exactly the lines of all statements executed so far in the file, in order, and flushes them.
\<close>
theorem log_process_round:
  assumes "\<And>d. length (fmt d) < 32" and "proc_reach fmt wr err (Inr p)" and "progressing_writes wr"
    and "sys_phase (pr_sys p) = Waiting" and "\<not> sys_overrun (pr_sys p)"
    and "length (al_buffers (sys_log (pr_sys p))) < 25"
  shows "\<exists>s. thread_run 3 wr err kLargeBuffer (pr_sys p) = Some (Inr s) \<and>
    af_out (lf_file (lt_output (sys_thr s))) = concat (map (stmt_line fmt) (pr_done p)) \<and>
    af_flushed (lf_file (lt_output (sys_thr s))) = length (concat (map (stmt_line fmt) (pr_done p)))"
proof -
  have "proc_inv fmt wr p" by (rule proc_reach_inv [where fmt = fmt, OF assms(1,2)])
  then have i: "sys_inv wr kLargeBuffer (pr_sys p)"
      "fitting kLargeBuffer (sys_lines (pr_sys p)) = map (stmt_line fmt) (pr_done p)"
    by (simp_all add: proc_inv_def fitting_stmts [where fmt = fmt, OF assms(1)])
  from round_from_wait [OF i(1) assms(4,3,5,6)] show ?thesis unfolding i(2) by blast
qed

theorem log_process_round_witness:
  "\<exists>p s. proc_reach (\<lambda>_. ''0.5'') (\<lambda>k n. n) False (Inr p) \<and> pr_done p = [example_stmt] \<and>
     thread_run 3 (\<lambda>k n. n) False kLargeBuffer (pr_sys p) = Some (Inr s) \<and>
     af_out (lf_file (lt_output (sys_thr s))) = ''INFO    42  2019-01-01 00:00:00x=3--a.cpp:7'' @ [CHR 0x0A]"
proof -
  let ?f = "\<lambda>_ :: unit. ''0.5''"
  obtain p where p: "proc_reach ?f (\<lambda>k n. n) False (Inr p)" "pr_done p = [example_stmt]"
      "\<not> sys_overrun (pr_sys p)" "sys_phase (pr_sys p) = Waiting" "al_buffers (sys_log (pr_sys p)) = []"
    using first_statement [of ?f example_stmt "\<lambda>k n. n" False] example_ok by auto
  have f: "length (?f d) < 32" for d by simp
  have l: "length (al_buffers (sys_log (pr_sys p))) < 25" by (simp add: p(5))
  from log_process_round [where fmt = ?f, OF f p(1) full_writes p(4,3) l] p(1,2) example_line show ?thesis by auto
qed

text \<open>
  The file name is fixed by the first statement: \<open>setLogFileName\<close> after it still changes what
  \<open>getLogFileName\<close> answers, but no later event of the process changes the file that is written.
\<close>
theorem log_file_name_fixed:
  assumes "\<And>d. length (fmt d) < 32" and "proc_reach fmt wr err (Inr p)" and "pr_opened p = Some f"
    and "proc_step fmt wr err p (Inr p')"
  shows "pr_opened p' = Some f \<and> getLogFileName (setLogFileName g p) = g \<and>
    pr_opened (setLogFileName g p) = Some f"
proof -
  have "proc_inv fmt wr p" by (rule proc_reach_inv [where fmt = fmt, OF assms(1,2)])
  from proc_step_inv [where fmt = fmt, OF assms(1,4) this] assms(3)
  show ?thesis by (simp add: setLogFileName_def getLogFileName_def)
qed

theorem log_file_name_fixed_witness:
  "\<exists>p. proc_reach (\<lambda>_. ''0.5'') (\<lambda>k n. n) False (Inr (p :: unit log_proc)) \<and>
     pr_opened (setLogFileName ''b.log'' p) = Some ''./scc_WebServer.log''"
proof -
  let ?f = "\<lambda>_ :: unit. ''0.5''"
  obtain p where p: "proc_reach ?f (\<lambda>k n. n) False (Inr p)" "pr_opened p = Some ''./scc_WebServer.log''"
    using first_statement [of ?f example_stmt "\<lambda>k n. n" False] example_ok by auto
  have f: "length (?f d) < 32" for d by simp
  have "proc_step ?f (\<lambda>k n. n) False p (Inr (setLogFileName ''b.log'' p))" by (rule proc_step.set_name)
  from log_file_name_fixed [where fmt = ?f, OF f p this] p(1) show ?thesis by blast
qed

end
