(* ===== verification/Logging_Test.thy ===== *)
theory Logging_Test
  imports Log_Process
begin

text \<open>
  The test program of the logger, \<open>base/Test/LoggingTest.cpp\<close>, on top of the model of the logging
  path: its functions are lists of log statements, \<open>main\<close> runs two of them, starts four threads that
  run the third and goes on while they log. The lemmas show that nothing it prints is cut or lost on
  the way to the asynchronous log and that the statements of each thread come in the order of the
  program, whatever the threads and the background thread do meanwhile.
\<close>

section \<open>The program\<close>

text \<open>A statement by its line in the source, its level and its operands.\<close>

type_synonym 'd log_call = "32 word \<times> log_level \<times> 'd log_arg list"

definition threadFunc_call :: "nat \<Rightarrow> 'd log_call list" where
  "threadFunc_call i = [(12, INFO, [LInt (word_of_nat i)]), (13, WARN, [LInt (word_of_nat i)])]"

definition threadFunc :: "'d log_call list" where
  "threadFunc = concat (map threadFunc_call [0..<100000])"

text \<open>\<open>lit\<close> gives the value of a floating-point literal.\<close>

definition type_test :: "(string \<Rightarrow> 'd) \<Rightarrow> 'd log_call list" where
  "type_test lit =
     [(19, INFO, [LInt 0]),
      (20, INFO, [LLong 1234567890123]),
      (21, INFO, [LFloat (lit ''1.0f'')]),
      (22, INFO, [LDouble (lit ''3.1415926'')]),
      (23, INFO, [LShort 1]),
      (24, INFO, [LLongLong 1]),
      (25, INFO, [LUInt 1]),
      (26, INFO, [LULong 1]),
      (27, INFO, [LLongDouble (lit ''1.65555'')]),
      (28, INFO, [LULongLong 1]),
      (29, INFO, [LChar CHR ''c'']),
      (30, INFO, [LCString (Some ''avfgdf'')]),
      (31, INFO, [LString ''I am scc''])]"

definition stressing_single_thread :: "'d log_call list" where
  "stressing_single_thread = map (\<lambda>i. (37, INFO, [LInt (word_of_nat i)])) [0..<100000]"

definition other_test :: "(string \<Rightarrow> 'd) \<Rightarrow> 'd log_call list" where
  "other_test lit =
     [(58, INFO, [LCString (Some ''fdsfsdf''), LChar CHR ''f'', LInt 0, LDouble (lit ''3.666''), LString ''I am scc''])]"

text \<open>What \<open>main\<close> does: log, start a thread, sleep. The output to \<open>cout\<close> is left out.\<close>

datatype 'd main_op = M_log "'d log_call" | M_start | M_sleep nat

definition stressing_multi_threads :: "nat \<Rightarrow> 'd main_op list" where
  "stressing_multi_threads threadNum = replicate threadNum M_start @ [M_sleep 3]"

definition test_main :: "(string \<Rightarrow> 'd) \<Rightarrow> 'd main_op list" where
  "test_main lit =
     map M_log (type_test lit) @ [M_sleep 3] @ map M_log stressing_single_thread @ [M_sleep 3] @
     stressing_multi_threads 4 @ [M_sleep 3]"

section \<open>Its runs\<close>

text \<open>\<open>te_main\<close> and \<open>te_threads\<close>: what is left of the programs of \<open>main\<close> and of the threads started.\<close>

record 'd test_run =
  te_proc :: "'d log_proc"
  te_main :: "'d main_op list"
  te_threads :: "'d log_call list list"

definition test_start :: "(string \<Rightarrow> 'd) \<Rightarrow> 'd test_run" where
  "test_start lit = \<lparr>te_proc = proc_start, te_main = test_main lit, te_threads = []\<rparr>"

definition call_stmt :: "string \<Rightarrow> string \<Rightarrow> 'd log_call \<Rightarrow> 'd log_stmt" where
  "call_stmt tid time c =
     \<lparr>stm_tid = tid, stm_time = time, stm_file = ''LoggingTest.cpp'', stm_line = fst c,
      stm_level = fst (snd c), stm_args = snd (snd c)\<rparr>"

text \<open>The text of a thread id (\<open>t_tidString\<close>, a buffer of 32) and of the time (\<open>str_t\<close>, of 26).\<close>

definition stamp_ok :: "(nat \<Rightarrow> string) \<Rightarrow> string \<Rightarrow> bool" where
  "stamp_ok tid time \<longleftrightarrow> (\<forall>i \<le> 4. length (tid i) < 32) \<and> length time < 26"

text \<open>\<open>tid 0\<close> is the id of the main thread, \<open>tid (i + 1)\<close> that of thread \<open>i\<close>.\<close>

inductive test_step ::
  "('d \<Rightarrow> string) \<Rightarrow> (nat \<Rightarrow> nat \<Rightarrow> nat) \<Rightarrow> bool \<Rightarrow> (nat \<Rightarrow> string) \<Rightarrow> 'd test_run \<Rightarrow> 'd test_run res \<Rightarrow> bool"
  for fmt wr err tid where
  main_log: "te_main s = M_log c # ops \<Longrightarrow> stamp_ok tid time \<Longrightarrow>
    proc_log fmt wr err (call_stmt (tid 0) time c) (te_proc s) = Some r \<Longrightarrow>
    test_step fmt wr err tid s (bindE r (\<lambda>p. Inr (s\<lparr>te_proc := p, te_main := ops\<rparr>)))"
| main_start: "te_main s = M_start # ops \<Longrightarrow>
    test_step fmt wr err tid s (Inr (s\<lparr>te_main := ops, te_threads := te_threads s @ [threadFunc]\<rparr>))"
| main_sleep: "te_main s = M_sleep n # ops \<Longrightarrow> test_step fmt wr err tid s (Inr (s\<lparr>te_main := ops\<rparr>))"
| thread_log: "i < length (te_threads s) \<Longrightarrow> te_threads s ! i = c # cs \<Longrightarrow> stamp_ok tid time \<Longrightarrow>
    proc_log fmt wr err (call_stmt (tid (i + 1)) time c) (te_proc s) = Some r \<Longrightarrow>
    test_step fmt wr err tid s (bindE r (\<lambda>p. Inr (s\<lparr>te_proc := p, te_threads := (te_threads s)[i := cs]\<rparr>)))"
| background: "thread_step wr err kLargeBuffer (pr_sys (te_proc s)) = Some r \<Longrightarrow>
    test_step fmt wr err tid s (bindE r (\<lambda>y. Inr (s\<lparr>te_proc := (te_proc s)\<lparr>pr_sys := y\<rparr>\<rparr>)))"

section \<open>Every statement fits\<close>

definition short_call :: "('d \<Rightarrow> string) \<Rightarrow> 'd log_call \<Rightarrow> bool" where
  "short_call fmt c \<longleftrightarrow> length (render_all fmt (snd (snd c))) \<le> 100"

lemma int_decimal_short: "- (2 ^ 63) \<le> v \<Longrightarrow> v < 2 ^ 64 \<Longrightarrow> length (int_decimal v) \<le> 20"
  using length_convert [of v] by (simp add: convert_int_decimal)

lemma sint_short:
  fixes x :: "'a :: len word"
  assumes "LENGTH('a) \<le> 64"
  shows "length (int_decimal (sint x)) \<le> 20" "length (int_decimal (uint x)) \<le> 20"
proof -
  have p: "(2 :: int) ^ (LENGTH('a) - 1) \<le> 2 ^ 63" "(2 :: int) ^ (LENGTH('a) - 1) \<le> 2 ^ 64"
      "(2 :: int) ^ LENGTH('a) \<le> 2 ^ 64"
    by (rule power_increasing; use assms in simp)+
  have "- (2 ^ 63) \<le> - ((2 :: int) ^ (LENGTH('a) - 1))" using p(1) by (simp only: neg_le_iff_le)
  then have s: "- (2 ^ 63) \<le> sint x" using sint_ge [of x] by (rule order.trans)
  show "length (int_decimal (sint x)) \<le> 20"
    by (rule int_decimal_short [OF s]) (rule less_le_trans [OF sint_lt p(2)])
  have "- (2 ^ 63) \<le> (0 :: int)" by simp
  then have u: "- (2 ^ 63) \<le> uint x" using unsigned_greater_eq [of x] by (rule order.trans)
  show "length (int_decimal (uint x)) \<le> 20"
    by (rule int_decimal_short [OF u]) (rule less_le_trans [OF unsigned_less p(3)])
qed

text \<open>Operands that are no texts print at most 31 characters.\<close>

fun is_text :: "'d log_arg \<Rightarrow> bool" where
  "is_text (LCString str) = True"
| "is_text (LUCString str) = True"
| "is_text (LString str) = True"
| "is_text _ = False"

lemma render_short:
  assumes "length (fmt d) < 32" "\<And>d. length (fmt d) < 32" "\<not> is_text a"
  shows "length (render fmt a) \<le> 100"
proof -
  have i: "length (int_decimal (sint (x :: 32 word))) \<le> 20" "length (int_decimal (uint x)) \<le> 20" for x
    by (rule sint_short; simp)+
  have l: "length (int_decimal (sint (x :: 64 word))) \<le> 20" "length (int_decimal (uint x)) \<le> 20" for x
    by (rule sint_short; simp)+
  have h: "length (int_decimal (sint (x :: 16 word))) \<le> 20" "length (int_decimal (uint x)) \<le> 20" for x
    by (rule sint_short; simp)+
  have f: "length (fmt d) \<le> 100" for d using assms(2) [of d] by simp
  show ?thesis
    using assms(3) f i l h by (cases a) (auto intro: order.trans [where b = 20])
qed

lemma one_operand: "length (render fmt a) \<le> 100 \<Longrightarrow> snd (snd c) = [a] \<Longrightarrow> short_call fmt c"
  by (simp add: short_call_def)

lemma short_programs:
  assumes fmt: "\<And>d. length (fmt d) < 32"
  shows "c \<in> set (type_test lit) \<Longrightarrow> short_call fmt c" "c \<in> set stressing_single_thread \<Longrightarrow> short_call fmt c"
    "c \<in> set threadFunc \<Longrightarrow> short_call fmt c"
proof -
  note s = one_operand [OF render_short [where fmt = fmt, OF fmt fmt]]
  show "short_call fmt c" if "c \<in> set stressing_single_thread"
    using that s by (auto simp: stressing_single_thread_def)
  show "short_call fmt c" if "c \<in> set threadFunc"
    using that s by (auto simp: threadFunc_def threadFunc_call_def)
  show "short_call fmt c" if "c \<in> set (type_test lit)"
  proof -
    have "(\<exists>a. snd (snd c) = [a] \<and> \<not> is_text a) \<or> snd (snd c) = [LCString (Some ''avfgdf'')] \<or>
        snd (snd c) = [LString ''I am scc'']"
      using that unfolding type_test_def by auto
    then show ?thesis using s by (auto simp: short_call_def)
  qed
qed

lemma call_fits:
  assumes "short_call fmt c" "stamp_ok tid time" "i \<le> 4"
  shows "stmt_fits fmt (call_stmt (tid i) time c)"
proof -
  have "length (int_decimal (sint (fst c))) \<le> 20" by (rule sint_short) simp
  moreover have "length (LogLevelName (fst (snd c))) \<le> 6" by (cases "fst (snd c)") simp_all
  moreover have "length (tid i) < 32" "length time < 26" using assms(2,3) by (simp_all add: stamp_ok_def)
  ultimately show ?thesis
    using assms(1)
    by (simp add: stmt_fits_def stmt_full_def log_line_def call_stmt_def short_call_def kSmallBuffer_def)
qed

section \<open>Invariant\<close>

text \<open>The calls of a thread among the statements executed, and those left of \<open>main\<close>'s program.\<close>

definition calls_of :: "string \<Rightarrow> 'd log_proc \<Rightarrow> 'd log_call list" where
  "calls_of t p =
     map (\<lambda>st. (stm_line st, stm_level st, stm_args st)) (filter (\<lambda>st. stm_tid st = t) (pr_done p))"

fun logs_of :: "'d main_op list \<Rightarrow> 'd log_call list" where
  "logs_of [] = []"
| "logs_of (M_log c # ops) = c # logs_of ops"
| "logs_of (_ # ops) = logs_of ops"

fun starts_of :: "'d main_op list \<Rightarrow> nat" where
  "starts_of [] = 0"
| "starts_of (M_start # ops) = Suc (starts_of ops)"
| "starts_of (_ # ops) = starts_of ops"

lemma ops_append [simp]:
  "logs_of (xs @ ys) = logs_of xs @ logs_of ys" "starts_of (xs @ ys) = starts_of xs + starts_of ys"
  by (induction xs rule: logs_of.induct) simp_all

lemma ops_logs [simp]: "logs_of (map M_log cs) = cs" "starts_of (map M_log cs) = 0"
  by (induction cs) simp_all

lemma ops_starts [simp]: "logs_of (replicate n M_start) = []" "starts_of (replicate n M_start) = n"
  by (induction n) simp_all

lemma calls_of_snoc:
  "pr_done p' = pr_done p @ [call_stmt t' time c] \<Longrightarrow>
     calls_of t p' = (if t = t' then calls_of t p @ [c] else calls_of t p)"
  by (auto simp: calls_of_def call_stmt_def)

lemma calls_of_same: "pr_done p' = pr_done p \<Longrightarrow> calls_of t p' = calls_of t p"
  by (simp add: calls_of_def)

definition test_inv ::
  "('d \<Rightarrow> string) \<Rightarrow> (nat \<Rightarrow> nat \<Rightarrow> nat) \<Rightarrow> bool \<Rightarrow> (nat \<Rightarrow> string) \<Rightarrow> (string \<Rightarrow> 'd) \<Rightarrow> 'd test_run \<Rightarrow> bool" where
  "test_inv fmt wr err tid lit s \<longleftrightarrow>
     proc_reach fmt wr err (Inr (te_proc s)) \<and> 1 < length (pr_name (te_proc s)) \<and>
     calls_of (tid 0) (te_proc s) @ logs_of (te_main s) = type_test lit @ stressing_single_thread \<and>
     length (te_threads s) + starts_of (te_main s) = 4 \<and>
     (\<forall>i < length (te_threads s). calls_of (tid (i + 1)) (te_proc s) @ te_threads s ! i = threadFunc) \<and>
     (\<forall>i < 4. length (te_threads s) \<le> i \<longrightarrow> calls_of (tid (i + 1)) (te_proc s) = []) \<and>
     (\<forall>st \<in> set (pr_done (te_proc s)). \<exists>i \<le> length (te_threads s). stm_tid st = tid i)"

lemma test_start_inv: "test_inv fmt wr err tid lit (test_start lit)"
proof -
  have "proc_reach fmt wr err (Inr proc_start)" by (rule reach_init)
  then show ?thesis
    by (simp add: test_inv_def test_start_def test_main_def stressing_multi_threads_def calls_of_def)
      (simp add: proc_start_def)
qed

text \<open>Logging a statement that fits: it is executed and is the last one.\<close>

lemma log_statement_reach:
  assumes fmt: "\<And>d. length (fmt d) < 32" and r: "proc_reach fmt wr err (Inr p)" and fits: "stmt_fits fmt st"
    and name: "1 < length (pr_name p)"
  shows "\<exists>p'. proc_log fmt wr err st p = Some (Inr p') \<and> proc_reach fmt wr err (Inr p') \<and>
    pr_done p' = pr_done p @ [st] \<and> pr_name p' = pr_name p"
proof -
  have inv: "proc_inv fmt wr p" by (rule proc_reach_inv [where fmt = fmt, OF fmt r])
  have ok: "stmt_ok fmt st" by (rule stmt_fits_ok [where fmt = fmt, OF fits])
  from proc_log_spec [where fmt = fmt, OF fmt inv ok disjI2 [OF name], of err] obtain p' where
    p': "proc_log fmt wr err st p = Some (Inr p')" "pr_done p' = pr_done p @ [st]" "pr_name p' = pr_name p" by blast
  have "proc_step fmt wr err p (Inr p')" by (rule proc_step.statement [where fmt = fmt, OF ok p'(1)])
  with r have "proc_reach fmt wr err (Inr p')" by (rule reach_step)
  with p' show ?thesis by blast
qed

lemma test_step_inv:
  assumes fmt: "\<And>d. length (fmt d) < 32" and tid: "inj_on tid {..4}" and inv: "test_inv fmt wr err tid lit s"
    and step: "test_step fmt wr err tid s r"
  shows "\<exists>s'. r = Inr s' \<and> test_inv fmt wr err tid lit s'"
  using step
proof cases
  case (main_log c ops time r')
  let ?p = "te_proc s"
  have reach: "proc_reach fmt wr err (Inr ?p)" and name: "1 < length (pr_name ?p)"
    using inv by (simp_all add: test_inv_def)
  have "c \<in> set (type_test lit @ stressing_single_thread)"
  proof -
    have "calls_of (tid 0) ?p @ c # logs_of ops = type_test lit @ stressing_single_thread"
      using inv main_log(2) by (simp add: test_inv_def)
    then have "type_test lit @ stressing_single_thread = calls_of (tid 0) ?p @ c # logs_of ops" by (rule sym)
    then show ?thesis by (simp only: set_append set_simps Un_iff insert_iff) simp
  qed
  then have "short_call fmt c"
    unfolding set_append Un_iff using short_programs(1,2) [where fmt = fmt, OF fmt] by blast
  from log_statement_reach [where fmt = fmt, OF fmt reach call_fits [where fmt = fmt, OF this main_log(3), of 0, simplified] name] main_log(4)
  obtain p' where p': "r' = Inr p'" "proc_reach fmt wr err (Inr p')"
      "pr_done p' = pr_done ?p @ [call_stmt (tid 0) time c]" "1 < length (pr_name p')" using name by auto
  have "tid (i + 1) \<noteq> tid 0" if "i < 4" for i using inj_onD [OF tid, of "i + 1" 0] that by auto
  then have k: "calls_of (tid 0) p' = calls_of (tid 0) ?p @ [c]" "\<And>i. i < 4 \<Longrightarrow> calls_of (tid (i + 1)) p' = calls_of (tid (i + 1)) ?p"
    using calls_of_snoc [OF p'(3)] by simp_all
  have "test_inv fmt wr err tid lit (s\<lparr>te_proc := p', te_main := ops\<rparr>)"
    unfolding test_inv_def
  proof (intro conjI)
    show "\<forall>st \<in> set (pr_done (te_proc (s\<lparr>te_proc := p', te_main := ops\<rparr>))).
        \<exists>i \<le> length (te_threads (s\<lparr>te_proc := p', te_main := ops\<rparr>)). stm_tid st = tid i"
      using inv by (auto simp: test_inv_def p'(3) call_stmt_def)
  qed (use inv p'(2,4) main_log(2) in \<open>simp_all add: test_inv_def k del: One_nat_def\<close>)
  with main_log(1) p'(1) show ?thesis by simp
next
  case (main_start ops)
  have tids: "\<forall>st \<in> set (pr_done (te_proc s)). \<exists>i \<le> length (te_threads s). stm_tid st = tid i"
    using inv by (simp add: test_inv_def)
  have "test_inv fmt wr err tid lit (s\<lparr>te_main := ops, te_threads := te_threads s @ [threadFunc]\<rparr>)"
    unfolding test_inv_def
  proof (intro conjI)
    show "\<forall>st \<in> set (pr_done (te_proc (s\<lparr>te_main := ops, te_threads := te_threads s @ [threadFunc]\<rparr>))).
        \<exists>i \<le> length (te_threads (s\<lparr>te_main := ops, te_threads := te_threads s @ [threadFunc]\<rparr>)). stm_tid st = tid i"
      by simp (meson le_SucI tids)
  qed (use inv main_start(2) in \<open>simp_all add: test_inv_def nth_append less_Suc_eq del: One_nat_def\<close>)
  with main_start(1) show ?thesis by blast
next
  case (main_sleep n ops)
  with inv show ?thesis by (simp add: test_inv_def)
next
  case (thread_log i c cs time r')
  let ?p = "te_proc s"
  have reach: "proc_reach fmt wr err (Inr ?p)" and name: "1 < length (pr_name ?p)"
    using inv by (simp_all add: test_inv_def)
  have i: "i < 4" using inv thread_log(2) by (simp add: test_inv_def)
  have prog: "calls_of (tid (i + 1)) ?p @ c # cs = threadFunc"
    using inv thread_log(2,3) by (auto simp: test_inv_def)
  then have "set threadFunc = set (calls_of (tid (i + 1)) ?p @ c # cs)" by (simp only:)
  then have "c \<in> set threadFunc" by simp
  then have "short_call fmt c" by (rule short_programs(3) [where fmt = fmt, OF fmt])
  from log_statement_reach [where fmt = fmt, OF fmt reach call_fits [where fmt = fmt, OF this thread_log(4), of "i + 1"] name] i thread_log(5)
  obtain p' where p': "r' = Inr p'" "proc_reach fmt wr err (Inr p')"
      "pr_done p' = pr_done ?p @ [call_stmt (tid (i + 1)) time c]" "1 < length (pr_name p')" using name by auto
  have "tid 0 \<noteq> tid (i + 1)" using inj_onD [OF tid, of 0 "i + 1"] i by auto
  moreover have "tid (j + 1) = tid (i + 1) \<longleftrightarrow> j = i" if "j < 4" for j
    using inj_on_eq_iff [OF tid, of "j + 1" "i + 1"] i that by simp
  ultimately have k: "calls_of (tid 0) p' = calls_of (tid 0) ?p"
      "\<And>j. j < 4 \<Longrightarrow> calls_of (tid (j + 1)) p' = (if j = i then calls_of (tid (i + 1)) ?p @ [c] else calls_of (tid (j + 1)) ?p)"
    using calls_of_snoc [OF p'(3)] by simp_all
  have "test_inv fmt wr err tid lit (s\<lparr>te_proc := p', te_threads := (te_threads s)[i := cs]\<rparr>)"
    unfolding test_inv_def
  proof (intro conjI)
    show "\<forall>st \<in> set (pr_done (te_proc (s\<lparr>te_proc := p', te_threads := (te_threads s)[i := cs]\<rparr>))).
        \<exists>j \<le> length (te_threads (s\<lparr>te_proc := p', te_threads := (te_threads s)[i := cs]\<rparr>)). stm_tid st = tid j"
      using inv Suc_leI [OF thread_log(2)] by (auto simp: test_inv_def p'(3) call_stmt_def)
  qed (use inv p'(2,4) thread_log(2) prog in \<open>simp_all add: test_inv_def k nth_list_update del: One_nat_def\<close>)
  with thread_log(1) p'(1) show ?thesis by simp
next
  case (background r')
  let ?p = "te_proc s"
  have reach: "proc_reach fmt wr err (Inr ?p)" and name: "1 < length (pr_name ?p)"
    using inv by (simp_all add: test_inv_def)
  have "proc_step fmt wr err ?p (bindE r' (\<lambda>y. Inr (?p\<lparr>pr_sys := y\<rparr>)))" by (rule proc_step.background [OF background(2)])
  note st = this
  with reach have r2: "proc_reach fmt wr err (bindE r' (\<lambda>y. Inr (?p\<lparr>pr_sys := y\<rparr>)))" by (rule reach_step)
  have "proc_inv fmt wr ?p" by (rule proc_reach_inv [where fmt = fmt, OF fmt reach])
  from proc_step_inv [where fmt = fmt, OF fmt st this] name obtain y where y: "r' = Inr y" by (cases r') auto
  have "test_inv fmt wr err tid lit (s\<lparr>te_proc := ?p\<lparr>pr_sys := y\<rparr>\<rparr>)"
    using inv r2 y calls_of_same [of "?p\<lparr>pr_sys := y\<rparr>" ?p] by (simp add: test_inv_def)
  with background(1) y show ?thesis by simp
qed

lemma test_reach_inv:
  assumes "\<And>d. length (fmt d) < 32" and "inj_on tid {..4}"
    and "reach (test_step fmt wr err tid) (test_start lit) r"
  shows "\<exists>s. r = Inr s \<and> test_inv fmt wr err tid lit s"
  by (rule reach_inv [where I = "test_inv fmt wr err tid lit", OF assms(3) test_start_inv])
    (rule test_step_inv [where fmt = fmt, OF assms(1,2)])

text \<open>Every statement executed is one of some thread.\<close>

lemma count_by_thread:
  fixes tid :: "nat \<Rightarrow> string"
  assumes "inj_on tid {..n}" "\<forall>st \<in> set sts. \<exists>i \<le> n. stm_tid st = tid i"
  shows "length sts = (\<Sum>i \<le> n. length (filter (\<lambda>st. stm_tid st = tid i) sts))"
  using assms(2)
proof (induction sts)
  case (Cons st sts)
  then obtain i where i: "i \<le> n" "stm_tid st = tid i" by auto
  have "(\<Sum>j \<le> n. length (filter (\<lambda>st. stm_tid st = tid j) (st # sts))) =
      (\<Sum>j \<le> n. (if j = i then 1 else 0) + length (filter (\<lambda>st. stm_tid st = tid j) sts))"
    by (rule sum.cong) (use i inj_on_eq_iff [OF assms(1)] in auto)
  moreover have "(\<Sum>j \<le> n. if j = i then 1 else 0) = (1 :: nat)"
    using sum.delta [of "{..n}" i "\<lambda>_. 1 :: nat"] i by simp
  ultimately show ?case using Cons by (simp add: sum.distrib)
qed simp

lemma length_threadFunc: "length threadFunc = 200000"
proof -
  have h: "length (concat (map threadFunc_call ns)) = 2 * length ns" for ns
    by (induction ns) (simp_all add: threadFunc_call_def)
  show ?thesis unfolding threadFunc_def h by simp
qed

section \<open>Properties\<close>

text \<open>
  The test prints what it says: in every run, whatever its threads and the background thread do
  meanwhile, no statement fails and none is cut; what the main thread has logged is the beginning of its
  program, and what each of the four threads has logged the beginning of \<open>threadFunc\<close>, in that order;
  and when all of them are done, 900013 statements were executed. The run is one of the logging path.
\<close>
theorem logging_test_complete:
  assumes "\<And>d. length (fmt d) < 32" and "inj_on tid {..4}"
    and "reach (test_step fmt wr err tid) (test_start lit) r"
  shows "\<exists>s. r = Inr s \<and> proc_reach fmt wr err (Inr (te_proc s)) \<and>
    prefix (calls_of (tid 0) (te_proc s)) (type_test lit @ stressing_single_thread) \<and>
    (\<forall>i < 4. prefix (calls_of (tid (i + 1)) (te_proc s)) threadFunc) \<and>
    (te_main s = [] \<longrightarrow> (\<forall>cs \<in> set (te_threads s). cs = []) \<longrightarrow> length (pr_done (te_proc s)) = 900013)"
proof -
  obtain s where s: "r = Inr s" "test_inv fmt wr err tid lit s"
    using test_reach_inv [where fmt = fmt, OF assms] by blast
  then have inv: "calls_of (tid 0) (te_proc s) @ logs_of (te_main s) = type_test lit @ stressing_single_thread"
      "length (te_threads s) + starts_of (te_main s) = 4"
      "\<And>i. i < length (te_threads s) \<Longrightarrow> calls_of (tid (i + 1)) (te_proc s) @ te_threads s ! i = threadFunc"
      "\<And>i. i < 4 \<Longrightarrow> length (te_threads s) \<le> i \<Longrightarrow> calls_of (tid (i + 1)) (te_proc s) = []"
      "\<forall>st \<in> set (pr_done (te_proc s)). \<exists>i \<le> length (te_threads s). stm_tid st = tid i"
    unfolding test_inv_def by blast+
  have m: "prefix (calls_of (tid 0) (te_proc s)) (type_test lit @ stressing_single_thread)"
    using inv(1) by (rule prefixI [OF sym])
  have t: "prefix (calls_of (tid (i + 1)) (te_proc s)) threadFunc" if "i < 4" for i
  proof (cases "i < length (te_threads s)")
    case True
    from inv(3) [OF this] show ?thesis by (rule prefixI [OF sym])
  next
    case False
    with inv(4) [OF that] show ?thesis by simp
  qed
  have "length (pr_done (te_proc s)) = 900013" if e: "te_main s = []" "\<forall>cs \<in> set (te_threads s). cs = []"
  proof -
    have n: "length (te_threads s) = 4" using inv(2) e(1) by simp
    have c: "length (filter (\<lambda>st. stm_tid st = t) (pr_done (te_proc s))) = length (calls_of t (te_proc s))" for t
      by (simp add: calls_of_def)
    have "length (calls_of (tid 0) (te_proc s)) = 100013"
      using inv(1) e(1) by (simp add: type_test_def stressing_single_thread_def)
    moreover have t': "length (calls_of (tid (i + 1)) (te_proc s)) = 200000" if "i < 4" for i
    proof -
      have "te_threads s ! i = []" using bspec [OF e(2) nth_mem [of i "te_threads s"]] that n by simp
      with inv(3) [of i] that n length_threadFunc show ?thesis by simp
    qed
    have "length (calls_of (tid 1) (te_proc s)) = 200000" using t' [of 0] by simp
    moreover have "length (calls_of (tid 2) (te_proc s)) = 200000" using t' [of 1] by (simp add: numeral_2_eq_2)
    moreover have "length (calls_of (tid 3) (te_proc s)) = 200000" using t' [of 2] by simp
    moreover have "length (calls_of (tid 4) (te_proc s)) = 200000" using t' [of 3] by simp
    moreover have "{..4 :: nat} = {0, 1, 2, 3, 4}" by auto
    ultimately show ?thesis
      using count_by_thread [OF assms(2), of "pr_done (te_proc s)"] inv(5) n by (simp add: c)
  qed
  with s m t show ?thesis by (auto simp: test_inv_def)
qed

text \<open>The first statement of the test has been executed.\<close>
theorem logging_test_complete_witness:
  "\<exists>s. reach (test_step (\<lambda>_ :: unit. ''0.5'') (\<lambda>k n. n) False (\<lambda>i. replicate i CHR ''x'')) (test_start (\<lambda>_. ())) (Inr s) \<and>
     calls_of [] (te_proc s) = [(19, INFO, [LInt 0])] \<and> proc_reach (\<lambda>_. ''0.5'') (\<lambda>k n. n) False (Inr (te_proc s))"
proof -
  let ?f = "\<lambda>_ :: unit. ''0.5''" and ?tid = "\<lambda>i. replicate i CHR ''x''" and ?wr = "\<lambda>k n :: nat. n :: nat"
  have f: "length (?f d) < 32" for d by simp
  have t: "inj_on ?tid {..4}" by (simp add: inj_on_def)
  let ?c = "(19, INFO, [LInt 0]) :: unit log_call"
  have stamp: "stamp_ok ?tid ''now''" by (simp add: stamp_ok_def)
  have m: "te_main (test_start (\<lambda>_. ())) = M_log ?c # tl (test_main (\<lambda>_. ()))"
    by (simp add: test_start_def test_main_def type_test_def)
  have "?c \<in> set (type_test (\<lambda>_. ()))" by (simp add: type_test_def)
  then have "short_call ?f ?c" by (rule short_programs(1) [where fmt = ?f, OF f])
  then have "stmt_fits ?f (call_stmt (?tid 0) ''now'' ?c)" by (rule call_fits [where fmt = ?f, OF _ stamp]) simp
  note fits = this
  have "1 < length (pr_name (proc_start :: unit log_proc))" by (simp add: proc_start_def)
  from log_statement_reach [where fmt = ?f and wr = ?wr and err = False, OF f reach_init fits this] obtain p' where
    p': "proc_log ?f ?wr False (call_stmt (?tid 0) ''now'' ?c) proc_start = Some (Inr p')"
      "pr_done p' = pr_done proc_start @ [call_stmt (?tid 0) ''now'' ?c]" by blast
  define s where "s = test_start (\<lambda>_. ())\<lparr>te_proc := p', te_main := tl (test_main (\<lambda>_. ()))\<rparr>"
  have "te_proc (test_start (\<lambda>_ :: string. ())) = proc_start" by (simp add: test_start_def)
  then have "test_step ?f ?wr False ?tid (test_start (\<lambda>_. ())) (bindE (Inr p') (\<lambda>p. Inr (test_start (\<lambda>_. ())\<lparr>te_proc := p, te_main := tl (test_main (\<lambda>_. ()))\<rparr>)))"
    by (intro test_step.main_log [OF m stamp]) (use p'(1) in simp)
  then have r: "reach (test_step ?f ?wr False ?tid) (test_start (\<lambda>_. ())) (Inr s)"
    by (intro reach_first) (simp add: s_def)
  have "calls_of [] (te_proc s) = [?c]"
    using p'(2) by (simp add: s_def calls_of_def call_stmt_def) (simp add: proc_start_def)
  with logging_test_complete [where fmt = ?f, OF f t r] r show ?thesis by auto
qed

end
