(* ===== verification/Byte_Order.thy ===== *)
theory Byte_Order
  imports Prelude
begin

text \<open>
  How integers lie in memory, and the byte-order conversions of \<open>endian.h\<close> that
  \<open>Buffer.h\<close> calls (\<open>htobe16/32/64\<close>, \<open>be16/32/64toh\<close>). A host is little-endian
  (\<open>le = True\<close>) or big-endian; every lemma holds for both.
\<close>

section \<open>Digits in base 256\<close>

primrec nat_bytes :: "nat \<Rightarrow> nat \<Rightarrow> byte list" where
  "nat_bytes 0 k = []"
| "nat_bytes (Suc n) k = word_of_nat (k mod 256) # nat_bytes n (k div 256)"

primrec bytes_nat :: "byte list \<Rightarrow> nat" where
  "bytes_nat [] = 0"
| "bytes_nat (b # bs) = unat b + 256 * bytes_nat bs"

lemma length_nat_bytes [simp]: "length (nat_bytes n k) = n"
  by (induction n arbitrary: k) auto

lemma unat_byte_lt: "unat (b :: byte) < 256"
  using unsigned_less [of b] by simp

lemma bytes_nat_less: "bytes_nat bs < 256 ^ length bs"
proof (induction bs)
  case Nil
  then show ?case by simp
next
  case (Cons b bs)
  then have "bytes_nat bs + 1 \<le> 256 ^ length bs" by simp
  then have "256 * bytes_nat bs + 256 \<le> 256 * 256 ^ length bs" by linarith
  with unat_byte_lt [of b] show ?case by simp
qed

lemma nat_bytes_of_bytes_nat: "nat_bytes (length bs) (bytes_nat bs) = bs"
proof (induction bs)
  case Nil
  then show ?case by simp
next
  case (Cons b bs)
  have "(unat b + 256 * bytes_nat bs) mod 256 = unat b"
    using unat_byte_lt [of b] by simp
  moreover have "(unat b + 256 * bytes_nat bs) div 256 = bytes_nat bs"
    using unat_byte_lt [of b] by simp
  ultimately show ?case using Cons.IH by simp
qed

lemma bytes_nat_of_nat_bytes: "bytes_nat (nat_bytes n k) = k mod 256 ^ n"
proof (induction n arbitrary: k)
  case 0
  then show ?case by simp
next
  case (Suc n)
  have "unat (word_of_nat (k mod 256) :: byte) = k mod 256"
    by (simp add: unat_of_nat take_bit_nat_eq_self)
  then show ?case
    by (simp add: Suc.IH mod_mult2_eq)
qed

section \<open>Words in memory\<close>

definition word_size :: "'a::len word itself \<Rightarrow> nat" where
  "word_size _ = LENGTH('a) div 8"

definition le_bytes :: "'a::len word \<Rightarrow> byte list" where
  "le_bytes w = nat_bytes (LENGTH('a) div 8) (unat w)"

definition of_le_bytes :: "byte list \<Rightarrow> 'a::len word" where
  "of_le_bytes bs = word_of_nat (bytes_nat bs)"

text \<open>The bytes of an object of type \<open>'a word\<close> at increasing addresses, and back.\<close>

definition mem_bytes :: "bool \<Rightarrow> 'a::len word \<Rightarrow> byte list" where
  "mem_bytes le w = (if le then le_bytes w else rev (le_bytes w))"

definition of_mem_bytes :: "bool \<Rightarrow> byte list \<Rightarrow> 'a::len word" where
  "of_mem_bytes le bs = of_le_bytes (if le then bs else rev bs)"

definition bswap :: "'a::len word \<Rightarrow> 'a word" where
  "bswap w = of_le_bytes (rev (le_bytes w))"

definition htobe :: "bool \<Rightarrow> 'a::len word \<Rightarrow> 'a word" where
  "htobe le w = (if le then bswap w else w)"

definition betoh :: "bool \<Rightarrow> 'a::len word \<Rightarrow> 'a word" where
  "betoh le w = (if le then bswap w else w)"

text \<open>Network byte order: most significant byte first.\<close>

definition be_bytes :: "'a::len word \<Rightarrow> byte list" where
  "be_bytes w = rev (le_bytes w)"

lemma length_le_bytes [simp]: "length (le_bytes (w :: 'a::len word)) = LENGTH('a) div 8"
  by (simp add: le_bytes_def)

lemma length_be_bytes [simp]: "length (be_bytes (w :: 'a::len word)) = LENGTH('a) div 8"
  by (simp add: be_bytes_def)

lemma pow256:
  assumes "8 dvd L"
  shows "256 ^ (L div 8) = (2 :: nat) ^ L"
proof -
  have "(256 :: nat) ^ (L div 8) = (2 ^ 8) ^ (L div 8)" by simp
  also have "\<dots> = 2 ^ (8 * (L div 8))" by (simp only: power_mult)
  finally show ?thesis using assms by simp
qed

lemma of_le_bytes_le_bytes:
  assumes "8 dvd LENGTH('a::len)"
  shows "of_le_bytes (le_bytes (w :: 'a word)) = w"
  using assms
  by (simp add: of_le_bytes_def le_bytes_def bytes_nat_of_nat_bytes pow256)

lemma le_bytes_of_le_bytes:
  assumes "8 dvd LENGTH('a::len)" and "length bs = LENGTH('a) div 8"
  shows "le_bytes (of_le_bytes bs :: 'a word) = bs"
proof -
  have "bytes_nat bs < 2 ^ LENGTH('a)"
    using bytes_nat_less [of bs] assms by (simp add: pow256)
  then have "unat (of_le_bytes bs :: 'a word) = bytes_nat bs"
    by (simp add: of_le_bytes_def unat_of_nat take_bit_nat_eq_self)
  then show ?thesis
    using nat_bytes_of_bytes_nat [of bs] assms by (simp add: le_bytes_def)
qed

lemma mem_bytes_htobe:
  assumes "8 dvd LENGTH('a::len)"
  shows "mem_bytes le (htobe le (w :: 'a word)) = be_bytes w"
  using assms
  by (simp add: mem_bytes_def htobe_def be_bytes_def bswap_def le_bytes_of_le_bytes)

lemma betoh_of_mem_bytes:
  assumes "8 dvd LENGTH('a::len)" and "length bs = LENGTH('a) div 8"
  shows "betoh le (of_mem_bytes le bs :: 'a word) = of_le_bytes (rev bs)"
  using assms
  by (simp add: betoh_def of_mem_bytes_def bswap_def le_bytes_of_le_bytes)

lemma of_le_bytes_rev_be_bytes:
  assumes "8 dvd LENGTH('a::len)"
  shows "of_le_bytes (rev (be_bytes (w :: 'a word))) = w"
  using assms by (simp add: be_bytes_def of_le_bytes_le_bytes)

end
