(* ===== verification/Byte_Stream.thy ===== *)
theory Byte_Stream
  imports Prelude
begin

text \<open>
  The contract between a byte buffer and the code that streams through it: bytes are put at
  one end and taken from the other, in order. \<open>Buffer\<close> provides it; the connection's input
  and output paths rely on nothing else about the buffer's content.
\<close>

section \<open>Sequences of puts and gets\<close>

datatype stream_op = Put "byte list" | Get size_t

fun stream_run ::
  "('b \<Rightarrow> byte list \<Rightarrow> 'b res) \<Rightarrow> ('b \<Rightarrow> size_t \<Rightarrow> (byte list \<times> 'b) res)
   \<Rightarrow> 'b \<Rightarrow> stream_op list \<Rightarrow> (byte list \<times> 'b) res" where
  "stream_run put get b [] = Inr ([], b)"
| "stream_run put get b (Put d # ops) = bindE (put b d) (\<lambda>b'. stream_run put get b' ops)"
| "stream_run put get b (Get n # ops) =
     bindE (get b n) (\<lambda>(got, b').
     bindE (stream_run put get b' ops) (\<lambda>(rest, b''). Inr (got @ rest, b'')))"

fun bytes_put :: "stream_op list \<Rightarrow> byte list" where
  "bytes_put [] = []"
| "bytes_put (Put d # ops) = d @ bytes_put ops"
| "bytes_put (Get n # ops) = bytes_put ops"

fun puts_bounded :: "stream_op list \<Rightarrow> bool" where
  "puts_bounded [] = True"
| "puts_bounded (Put d # ops) = (length d < 2 ^ 63 \<and> puts_bounded ops)"
| "puts_bounded (Get n # ops) = puts_bounded ops"

section \<open>The contract\<close>

locale byte_stream =
  fixes inv :: "'b \<Rightarrow> bool"
    and bytes :: "'b \<Rightarrow> byte list"
    and room :: "'b \<Rightarrow> nat \<Rightarrow> bool"
    and put :: "'b \<Rightarrow> byte list \<Rightarrow> 'b res"
    and get :: "'b \<Rightarrow> size_t \<Rightarrow> (byte list \<times> 'b) res"
    and short :: error
  assumes put_ok: "\<lbrakk>inv b; length d < 2 ^ 63; room b (length d)\<rbrakk>
      \<Longrightarrow> \<exists>b'. put b d = Inr b' \<and> inv b' \<and> bytes b' = bytes b @ d"
    and put_full: "\<lbrakk>inv b; length d < 2 ^ 63; \<not> room b (length d)\<rbrakk>
      \<Longrightarrow> put b d = Inl (Exception ''length_error'')"
    and get_ok: "\<lbrakk>inv b; unat n \<le> length (bytes b)\<rbrakk>
      \<Longrightarrow> \<exists>b'. get b n = Inr (take (unat n) (bytes b), b') \<and> inv b' \<and>
               bytes b' = drop (unat n) (bytes b)"
    and get_short: "\<lbrakk>inv b; length (bytes b) < unat n\<rbrakk> \<Longrightarrow> get b n = Inl short"
begin

lemma put_Inr:
  assumes "inv b" and "length d < 2 ^ 63" and "put b d = Inr b'"
  shows "inv b' \<and> bytes b' = bytes b @ d"
  using assms put_ok [of b d] put_full [of b d] by (cases "room b (length d)") auto

lemma put_Inl:
  assumes "inv b" and "length d < 2 ^ 63" and "put b d = Inl e"
  shows "e = Exception ''length_error''"
  using assms put_ok [of b d] put_full [of b d] by (cases "room b (length d)") auto

lemma get_Inr:
  assumes "inv b" and "get b n = Inr (got, b')"
  shows "inv b' \<and> bytes b = got @ bytes b'"
  using assms get_ok [of b n] get_short [of b n]
  by (cases "unat n \<le> length (bytes b)") auto

lemma get_Inl:
  assumes "inv b" and "get b n = Inl e"
  shows "e = short"
  using assms get_ok [of b n] get_short [of b n]
  by (cases "unat n \<le> length (bytes b)") auto

lemma stream_fifo:
  assumes "inv b" and "puts_bounded ops" and "stream_run put get b ops = Inr (out, b')"
  shows "inv b' \<and> out @ bytes b' = bytes b @ bytes_put ops"
  using assms
proof (induction ops arbitrary: b out rule: bytes_put.induct)
  case 1
  then show ?case by simp
next
  case (2 d ops)
  then obtain b1 where b1: "put b d = Inr b1" "stream_run put get b1 ops = Inr (out, b')"
    by (auto simp: res_simps)
  with 2 have "inv b1 \<and> bytes b1 = bytes b @ d" by (auto dest: put_Inr)
  with 2 b1 show ?case by auto
next
  case (3 n ops)
  then obtain got b1 rest where b1: "get b n = Inr (got, b1)"
      "stream_run put get b1 ops = Inr (rest, b')" "out = got @ rest"
    by (auto simp: res_simps split: prod.splits)
  with 3 have "inv b1 \<and> bytes b = got @ bytes b1" by (auto dest: get_Inr)
  with 3 b1 show ?case by auto
qed

lemma stream_errors:
  assumes "inv b" and "puts_bounded ops" and "stream_run put get b ops = Inl e"
  shows "e = Exception ''length_error'' \<or> e = short"
  using assms
proof (induction ops arbitrary: b rule: bytes_put.induct)
  case 1
  then show ?case by simp
next
  case (2 d ops)
  show ?case
  proof (cases "put b d")
    case (Inl e')
    with 2 show ?thesis by (auto dest: put_Inl)
  next
    case (Inr b1)
    with 2 have "inv b1" by (auto dest: put_Inr)
    with 2 Inr show ?thesis by auto
  qed
next
  case (3 n ops)
  show ?case
  proof (cases "get b n")
    case (Inl e')
    with 3 show ?thesis by (auto dest: get_Inl)
  next
    case (Inr r)
    then obtain got b1 where r: "get b n = Inr (got, b1)" by (cases r) auto
    with 3 have "inv b1" by (auto dest: get_Inr)
    with 3 r show ?thesis by (auto simp: res_simps split: prod.splits)
  qed
qed

end

end
