(* ===== verification/Buffer.thy ===== *)
theory Buffer
  imports Byte_Order Byte_Stream
begin

text \<open>
  The growable byte buffer of \<open>Buffer.h\<close> and \<open>Buffer.cpp\<close>. The state is the vector
  \<open>buffer_\<close> with the two indices into it, kept as 64-bit \<open>size_t\<close>; pointers into the
  buffer (\<open>peek\<close>, \<open>beginWrite\<close>, the result of \<open>findCRLF\<close>) are offsets from
  \<open>begin()\<close>. The abstract value of a buffer is \<open>content\<close>, the bytes between the two
  indices; the lemmas say what each operation does to it and that, on a well-formed buffer,
  no operation fails an assertion or leaves the vector.
\<close>

section \<open>State and accessors\<close>

record buffer =
  buf_data :: "byte list"
  readerIndex :: size_t
  writerIndex :: size_t

definition kCheapPrepend :: size_t where
  "kCheapPrepend = 8"

definition kInitialSize :: size_t where
  "kInitialSize = 1024"

definition KCRLF :: "byte list" where
  "KCRLF = [13, 10]"

definition readableBytes :: "buffer \<Rightarrow> size_t" where
  "readableBytes b = writerIndex b - readerIndex b"

definition writableBytes :: "buffer \<Rightarrow> size_t" where
  "writableBytes b = vec_size (buf_data b) - writerIndex b"

definition prependableBytes :: "buffer \<Rightarrow> size_t" where
  "prependableBytes b = readerIndex b"

definition peek :: "buffer \<Rightarrow> size_t" where
  "peek b = readerIndex b"

definition beginWrite :: "buffer \<Rightarrow> size_t" where
  "beginWrite b = writerIndex b"

definition buffer_swap :: "buffer \<Rightarrow> buffer \<Rightarrow> buffer \<times> buffer" where
  "buffer_swap b rhs =
     (b\<lparr>buf_data := buf_data rhs, readerIndex := readerIndex rhs, writerIndex := writerIndex rhs\<rparr>,
      rhs\<lparr>buf_data := buf_data b, readerIndex := readerIndex b, writerIndex := writerIndex b\<rparr>)"

text \<open>\<open>std::vector<char>\<close>: construction and \<open>resize\<close>, with their \<open>length_error\<close>.\<close>

definition vec_new :: "size_t \<Rightarrow> byte list res" where
  "vec_new n =
     (if unat n \<le> vec_max_size then Inr (replicate (unat n) 0)
      else Inl (Exception ''length_error''))"

definition vec_resize :: "byte list \<Rightarrow> size_t \<Rightarrow> byte list res" where
  "vec_resize xs n =
     (if unat n \<le> vec_max_size
      then Inr (take (unat n) xs @ replicate (unat n - length xs) 0)
      else Inl (Exception ''length_error''))"

definition buffer_new :: "size_t \<Rightarrow> buffer res" where
  "buffer_new initialSize =
     bindE (vec_new (kCheapPrepend + initialSize)) (\<lambda>xs.
     let b = \<lparr>buf_data = xs, readerIndex = kCheapPrepend, writerIndex = kCheapPrepend\<rparr> in
     assertE (readableBytes b = 0) ''readableBytes() == 0'' (
     assertE (writableBytes b = initialSize) ''writableBytes() == initialSize'' (
     assertE (prependableBytes b = kCheapPrepend) ''prependableBytes() == kCheapPrepend''
     (Inr b))))"

section \<open>Searching\<close>

text \<open>
  \<open>std::search\<close> gives the offset of the first occurrence of a pattern, or the end of the
  range; \<open>memchr\<close> the offset of the first equal byte, if any.
\<close>

fun std_search :: "byte list \<Rightarrow> byte list \<Rightarrow> nat" where
  "std_search [] pat = 0"
| "std_search (x # xs) pat =
     (if take (length pat) (x # xs) = pat then 0 else Suc (std_search xs pat))"

fun memchr :: "byte list \<Rightarrow> byte \<Rightarrow> nat option" where
  "memchr [] c = None"
| "memchr (x # xs) c = (if x = c then Some 0 else map_option Suc (memchr xs c))"

definition findCRLF_from :: "buffer \<Rightarrow> size_t \<Rightarrow> size_t option res" where
  "findCRLF_from b start =
     assertE (peek b \<le> start) ''peek() <= start'' (
     assertE (start \<le> beginWrite b) ''start <= beginWrite()'' (
     bindE (mem_read (buf_data b) (unat start) (unat (beginWrite b - start))) (\<lambda>range.
     let crlf = start + word_of_nat (std_search range KCRLF) in
     Inr (if crlf = beginWrite b then None else Some crlf))))"

definition findCRLF :: "buffer \<Rightarrow> size_t option res" where
  "findCRLF b =
     bindE (mem_read (buf_data b) (unat (peek b)) (unat (beginWrite b - peek b))) (\<lambda>range.
     let crlf = peek b + word_of_nat (std_search range KCRLF) in
     Inr (if crlf = beginWrite b then None else Some crlf))"

definition findEOL_from :: "buffer \<Rightarrow> size_t \<Rightarrow> size_t option res" where
  "findEOL_from b start =
     assertE (peek b \<le> start) ''peek() <= start'' (
     assertE (start \<le> beginWrite b) ''start <= beginWrite()'' (
     bindE (mem_read (buf_data b) (unat start) (unat (beginWrite b - start))) (\<lambda>range.
     Inr (map_option (\<lambda>i. start + word_of_nat i) (memchr range 10)))))"

definition findEOL :: "buffer \<Rightarrow> size_t option res" where
  "findEOL b =
     bindE (mem_read (buf_data b) (unat (peek b)) (unat (readableBytes b))) (\<lambda>range.
     Inr (map_option (\<lambda>i. peek b + word_of_nat i) (memchr range 10)))"

section \<open>Consuming\<close>

definition retrieveAll :: "buffer \<Rightarrow> buffer" where
  "retrieveAll b = b\<lparr>readerIndex := kCheapPrepend, writerIndex := kCheapPrepend\<rparr>"

definition retrieve :: "buffer \<Rightarrow> size_t \<Rightarrow> buffer res" where
  "retrieve b len =
     assertE (len \<le> readableBytes b) ''len <= readableBytes()'' (
     if len < readableBytes b
     then Inr (b\<lparr>readerIndex := readerIndex b + len\<rparr>)
     else Inr (retrieveAll b))"

definition retrieveUntil :: "buffer \<Rightarrow> size_t \<Rightarrow> buffer res" where
  "retrieveUntil b end' =
     assertE (peek b \<le> end') ''peek() <= end'' (
     assertE (end' \<le> beginWrite b) ''end <= beginWrite()'' (
     retrieve b (end' - peek b)))"

definition retrieveInt64 :: "buffer \<Rightarrow> buffer res" where
  "retrieveInt64 b = retrieve b 8"

definition retrieveInt32 :: "buffer \<Rightarrow> buffer res" where
  "retrieveInt32 b = retrieve b 4"

definition retrieveInt16 :: "buffer \<Rightarrow> buffer res" where
  "retrieveInt16 b = retrieve b 2"

definition retrieveInt8 :: "buffer \<Rightarrow> buffer res" where
  "retrieveInt8 b = retrieve b 1"

definition retrieveAsString :: "buffer \<Rightarrow> size_t \<Rightarrow> (byte list \<times> buffer) res" where
  "retrieveAsString b len =
     assertE (len \<le> readableBytes b) ''len <= readableBytes()'' (
     bindE (mem_read (buf_data b) (unat (peek b)) (unat len)) (\<lambda>result.
     bindE (retrieve b len) (\<lambda>b'. Inr (result, b'))))"

definition retrieveAllAsString :: "buffer \<Rightarrow> (byte list \<times> buffer) res" where
  "retrieveAllAsString b = retrieveAsString b (readableBytes b)"

section \<open>Producing\<close>

definition hasWritten :: "buffer \<Rightarrow> size_t \<Rightarrow> buffer res" where
  "hasWritten b len =
     assertE (len \<le> writableBytes b) ''len <= writableBytes()''
     (Inr (b\<lparr>writerIndex := writerIndex b + len\<rparr>))"

definition unwrite :: "buffer \<Rightarrow> size_t \<Rightarrow> buffer res" where
  "unwrite b len =
     assertE (len \<le> readableBytes b) ''len <= readableBytes()''
     (Inr (b\<lparr>writerIndex := writerIndex b - len\<rparr>))"

definition makeSpace :: "buffer \<Rightarrow> size_t \<Rightarrow> buffer res" where
  "makeSpace b len =
     (if writableBytes b + prependableBytes b < len + kCheapPrepend
      then bindE (vec_resize (buf_data b) (writerIndex b + len)) (\<lambda>xs. Inr (b\<lparr>buf_data := xs\<rparr>))
      else
        assertE (kCheapPrepend < readerIndex b) ''kCheapPrepend < readerIndex_'' (
        let readable = readableBytes b in
        bindE (mem_read (buf_data b) (unat (readerIndex b))
                 (unat (writerIndex b - readerIndex b))) (\<lambda>moved.
        bindE (mem_write (buf_data b) (unat kCheapPrepend) moved) (\<lambda>xs.
        let b' = b\<lparr>buf_data := xs, readerIndex := kCheapPrepend,
                   writerIndex := kCheapPrepend + readable\<rparr> in
        assertE (readable = readableBytes b') ''readable == readableBytes()'' (Inr b')))))"

definition ensureWritableBytes :: "buffer \<Rightarrow> size_t \<Rightarrow> buffer res" where
  "ensureWritableBytes b len =
     bindE (if writableBytes b < len then makeSpace b len else Inr b) (\<lambda>b'.
     assertE (len \<le> writableBytes b') ''writableBytes() >= len'' (Inr b'))"

definition buffer_append :: "buffer \<Rightarrow> byte list \<Rightarrow> buffer res" where
  "buffer_append b data =
     bindE (ensureWritableBytes b (vec_size data)) (\<lambda>b'.
     bindE (mem_write (buf_data b') (unat (beginWrite b')) data) (\<lambda>xs.
     hasWritten (b'\<lparr>buf_data := xs\<rparr>) (vec_size data)))"

definition prepend :: "buffer \<Rightarrow> byte list \<Rightarrow> buffer res" where
  "prepend b data =
     assertE (vec_size data \<le> prependableBytes b) ''len <= prependableBytes()'' (
     let b' = b\<lparr>readerIndex := readerIndex b - vec_size data\<rparr> in
     bindE (mem_write (buf_data b') (unat (readerIndex b')) data) (\<lambda>xs.
     Inr (b'\<lparr>buf_data := xs\<rparr>)))"

section \<open>Integers in network byte order\<close>

definition appendInt64 :: "bool \<Rightarrow> buffer \<Rightarrow> 64 word \<Rightarrow> buffer res" where
  "appendInt64 le b x = buffer_append b (mem_bytes le (htobe le x))"

definition appendInt32 :: "bool \<Rightarrow> buffer \<Rightarrow> 32 word \<Rightarrow> buffer res" where
  "appendInt32 le b x = buffer_append b (mem_bytes le (htobe le x))"

definition appendInt16 :: "bool \<Rightarrow> buffer \<Rightarrow> 16 word \<Rightarrow> buffer res" where
  "appendInt16 le b x = buffer_append b (mem_bytes le (htobe le x))"

definition appendInt8 :: "buffer \<Rightarrow> 8 word \<Rightarrow> buffer res" where
  "appendInt8 b x = buffer_append b [x]"

definition prependInt64 :: "bool \<Rightarrow> buffer \<Rightarrow> 64 word \<Rightarrow> buffer res" where
  "prependInt64 le b x = prepend b (mem_bytes le (htobe le x))"

definition prependInt32 :: "bool \<Rightarrow> buffer \<Rightarrow> 32 word \<Rightarrow> buffer res" where
  "prependInt32 le b x = prepend b (mem_bytes le (htobe le x))"

definition prependInt16 :: "bool \<Rightarrow> buffer \<Rightarrow> 16 word \<Rightarrow> buffer res" where
  "prependInt16 le b x = prepend b (mem_bytes le (htobe le x))"

definition prependInt8 :: "buffer \<Rightarrow> 8 word \<Rightarrow> buffer res" where
  "prependInt8 b x = prepend b [x]"

definition peekInt64 :: "bool \<Rightarrow> buffer \<Rightarrow> 64 word res" where
  "peekInt64 le b =
     assertE (8 \<le> readableBytes b) ''readableBytes() >= sizeof(int64_t)'' (
     bindE (mem_read (buf_data b) (unat (peek b)) 8) (\<lambda>bs.
     Inr (betoh le (of_mem_bytes le bs))))"

definition peekInt32 :: "bool \<Rightarrow> buffer \<Rightarrow> 32 word res" where
  "peekInt32 le b =
     assertE (4 \<le> readableBytes b) ''readableBytes() >= sizeof(int32_t)'' (
     bindE (mem_read (buf_data b) (unat (peek b)) 4) (\<lambda>bs.
     Inr (betoh le (of_mem_bytes le bs))))"

definition peekInt16 :: "bool \<Rightarrow> buffer \<Rightarrow> 16 word res" where
  "peekInt16 le b =
     assertE (2 \<le> readableBytes b) ''readableBytes() >= sizeof(int16_t)'' (
     bindE (mem_read (buf_data b) (unat (peek b)) 2) (\<lambda>bs.
     Inr (betoh le (of_mem_bytes le bs))))"

definition peekInt8 :: "buffer \<Rightarrow> 8 word res" where
  "peekInt8 b =
     assertE (1 \<le> readableBytes b) ''readableBytes() >= sizeof(int8_t)'' (
     bindE (mem_read (buf_data b) (unat (peek b)) 1) (\<lambda>bs. Inr (hd bs)))"

definition readInt64 :: "bool \<Rightarrow> buffer \<Rightarrow> (64 word \<times> buffer) res" where
  "readInt64 le b =
     bindE (peekInt64 le b) (\<lambda>result. bindE (retrieveInt64 b) (\<lambda>b'. Inr (result, b')))"

definition readInt32 :: "bool \<Rightarrow> buffer \<Rightarrow> (32 word \<times> buffer) res" where
  "readInt32 le b =
     bindE (peekInt32 le b) (\<lambda>result. bindE (retrieveInt32 b) (\<lambda>b'. Inr (result, b')))"

definition readInt16 :: "bool \<Rightarrow> buffer \<Rightarrow> (16 word \<times> buffer) res" where
  "readInt16 le b =
     bindE (peekInt16 le b) (\<lambda>result. bindE (retrieveInt16 b) (\<lambda>b'. Inr (result, b')))"

definition readInt8 :: "buffer \<Rightarrow> (8 word \<times> buffer) res" where
  "readInt8 b =
     bindE (peekInt8 b) (\<lambda>result. bindE (retrieveInt8 b) (\<lambda>b'. Inr (result, b')))"

section \<open>Reading from a descriptor\<close>

text \<open>
  What \<open>readv\<close> did is an argument: it failed with an \<open>errno\<close>, or it delivered these bytes.
  They fill \<open>vec[0]\<close> (the writable part of the vector) first and then \<open>vec[1]\<close>, the 65536
  bytes of \<open>extrabuf\<close>, which is offered only when fewer are writable. The result is the
  buffer, the value returned and what is stored through \<open>savedErrno\<close>.
\<close>

datatype io_result = Io_failed int | Io_bytes "byte list"

definition extrabuf_size :: nat where
  "extrabuf_size = 65536"

definition readv_room :: "buffer \<Rightarrow> nat" where
  "readv_room b =
     (if unat (writableBytes b) < extrabuf_size
      then unat (writableBytes b) + extrabuf_size else unat (writableBytes b))"

definition readFd :: "buffer \<Rightarrow> io_result \<Rightarrow> (buffer \<times> int \<times> int option) res" where
  "readFd b r =
     (case r of
        Io_failed err \<Rightarrow> Inr (b, -1, Some err)
      | Io_bytes bs \<Rightarrow>
          let writable = writableBytes b;
              n = vec_size bs;
              extrabuf = drop (unat writable) bs in
          bindE (mem_write (buf_data b) (unat (writerIndex b)) (take (unat writable) bs)) (\<lambda>xs.
          let b1 = b\<lparr>buf_data := xs\<rparr> in
          if n \<le> writable
          then Inr (b1\<lparr>writerIndex := writerIndex b1 + n\<rparr>, int (length bs), None)
          else if length extrabuf \<le> extrabuf_size
          then bindE (buffer_append (b1\<lparr>writerIndex := vec_size (buf_data b1)\<rparr>)
                        (take (unat (n - writable)) extrabuf)) (\<lambda>b2.
               Inr (b2, int (length bs), None))
          else Inl Out_of_bounds))"

section \<open>The abstract value and the invariant\<close>

definition content :: "buffer \<Rightarrow> byte list" where
  "content b =
     take (unat (writerIndex b) - unat (readerIndex b)) (drop (unat (readerIndex b)) (buf_data b))"

definition buffer_inv :: "buffer \<Rightarrow> bool" where
  "buffer_inv b \<longleftrightarrow>
     unat (readerIndex b) \<le> unat (writerIndex b) \<and>
     unat (writerIndex b) \<le> length (buf_data b) \<and>
     8 \<le> length (buf_data b) \<and> length (buf_data b) \<le> vec_max_size"

text \<open>
  The bytes that can be appended: those that fit behind the writer, those that fit once the
  content is moved to the front, and those a grown vector can hold.
\<close>

definition buffer_fits :: "buffer \<Rightarrow> nat \<Rightarrow> bool" where
  "buffer_fits b n \<longleftrightarrow>
     n \<le> length (buf_data b) - unat (writerIndex b) \<or>
     n + 8 \<le> length (buf_data b) - unat (writerIndex b) + unat (readerIndex b) \<or>
     unat (writerIndex b) + n \<le> vec_max_size"

lemma vec_max_size_val: "vec_max_size = 9223372036854775807"
  by (simp add: vec_max_size_def)

lemma buffer_invD:
  assumes "buffer_inv b"
  shows "unat (readerIndex b) \<le> unat (writerIndex b)"
    and "unat (writerIndex b) \<le> length (buf_data b)"
    and "8 \<le> length (buf_data b)"
    and "length (buf_data b) \<le> vec_max_size"
    and "length (buf_data b) < 2 ^ 64"
    and "unat (readableBytes b) = length (content b)"
    and "unat (writableBytes b) = length (buf_data b) - unat (writerIndex b)"
    and "unat (writerIndex b) = unat (readerIndex b) + length (content b)"
  using assms
  by (auto simp: buffer_inv_def readableBytes_def writableBytes_def content_def
      vec_max_size_val size_simps)

lemma length_content:
  "buffer_inv b \<Longrightarrow> length (content b) = unat (writerIndex b) - unat (readerIndex b)"
  using buffer_invD(8) [of b] by simp

lemma content_take:
  assumes "buffer_inv b" and "n \<le> length (content b)"
  shows "take n (drop (unat (readerIndex b)) (buf_data b)) = take n (content b)"
proof -
  have "n \<le> unat (writerIndex b) - unat (readerIndex b)"
    using assms length_content by simp
  then show ?thesis by (simp add: content_def min_absorb1)
qed

lemma unat_kCheapPrepend [simp]: "unat kCheapPrepend = 8"
  by (simp add: kCheapPrepend_def)

lemma length_vec_max: "n \<le> vec_max_size \<Longrightarrow> n < 2 ^ 64"
  by (simp add: vec_max_size_val)

section \<open>Consuming, as operations on the content\<close>

lemma retrieveAll_spec:
  "buffer_inv b \<Longrightarrow> buffer_inv (retrieveAll b) \<and> content (retrieveAll b) = []"
  by (simp add: retrieveAll_def buffer_inv_def content_def)

lemma retrieve_spec:
  assumes inv: "buffer_inv b" and len: "unat len \<le> length (content b)"
  shows "\<exists>b'. retrieve b len = Inr b' \<and> buffer_inv b' \<and>
              content b' = drop (unat len) (content b) \<and> buf_data b' = buf_data b"
proof (cases "len < readableBytes b")
  case True
  have lt: "unat len < length (content b)"
    using True buffer_invD(6) [OF inv] by (simp add: size_simps)
  have ri: "unat (readerIndex b + len) = unat (readerIndex b) + unat len"
    using buffer_invD [OF inv] lt by (simp add: size_simps)
  have "retrieve b len = Inr (b\<lparr>readerIndex := readerIndex b + len\<rparr>)"
    using True by (simp add: retrieve_def order.strict_implies_order)
  moreover have "buffer_inv (b\<lparr>readerIndex := readerIndex b + len\<rparr>)"
    using inv lt buffer_invD(8) [OF inv] by (simp add: buffer_inv_def ri)
  moreover have "content (b\<lparr>readerIndex := readerIndex b + len\<rparr>) = drop (unat len) (content b)"
    by (simp add: content_def ri drop_take add.commute [of "unat len"])
  ultimately show ?thesis by simp
next
  case False
  then have all: "unat len = length (content b)"
    using len buffer_invD(6) [OF inv] by (simp add: size_simps)
  then have "len = readableBytes b"
    using buffer_invD(6) [OF inv] by (simp add: size_eq_iff)
  with False have "retrieve b len = Inr (retrieveAll b)"
    by (simp add: retrieve_def)
  with retrieveAll_spec [OF inv] all show ?thesis
    by (simp add: retrieveAll_def)
qed

lemma retrieve_too_much:
  "buffer_inv b \<Longrightarrow> length (content b) < unat len
   \<Longrightarrow> retrieve b len = Inl (Assertion ''len <= readableBytes()'')"
  using buffer_invD(6) [of b] by (simp add: retrieve_def size_simps)

lemma retrieveAsString_spec:
  assumes inv: "buffer_inv b" and len: "unat len \<le> length (content b)"
  shows "\<exists>b'. retrieveAsString b len = Inr (take (unat len) (content b), b') \<and> buffer_inv b' \<and>
              content b' = drop (unat len) (content b)"
proof -
  obtain b' where b': "retrieve b len = Inr b'" "buffer_inv b'"
      "content b' = drop (unat len) (content b)"
    using retrieve_spec [OF inv len] by blast
  have "unat (readerIndex b) + unat len \<le> length (buf_data b)"
    using buffer_invD [OF inv] len by linarith
  then have "mem_read (buf_data b) (unat (peek b)) (unat len) = Inr (take (unat len) (content b))"
    using len buffer_invD(8) [OF inv] by (simp add: peek_def content_take [OF inv len])
  moreover have "len \<le> readableBytes b"
    using len buffer_invD(6) [OF inv] by (simp add: size_simps)
  ultimately show ?thesis
    using b' by (simp add: retrieveAsString_def)
qed

lemma unwrite_spec:
  assumes inv: "buffer_inv b" and len: "unat len \<le> length (content b)"
  shows "\<exists>b'. unwrite b len = Inr b' \<and> buffer_inv b' \<and>
              content b' = take (length (content b) - unat len) (content b)"
proof -
  have wi: "unat (writerIndex b - len) = unat (writerIndex b) - unat len"
    using buffer_invD(8) [OF inv] len by (simp add: size_simps)
  have "len \<le> readableBytes b"
    using len buffer_invD(6) [OF inv] by (simp add: size_simps)
  then have "unwrite b len = Inr (b\<lparr>writerIndex := writerIndex b - len\<rparr>)"
    by (simp add: unwrite_def)
  moreover have "buffer_inv (b\<lparr>writerIndex := writerIndex b - len\<rparr>)"
    using buffer_invD [OF inv] len unfolding buffer_inv_def by (auto simp: wi)
  moreover have "content (b\<lparr>writerIndex := writerIndex b - len\<rparr>)
      = take (length (content b) - unat len) (content b)"
    using len unfolding length_content [OF inv] by (simp add: content_def wi min_absorb1 add.commute)
  ultimately show ?thesis by blast
qed

section \<open>Producing, as operations on the content\<close>

lemma vec_resize_grow:
  "length xs \<le> unat n \<Longrightarrow> unat n \<le> vec_max_size
   \<Longrightarrow> vec_resize xs n = Inr (xs @ replicate (unat n - length xs) 0)"
  by (simp add: vec_resize_def)

lemma makeSpace_grow:
  assumes inv: "buffer_inv b" and len: "unat len < 2 ^ 63"
    and tight: "length (buf_data b) - unat (writerIndex b) + unat (readerIndex b) < unat len + 8"
    and short: "length (buf_data b) - unat (writerIndex b) < unat len"
    and max: "unat (writerIndex b) + unat len \<le> vec_max_size"
  shows "\<exists>b'. makeSpace b len = Inr b' \<and> buffer_inv b' \<and> content b' = content b \<and>
              unat len \<le> length (buf_data b') - unat (writerIndex b')"
proof -
  note d = buffer_invD [OF inv]
  have "unat (writableBytes b + prependableBytes b)
      = length (buf_data b) - unat (writerIndex b) + unat (readerIndex b)"
    using d by (simp add: prependableBytes_def size_simps vec_max_size_val)
  moreover have "unat (len + kCheapPrepend) = unat len + 8"
    using len by (simp add: size_simps)
  ultimately have branch: "writableBytes b + prependableBytes b < len + kCheapPrepend"
    using tight by (simp add: size_simps)
  have sum: "unat (writerIndex b + len) = unat (writerIndex b) + unat len"
    using d(2,4) len by (simp add: size_simps vec_max_size_val)
  let ?xs = "buf_data b @ replicate (unat (writerIndex b) + unat len - length (buf_data b)) 0"
  let ?b = "b\<lparr>buf_data := ?xs\<rparr>"
  have "makeSpace b len = Inr ?b"
    using branch short max by (simp add: makeSpace_def vec_resize_def sum)
  moreover have "buffer_inv ?b"
    using d short max by (simp add: buffer_inv_def)
  moreover have "content ?b = content b"
    using d(1,2) by (simp add: content_def)
  ultimately show ?thesis
    using short by (intro exI [of _ ?b]) simp
qed

lemma makeSpace_move:
  assumes inv: "buffer_inv b" and len: "unat len < 2 ^ 63"
    and room: "unat len + 8 \<le> length (buf_data b) - unat (writerIndex b) + unat (readerIndex b)"
    and short: "length (buf_data b) - unat (writerIndex b) < unat len"
  shows "\<exists>b'. makeSpace b len = Inr b' \<and> buffer_inv b' \<and> content b' = content b \<and>
              unat len \<le> length (buf_data b') - unat (writerIndex b')"
proof -
  note d = buffer_invD [OF inv]
  have sums: "unat (writableBytes b + prependableBytes b)
      = length (buf_data b) - unat (writerIndex b) + unat (readerIndex b)"
    "unat (len + kCheapPrepend) = unat len + 8"
    using d len by (simp_all add: prependableBytes_def size_simps vec_max_size_val)
  have branch: "\<not> writableBytes b + prependableBytes b < len + kCheapPrepend"
    using room sums by (simp add: size_simps)
  have r8: "8 < unat (readerIndex b)" using room short by linarith
  have sub: "unat (writerIndex b - readerIndex b) = length (content b)"
    using d by (simp add: size_simps)
  have rd: "mem_read (buf_data b) (unat (readerIndex b)) (unat (writerIndex b - readerIndex b))
      = Inr (content b)"
    using content_take [OF inv order.refl] d(2,8) by (simp add: sub)
  have fit: "8 + length (content b) \<le> length (buf_data b)" using d r8 by linarith
  define xs where "xs = take 8 (buf_data b) @ content b @ drop (8 + length (content b)) (buf_data b)"
  have wr: "mem_write (buf_data b) 8 (content b) = Inr xs"
    using fit by (simp add: xs_def)
  define b' where "b' = b\<lparr>buf_data := xs, readerIndex := kCheapPrepend,
      writerIndex := kCheapPrepend + readableBytes b\<rparr>"
  have wi: "unat (kCheapPrepend + readableBytes b) = 8 + length (content b)"
    using d fit by (simp add: size_simps vec_max_size_val)
  have lxs: "length xs = length (buf_data b)" using fit by (simp add: xs_def)
  have "makeSpace b len = Inr b'"
    using branch r8 rd wr
    by (simp add: makeSpace_def size_less_iff b'_def readableBytes_def)
  moreover have "buffer_inv b'"
    using d fit by (simp add: buffer_inv_def b'_def wi lxs)
  moreover have "content b' = content b"
    using fit by (simp add: b'_def content_def [of "b\<lparr>buf_data := _, readerIndex := _, writerIndex := _\<rparr>"]
        wi xs_def)
  moreover have "unat len \<le> length (buf_data b') - unat (writerIndex b')"
    using room d by (simp add: b'_def wi lxs)
  ultimately show ?thesis by blast
qed

lemma ensureWritableBytes_spec:
  assumes inv: "buffer_inv b" and len: "unat len < 2 ^ 63" and fits: "buffer_fits b (unat len)"
  shows "\<exists>b'. ensureWritableBytes b len = Inr b' \<and> buffer_inv b' \<and> content b' = content b \<and>
              unat len \<le> length (buf_data b') - unat (writerIndex b')"
proof (cases "unat len \<le> length (buf_data b) - unat (writerIndex b)")
  case True
  moreover from True have "\<not> writableBytes b < len"
    using buffer_invD(7) [OF inv] by (simp add: size_less_iff)
  ultimately show ?thesis
    using inv by (simp add: ensureWritableBytes_def assertE_def)
next
  case False
  then have short: "length (buf_data b) - unat (writerIndex b) < unat len" by simp
  then have branch: "writableBytes b < len"
    using buffer_invD(7) [OF inv] by (simp add: size_less_iff)
  have "\<exists>b'. makeSpace b len = Inr b' \<and> buffer_inv b' \<and> content b' = content b \<and>
            unat len \<le> length (buf_data b') - unat (writerIndex b')"
  proof (cases "unat len + 8 \<le> length (buf_data b) - unat (writerIndex b) + unat (readerIndex b)")
    case True
    then show ?thesis using makeSpace_move [OF inv len] short by blast
  next
    case False
    then have "unat (writerIndex b) + unat len \<le> vec_max_size"
      using fits short by (simp add: buffer_fits_def)
    then show ?thesis using makeSpace_grow [OF inv len] False short by (simp add: not_le)
  qed
  then obtain b' where b': "makeSpace b len = Inr b'" "buffer_inv b'" "content b' = content b"
    "unat len \<le> length (buf_data b') - unat (writerIndex b')" by blast
  moreover have "len \<le> writableBytes b'"
    using b'(4) buffer_invD(7) [OF b'(2)] by (simp add: size_le_iff)
  ultimately show ?thesis
    using branch by (simp add: ensureWritableBytes_def)
qed

lemma ensureWritableBytes_length_error:
  assumes inv: "buffer_inv b" and len: "unat len < 2 ^ 63" and big: "\<not> buffer_fits b (unat len)"
  shows "ensureWritableBytes b len = Inl (Exception ''length_error'')"
proof -
  note d = buffer_invD [OF inv]
  have n: "length (buf_data b) - unat (writerIndex b) < unat len"
    "length (buf_data b) - unat (writerIndex b) + unat (readerIndex b) < unat len + 8"
    "vec_max_size < unat (writerIndex b) + unat len"
    using big by (auto simp: buffer_fits_def)
  have sums: "unat (writableBytes b + prependableBytes b)
      = length (buf_data b) - unat (writerIndex b) + unat (readerIndex b)"
    "unat (len + kCheapPrepend) = unat len + 8"
    "unat (writerIndex b + len) = unat (writerIndex b) + unat len"
    using d(1,2,4,7) len by (simp_all add: prependableBytes_def size_simps vec_max_size_val)
  show ?thesis
    using n d(7) sums
    by (simp add: ensureWritableBytes_def makeSpace_def vec_resize_def size_less_iff)
qed

lemma buffer_append_spec:
  assumes inv: "buffer_inv b" and len: "length d < 2 ^ 63" and fits: "buffer_fits b (length d)"
  shows "\<exists>b'. buffer_append b d = Inr b' \<and> buffer_inv b' \<and> content b' = content b @ d"
proof -
  have n: "unat (vec_size d) = length d"
    using len by (intro unat_vec_size) simp
  obtain b1 where b1: "ensureWritableBytes b (vec_size d) = Inr b1" "buffer_inv b1"
    "content b1 = content b" "length d \<le> length (buf_data b1) - unat (writerIndex b1)"
    using ensureWritableBytes_spec [OF inv, of "vec_size d"] len fits n by auto
  note e = buffer_invD [OF b1(2)]
  let ?w = "unat (writerIndex b1)"
  let ?xs = "take ?w (buf_data b1) @ d @ drop (?w + length d) (buf_data b1)"
  let ?b = "b1\<lparr>buf_data := ?xs, writerIndex := writerIndex b1 + vec_size d\<rparr>"
  have room: "?w + length d \<le> length (buf_data b1)"
    using b1(4) e(2) by linarith
  have wi: "unat (writerIndex b1 + vec_size d) = ?w + length d"
    using room e(5) n by (simp add: size_simps)
  have lx: "length ?xs = length (buf_data b1)" using room by simp
  have "vec_size d \<le> writableBytes (b1\<lparr>buf_data := ?xs\<rparr>)"
    using room n e(7) lx by (simp add: size_le_iff writableBytes_def vec_size_def)
  then have "buffer_append b d = Inr ?b"
    using b1(1) room by (simp add: buffer_append_def beginWrite_def hasWritten_def)
  moreover have "buffer_inv ?b"
    using e(1-4) room lx unfolding buffer_inv_def by (simp add: wi)
  moreover have "content ?b = content b1 @ d"
    using e(1,2) room by (simp add: content_def wi drop_take)
  ultimately show ?thesis using b1(3) by simp
qed

lemma buffer_append_length_error:
  assumes "buffer_inv b" and "length d < 2 ^ 63" and "\<not> buffer_fits b (length d)"
  shows "buffer_append b d = Inl (Exception ''length_error'')"
  using ensureWritableBytes_length_error [of b "vec_size d"] assms
  by (simp add: buffer_append_def unat_vec_size)

lemma prepend_spec:
  assumes inv: "buffer_inv b" and room: "length d \<le> unat (readerIndex b)"
  shows "\<exists>b'. prepend b d = Inr b' \<and> buffer_inv b' \<and> content b' = d @ content b"
proof -
  note e = buffer_invD [OF inv]
  let ?r = "unat (readerIndex b) - length d"
  have n: "unat (vec_size d) = length d"
    using room by (intro unat_vec_size) (use unat_size_lt [of "readerIndex b"] in linarith)
  have ri: "unat (readerIndex b - vec_size d) = ?r"
    using room n by (simp add: size_simps)
  let ?xs = "take ?r (buf_data b) @ d @ drop (unat (readerIndex b)) (buf_data b)"
  let ?b = "b\<lparr>buf_data := ?xs, readerIndex := readerIndex b - vec_size d\<rparr>"
  have fit: "?r + length d \<le> length (buf_data b)" using room e(1,2) by linarith
  have "prepend b d = Inr ?b"
    using room fit n by (simp add: prepend_def prependableBytes_def size_le_iff ri)
  moreover have "buffer_inv ?b"
    using e(1-4) room unfolding buffer_inv_def by (simp add: ri)
  moreover have "content ?b = d @ content b"
    using e(1,2) room by (simp add: content_def ri)
  ultimately show ?thesis by blast
qed

lemma prepend_no_room:
  "length d < 2 ^ 64 \<Longrightarrow> unat (readerIndex b) < length d
   \<Longrightarrow> prepend b d = Inl (Assertion ''len <= prependableBytes()'')"
  by (simp add: prepend_def prependableBytes_def size_le_iff unat_vec_size)

section \<open>Integers survive the wire\<close>

lemma peek_bytes:
  assumes "buffer_inv b" and "n \<le> length (content b)"
  shows "mem_read (buf_data b) (unat (peek b)) n = Inr (take n (content b))"
  using assms content_take [OF assms] buffer_invD(2,8) [OF assms(1)]
  by (simp add: peek_def)

lemma peekInt64_spec:
  assumes "buffer_inv b" and "8 \<le> length (content b)"
  shows "peekInt64 le b = Inr (of_le_bytes (rev (take 8 (content b))))"
  using peek_bytes [OF assms] buffer_invD(6) [OF assms(1)] assms
  by (simp add: peekInt64_def size_le_iff betoh_of_mem_bytes)

lemma peekInt32_spec:
  assumes "buffer_inv b" and "4 \<le> length (content b)"
  shows "peekInt32 le b = Inr (of_le_bytes (rev (take 4 (content b))))"
  using peek_bytes [OF assms] buffer_invD(6) [OF assms(1)] assms
  by (simp add: peekInt32_def size_le_iff betoh_of_mem_bytes)

lemma peekInt16_spec:
  assumes "buffer_inv b" and "2 \<le> length (content b)"
  shows "peekInt16 le b = Inr (of_le_bytes (rev (take 2 (content b))))"
  using peek_bytes [OF assms] buffer_invD(6) [OF assms(1)] assms
  by (simp add: peekInt16_def size_le_iff betoh_of_mem_bytes)

lemma peekInt8_spec:
  assumes "buffer_inv b" and "content b = x # rest"
  shows "peekInt8 b = Inr x"
  using peek_bytes [OF assms(1), of 1] buffer_invD(6) [OF assms(1)] assms
  by (simp add: peekInt8_def size_le_iff)

lemma readInt64_spec:
  assumes inv: "buffer_inv b" and c: "content b = be_bytes x @ rest"
  shows "\<exists>b'. readInt64 le b = Inr (x, b') \<and> buffer_inv b' \<and> content b' = rest"
  using peekInt64_spec [OF inv] retrieve_spec [OF inv, of 8]
  by (auto simp: c readInt64_def retrieveInt64_def of_le_bytes_rev_be_bytes)

lemma readInt32_spec:
  assumes inv: "buffer_inv b" and c: "content b = be_bytes x @ rest"
  shows "\<exists>b'. readInt32 le b = Inr (x, b') \<and> buffer_inv b' \<and> content b' = rest"
  using peekInt32_spec [OF inv] retrieve_spec [OF inv, of 4]
  by (auto simp: c readInt32_def retrieveInt32_def of_le_bytes_rev_be_bytes)

lemma readInt16_spec:
  assumes inv: "buffer_inv b" and c: "content b = be_bytes x @ rest"
  shows "\<exists>b'. readInt16 le b = Inr (x, b') \<and> buffer_inv b' \<and> content b' = rest"
  using peekInt16_spec [OF inv] retrieve_spec [OF inv, of 2]
  by (auto simp: c readInt16_def retrieveInt16_def of_le_bytes_rev_be_bytes)

lemma readInt8_spec:
  assumes inv: "buffer_inv b" and c: "content b = x # rest"
  shows "\<exists>b'. readInt8 b = Inr (x, b') \<and> buffer_inv b' \<and> content b' = rest"
  using peekInt8_spec [OF inv c] retrieve_spec [OF inv, of 1]
  by (auto simp: c readInt8_def retrieveInt8_def)

lemmas append_int_defs =
  appendInt64_def appendInt32_def appendInt16_def appendInt8_def mem_bytes_htobe

lemmas prepend_int_defs =
  prependInt64_def prependInt32_def prependInt16_def prependInt8_def mem_bytes_htobe

section \<open>Lines\<close>

definition first_at :: "byte list \<Rightarrow> byte list \<Rightarrow> nat \<Rightarrow> bool" where
  "first_at pat xs i \<longleftrightarrow>
     take (length pat) (drop i xs) = pat \<and> (\<forall>j<i. take (length pat) (drop j xs) \<noteq> pat)"

lemma std_search_spec:
  "pat \<noteq> [] \<Longrightarrow>
     (if std_search xs pat < length xs then first_at pat xs (std_search xs pat)
      else std_search xs pat = length xs \<and> (\<forall>j. take (length pat) (drop j xs) \<noteq> pat))"
proof (induction xs pat rule: std_search.induct)
  case (1 pat)
  then show ?case by auto
next
  case (2 x xs pat)
  show ?case
  proof (cases "take (length pat) (x # xs) = pat")
    case True
    then show ?thesis by (simp add: first_at_def)
  next
    case False
    with 2 show ?thesis
      by (auto simp: first_at_def less_Suc_eq_0_disj nat.split_sels drop_Cons
          split: if_splits nat.splits)
  qed
qed

lemma memchr_spec:
  "case memchr xs c of None \<Rightarrow> c \<notin> set xs
   | Some i \<Rightarrow> i < length xs \<and> xs ! i = c \<and> c \<notin> set (take i xs)"
  by (induction xs) (auto split: option.splits)

lemma findCRLF_spec:
  assumes inv: "buffer_inv b"
  shows "findCRLF b =
    Inr (if std_search (content b) KCRLF < length (content b)
         then Some (readerIndex b + word_of_nat (std_search (content b) KCRLF)) else None)"
proof -
  note d = buffer_invD [OF inv]
  have sub: "unat (beginWrite b - peek b) = length (content b)"
    using d(6) by (simp add: beginWrite_def peek_def readableBytes_def)
  have rd: "mem_read (buf_data b) (unat (peek b)) (length (content b)) = Inr (content b)"
    using peek_bytes [OF inv order.refl] by simp
  let ?n = "std_search (content b) KCRLF"
  have le: "?n \<le> length (content b)"
    using std_search_spec [of KCRLF "content b"] by (simp add: KCRLF_def split: if_splits)
  have eq: "unat (readerIndex b + word_of_nat ?n) = unat (readerIndex b) + ?n"
    using le d(2,5,8) by (simp add: size_simps unat_size_of_nat)
  have "(readerIndex b + word_of_nat ?n = writerIndex b) \<longleftrightarrow> ?n = length (content b)"
    using d(8) by (simp add: size_eq_iff eq)
  with le show ?thesis
    using sub rd by (simp add: findCRLF_def peek_def beginWrite_def)
qed

section \<open>Construction and filling from a descriptor\<close>

lemma buffer_new_spec:
  assumes "unat n + 8 \<le> vec_max_size"
  shows "\<exists>b. buffer_new n = Inr b \<and> buffer_inv b \<and> content b = [] \<and>
             length (buf_data b) = unat n + 8"
proof -
  have s: "unat (kCheapPrepend + n) = unat n + 8"
    using assms by (simp add: size_simps vec_max_size_val)
  let ?b = "\<lparr>buf_data = replicate (unat n + 8) 0, readerIndex = kCheapPrepend,
             writerIndex = kCheapPrepend\<rparr>"
  have "vec_size (replicate (unat n + 8) (0 :: byte)) = n + 8"
    by (simp add: vec_size_def)
  then have "buffer_new n = Inr ?b"
    using assms
    by (simp add: buffer_new_def vec_new_def s readableBytes_def writableBytes_def
        prependableBytes_def) (simp add: kCheapPrepend_def)
  moreover have "buffer_inv ?b" "content ?b = []"
    using assms by (simp_all add: buffer_inv_def content_def)
  ultimately show ?thesis by fastforce
qed

lemma readFd_direct:
  assumes inv: "buffer_inv b" and fit: "length bs \<le> length (buf_data b) - unat (writerIndex b)"
  shows "\<exists>b'. readFd b (Io_bytes bs) = Inr (b', int (length bs), None) \<and> buffer_inv b' \<and>
              content b' = content b @ bs \<and> length (buf_data b') = length (buf_data b)"
proof -
  note d = buffer_invD [OF inv]
  let ?w = "unat (writerIndex b)"
  have n: "unat (vec_size bs) = length bs"
    using fit d(5) by (intro unat_vec_size) linarith
  have wi: "unat (writerIndex b + vec_size bs) = ?w + length bs"
    using fit d(2,5) n by (simp add: size_simps)
  let ?xs = "take ?w (buf_data b) @ bs @ drop (?w + length bs) (buf_data b)"
  let ?b = "b\<lparr>buf_data := ?xs, writerIndex := writerIndex b + vec_size bs\<rparr>"
  have room: "?w + length bs \<le> length (buf_data b)" using fit d(2) by linarith
  have "readFd b (Io_bytes bs) = Inr (?b, int (length bs), None)"
    using fit room n d(7) by (simp add: readFd_def Let_def size_le_iff)
  moreover have "buffer_inv ?b"
    using d(1-4) room unfolding buffer_inv_def by (simp add: wi)
  moreover have "content ?b = content b @ bs"
    using d(1,2) room by (simp add: content_def wi drop_take)
  moreover have "length (buf_data ?b) = length (buf_data b)" using room by simp
  ultimately show ?thesis by blast
qed

lemma readFd_spill:
  assumes inv: "buffer_inv b"
    and over: "length (buf_data b) - unat (writerIndex b) < length bs"
    and room: "length bs \<le> readv_room b"
  shows "\<exists>b1 d. content b1 @ d = content b @ bs \<and> buffer_inv b1 \<and> length d \<le> extrabuf_size \<and>
     length d \<le> length bs \<and> length (buf_data b1) = length (buf_data b) \<and> unat (writerIndex b1) = length (buf_data b) \<and>
     readFd b (Io_bytes bs) = bindE (buffer_append b1 d) (\<lambda>b2. Inr (b2, int (length bs), None))"
proof -
  note d = buffer_invD [OF inv]
  let ?w = "unat (writerIndex b)" and ?n = "length (buf_data b) - unat (writerIndex b)"
  have extra: "length bs \<le> ?n + extrabuf_size"
    using room over d(7) by (simp add: readv_room_def split: if_splits)
  have n: "unat (vec_size bs) = length bs"
    using extra d(4) by (intro unat_vec_size) (simp add: extrabuf_size_def vec_max_size_val)
  define b1 where "b1 = b\<lparr>buf_data := take ?w (buf_data b) @ take ?n bs,
      writerIndex := vec_size (buf_data b)\<rparr>"
  have lt: "length (take ?w (buf_data b) @ take ?n bs) = length (buf_data b)"
    using over d(2) by simp
  then have lb: "length (buf_data b1) = length (buf_data b)"
    by (simp add: b1_def)
  have w1: "unat (writerIndex b1) = length (buf_data b1)"
    using d(5) lb by (simp add: b1_def unat_vec_size)
  have inv1: "buffer_inv b1"
    using d(1-4) lb unfolding buffer_inv_def w1 by (simp add: b1_def)
  have c1: "content b1 = content b @ take ?n bs"
    using d(1,2) over by (simp add: content_def w1 lb) (simp add: b1_def drop_take)
  have sub: "unat (vec_size bs - writableBytes b) = length bs - ?n"
    using over n d(7) by (simp add: unat_size_minus)
  have mw: "mem_write (buf_data b) ?w (take ?n bs) = Inr (take ?w (buf_data b) @ take ?n bs)"
    using over d(2) by simp
  have vs: "vec_size (take ?w (buf_data b) @ take ?n bs) = vec_size (buf_data b)"
    unfolding vec_size_def lt ..
  have len: "length bs - ?n \<le> extrabuf_size" using extra by simp
  have "readFd b (Io_bytes bs) =
      bindE (buffer_append b1 (drop ?n bs)) (\<lambda>b2. Inr (b2, int (length bs), None))"
    using over len mw n
    by (simp add: readFd_def Let_def size_le_iff d(7) sub vs b1_def)
  then show ?thesis using inv1 c1 lb w1 extra
    by (intro exI [of _ b1] exI [of _ "drop ?n bs"]) simp
qed

lemma readFd_spec:
  assumes inv: "buffer_inv b" and room: "length bs \<le> readv_room b"
    and grow: "length (buf_data b) + extrabuf_size \<le> vec_max_size"
  shows "\<exists>b'. readFd b (Io_bytes bs) = Inr (b', int (length bs), None) \<and> buffer_inv b' \<and>
              content b' = content b @ bs"
proof (cases "length bs \<le> length (buf_data b) - unat (writerIndex b)")
  case True
  then show ?thesis using readFd_direct [OF inv] by blast
next
  case False
  then obtain b1 d where b1: "content b1 @ d = content b @ bs" "buffer_inv b1"
      "length d \<le> extrabuf_size" "length (buf_data b1) = length (buf_data b)"
      "unat (writerIndex b1) = length (buf_data b)"
      "readFd b (Io_bytes bs) = bindE (buffer_append b1 d) (\<lambda>b2. Inr (b2, int (length bs), None))"
    using readFd_spill [OF inv _ room] by auto
  have "buffer_fits b1 (length d)" "length d < 2 ^ 63"
    using grow b1(3-5) by (simp_all add: buffer_fits_def extrabuf_size_def)
  then obtain b2 where "buffer_append b1 d = Inr b2" "buffer_inv b2" "content b2 = content b1 @ d"
    using buffer_append_spec [OF b1(2)] by blast
  with b1(1,6) show ?thesis by simp
qed

section \<open>How far a buffer grows\<close>

text \<open>The vector grows only when the free space is too small, and then to what is needed.\<close>

lemma ensureWritableBytes_capacity:
  assumes inv: "buffer_inv b" and run: "ensureWritableBytes b len = Inr b'"
  shows "length (buf_data b') = length (buf_data b) \<or>
    (length (buf_data b') \<le> unat (writerIndex b) + unat len \<and>
     length (buf_data b) - unat (writerIndex b) + unat (readerIndex b) < unat len + 8)"
proof -
  note d = buffer_invD [OF inv]
  have sum: "unat (writableBytes b + prependableBytes b)
      = length (buf_data b) - unat (writerIndex b) + unat (readerIndex b)"
    using d(1,2,4,7) by (simp add: prependableBytes_def size_simps vec_max_size_val)
  have le: "unat (len + kCheapPrepend) \<le> unat len + 8" "unat (writerIndex b + len) \<le> unat (writerIndex b) + unat len"
    using unat_plus_simple [of len kCheapPrepend] by (simp_all add: unat_word_ariths)
  show ?thesis
  proof (cases "writableBytes b < len \<and> writableBytes b + prependableBytes b < len + kCheapPrepend")
    case True
    then have "length (buf_data b') = unat (writerIndex b + len)"
      using run by (auto simp: ensureWritableBytes_def makeSpace_def vec_resize_def res_simps split: if_splits)
    moreover have "length (buf_data b) - unat (writerIndex b) + unat (readerIndex b) < unat len + 8"
      using True le(1) sum by (simp add: size_less_iff)
    ultimately show ?thesis using le(2) by simp
  next
    case False
    then have "length (buf_data b') = length (buf_data b)"
      using run by (auto simp: ensureWritableBytes_def makeSpace_def Let_def res_simps split: if_splits)
    then show ?thesis ..
  qed
qed

lemma buffer_append_capacity:
  assumes inv: "buffer_inv b" and len: "length d < 2 ^ 63" and run: "buffer_append b d = Inr b'"
  shows "length (buf_data b') \<le> max (length (buf_data b)) (2 * (length (content b) + length d) + 7)"
    and "length (buf_data b') \<le> length (buf_data b) + length d"
proof -
  have n: "unat (vec_size d) = length d" using len by (intro unat_vec_size) simp
  obtain b1 xs where b1: "ensureWritableBytes b (vec_size d) = Inr b1"
      "mem_write (buf_data b1) (unat (beginWrite b1)) d = Inr xs"
      "hasWritten (b1\<lparr>buf_data := xs\<rparr>) (vec_size d) = Inr b'"
    using run by (auto simp: buffer_append_def bindE_Inr_iff)
  have "length xs = length (buf_data b1)" using b1(2) by (auto simp: mem_write_Inr_iff)
  moreover have "buf_data b' = xs" using b1(3) by (auto simp: hasWritten_def res_simps)
  ultimately have l: "length (buf_data b') = length (buf_data b1)" by simp
  note c = ensureWritableBytes_capacity [OF inv b1(1), unfolded n]
  show "length (buf_data b') \<le> max (length (buf_data b)) (2 * (length (content b) + length d) + 7)"
    using c l buffer_invD(2,8) [OF inv] by auto
  show "length (buf_data b') \<le> length (buf_data b) + length d"
    using c l buffer_invD(2) [OF inv] by auto
qed

text \<open>Reading from a descriptor, for a vector that has room to grow by what is read.\<close>

lemma readFd_capacity:
  assumes inv: "buffer_inv b" and room: "length bs \<le> readv_room b"
    and grow: "length (buf_data b) + length bs \<le> vec_max_size"
  shows "\<exists>b'. readFd b (Io_bytes bs) = Inr (b', int (length bs), None) \<and> buffer_inv b' \<and>
    content b' = content b @ bs \<and> length (buf_data b') \<le> length (buf_data b) + length bs"
proof (cases "length bs \<le> length (buf_data b) - unat (writerIndex b)")
  case True
  then show ?thesis using readFd_direct [OF inv True] by auto
next
  case False
  then obtain b1 d where b1: "content b1 @ d = content b @ bs" "buffer_inv b1"
      "length d \<le> extrabuf_size" "length d \<le> length bs" "length (buf_data b1) = length (buf_data b)"
      "unat (writerIndex b1) = length (buf_data b)"
      "readFd b (Io_bytes bs) = bindE (buffer_append b1 d) (\<lambda>b2. Inr (b2, int (length bs), None))"
    using readFd_spill [OF inv _ room] by auto
  have fd: "buffer_fits b1 (length d)" "length d < 2 ^ 63"
    using grow b1(3-6) by (simp_all add: buffer_fits_def extrabuf_size_def)
  then obtain b2 where b2: "buffer_append b1 d = Inr b2" "buffer_inv b2" "content b2 = content b1 @ d"
    using buffer_append_spec [OF b1(2)] by blast
  with b1(1,4,5,7) buffer_append_capacity(2) [OF b1(2) fd(2) b2(1)] show ?thesis by auto
qed

section \<open>Buffer provides the byte-stream contract\<close>

interpretation buffer_stream: byte_stream buffer_inv content buffer_fits buffer_append
  retrieveAsString "Assertion ''len <= readableBytes()''"
proof unfold_locales
  fix b and n :: size_t
  assume "buffer_inv b" "length (content b) < unat n"
  then show "retrieveAsString b n = Inl (Assertion ''len <= readableBytes()'')"
    using buffer_invD(6) [of b] by (simp add: retrieveAsString_def size_le_iff)
qed (use buffer_append_spec buffer_append_length_error retrieveAsString_spec in \<open>simp_all\<close>)

text \<open>Without a bound on the size, \<open>readFd\<close> either appends or throws \<open>length_error\<close>.\<close>

lemma readFd_cases:
  assumes inv: "buffer_inv b" and room: "length bs \<le> readv_room b"
  shows "(\<exists>b'. readFd b (Io_bytes bs) = Inr (b', int (length bs), None) \<and> buffer_inv b' \<and>
               content b' = content b @ bs) \<or>
         readFd b (Io_bytes bs) = Inl (Exception ''length_error'')"
proof (cases "length bs \<le> length (buf_data b) - unat (writerIndex b)")
  case True
  then show ?thesis using readFd_direct [OF inv] by blast
next
  case False
  then obtain b1 d where b1: "content b1 @ d = content b @ bs" "buffer_inv b1"
      "length d \<le> extrabuf_size"
      "readFd b (Io_bytes bs) = bindE (buffer_append b1 d) (\<lambda>b2. Inr (b2, int (length bs), None))"
    using readFd_spill [OF inv _ room] by auto
  have len: "length d < 2 ^ 63" using b1(3) by (simp add: extrabuf_size_def)
  show ?thesis
  proof (cases "buffer_append b1 d")
    case (Inl e)
    with buffer_stream.put_Inl [OF b1(2) len] b1(4) show ?thesis by simp
  next
    case (Inr b2)
    with buffer_stream.put_Inr [OF b1(2) len] b1(1,4) show ?thesis by simp
  qed
qed

section \<open>Properties\<close>

lemmas buffer_eval =
  buffer_new_def vec_new_def vec_resize_def vec_max_size_val vec_size_def Let_def
  kCheapPrepend_def readableBytes_def writableBytes_def prependableBytes_def buffer_append_def
  ensureWritableBytes_def makeSpace_def hasWritten_def beginWrite_def peek_def
  retrieveAsString_def retrieve_def retrieveAll_def assertE_def mem_read_def mem_write_def
  content_def

text \<open>C17. First in, first out: whatever sequence of appends and string retrievals is run on a
  freshly constructed buffer, the bytes handed out followed by the bytes still readable are
  exactly the bytes appended, in order; nothing is lost, duplicated or reordered by the moves
  and reallocations in between.\<close>
theorem buffer_fifo:
  assumes "unat n + 8 \<le> vec_max_size" and "buffer_new n = Inr b" and "puts_bounded ops"
    and "stream_run buffer_append retrieveAsString b ops = Inr (out, b')"
  shows "buffer_inv b' \<and> out @ content b' = bytes_put ops"
proof -
  obtain b0 where "buffer_new n = Inr b0" "buffer_inv b0" "content b0 = []"
    using buffer_new_spec [OF assms(1)] by blast
  with assms(2) have "buffer_inv b" "content b = []" by auto
  with buffer_stream.stream_fifo [OF _ assms(3,4)] show ?thesis by simp
qed

theorem buffer_fifo_witness:
  "\<exists>b b'. buffer_new 2 = Inr b \<and>
     stream_run buffer_append retrieveAsString b [Put [1, 2, 3, 4, 5], Get 3, Put [6, 7], Get 2]
       = Inr ([1, 2, 3, 4, 5], b') \<and> [1, 2, 3, 4, 5] @ content b' = [1, 2, 3, 4, 5, 6, 7]"
proof -
  let ?b = "\<lparr>buf_data = replicate 10 0, readerIndex = 8, writerIndex = 8\<rparr>"
  let ?ops = "[Put [1, 2, 3, 4, 5], Get 3, Put [6, 7], Get 2]"
  let ?b' = "\<lparr>buf_data = replicate 8 0 @ [4, 5, 6, 7, 5], readerIndex = 10, writerIndex = 12\<rparr>"
  have n: "buffer_new 2 = Inr ?b" by (simp add: buffer_eval)
  have r: "stream_run buffer_append retrieveAsString ?b ?ops = Inr ([1, 2, 3, 4, 5], ?b')"
    by (simp add: buffer_eval)
  have p: "puts_bounded ?ops" by simp
  have "[1, 2, 3, 4, 5] @ content ?b' = bytes_put ?ops"
    using buffer_fifo [OF _ n p r] by (simp add: vec_max_size_val)
  then show ?thesis using n r by auto
qed

text \<open>The largest number of unread bytes during a sequence of puts and gets, from \<open>k\<close> on.\<close>

fun peak :: "nat \<Rightarrow> stream_op list \<Rightarrow> nat" where
  "peak k [] = k"
| "peak k (Put d # ops) = max k (peak (k + length d) ops)"
| "peak k (Get n # ops) = max k (peak (k - unat n) ops)"

lemma peak_ge: "k \<le> peak k ops"
  by (induction k ops rule: peak.induct) auto

lemma stream_run_capacity:
  assumes "buffer_inv b" and "puts_bounded ops"
    and "stream_run buffer_append retrieveAsString b ops = Inr (out, b')"
  shows "length (buf_data b') \<le> max (length (buf_data b)) (2 * peak (length (content b)) ops + 7)"
  using assms
proof (induction ops arbitrary: b out rule: bytes_put.induct)
  case 1
  then show ?case by simp
next
  case (2 d ops)
  then obtain b1 where b1: "buffer_append b d = Inr b1"
      "stream_run buffer_append retrieveAsString b1 ops = Inr (out, b')"
    by (auto simp: res_simps)
  with 2(2,3) have i: "buffer_inv b1" "content b1 = content b @ d"
    using buffer_stream.put_Inr [of b d b1] by auto
  have c: "length (buf_data b1) \<le> max (length (buf_data b)) (2 * (length (content b) + length d) + 7)"
    using buffer_append_capacity(1) [OF 2(2) _ b1(1)] 2(3) by simp
  have ih: "length (buf_data b') \<le> max (length (buf_data b1)) (2 * peak (length (content b) + length d) ops + 7)"
    using 2(1) [OF i(1) _ b1(2)] 2(3) i(2) by simp
  show ?case using c ih peak_ge [of "length (content b) + length d" ops] by (simp add: max_def split: if_splits)
next
  case (3 n ops)
  then obtain got b1 rest where b1: "retrieveAsString b n = Inr (got, b1)"
      "stream_run buffer_append retrieveAsString b1 ops = Inr (rest, b')" "out = got @ rest"
    by (auto simp: res_simps split: prod.splits)
  have n: "unat n \<le> length (content b)"
    using buffer_stream.get_short [OF 3(2), of n] b1(1) by force
  have i: "buffer_inv b1" "length (content b1) = length (content b) - unat n"
    using buffer_stream.get_ok [OF 3(2) n] b1(1) by auto
  have "buf_data b1 = buf_data b"
    using b1(1) by (auto simp: retrieveAsString_def retrieve_def retrieveAll_def res_simps split: if_splits)
  with 3(1) [OF i(1) _ b1(2)] 3(3) i(2) show ?case by (simp add: max_def split: if_splits)
qed

text \<open>C18. Memory bound: whatever sequence of appends and retrievals is run on a freshly constructed
  buffer, its vector is never longer than it was constructed or than twice the largest number of
  bytes that were unread at one time, and 7; bytes already retrieved cost nothing.\<close>
theorem buffer_memory_bound:
  assumes "unat n + 8 \<le> vec_max_size" and "buffer_new n = Inr b" and "puts_bounded ops"
    and "stream_run buffer_append retrieveAsString b ops = Inr (out, b')"
  shows "length (buf_data b') \<le> max (unat n + 8) (2 * peak 0 ops + 7)"
proof -
  obtain b0 where "buffer_new n = Inr b0" "buffer_inv b0" "content b0 = []"
      "length (buf_data b0) = unat n + 8"
    using buffer_new_spec [OF assms(1)] by blast
  with assms(2) have "buffer_inv b" "content b = []" "length (buf_data b) = unat n + 8" by auto
  with stream_run_capacity [OF _ assms(3,4)] show ?thesis by simp
qed

theorem buffer_memory_bound_witness:
  "\<exists>b b'. buffer_new 2 = Inr b \<and>
     stream_run buffer_append retrieveAsString b [Put [1, 2, 3, 4, 5], Get 3, Put [6, 7], Get 2]
       = Inr ([1, 2, 3, 4, 5], b') \<and> length (buf_data b') \<le> 17"
proof -
  let ?b = "\<lparr>buf_data = replicate 10 0, readerIndex = 8, writerIndex = 8\<rparr>"
  let ?ops = "[Put [1, 2, 3, 4, 5], Get 3, Put [6, 7], Get 2]"
  let ?b' = "\<lparr>buf_data = replicate 8 0 @ [4, 5, 6, 7, 5], readerIndex = 10, writerIndex = 12\<rparr>"
  have n: "buffer_new 2 = Inr ?b" by (simp add: buffer_eval)
  have r: "stream_run buffer_append retrieveAsString ?b ?ops = Inr ([1, 2, 3, 4, 5], ?b')"
    by (simp add: buffer_eval)
  have p: "puts_bounded ?ops" by simp
  have m: "unat (2 :: size_t) + 8 \<le> vec_max_size" by (simp add: vec_max_size_val)
  have "peak 0 ?ops = 5" by simp
  with buffer_memory_bound [OF m n p r] n r show ?thesis by auto
qed

text \<open>Appending is total and memory safe on a well-formed buffer: it appends exactly the
  given bytes and keeps the buffer well-formed, unless the vector would have to grow past its
  maximal size, when it leaves \<open>length_error\<close>; it never fails an assertion and never writes
  outside the vector.\<close>
theorem buffer_append_total:
  assumes "buffer_inv b" and "length d < 2 ^ 63"
  shows "if buffer_fits b (length d)
         then \<exists>b'. buffer_append b d = Inr b' \<and> buffer_inv b' \<and> content b' = content b @ d
         else buffer_append b d = Inl (Exception ''length_error'')"
  using buffer_stream.put_ok [OF assms] buffer_stream.put_full [OF assms] by simp

theorem buffer_append_total_witness:
  "\<exists>b'. buffer_append \<lparr>buf_data = replicate 12 0, readerIndex = 10, writerIndex = 11\<rparr> [1, 2]
          = Inr b' \<and> content b' = [0, 1, 2]"
proof -
  let ?b = "\<lparr>buf_data = replicate 12 0, readerIndex = 10, writerIndex = 11\<rparr> :: buffer"
  have i: "buffer_inv ?b" by (simp add: buffer_inv_def vec_max_size_val)
  have l: "length [1 :: byte, 2] < 2 ^ 63" by simp
  have "buffer_fits ?b (length [1 :: byte, 2])" by (simp add: buffer_fits_def vec_max_size_val)
  then obtain b' where "buffer_append ?b [1, 2] = Inr b'" "content b' = content ?b @ [1, 2]"
    using buffer_append_total [OF i l] by auto
  moreover have "content ?b = [0]" by (simp add: content_def)
  ultimately show ?thesis by simp
qed

text \<open>C36. A length header written in front of a message on one host is read back on any other:
  prepending a 32-bit integer (whatever the writer's byte order) to a buffer with room in front
  makes \<open>readInt32\<close> (whatever the reader's byte order) return that integer and leave exactly
  the message; the 64-bit and 16-bit pairs behave the same.\<close>
theorem int_header_roundtrip:
  assumes inv: "buffer_inv b" and room: "8 \<le> unat (readerIndex b)"
  shows "(\<exists>b1 b2. prependInt32 le b x = Inr b1 \<and> readInt32 le' b1 = Inr (x, b2) \<and>
           buffer_inv b2 \<and> content b2 = content b) \<and>
         (\<exists>b1 b2. prependInt64 le b y = Inr b1 \<and> readInt64 le' b1 = Inr (y, b2) \<and>
           buffer_inv b2 \<and> content b2 = content b) \<and>
         (\<exists>b1 b2. prependInt16 le b z = Inr b1 \<and> readInt16 le' b1 = Inr (z, b2) \<and>
           buffer_inv b2 \<and> content b2 = content b)"
proof (intro conjI)
  show "\<exists>b1 b2. prependInt32 le b x = Inr b1 \<and> readInt32 le' b1 = Inr (x, b2) \<and>
           buffer_inv b2 \<and> content b2 = content b"
    using prepend_spec [OF inv, of "be_bytes x"] room readInt32_spec
    by (simp add: prepend_int_defs) blast
  show "\<exists>b1 b2. prependInt64 le b y = Inr b1 \<and> readInt64 le' b1 = Inr (y, b2) \<and>
           buffer_inv b2 \<and> content b2 = content b"
    using prepend_spec [OF inv, of "be_bytes y"] room readInt64_spec
    by (simp add: prepend_int_defs) blast
  show "\<exists>b1 b2. prependInt16 le b z = Inr b1 \<and> readInt16 le' b1 = Inr (z, b2) \<and>
           buffer_inv b2 \<and> content b2 = content b"
    using prepend_spec [OF inv, of "be_bytes z"] room readInt16_spec
    by (simp add: prepend_int_defs) blast
qed

theorem int_header_roundtrip_witness:
  "\<exists>b1 b2. prependInt32 True \<lparr>buf_data = replicate 8 0 @ [65, 66], readerIndex = 8, writerIndex = 10\<rparr> 2
             = Inr b1 \<and>
           readInt32 False b1 = Inr (2, b2) \<and> content b2 = [65, 66]"
proof -
  let ?b = "\<lparr>buf_data = replicate 8 0 @ [65, 66], readerIndex = 8, writerIndex = 10\<rparr> :: buffer"
  have "buffer_inv ?b" by (simp add: buffer_inv_def vec_max_size_val)
  moreover have "content ?b = [65, 66]" by code_simp
  ultimately show ?thesis
    using conjunct1 [OF int_header_roundtrip [of ?b True 2 False]] by auto
qed

text \<open>Line search: on a well-formed buffer \<open>findCRLF\<close> returns the position of the first
  CR LF of the readable bytes, and NULL exactly when they hold none; it reads only readable
  bytes.\<close>
theorem findCRLF_correct:
  assumes "buffer_inv b"
  shows "\<exists>r. findCRLF b = Inr r \<and>
    (case r of None \<Rightarrow> \<forall>j. take 2 (drop j (content b)) \<noteq> KCRLF
     | Some p \<Rightarrow> readerIndex b \<le> p \<and> p < writerIndex b \<and>
         first_at KCRLF (content b) (unat p - unat (readerIndex b)))"
proof (cases "std_search (content b) KCRLF < length (content b)")
  case True
  note d = buffer_invD [OF assms]
  let ?n = "std_search (content b) KCRLF"
  have eq: "unat (readerIndex b + word_of_nat ?n) = unat (readerIndex b) + ?n"
    using True d(2,5,8) by (simp add: size_simps unat_size_of_nat)
  have "first_at KCRLF (content b) ?n"
    using std_search_spec [of KCRLF "content b"] True by (simp add: KCRLF_def)
  with True d(8) show ?thesis
    by (simp add: findCRLF_spec [OF assms] size_simps eq)
next
  case False
  then have "\<forall>j. take (length KCRLF) (drop j (content b)) \<noteq> KCRLF"
    using std_search_spec [of KCRLF "content b"] by (auto simp: KCRLF_def split: if_splits)
  with False show ?thesis
    by (simp add: findCRLF_spec [OF assms] KCRLF_def numeral_2_eq_2)
qed

theorem findCRLF_correct_witness:
  "\<exists>p. findCRLF \<lparr>buf_data = replicate 8 0 @ [65, 13, 66, 13, 10], readerIndex = 8, writerIndex = 13\<rparr>
     = Inr (Some p) \<and> p = 11 \<and> first_at KCRLF [65, 13, 66, 13, 10] 3"
proof -
  let ?b = "\<lparr>buf_data = replicate 8 0 @ [65, 13, 66, 13, 10], readerIndex = 8, writerIndex = 13\<rparr> :: buffer"
  have "buffer_inv ?b" by (simp add: buffer_inv_def vec_max_size_val)
  then obtain r where r: "findCRLF ?b = Inr r"
    "case r of None \<Rightarrow> \<forall>j. take 2 (drop j (content ?b)) \<noteq> KCRLF
     | Some p \<Rightarrow> readerIndex ?b \<le> p \<and> p < writerIndex ?b \<and>
         first_at KCRLF (content ?b) (unat p - unat (readerIndex ?b))"
    using findCRLF_correct [of ?b] by blast
  have "findCRLF ?b = Inr (Some 11)" by code_simp
  moreover have "content ?b = [65, 13, 66, 13, 10]" by code_simp
  ultimately show ?thesis using r by auto
qed

text \<open>Reading from a descriptor: when \<open>readv\<close> delivers at most the room offered to it,
  \<open>readFd\<close> returns the number of bytes and appends exactly them to the content, through the
  spill buffer when they exceed the writable part; when \<open>readv\<close> fails the buffer is
  untouched and the \<open>errno\<close> is handed out.\<close>
theorem readFd_appends:
  assumes "buffer_inv b" and "length bs \<le> readv_room b"
    and "length (buf_data b) + extrabuf_size \<le> vec_max_size"
  shows "(\<exists>b'. readFd b (Io_bytes bs) = Inr (b', int (length bs), None) \<and> buffer_inv b' \<and>
              content b' = content b @ bs) \<and>
         readFd b (Io_failed err) = Inr (b, -1, Some err)"
  using readFd_spec [OF assms] by (simp add: readFd_def)

theorem readFd_appends_witness:
  "\<exists>b'. readFd \<lparr>buf_data = replicate 10 0, readerIndex = 8, writerIndex = 9\<rparr> (Io_bytes [7, 8, 9])
     = Inr (b', 3, None) \<and> content b' = [0, 7, 8, 9]"
proof -
  let ?b = "\<lparr>buf_data = replicate 10 0, readerIndex = 8, writerIndex = 9\<rparr> :: buffer"
  have "buffer_inv ?b" by (simp add: buffer_inv_def vec_max_size_val)
  moreover have "length [7 :: byte, 8, 9] \<le> readv_room ?b"
    by (simp add: readv_room_def extrabuf_size_def writableBytes_def vec_size_def)
  moreover have "content ?b = [0]" by (simp add: content_def)
  ultimately show ?thesis
    using readFd_appends [of ?b "[7, 8, 9]" 0] by (fastforce simp: extrabuf_size_def vec_max_size_val)
qed

text \<open>The wrap-around of \<open>size_t\<close> in \<open>makeSpace\<close>: for a request so large that
  \<open>writerIndex_ + len\<close> exceeds 2^64 (but \<open>len + kCheapPrepend\<close> does not),
  \<open>ensureWritableBytes\<close> passes its assertion and returns a vector shorter than
  \<open>writerIndex_\<close>, so the buffer is no longer well-formed and the bytes promised writable
  lie outside it.\<close>
theorem ensureWritableBytes_wraps:
  assumes inv: "buffer_inv b" and over: "2 ^ 64 \<le> unat (writerIndex b) + unat len"
    and len: "unat len + 8 < 2 ^ 64"
  shows "\<exists>b'. ensureWritableBytes b len = Inr b' \<and> \<not> buffer_inv b' \<and>
              length (buf_data b') < unat (writerIndex b') \<and> len \<le> writableBytes b'"
proof -
  note d = buffer_invD [OF inv]
  have w: "unat (writerIndex b) \<le> vec_max_size" using d(2,4) by linarith
  then have "2 ^ 63 < unat len" using over by (simp add: vec_max_size_val)
  then have big: "length (buf_data b) < unat len" "length (buf_data b) + 8 < unat len + 8"
    using d(4) by (simp_all add: vec_max_size_val)
  have sums: "unat (writableBytes b + prependableBytes b)
      = length (buf_data b) - unat (writerIndex b) + unat (readerIndex b)"
    "unat (len + kCheapPrepend) = unat len + 8"
    using d(1,2,4,7) len by (simp_all add: prependableBytes_def size_simps vec_max_size_val)
  have wrap: "unat (writerIndex b + len) = unat (writerIndex b) + unat len - 2 ^ 64"
    using over unat_size_lt [of "writerIndex b"] unat_size_lt [of len]
    by (simp add: unat_word_ariths mod_if)
  then have small: "unat (writerIndex b + len) < unat (writerIndex b)"
    using unat_size_lt [of len] over by linarith
  let ?xs = "take (unat (writerIndex b + len)) (buf_data b)"
  let ?b = "b\<lparr>buf_data := ?xs\<rparr>"
  have lx: "length ?xs = unat (writerIndex b + len)" using small d(2) by simp
  have "vec_size ?xs = writerIndex b + len"
    unfolding vec_size_def lx by (simp only: of_nat_unat ucast_id)
  then have "vec_size ?xs - writerIndex b = len" by simp
  then have wb: "writableBytes ?b = len" by (simp add: writableBytes_def)
  have "writableBytes b < len" "writableBytes b + prependableBytes b < len + kCheapPrepend"
    using big d(1,2,7) sums by (simp_all add: size_less_iff)
  then have "ensureWritableBytes b len = Inr ?b"
    using small w d(2) wb
    by (simp add: ensureWritableBytes_def makeSpace_def vec_resize_def)
  moreover have "length (buf_data ?b) < unat (writerIndex ?b)" using small lx by simp
  moreover have "\<not> buffer_inv ?b" using small lx by (simp add: buffer_inv_def)
  ultimately show ?thesis using wb by (intro exI [of _ ?b]) simp
qed

theorem ensureWritableBytes_wraps_witness:
  "\<exists>b'. ensureWritableBytes \<lparr>buf_data = replicate 100 0, readerIndex = 8, writerIndex = 100\<rparr>
      (- 9) = Inr b' \<and> length (buf_data b') < unat (writerIndex b')"
proof -
  let ?b = "\<lparr>buf_data = replicate 100 0, readerIndex = 8, writerIndex = 100\<rparr> :: buffer"
  have "buffer_inv ?b" by (simp add: buffer_inv_def vec_max_size_val)
  moreover have "unat (- 9 :: size_t) = 18446744073709551607" by simp
  ultimately show ?thesis
    using ensureWritableBytes_wraps [of ?b "- 9"] by fastforce
qed

end
