(* ===== verification/Channel.thy ===== *)
theory Channel
  imports Prelude
begin

text \<open>
  A descriptor watched by the event loop (\<open>Channel.h\<close>, \<open>Channel.cpp\<close>) and its registration
  with \<open>epoll\<close> (\<open>Epoll.h\<close>, \<open>Epoll.cpp\<close>). The interest set and the ready set are 32-bit words
  with the masks of \<open>epoll_ctl(2)\<close>. Every update of the interest set issues one call of
  \<open>epoll_ctl\<close>, which the operations return; \<open>kernel_ctl\<close> states what the manual page promises
  of that call, and the lemmas show that the calls of a channel are never refused.
\<close>

unbundle bit_operations_syntax

section \<open>Event masks\<close>

type_synonym events = "32 word"

abbreviation EPOLLIN :: events where "EPOLLIN \<equiv> 0x001"
abbreviation EPOLLPRI :: events where "EPOLLPRI \<equiv> 0x002"
abbreviation EPOLLOUT :: events where "EPOLLOUT \<equiv> 0x004"
abbreviation EPOLLERR :: events where "EPOLLERR \<equiv> 0x008"
abbreviation EPOLLHUP :: events where "EPOLLHUP \<equiv> 0x010"
abbreviation EPOLLRDHUP :: events where "EPOLLRDHUP \<equiv> 0x2000"

definition has :: "events \<Rightarrow> events \<Rightarrow> bool" where
  "has e m \<longleftrightarrow> e AND m \<noteq> 0"

section \<open>The channel and its registration\<close>

record channel =
  ch_polling :: bool
  ch_fd :: int
  ch_events :: events
  ch_revents :: events
  ch_tied :: bool
  ch_handling :: bool

definition channel_new :: "int \<Rightarrow> channel" where
  "channel_new fd =
     \<lparr>ch_polling = False, ch_fd = fd, ch_events = 0, ch_revents = 0, ch_tied = False,
      ch_handling = False\<rparr>"

definition isNoneEvent :: "channel \<Rightarrow> bool" where
  "isNoneEvent ch \<longleftrightarrow> ch_events ch = 0"

definition isReading :: "channel \<Rightarrow> bool" where
  "isReading ch \<longleftrightarrow> has (ch_events ch) EPOLLIN"

definition isWriting :: "channel \<Rightarrow> bool" where
  "isWriting ch \<longleftrightarrow> has (ch_events ch) EPOLLOUT"

datatype ctl_op = CTL_ADD | CTL_MOD | CTL_DEL

type_synonym ctl_call = "ctl_op \<times> int \<times> events"

text \<open>\<open>Epoll::updateChannel\<close>, both overloads: choose the operation, then issue the call. A
  failed call is only logged.\<close>

definition updateChannel :: "channel \<Rightarrow> (channel \<times> ctl_call) res" where
  "updateChannel ch =
     (if \<not> ch_polling ch
      then assertE (\<not> isNoneEvent ch) ''!channel->isNoneEvents()''
             (Inr (ch\<lparr>ch_polling := True\<rparr>, (CTL_ADD, ch_fd ch, ch_events ch)))
      else if \<not> isNoneEvent ch
      then Inr (ch, (CTL_MOD, ch_fd ch, ch_events ch))
      else Inr (ch\<lparr>ch_polling := False\<rparr>, (CTL_DEL, ch_fd ch, ch_events ch)))"

definition enableRead :: "channel \<Rightarrow> (channel \<times> ctl_call) res" where
  "enableRead ch = updateChannel (ch\<lparr>ch_events := ch_events ch OR (EPOLLIN OR EPOLLPRI)\<rparr>)"

definition enableWrite :: "channel \<Rightarrow> (channel \<times> ctl_call) res" where
  "enableWrite ch = updateChannel (ch\<lparr>ch_events := ch_events ch OR EPOLLOUT\<rparr>)"

definition disableRead :: "channel \<Rightarrow> (channel \<times> ctl_call) res" where
  "disableRead ch = updateChannel (ch\<lparr>ch_events := ch_events ch AND NOT EPOLLIN\<rparr>)"

definition disableWrite :: "channel \<Rightarrow> (channel \<times> ctl_call) res" where
  "disableWrite ch = updateChannel (ch\<lparr>ch_events := ch_events ch AND NOT EPOLLOUT\<rparr>)"

definition diableAll :: "channel \<Rightarrow> (channel \<times> ctl_call) res" where
  "diableAll ch = updateChannel (ch\<lparr>ch_events := 0\<rparr>)"

text \<open>\<open>EventLoop::removeChannel\<close>, and \<open>Channel::remove\<close>, which checks \<open>polling\<close> first.\<close>

definition removeChannel :: "channel \<Rightarrow> (channel \<times> ctl_call) res" where
  "removeChannel ch = diableAll ch"

definition channel_remove :: "channel \<Rightarrow> (channel \<times> ctl_call) res" where
  "channel_remove ch = assertE (ch_polling ch) ''polling'' (removeChannel ch)"

definition tie :: "channel \<Rightarrow> channel" where
  "tie ch = ch\<lparr>ch_tied := True\<rparr>"

definition set_revents :: "events \<Rightarrow> channel \<Rightarrow> channel" where
  "set_revents e ch = ch\<lparr>ch_revents := e\<rparr>"

lemma has_bit:
  "has e EPOLLIN = bit e 0" "has e EPOLLPRI = bit e 1" "has e EPOLLOUT = bit e 2"
  "has e EPOLLERR = bit e 3" "has e EPOLLHUP = bit e 4" "has e EPOLLRDHUP = bit e 13"
  using and_exp_eq_0_iff_not_bit [of e 0] and_exp_eq_0_iff_not_bit [of e 1]
    and_exp_eq_0_iff_not_bit [of e 2] and_exp_eq_0_iff_not_bit [of e 3]
    and_exp_eq_0_iff_not_bit [of e 4] and_exp_eq_0_iff_not_bit [of e 13]
  by (simp_all add: has_def)

lemma has_simps [simp]:
  "has (e OR 3) EPOLLIN" "has (e OR EPOLLOUT) EPOLLOUT"
  "\<not> has (e AND NOT EPOLLOUT) EPOLLOUT" "\<not> has (e AND NOT EPOLLIN) EPOLLIN"
  "has (e OR 3) EPOLLOUT = has e EPOLLOUT"
  "has (e AND NOT EPOLLIN) EPOLLOUT = has e EPOLLOUT"
  "has (e OR EPOLLOUT) EPOLLIN = has e EPOLLIN"
  "has (e AND NOT EPOLLOUT) EPOLLIN = has e EPOLLIN"
  "has (e OR 3) EPOLLPRI"
  "has (e OR EPOLLOUT) EPOLLPRI = has e EPOLLPRI"
  "has (e AND NOT EPOLLOUT) EPOLLPRI = has e EPOLLPRI"
  "has (e AND NOT EPOLLIN) EPOLLPRI = has e EPOLLPRI"
  by (simp_all add: has_bit bit_simps)

text \<open>The same for the masks as the simplifier writes them.\<close>

lemma has_simps_minus [simp]:
  "\<not> has (e AND - 5) EPOLLOUT" "\<not> has (e AND - 2) EPOLLIN"
  "has (e AND - 2) EPOLLOUT = has e EPOLLOUT" "has (e AND - 5) EPOLLIN = has e EPOLLIN"
  "has (e AND - 5) EPOLLPRI = has e EPOLLPRI" "has (e AND - 2) EPOLLPRI = has e EPOLLPRI"
proof -
  have n: "- 2 = NOT (1 :: events)" "- 5 = NOT (4 :: events)" by simp_all
  show "\<not> has (e AND - 5) EPOLLOUT" "\<not> has (e AND - 2) EPOLLIN"
    "has (e AND - 2) EPOLLOUT = has e EPOLLOUT" "has (e AND - 5) EPOLLIN = has e EPOLLIN"
    "has (e AND - 5) EPOLLPRI = has e EPOLLPRI" "has (e AND - 2) EPOLLPRI = has e EPOLLPRI"
    unfolding n by (rule has_simps)+
qed

lemma has_bits: "has e m \<longleftrightarrow> (\<exists>n. bit e n \<and> bit m n)"
proof
  assume h: "has e m"
  show "\<exists>n. bit e n \<and> bit m n"
  proof (rule ccontr)
    assume "\<not> (\<exists>n. bit e n \<and> bit m n)"
    then have "e AND m = 0" by (intro bit_word_eqI) (auto simp: bit_simps)
    with h show False by (simp add: has_def)
  qed
next
  assume "\<exists>n. bit e n \<and> bit m n"
  then obtain n where "bit (e AND m) n" by (auto simp: bit_simps)
  then show "has e m" by (auto simp: has_def)
qed

lemma has_or: "has e (m OR m') \<longleftrightarrow> has e m \<or> has e m'"
  by (auto simp: has_bits bit_simps)

lemma has_zero [simp]: "\<not> has 0 m"
  by (simp add: has_def)

lemma has_nonzero: "has e m \<Longrightarrow> e \<noteq> 0"
  by (auto simp: has_def)

section \<open>What the calls mean to the kernel\<close>

text \<open>
  The registration of one descriptor (its interest set, if it is in the epoll set at all) and
  the effect of a call: \<open>epoll_ctl(2)\<close> refuses to add a descriptor twice (\<open>EEXIST\<close>) and to
  change or delete one that is not there (\<open>ENOENT\<close>). The descriptor is taken to be open: a channel on -1
  (\<open>EBADF\<close>), which the code makes when a call that opens a descriptor fails, is not covered.
\<close>

fun kernel_ctl :: "ctl_call \<Rightarrow> events option \<Rightarrow> events option option" where
  "kernel_ctl (CTL_ADD, fd, e) None = Some (Some e)"
| "kernel_ctl (CTL_MOD, fd, e) (Some _) = Some (Some e)"
| "kernel_ctl (CTL_DEL, fd, e) (Some _) = Some None"
| "kernel_ctl _ _ = None"

fun kernel_replay :: "ctl_call list \<Rightarrow> events option \<Rightarrow> events option option" where
  "kernel_replay [] r = Some r"
| "kernel_replay (c # cs) r = Option.bind (kernel_ctl c r) (kernel_replay cs)"

text \<open>
  The contract between an object that owns a channel and the kernel: every operation returns
  the calls it made, and they take the kernel from the registration the object stands for to
  the one it stands for afterwards.
\<close>

locale poll_client =
  fixes good :: "'c \<Rightarrow> bool"
    and reg :: "'c \<Rightarrow> events option"
    and run_op :: "'op \<Rightarrow> 'c \<Rightarrow> ('c \<times> ctl_call list) res"
  assumes op_good: "good c \<Longrightarrow> run_op op c = Inr (c', cs) \<Longrightarrow> good c'"
    and op_sound: "good c \<Longrightarrow> run_op op c = Inr (c', cs) \<Longrightarrow> kernel_replay cs (reg c) = Some (reg c')"

fun run_ops ::
  "('op \<Rightarrow> 'c \<Rightarrow> ('c \<times> ctl_call list) res) \<Rightarrow> 'op list \<Rightarrow> 'c \<Rightarrow> ('c \<times> ctl_call list) res" where
  "run_ops run_op [] c = Inr (c, [])"
| "run_ops run_op (op # ops) c =
     bindE (run_op op c) (\<lambda>(c1, cs1). bindE (run_ops run_op ops c1) (\<lambda>(c2, cs2). Inr (c2, cs1 @ cs2)))"

lemma kernel_replay_append [simp]:
  "kernel_replay (cs @ cs') r = Option.bind (kernel_replay cs r) (kernel_replay cs')"
proof (induction cs arbitrary: r)
  case (Cons c cs)
  then show ?case by (cases "kernel_ctl c r") simp_all
qed simp

context poll_client
begin

lemma ops_sound:
  assumes "good c" "run_ops run_op ops c = Inr (c', cs)"
  shows "good c' \<and> kernel_replay cs (reg c) = Some (reg c')"
  using assms
proof (induction ops arbitrary: c cs)
  case Nil
  then show ?case by simp
next
  case (Cons op ops)
  obtain c1 cs1 cs2 where c1: "run_op op c = Inr (c1, cs1)" "run_ops run_op ops c1 = Inr (c', cs2)"
      "cs = cs1 @ cs2"
    using Cons.prems(2) by (auto simp: bindE_Inr_iff split: prod.splits)
  have "good c1" "kernel_replay cs1 (reg c) = Some (reg c1)"
    using op_good [OF Cons.prems(1) c1(1)] op_sound [OF Cons.prems(1) c1(1)] by simp_all
  with Cons.IH [OF _ c1(2)] c1(3) show ?case by simp
qed

end

text \<open>The operations of a channel.\<close>

datatype channel_request =
  Enable_read | Enable_write | Disable_read | Disable_write | Diable_all | Remove_channel
  | Channel_remove

definition one_call :: "(channel \<times> ctl_call) res \<Rightarrow> (channel \<times> ctl_call list) res" where
  "one_call r = bindE r (\<lambda>(ch, c). Inr (ch, [c]))"

fun channel_op :: "channel_request \<Rightarrow> channel \<Rightarrow> (channel \<times> ctl_call list) res" where
  "channel_op Enable_read ch = one_call (enableRead ch)"
| "channel_op Enable_write ch = one_call (enableWrite ch)"
| "channel_op Disable_read ch = one_call (disableRead ch)"
| "channel_op Disable_write ch = one_call (disableWrite ch)"
| "channel_op Diable_all ch = one_call (diableAll ch)"
| "channel_op Remove_channel ch = one_call (removeChannel ch)"
| "channel_op Channel_remove ch = one_call (channel_remove ch)"

definition ch_reg :: "channel \<Rightarrow> events option" where
  "ch_reg ch = (if ch_polling ch then Some (ch_events ch) else None)"

definition ch_inv :: "channel \<Rightarrow> bool" where
  "ch_inv ch \<longleftrightarrow> (ch_polling ch \<longleftrightarrow> ch_events ch \<noteq> 0)"

lemma updateChannel_sound:
  assumes "updateChannel (ch\<lparr>ch_events := e\<rparr>) = Inr (ch', c)"
  shows "ch' = ch\<lparr>ch_events := e, ch_polling := (e \<noteq> 0)\<rparr> \<and> kernel_ctl c (ch_reg ch) = Some (ch_reg ch')"
  using assms
  by (auto simp: updateChannel_def isNoneEvent_def ch_reg_def assertE_Inr_iff split: if_splits)

lemma updateChannel_fails:
  "updateChannel (ch\<lparr>ch_events := e\<rparr>) = Inl err \<longleftrightarrow>
     \<not> ch_polling ch \<and> e = 0 \<and> err = Assertion ''!channel->isNoneEvents()''"
  by (auto simp: updateChannel_def isNoneEvent_def assertE_Inl_iff)

lemma updateChannel_ok:
  "e \<noteq> 0 \<or> ch_polling ch \<Longrightarrow>
   \<exists>c. updateChannel (ch\<lparr>ch_events := e\<rparr>) = Inr (ch\<lparr>ch_events := e, ch_polling := (e \<noteq> 0)\<rparr>, c)"
  by (auto simp: updateChannel_def isNoneEvent_def)

lemmas channel_op_defs =
  enableRead_def enableWrite_def disableRead_def disableWrite_def diableAll_def removeChannel_def
  channel_remove_def

lemma channel_op_update:
  assumes "channel_op op ch = Inr (ch', cs)"
  shows "\<exists>e c. updateChannel (ch\<lparr>ch_events := e\<rparr>) = Inr (ch', c) \<and> cs = [c]"
  using assms
  by (cases op) (auto simp: one_call_def channel_op_defs bindE_Inr_iff assertE_Inr_iff split: prod.splits)

interpretation chan: poll_client ch_inv ch_reg channel_op
proof unfold_locales
  fix ch ch' op cs
  assume "ch_inv ch" "channel_op op ch = Inr (ch', cs)"
  then obtain e c where "updateChannel (ch\<lparr>ch_events := e\<rparr>) = Inr (ch', c)" "cs = [c]"
    using channel_op_update by blast
  with updateChannel_sound show "ch_inv ch'" "kernel_replay cs (ch_reg ch) = Some (ch_reg ch')"
    by (fastforce simp: ch_inv_def)+
qed

section \<open>Dispatch of ready events\<close>

text \<open>
  \<open>handleEvent\<close> of a channel that lives in an object of type \<open>'s\<close>: \<open>get\<close> and \<open>upd\<close> reach
  the channel, a callback is a function on the object that may fail, or is not set. \<open>alive\<close>
  tells whether the tied object still exists (\<open>tie_.lock()\<close>).
\<close>

record 's callbacks =
  cb_read :: "('s \<Rightarrow> 's res) option"
  cb_write :: "('s \<Rightarrow> 's res) option"
  cb_close :: "('s \<Rightarrow> 's res) option"
  cb_error :: "('s \<Rightarrow> 's res) option"

definition call_when :: "bool \<Rightarrow> ('s \<Rightarrow> 's res) option \<Rightarrow> 's \<Rightarrow> 's res" where
  "call_when b cb s = (if b then (case cb of Some f \<Rightarrow> f s | None \<Rightarrow> Inr s) else Inr s)"

definition handleEventWithGuard ::
  "('s \<Rightarrow> channel) \<Rightarrow> ((channel \<Rightarrow> channel) \<Rightarrow> 's \<Rightarrow> 's) \<Rightarrow> 's callbacks \<Rightarrow> 's \<Rightarrow> 's res" where
  "handleEventWithGuard get upd cbs s =
     (let rev = (\<lambda>s. ch_revents (get s)); s0 = upd (\<lambda>ch. ch\<lparr>ch_handling := True\<rparr>) s in
      bindE (call_when (has (rev s0) EPOLLHUP \<and> \<not> has (rev s0) EPOLLIN) (cb_close cbs) s0) (\<lambda>s1.
      bindE (call_when (has (rev s1) EPOLLERR) (cb_error cbs) s1) (\<lambda>s2.
      bindE (call_when (has (rev s2) (EPOLLIN OR EPOLLPRI OR EPOLLRDHUP)) (cb_read cbs) s2) (\<lambda>s3.
      bindE (call_when (has (rev s3) EPOLLOUT) (cb_write cbs) s3) (\<lambda>s4.
      Inr (upd (\<lambda>ch. ch\<lparr>ch_handling := False\<rparr>) s4))))))"

definition handleEvent ::
  "('s \<Rightarrow> channel) \<Rightarrow> ((channel \<Rightarrow> channel) \<Rightarrow> 's \<Rightarrow> 's) \<Rightarrow> bool \<Rightarrow> 's callbacks \<Rightarrow> 's \<Rightarrow> 's res" where
  "handleEvent get upd alive cbs s =
     (if ch_tied (get s)
      then (if alive then handleEventWithGuard get upd cbs s else Inr s)
      else handleEventWithGuard get upd cbs s)"

section \<open>Polling\<close>

text \<open>
  \<open>Epoll::poll\<close>: \<open>room\<close> is the size of \<open>events_\<close>, \<open>chans\<close> the channels by their address.
  \<open>epoll_wait\<close> answers with an error or with pairs of channel and ready set.
\<close>

datatype poll_result = Poll_failed | Poll_ready "(nat \<times> events) list"

definition epoll_new :: nat where
  "epoll_new = 128"

definition epoll_poll ::
  "nat \<Rightarrow> (nat \<Rightarrow> channel) \<Rightarrow> nat list \<Rightarrow> poll_result \<Rightarrow> nat \<times> (nat \<Rightarrow> channel) \<times> nat list" where
  "epoll_poll room chans active r =
     (case r of
        Poll_failed \<Rightarrow> (room, chans, active)
      | Poll_ready evs \<Rightarrow>
          (if 0 < length evs \<and> length evs = room then 2 * room else room,
           foldl (\<lambda>f (c, e). f(c := set_revents e (f c))) chans evs,
           active @ map fst evs))"

section \<open>Properties\<close>

text \<open>C26. The registration always matches the channel: whatever sequence of operations a
  channel goes through without a failed assertion, the kernel accepts every \<open>epoll_ctl\<close> call it
  made (never adding twice, never changing or deleting what is not there), and afterwards the
  descriptor is registered exactly when \<open>polling\<close>, with exactly the channel's interest set,
  which is then not empty.\<close>
theorem channel_registration:
  assumes "run_ops channel_op ops (channel_new fd) = Inr (ch, calls)"
  shows "kernel_replay calls None = Some (if ch_polling ch then Some (ch_events ch) else None) \<and>
         (ch_polling ch \<longleftrightarrow> ch_events ch \<noteq> 0)"
proof -
  have "ch_inv (channel_new fd)" "ch_reg (channel_new fd) = None"
    by (simp_all add: ch_inv_def ch_reg_def channel_new_def)
  with chan.ops_sound [OF _ assms] show ?thesis by (simp add: ch_reg_def ch_inv_def)
qed

theorem channel_registration_witness:
  "\<exists>ch calls. run_ops channel_op [Enable_read, Enable_write, Diable_all, Enable_read] (channel_new 5)
                = Inr (ch, calls) \<and> kernel_replay calls None = Some (Some 3)"
proof -
  let ?ops = "[Enable_read, Enable_write, Diable_all, Enable_read]"
  have "run_ops channel_op ?ops (channel_new 5) =
    Inr (\<lparr>ch_polling = True, ch_fd = 5, ch_events = 3, ch_revents = 0, ch_tied = False,
          ch_handling = False\<rparr>,
         [(CTL_ADD, 5, 3), (CTL_MOD, 5, 7), (CTL_DEL, 5, 0), (CTL_ADD, 5, 3)])"
    by (simp add: one_call_def channel_op_defs updateChannel_def isNoneEvent_def channel_new_def)
  from channel_registration [OF this] this show ?thesis by auto
qed

text \<open>What a channel refuses: an operation never fails while the channel is registered;
  removing or disabling everything on a channel that is not registered (twice in a row, or
  never enabled) always aborts the process, and \<open>enableRead\<close> and \<open>enableWrite\<close> always
  succeed.\<close>
theorem channel_failures:
  "(ch_polling ch \<longrightarrow> (\<exists>r. channel_op op ch = Inr r)) \<and>
   (\<not> ch_polling ch \<longrightarrow> (\<exists>w. channel_op Diable_all ch = Inl (Assertion w)) \<and>
      (\<exists>w. channel_op Remove_channel ch = Inl (Assertion w)) \<and>
      (\<exists>w. channel_op Channel_remove ch = Inl (Assertion w))) \<and>
   (\<exists>r. channel_op Enable_read ch = Inr r) \<and> (\<exists>r. channel_op Enable_write ch = Inr r)"
proof (intro conjI impI)
  assume p: "ch_polling ch"
  have "\<exists>r. updateChannel (ch\<lparr>ch_events := e\<rparr>) = Inr r" for e
    using updateChannel_ok p by blast
  then have "\<exists>r. one_call (updateChannel (ch\<lparr>ch_events := e\<rparr>)) = Inr r" for e
    by (metis (no_types, lifting) bindE_simps(2) case_prod_conv one_call_def surj_pair)
  then show "\<exists>r. channel_op op ch = Inr r"
    using p by (cases op) (simp_all add: channel_op_defs)
next
  assume "\<not> ch_polling ch"
  then show "\<exists>w. channel_op Diable_all ch = Inl (Assertion w)"
      "\<exists>w. channel_op Remove_channel ch = Inl (Assertion w)"
      "\<exists>w. channel_op Channel_remove ch = Inl (Assertion w)"
    by (simp_all add: one_call_def channel_op_defs updateChannel_def isNoneEvent_def)
next
  have e: "\<exists>r. one_call (updateChannel (ch\<lparr>ch_events := e\<rparr>)) = Inr r" if "e \<noteq> 0" for e
    using updateChannel_ok [of e ch] that by (auto simp: one_call_def)
  have "ch_events ch OR 3 \<noteq> 0" "ch_events ch OR 4 \<noteq> 0"
    by (rule has_nonzero, rule has_simps)+
  then show "\<exists>r. channel_op Enable_read ch = Inr r" "\<exists>r. channel_op Enable_write ch = Inr r"
    using e by (simp_all add: channel_op_defs)
qed

theorem channel_failures_witness:
  "\<exists>w. channel_op Diable_all (channel_new 5) = Inl (Assertion w)"
  using channel_failures [of "channel_new 5" Diable_all] by (simp add: channel_new_def)

text \<open>\<open>disableRead\<close> does not stop reading: it clears \<open>EPOLLIN\<close> but leaves \<open>EPOLLPRI\<close>,
  which \<open>enableRead\<close> set, so the descriptor stays registered and an urgent byte still makes
  \<open>handleEvent\<close> call the read callback.\<close>
theorem disableRead_keeps_urgent:
  "\<exists>ch c1 c2. enableRead (channel_new fd) = Inr (ch, c1) \<and>
     disableRead ch = Inr (ch\<lparr>ch_events := EPOLLPRI\<rparr>, c2) \<and> ch_polling ch \<and>
     \<not> isReading (ch\<lparr>ch_events := EPOLLPRI\<rparr>) \<and>
     handleEvent id id True \<lparr>cb_read = Some (\<lambda>_. Inl (Exception ''read called'')), cb_write = None,
         cb_close = None, cb_error = None\<rparr> (set_revents EPOLLPRI (ch\<lparr>ch_events := EPOLLPRI\<rparr>))
       = Inl (Exception ''read called'')"
  by (simp add: channel_op_defs updateChannel_def isNoneEvent_def channel_new_def isReading_def
      handleEvent_def handleEventWithGuard_def set_revents_def call_when_def has_def Let_def)

end
