(* ===== verification/Tcp_Connection.thy ===== *)
theory Tcp_Connection
  imports Buffer Channel
begin

text \<open>
  A connection of the server: \<open>TcpConnection.h\<close> and \<open>TcpConnection.cpp\<close>. One definition per
  member function, on the connection's state, its channel and its two buffers; everything a
  function leaves to the loop with \<open>queueInLoop\<close> or \<open>runInLoop\<close> goes to \<open>tc_tasks\<close>, and
  \<open>in_loop\<close> tells whether the caller is the loop thread. What the kernel does is a parameter
  \<open>net\<close>. The lemmas show that no byte accepted by \<open>send\<close> is lost, duplicated or reordered, that
  the connection closes exactly once and only after what it accepted was written, and that no
  assertion fails as long as a closed connection is left alone.
\<close>

unbundle bit_operations_syntax

section \<open>State\<close>

datatype conn_state = kConnecting | kConnected | kDisconnecting | kDisconnected

text \<open>The values of the enumeration, by which the code compares states.\<close>

fun conn_state_num :: "conn_state \<Rightarrow> nat" where
  "conn_state_num kConnecting = 0"
| "conn_state_num kConnected = 1"
| "conn_state_num kDisconnecting = 2"
| "conn_state_num kDisconnected = 3"

instantiation conn_state :: linorder
begin

definition less_eq_conn_state :: "conn_state \<Rightarrow> conn_state \<Rightarrow> bool" where
  "less_eq_conn_state a b \<longleftrightarrow> conn_state_num a \<le> conn_state_num b"

definition less_conn_state :: "conn_state \<Rightarrow> conn_state \<Rightarrow> bool" where
  "less_conn_state a b \<longleftrightarrow> conn_state_num a < conn_state_num b"

instance
proof
  fix a b :: conn_state
  show "a \<le> b \<Longrightarrow> b \<le> a \<Longrightarrow> a = b"
    by (cases a; cases b) (simp_all add: less_eq_conn_state_def)
qed (auto simp: less_eq_conn_state_def less_conn_state_def)

end

text \<open>The tasks a connection leaves in the loop.\<close>

datatype conn_task =
    Send_in_loop "byte list"
  | Shutdown_in_loop
  | Force_close_in_loop
  | Stop_read_in_loop
  | Start_read_in_loop
  | Write_complete
  | High_water size_t

text \<open>
  Behind the program's fields (\<open>tc_wcb\<close> and \<open>tc_hcb\<close>: whether the write-complete and the
  high-water callback are set) come records of what happened: the \<open>epoll_ctl\<close> calls, the
  number of \<open>write\<close> and \<open>readv\<close> calls, the bytes sent, accepted by \<open>sendInLoop\<close>, received and
  consumed, whether \<open>SHUT_WR\<close> was issued and how often the close callback was called.
\<close>

record tcp_conn =
  tc_state :: conn_state
  tc_channel :: channel
  tc_in :: buffer
  tc_out :: buffer
  tc_mark :: size_t
  tc_wcb :: bool
  tc_hcb :: bool
  tc_tasks :: "conn_task list"
  tc_ctl :: "ctl_call list"
  tc_calls :: nat
  tc_sent :: "byte list"
  tc_accepted :: "byte list"
  tc_received :: "byte list"
  tc_consumed :: "byte list"
  tc_shut :: bool
  tc_closed :: nat

section \<open>The kernel\<close>

text \<open>The answer of the \<open>k\<close>-th system call to an offer of so many bytes, or of so much room.\<close>

datatype errno = EAGAIN | EPIPE | ECONNRESET | Other_errno

datatype write_result = Written nat | Write_failed errno

record net =
  net_write :: "nat \<Rightarrow> nat \<Rightarrow> write_result"
  net_read :: "nat \<Rightarrow> nat \<Rightarrow> io_result"

definition net_ok :: "net \<Rightarrow> bool" where
  "net_ok net \<longleftrightarrow>
     (\<forall>k n m. net_write net k n = Written m \<longrightarrow> m \<le> n) \<and>
     (\<forall>k n bs. net_read net k n = Io_bytes bs \<longrightarrow> length bs \<le> n)"

section \<open>Operations\<close>

definition conn_new :: "int \<Rightarrow> bool \<Rightarrow> bool \<Rightarrow> size_t \<Rightarrow> tcp_conn res" where
  "conn_new sockfd wcb hcb mark =
     bindE (buffer_new kInitialSize) (\<lambda>i.
     bindE (buffer_new kInitialSize) (\<lambda>out.
       Inr \<lparr>tc_state = kConnecting, tc_channel = channel_new sockfd, tc_in = i, tc_out = out,
            tc_mark = mark, tc_wcb = wcb, tc_hcb = hcb, tc_tasks = [], tc_ctl = [], tc_calls = 0,
            tc_sent = [], tc_accepted = [], tc_received = [], tc_consumed = [], tc_shut = False,
            tc_closed = 0\<rparr>))"

definition on_channel :: "(channel \<Rightarrow> (channel \<times> ctl_call) res) \<Rightarrow> tcp_conn \<Rightarrow> tcp_conn res" where
  "on_channel f c =
     bindE (f (tc_channel c)) (\<lambda>(ch, call). Inr (c\<lparr>tc_channel := ch, tc_ctl := tc_ctl c @ [call]\<rparr>))"

definition queue_task :: "conn_task \<Rightarrow> tcp_conn \<Rightarrow> tcp_conn" where
  "queue_task t c = c\<lparr>tc_tasks := tc_tasks c @ [t]\<rparr>"

definition connectEstablished :: "tcp_conn \<Rightarrow> tcp_conn res" where
  "connectEstablished c =
     assertE (tc_state c = kConnecting) ''state_ == kConnecting''
       (on_channel enableRead (c\<lparr>tc_state := kConnected, tc_channel := tie (tc_channel c)\<rparr>))"

text \<open>\<open>::write\<close> on the socket; once \<open>SHUT_WR\<close> was issued it fails with \<open>EPIPE\<close>.\<close>

definition sock_write :: "net \<Rightarrow> byte list \<Rightarrow> tcp_conn \<Rightarrow> write_result \<times> tcp_conn" where
  "sock_write net d c =
     (let r = (if tc_shut c then Write_failed EPIPE else net_write net (tc_calls c) (length d));
          c1 = c\<lparr>tc_calls := tc_calls c + 1\<rparr>
      in case r of
           Written n \<Rightarrow> (r, c1\<lparr>tc_sent := tc_sent c @ take n d\<rparr>)
         | Write_failed _ \<Rightarrow> (r, c1))"

text \<open>The direct write of \<open>sendInLoop\<close>: bytes written, \<open>faultError\<close> and the connection.\<close>

definition direct_write :: "net \<Rightarrow> byte list \<Rightarrow> tcp_conn \<Rightarrow> (nat \<times> bool \<times> tcp_conn) res" where
  "direct_write net d c =
     (if \<not> isWriting (tc_channel c)
      then assertE (readableBytes (tc_out c) = 0) ''outputBuffer_.readableBytes() == 0''
        (case sock_write net d c of
           (Write_failed e, c1) \<Rightarrow> Inr (0, e = EPIPE \<or> e = ECONNRESET, c1)
         | (Written n, c1) \<Rightarrow>
             Inr (n, False, if vec_size (drop n d) = 0 \<and> tc_wcb c1 then queue_task Write_complete c1 else c1))
      else Inr (0, False, c))"

definition sendInLoop :: "net \<Rightarrow> byte list \<Rightarrow> tcp_conn \<Rightarrow> tcp_conn res" where
  "sendInLoop net d c =
     (if tc_state c = kDisconnected then Inr c
      else bindE (direct_write net d c) (\<lambda>(n, faultError, c1).
        let rest = drop n d; remain = vec_size rest in
        if \<not> faultError \<and> remain > 0
        then
          let oldLen = readableBytes (tc_out c1); newLen = oldLen + remain;
              c2 = (if tc_hcb c1 \<and> oldLen < tc_mark c1 \<and> tc_mark c1 \<le> newLen
                    then queue_task (High_water newLen) c1 else c1) in
          bindE (buffer_append (tc_out c2) rest) (\<lambda>b.
            on_channel enableWrite (c2\<lparr>tc_out := b, tc_accepted := tc_accepted c2 @ d\<rparr>))
        else Inr (if faultError then c1 else c1\<lparr>tc_accepted := tc_accepted c1 @ d\<rparr>)))"

definition conn_send :: "net \<Rightarrow> bool \<Rightarrow> byte list \<Rightarrow> tcp_conn \<Rightarrow> tcp_conn res" where
  "conn_send net in_loop d c =
     (if tc_state c \<noteq> kConnected then Inr c
      else if in_loop then sendInLoop net d c else Inr (queue_task (Send_in_loop d) c))"

definition conn_send_buffer :: "net \<Rightarrow> bool \<Rightarrow> buffer \<Rightarrow> tcp_conn \<Rightarrow> (buffer \<times> tcp_conn) res" where
  "conn_send_buffer net in_loop b c =
     (if tc_state c \<noteq> kConnected then Inr (b, c)
      else if in_loop
      then bindE (mem_read (buf_data b) (unat (peek b)) (unat (readableBytes b))) (\<lambda>d.
           bindE (sendInLoop net d c) (\<lambda>c1. Inr (retrieveAll b, c1)))
      else bindE (retrieveAllAsString b) (\<lambda>(d, b1). Inr (b1, queue_task (Send_in_loop d) c)))"

text \<open>\<open>::shutdown\<close> fails only on a socket that is not connected any more, where a \<open>write\<close> fails with
  \<open>EPIPE\<close> as after a \<open>SHUT_WR\<close>; the failure is logged and has no effect of its own.\<close>

definition shutdownInLoop :: "tcp_conn \<Rightarrow> tcp_conn" where
  "shutdownInLoop c =
     (if tc_state c \<noteq> kDisconnected \<and> \<not> isWriting (tc_channel c) then c\<lparr>tc_shut := True\<rparr> else c)"

text \<open>\<open>stateAtomicGetAndSet\<close> returns the old state.\<close>

definition stateAtomicGetAndSet :: "conn_state \<Rightarrow> tcp_conn \<Rightarrow> conn_state \<times> tcp_conn" where
  "stateAtomicGetAndSet s c = (tc_state c, c\<lparr>tc_state := s\<rparr>)"

text \<open>
  \<open>shutdown\<close> and \<open>forceClose\<close> test the state and then exchange it: two steps, between which, if the
  caller is not the loop thread, the loop thread may run. The second halves:
\<close>

definition shutdown_exchange :: "bool \<Rightarrow> tcp_conn \<Rightarrow> tcp_conn" where
  "shutdown_exchange in_loop c =
     (case stateAtomicGetAndSet kDisconnecting c of (old, c1) \<Rightarrow>
        if old = kConnected
        then (if in_loop then shutdownInLoop c1 else queue_task Shutdown_in_loop c1)
        else c1)"

definition forceClose_exchange :: "tcp_conn \<Rightarrow> tcp_conn" where
  "forceClose_exchange c =
     (case stateAtomicGetAndSet kDisconnecting c of (old, c1) \<Rightarrow>
        if old \<noteq> kDisconnected then queue_task Force_close_in_loop c1 else c1)"

definition conn_shutdown :: "bool \<Rightarrow> tcp_conn \<Rightarrow> tcp_conn res" where
  "conn_shutdown in_loop c =
     assertE (tc_state c \<le> kDisconnecting) ''state_ <= kDisconnecting'' (Inr (shutdown_exchange in_loop c))"

definition conn_forceClose :: "tcp_conn \<Rightarrow> tcp_conn" where
  "conn_forceClose c = (if tc_state c \<noteq> kDisconnected then forceClose_exchange c else c)"

lemmas closing_defs =
  conn_shutdown_def conn_forceClose_def shutdown_exchange_def forceClose_exchange_def stateAtomicGetAndSet_def

definition handleClose :: "tcp_conn \<Rightarrow> tcp_conn res" where
  "handleClose c =
     assertE (tc_state c = kConnected \<or> tc_state c = kDisconnecting)
       ''state_ == kConnected || state_ == kDisconnecting''
       (bindE (on_channel removeChannel (c\<lparr>tc_state := kDisconnected\<rparr>)) (\<lambda>c1.
          Inr (c1\<lparr>tc_closed := tc_closed c1 + 1\<rparr>)))"

definition forceCloseInLoop :: "tcp_conn \<Rightarrow> tcp_conn res" where
  "forceCloseInLoop c = (if tc_state c \<noteq> kDisconnected then handleClose c else Inr c)"

definition stopReadInLoop :: "tcp_conn \<Rightarrow> tcp_conn res" where
  "stopReadInLoop c = (if isReading (tc_channel c) then on_channel disableRead c else Inr c)"

definition startReadInLoop :: "tcp_conn \<Rightarrow> tcp_conn res" where
  "startReadInLoop c = (if \<not> isReading (tc_channel c) then on_channel enableRead c else Inr c)"

text \<open>\<open>handleError\<close> only asks for the error and logs it.\<close>

definition handleError :: "tcp_conn \<Rightarrow> tcp_conn res" where
  "handleError c = Inr c"

definition handleRead :: "net \<Rightarrow> (tcp_conn \<Rightarrow> tcp_conn res) \<Rightarrow> tcp_conn \<Rightarrow> tcp_conn res" where
  "handleRead net messageCallback c =
     assertE (tc_state c \<noteq> kDisconnected) ''state_ != kDisconnected''
       (let r = net_read net (tc_calls c) (readv_room (tc_in c)) in
        bindE (readFd (tc_in c) r) (\<lambda>(b, n, _).
        let c1 = c\<lparr>tc_in := b, tc_calls := tc_calls c + 1,
                   tc_received := tc_received c @ (case r of Io_bytes bs \<Rightarrow> bs | Io_failed _ \<Rightarrow> [])\<rparr> in
        if n = -1 then handleError c1
        else if n = 0 then handleClose c1
        else messageCallback c1))"

definition handleWrite :: "net \<Rightarrow> tcp_conn \<Rightarrow> tcp_conn res" where
  "handleWrite net c =
     (if tc_state c = kDisconnected then Inr c
      else assertE (readableBytes (tc_out c) > 0) ''outputBuffer_.readableBytes() > 0'' (
           assertE (isWriting (tc_channel c)) ''channel_.isWriting()'' (
           bindE (mem_read (buf_data (tc_out c)) (unat (peek (tc_out c))) (unat (readableBytes (tc_out c)))) (\<lambda>d.
           case sock_write net d c of
             (Write_failed _, c1) \<Rightarrow> Inr c1
           | (Written n, c1) \<Rightarrow>
               bindE (retrieve (tc_out c1) (word_of_nat n)) (\<lambda>b.
               let c2 = c1\<lparr>tc_out := b\<rparr> in
               if readableBytes b = 0
               then bindE (on_channel disableWrite c2) (\<lambda>c3.
                      let c4 = (if tc_state c3 = kDisconnecting then shutdownInLoop c3 else c3)
                      in Inr (if tc_wcb c4 then queue_task Write_complete c4 else c4))
               else Inr c2)))))"

text \<open>The destructor.\<close>

definition conn_dtor :: "tcp_conn \<Rightarrow> unit res" where
  "conn_dtor c =
     assertE (tc_state c = kDisconnected) ''state_ == kDisconnected''
       (assertE (\<not> ch_handling (tc_channel c)) ''!handlingEvents_'' (Inr ()))"

section \<open>Events\<close>

text \<open>What a callback of the user does to the connection, in the loop thread; it consumes at
  most what is readable.\<close>

datatype user_op =
    U_send "byte list"
  | U_shutdown
  | U_force_close
  | U_stop_read
  | U_start_read
  | U_consume nat

definition conn_consume :: "nat \<Rightarrow> tcp_conn \<Rightarrow> tcp_conn res" where
  "conn_consume k c =
     bindE (retrieveAsString (tc_in c) (word_of_nat (min k (unat (readableBytes (tc_in c)))))) (\<lambda>(d, b).
       Inr (c\<lparr>tc_in := b, tc_consumed := tc_consumed c @ d\<rparr>))"

fun user_do :: "net \<Rightarrow> user_op \<Rightarrow> tcp_conn \<Rightarrow> tcp_conn res" where
  "user_do net (U_send d) c = conn_send net True d c"
| "user_do net U_shutdown c = conn_shutdown True c"
| "user_do net U_force_close c = Inr (conn_forceClose c)"
| "user_do net U_stop_read c = stopReadInLoop c"
| "user_do net U_start_read c = startReadInLoop c"
| "user_do net (U_consume k) c = conn_consume k c"

fun user_dos :: "net \<Rightarrow> user_op list \<Rightarrow> tcp_conn \<Rightarrow> tcp_conn res" where
  "user_dos net [] c = Inr c"
| "user_dos net (op # ops) c = bindE (user_do net op c) (user_dos net ops)"

text \<open>The callbacks the constructor sets, with the message callback doing \<open>ops\<close>.\<close>

definition conn_callbacks :: "net \<Rightarrow> user_op list \<Rightarrow> tcp_conn callbacks" where
  "conn_callbacks net ops =
     \<lparr>cb_read = Some (handleRead net (user_dos net ops)), cb_write = Some (handleWrite net),
      cb_close = Some handleClose, cb_error = Some handleError\<rparr>"

definition upd_channel :: "(channel \<Rightarrow> channel) \<Rightarrow> tcp_conn \<Rightarrow> tcp_conn" where
  "upd_channel f c = c\<lparr>tc_channel := f (tc_channel c)\<rparr>"

definition conn_ready :: "net \<Rightarrow> events \<Rightarrow> user_op list \<Rightarrow> tcp_conn \<Rightarrow> tcp_conn res" where
  "conn_ready net rv ops c =
     handleEvent tc_channel upd_channel True (conn_callbacks net ops) (upd_channel (set_revents rv) c)"

text \<open>Calls from another thread.\<close>

datatype remote_op = R_send "byte list" | R_shutdown | R_force_close | R_stop_read | R_start_read

fun remote_do :: "net \<Rightarrow> remote_op \<Rightarrow> tcp_conn \<Rightarrow> tcp_conn res" where
  "remote_do net (R_send d) c = conn_send net False d c"
| "remote_do net R_shutdown c = conn_shutdown False c"
| "remote_do net R_force_close c = Inr (conn_forceClose c)"
| "remote_do net R_stop_read c = Inr (queue_task Stop_read_in_loop c)"
| "remote_do net R_start_read c = Inr (queue_task Start_read_in_loop c)"

text \<open>Running a task; the write-complete and high-water callbacks belong to the user, whose
  calls are events of their own.\<close>

fun run_task :: "net \<Rightarrow> conn_task \<Rightarrow> tcp_conn \<Rightarrow> tcp_conn res" where
  "run_task net (Send_in_loop d) c = sendInLoop net d c"
| "run_task net Shutdown_in_loop c = Inr (shutdownInLoop c)"
| "run_task net Force_close_in_loop c = forceCloseInLoop c"
| "run_task net Stop_read_in_loop c = stopReadInLoop c"
| "run_task net Start_read_in_loop c = startReadInLoop c"
| "run_task net Write_complete c = Inr c"
| "run_task net (High_water n) c = Inr c"

datatype conn_event =
    Ev_ready events "user_op list"
  | Ev_user user_op
  | Ev_remote remote_op
  | Ev_task

fun conn_step :: "net \<Rightarrow> conn_event \<Rightarrow> tcp_conn \<Rightarrow> tcp_conn res" where
  "conn_step net (Ev_ready rv ops) c = conn_ready net rv ops c"
| "conn_step net (Ev_user op) c = user_do net op c"
| "conn_step net (Ev_remote op) c = remote_do net op c"
| "conn_step net Ev_task c =
     (case tc_tasks c of [] \<Rightarrow> Inr c | t # ts \<Rightarrow> run_task net t (c\<lparr>tc_tasks := ts\<rparr>))"

fun conn_run :: "net \<Rightarrow> conn_event list \<Rightarrow> tcp_conn \<Rightarrow> tcp_conn res" where
  "conn_run net [] c = Inr c"
| "conn_run net (ev # evs) c = bindE (conn_step net ev c) (conn_run net evs)"

text \<open>
  The events the properties allow. The kernel reports only a registered descriptor, \<open>EPOLLOUT\<close>
  only when asked for, and does not report a hang-up without input together with urgent data.
  The users leave a closed connection alone: no \<open>shutdown\<close> of it and no \<open>startRead\<close>, not even by a
  task that \<open>startRead\<close> left when the connection was open. A call of \<open>shutdown\<close> or \<open>forceClose\<close> counts
  as made when it exchanges the state, and that exchange does not find closed what the test before
  it found open: \<open>exchange_is_call\<close>. What happens otherwise is said by \<open>closed_connection_aborts\<close> and
  \<open>shutdown_races_close\<close>.
\<close>

fun user_ok :: "user_op \<Rightarrow> bool" where
  "user_ok (U_send d) = (length d < 2 ^ 63)"
| "user_ok _ = True"

fun ev_ok :: "conn_event \<Rightarrow> tcp_conn \<Rightarrow> bool" where
  "ev_ok (Ev_ready rv ops) c =
     (ch_polling (tc_channel c) \<and> (has rv EPOLLOUT \<longrightarrow> isWriting (tc_channel c)) \<and>
      \<not> (has rv EPOLLHUP \<and> \<not> has rv EPOLLIN \<and> has rv (EPOLLPRI OR EPOLLRDHUP)) \<and>
      list_all user_ok ops)"
| "ev_ok (Ev_user op) c =
     (user_ok op \<and> (op = U_shutdown \<or> op = U_start_read \<longrightarrow> tc_state c \<noteq> kDisconnected))"
| "ev_ok (Ev_remote op) c =
     ((case op of R_send d \<Rightarrow> length d < 2 ^ 63 | _ \<Rightarrow> True) \<and>
      (op = R_shutdown \<longrightarrow> tc_state c \<noteq> kDisconnected))"
| "ev_ok Ev_task c =
     (tc_tasks c \<noteq> [] \<and> hd (tc_tasks c) = Start_read_in_loop \<longrightarrow> tc_state c \<noteq> kDisconnected)"

text \<open>The connections that \<open>TcpServerSingle::newConnection\<close> hands out.\<close>

definition conn_up :: "int \<Rightarrow> bool \<Rightarrow> bool \<Rightarrow> size_t \<Rightarrow> tcp_conn res" where
  "conn_up sockfd wcb hcb mark = bindE (conn_new sockfd wcb hcb mark) connectEstablished"

definition conn_reach :: "net \<Rightarrow> tcp_conn \<Rightarrow> tcp_conn res \<Rightarrow> bool" where
  "conn_reach net = reach (\<lambda>c r. \<exists>ev. ev_ok ev c \<and> r = conn_step net ev c)"

section \<open>Invariant\<close>

definition open_ok :: "tcp_conn \<Rightarrow> bool" where
  "open_ok c \<longleftrightarrow>
     (if tc_state c = kDisconnected
      then \<not> ch_polling (tc_channel c) \<and> ch_events (tc_channel c) = 0 \<and> tc_closed c = 1
      else ch_polling (tc_channel c) \<and> has (ch_events (tc_channel c)) EPOLLPRI \<and> tc_closed c = 0 \<and>
           (isWriting (tc_channel c) \<longleftrightarrow> content (tc_out c) \<noteq> []))"

definition bytes_ok :: "tcp_conn \<Rightarrow> bool" where
  "bytes_ok c \<longleftrightarrow>
     buffer_inv (tc_in c) \<and> buffer_inv (tc_out c) \<and>
     tc_sent c @ content (tc_out c) = tc_accepted c \<and> tc_consumed c @ content (tc_in c) = tc_received c"

definition shut_ok :: "tcp_conn \<Rightarrow> bool" where
  "shut_ok c \<longleftrightarrow>
     (tc_shut c \<longrightarrow> content (tc_out c) = [] \<and> kDisconnecting \<le> tc_state c) \<and>
     (Shutdown_in_loop \<in> set (tc_tasks c) \<longrightarrow> kDisconnecting \<le> tc_state c)"

definition task_ok :: "conn_task \<Rightarrow> bool" where
  "task_ok t = (case t of Send_in_loop d \<Rightarrow> length d < 2 ^ 63 | _ \<Rightarrow> True)"

definition conn_inv :: "tcp_conn \<Rightarrow> bool" where
  "conn_inv c \<longleftrightarrow>
     tc_state c \<noteq> kConnecting \<and> open_ok c \<and> bytes_ok c \<and> shut_ok c \<and> list_all task_ok (tc_tasks c) \<and>
     kernel_replay (tc_ctl c) None = Some (ch_reg (tc_channel c))"

lemmas inv_defs = conn_inv_def open_ok_def bytes_ok_def shut_ok_def

lemma state_order [simp]:
  "kDisconnecting \<le> s \<longleftrightarrow> s = kDisconnecting \<or> s = kDisconnected"
  "s \<le> kDisconnecting \<longleftrightarrow> s \<noteq> kDisconnected"
  by (cases s; simp add: less_eq_conn_state_def)+

lemma readable_zero: "buffer_inv b \<Longrightarrow> readableBytes b = 0 \<longleftrightarrow> content b = []"
  using buffer_invD(6) [of b] by (metis length_0_conv unat_eq_zero)

lemma readable_pos: "buffer_inv b \<Longrightarrow> 0 < readableBytes b \<longleftrightarrow> content b \<noteq> []"
  using readable_zero [of b] by (metis word_gt_0)

text \<open>An operation on a registered channel.\<close>

definition set_events :: "events \<Rightarrow> ctl_call \<Rightarrow> tcp_conn \<Rightarrow> tcp_conn" where
  "set_events e call c =
     c\<lparr>tc_channel := (tc_channel c)\<lparr>ch_events := e, ch_polling := (e \<noteq> 0)\<rparr>, tc_ctl := tc_ctl c @ [call]\<rparr>"

lemma set_events_simps [simp]:
  "tc_state (set_events e x c) = tc_state c" "tc_in (set_events e x c) = tc_in c"
  "tc_out (set_events e x c) = tc_out c" "tc_mark (set_events e x c) = tc_mark c"
  "tc_wcb (set_events e x c) = tc_wcb c" "tc_hcb (set_events e x c) = tc_hcb c"
  "tc_tasks (set_events e x c) = tc_tasks c" "tc_calls (set_events e x c) = tc_calls c"
  "tc_sent (set_events e x c) = tc_sent c" "tc_accepted (set_events e x c) = tc_accepted c"
  "tc_received (set_events e x c) = tc_received c" "tc_consumed (set_events e x c) = tc_consumed c"
  "tc_shut (set_events e x c) = tc_shut c" "tc_closed (set_events e x c) = tc_closed c"
  "ch_events (tc_channel (set_events e x c)) = e" "ch_polling (tc_channel (set_events e x c)) = (e \<noteq> 0)"
  "ch_revents (tc_channel (set_events e x c)) = ch_revents (tc_channel c)"
  by (simp_all add: set_events_def)

lemma on_channel_spec:
  assumes "f (tc_channel c) = updateChannel ((tc_channel c)\<lparr>ch_events := e\<rparr>)"
    and "ch_polling (tc_channel c)" and "kernel_replay (tc_ctl c) None = Some (ch_reg (tc_channel c))"
  shows "\<exists>x. on_channel f c = Inr (set_events e x c) \<and>
     kernel_replay (tc_ctl (set_events e x c)) None = Some (ch_reg (tc_channel (set_events e x c)))"
proof -
  let ?ch = "tc_channel c"
  obtain x where x: "updateChannel (?ch\<lparr>ch_events := e\<rparr>) =
      Inr (?ch\<lparr>ch_events := e, ch_polling := (e \<noteq> 0)\<rparr>, x)"
    using updateChannel_ok assms(2) by blast
  have "kernel_ctl x (ch_reg ?ch) = Some (ch_reg (?ch\<lparr>ch_events := e, ch_polling := (e \<noteq> 0)\<rparr>))"
    using updateChannel_sound [OF x] by blast
  with assms x show ?thesis
    by (intro exI [of _ x]) (simp add: on_channel_def set_events_def)
qed

lemma queue_task_simps [simp]:
  "tc_state (queue_task t c) = tc_state c" "tc_channel (queue_task t c) = tc_channel c"
  "tc_in (queue_task t c) = tc_in c" "tc_out (queue_task t c) = tc_out c"
  "tc_mark (queue_task t c) = tc_mark c" "tc_wcb (queue_task t c) = tc_wcb c"
  "tc_hcb (queue_task t c) = tc_hcb c" "tc_tasks (queue_task t c) = tc_tasks c @ [t]"
  "tc_calls (queue_task t c) = tc_calls c" "tc_ctl (queue_task t c) = tc_ctl c"
  "tc_sent (queue_task t c) = tc_sent c" "tc_accepted (queue_task t c) = tc_accepted c"
  "tc_received (queue_task t c) = tc_received c" "tc_consumed (queue_task t c) = tc_consumed c"
  "tc_shut (queue_task t c) = tc_shut c" "tc_closed (queue_task t c) = tc_closed c"
  by (simp_all add: queue_task_def)

lemma queue_task_inv [simp]:
  "conn_inv (queue_task t c) \<longleftrightarrow>
     conn_inv c \<and> task_ok t \<and> (t = Shutdown_in_loop \<longrightarrow> kDisconnecting \<le> tc_state c)"
  by (auto simp: inv_defs)

text \<open>What an operation leaves of the output: a callback never drains it.\<close>

definition keeps_output :: "tcp_conn \<Rightarrow> tcp_conn \<Rightarrow> bool" where
  "keeps_output c c' \<longleftrightarrow>
     ch_revents (tc_channel c') = ch_revents (tc_channel c) \<and>
     (tc_state c = kDisconnected \<longrightarrow> tc_state c' = kDisconnected) \<and>
     (content (tc_out c) \<noteq> [] \<longrightarrow> tc_state c' \<noteq> kDisconnected \<longrightarrow> content (tc_out c') \<noteq> [])"

lemma keeps_output_refl [simp]: "keeps_output c c"
  by (simp add: keeps_output_def)

lemma keeps_output_trans: "keeps_output c c' \<Longrightarrow> keeps_output c' c'' \<Longrightarrow> keeps_output c c''"
  by (auto simp: keeps_output_def)

lemma enableWrite_spec:
  assumes "ch_polling (tc_channel c)" "kernel_replay (tc_ctl c) None = Some (ch_reg (tc_channel c))"
  shows "\<exists>x. on_channel enableWrite c = Inr (set_events (ch_events (tc_channel c) OR EPOLLOUT) x c) \<and>
     kernel_replay (tc_ctl (set_events (ch_events (tc_channel c) OR EPOLLOUT) x c)) None =
       Some (ch_reg (tc_channel (set_events (ch_events (tc_channel c) OR EPOLLOUT) x c)))"
  by (rule on_channel_spec) (simp_all add: enableWrite_def assms)

lemma vec_size_zero:
  assumes "length d < 2 ^ 63"
  shows "vec_size d = 0 \<longleftrightarrow> d = []"
proof -
  have "unat (vec_size d) = length d" by (rule unat_vec_size) (use assms in simp)
  then show ?thesis using size_eq_iff [of "vec_size d" 0] by simp
qed

lemma conn_inv_bufs: "conn_inv c \<Longrightarrow> buffer_inv (tc_out c) \<and> buffer_inv (tc_in c)"
  by (simp add: inv_defs)

text \<open>A change of the records only.\<close>

lemma conn_inv_calls [simp]: "conn_inv (c\<lparr>tc_calls := k\<rparr>) = conn_inv c"
  by (simp add: inv_defs)

text \<open>
  A call of \<open>shutdown\<close> or \<open>forceClose\<close> that exchanges the state of an open connection is the whole
  call made at that moment, whatever happened since its test; on a closed connection the exchange
  makes the state wrong for the destructor.
\<close>

lemma exchange_is_call:
  "tc_state c \<noteq> kDisconnected \<Longrightarrow>
     conn_shutdown il c = Inr (shutdown_exchange il c) \<and> conn_forceClose c = forceClose_exchange c"
  by (simp add: conn_shutdown_def conn_forceClose_def)

lemma exchange_unclosed:
  "tc_state c = kDisconnected \<Longrightarrow>
     conn_dtor (shutdown_exchange il c) = Inl (Assertion ''state_ == kDisconnected'') \<and>
     conn_dtor (forceClose_exchange c) = Inl (Assertion ''state_ == kDisconnected'')"
  by (simp add: closing_defs conn_dtor_def)

text \<open>\<open>startRead\<close> on a closed connection.\<close>

lemma startRead_closed:
  assumes "conn_inv c" "tc_state c = kDisconnected"
  shows "\<exists>c' e. startReadInLoop c = Inr c' \<and> tc_state c' = kDisconnected \<and> tc_closed c' = tc_closed c \<and>
    kernel_replay (tc_ctl c') None = Some (Some e) \<and> has e EPOLLIN"
proof -
  have "\<not> ch_polling (tc_channel c)" "ch_events (tc_channel c) = 0" "kernel_replay (tc_ctl c) None = Some None"
    using assms by (simp_all add: inv_defs ch_reg_def)
  with assms(2) show ?thesis
    by (simp add: startReadInLoop_def isReading_def has_def on_channel_def channel_op_defs updateChannel_def
        isNoneEvent_def)
qed

section \<open>Sending\<close>

text \<open>What the direct write may change: bytes sent and a write-complete task.\<close>

definition wrote :: "byte list \<Rightarrow> tcp_conn \<Rightarrow> tcp_conn \<Rightarrow> bool" where
  "wrote d c c1 \<longleftrightarrow>
     (\<exists>k ts. c1 = c\<lparr>tc_calls := k, tc_sent := tc_sent c @ d, tc_tasks := tc_tasks c @ ts\<rparr> \<and>
             (ts = [] \<or> ts = [Write_complete]))"

lemma wrote_calls [simp]:
  "wrote d c (c\<lparr>tc_calls := k, tc_sent := tc_sent c @ d\<rparr>)" "wrote [] c (c\<lparr>tc_calls := k\<rparr>)" "wrote [] c c"
  unfolding wrote_def
  by (rule exI [of _ k], rule exI [of _ "[]"], simp)
     (rule exI [of _ k], rule exI [of _ "[]"], simp,
      rule exI [of _ "tc_calls c"], rule exI [of _ "[]"], simp)

lemma wrote_queue:
  "wrote d c (queue_task Write_complete (c\<lparr>tc_calls := k, tc_sent := tc_sent c @ d\<rparr>))"
  by (auto simp: wrote_def queue_task_def)

lemma sock_write_cases:
  assumes "net_ok net"
  shows "(\<exists>e. (tc_shut c \<or> net_write net (tc_calls c) (length d) = Write_failed e) \<and>
            sock_write net d c = (Write_failed e, c\<lparr>tc_calls := tc_calls c + 1\<rparr>)) \<or>
         (\<exists>n. n \<le> length d \<and> \<not> tc_shut c \<and> net_write net (tc_calls c) (length d) = Written n \<and>
            sock_write net d c =
              (Written n, c\<lparr>tc_calls := tc_calls c + 1, tc_sent := tc_sent c @ take n d\<rparr>))"
  using assms
  by (cases "net_write net (tc_calls c) (length d)") (auto simp: sock_write_def net_ok_def Let_def)

lemma sock_write_shut:
  "tc_shut c \<Longrightarrow> sock_write net d c = (Write_failed EPIPE, c\<lparr>tc_calls := tc_calls c + 1\<rparr>)"
  by (simp add: sock_write_def)

lemma wrote_simps:
  assumes "wrote d c c1"
  shows "tc_state c1 = tc_state c" "tc_channel c1 = tc_channel c" "tc_in c1 = tc_in c"
    "tc_out c1 = tc_out c" "tc_ctl c1 = tc_ctl c" "tc_sent c1 = tc_sent c @ d"
    "tc_accepted c1 = tc_accepted c" "tc_received c1 = tc_received c"
    "tc_consumed c1 = tc_consumed c" "tc_shut c1 = tc_shut c" "tc_closed c1 = tc_closed c"
    "tc_mark c1 = tc_mark c" "tc_hcb c1 = tc_hcb c"
    "list_all task_ok (tc_tasks c1) = list_all task_ok (tc_tasks c)"
    "Shutdown_in_loop \<in> set (tc_tasks c1) \<longleftrightarrow> Shutdown_in_loop \<in> set (tc_tasks c)"
  using assms by (auto simp: wrote_def task_ok_def list_all_iff)

lemma direct_write_spec:
  assumes net: "net_ok net" and inv: "conn_inv c" and st: "tc_state c \<noteq> kDisconnected"
  shows "\<exists>n fault c1. direct_write net d c = Inr (n, fault, c1) \<and> n \<le> length d \<and>
     wrote (take n d) c c1 \<and> (take n d \<noteq> [] \<longrightarrow> content (tc_out c) = []) \<and>
     (fault \<longrightarrow> n = 0) \<and> (tc_shut c \<longrightarrow> fault)"
proof (cases "isWriting (tc_channel c)")
  case True
  then have "content (tc_out c) \<noteq> []" using inv st by (simp add: inv_defs)
  then have "\<not> tc_shut c" using inv by (auto simp: inv_defs)
  with True show ?thesis
    by (intro exI [of _ 0] exI [of _ False] exI [of _ c])
       (simp add: direct_write_def)
next
  case False
  then have e: "content (tc_out c) = []" using inv st by (simp add: inv_defs)
  then have r: "readableBytes (tc_out c) = 0" using conn_inv_bufs [OF inv] by (simp add: readable_zero)
  show ?thesis
  proof (cases "tc_shut c")
    case True
    with False r e show ?thesis
      by (intro exI [of _ 0] exI [of _ True] exI [of _ "c\<lparr>tc_calls := tc_calls c + 1\<rparr>"])
         (simp add: direct_write_def sock_write_shut)
  next
    case nshut: False
    have "(\<exists>e. sock_write net d c = (Write_failed e, c\<lparr>tc_calls := tc_calls c + 1\<rparr>)) \<or>
        (\<exists>n. n \<le> length d \<and> sock_write net d c =
           (Written n, c\<lparr>tc_calls := tc_calls c + 1, tc_sent := tc_sent c @ take n d\<rparr>))"
      using sock_write_cases [OF net, of c d] by blast
    then show ?thesis
    proof (elim disjE exE conjE)
      fix er assume "sock_write net d c = (Write_failed er, c\<lparr>tc_calls := tc_calls c + 1\<rparr>)"
      then show ?thesis using False r e nshut
        by (auto simp: direct_write_def)
    next
      fix n assume n: "n \<le> length d" and
        w: "sock_write net d c = (Written n, c\<lparr>tc_calls := tc_calls c + 1, tc_sent := tc_sent c @ take n d\<rparr>)"
      let ?c = "c\<lparr>tc_calls := tc_calls c + 1, tc_sent := tc_sent c @ take n d\<rparr>"
      let ?c1 = "if vec_size (drop n d) = 0 \<and> tc_wcb ?c then queue_task Write_complete ?c else ?c"
      have "direct_write net d c = Inr (n, False, ?c1)"
        using False r w by (simp add: direct_write_def)
      moreover have "wrote (take n d) c ?c1"
        using wrote_queue by simp
      ultimately show ?thesis using n e nshut by (intro exI [of _ n] exI [of _ False] exI [of _ ?c1]) simp
    qed
  qed
qed

lemma sendInLoop_spec:
  assumes net: "net_ok net" and inv: "conn_inv c" and len: "length d < 2 ^ 63"
  shows "safe (\<lambda>c'. conn_inv c' \<and> keeps_output c c' \<and> tc_state c' = tc_state c) (sendInLoop net d c)"
proof (cases "tc_state c = kDisconnected")
  case True
  with inv show ?thesis by (simp add: sendInLoop_def)
next
  case st: False
  obtain n fault c1 where dw: "direct_write net d c = Inr (n, fault, c1)" "n \<le> length d"
      "wrote (take n d) c c1" "take n d \<noteq> [] \<longrightarrow> content (tc_out c) = []" "fault \<longrightarrow> n = 0"
      "tc_shut c \<longrightarrow> fault"
    using direct_write_spec [OF net inv st] by blast
  note w = wrote_simps [OF dw(3)]
  have rest: "vec_size (drop n d) = 0 \<longleftrightarrow> drop n d = []"
    by (rule vec_size_zero) (use len in simp)
  consider "fault" | "\<not> fault" "drop n d = []" | "\<not> fault" "drop n d \<noteq> []" by blast
  then show ?thesis
  proof cases
    case 1
    then have "sendInLoop net d c = Inr c1" using st dw(1) by (simp add: sendInLoop_def Let_def)
    moreover have "conn_inv c1" using inv w 1 dw(5) by (auto simp: inv_defs)
    ultimately show ?thesis using w by (simp add: keeps_output_def)
  next
    case 2
    then have n: "n = length d" using dw(2) by simp
    let ?c = "c1\<lparr>tc_accepted := tc_accepted c1 @ d\<rparr>"
    have "sendInLoop net d c = Inr ?c" using st dw(1) 2 rest by (simp add: sendInLoop_def Let_def)
    moreover have "tc_sent c @ d @ content (tc_out c) = tc_accepted c @ d"
      using inv dw(4) n by (cases "d = []") (simp_all add: inv_defs)
    then have "conn_inv ?c" using inv w n by (simp add: inv_defs isWriting_def cong: if_cong)
    ultimately show ?thesis using w by (simp add: keeps_output_def)
  next
    case 3
    have nshut: "\<not> tc_shut c" using 3 dw(6) by simp
    let ?old = "readableBytes (tc_out c1)" and ?rem = "vec_size (drop n d)"
    let ?hw = "tc_hcb c1 \<and> ?old < tc_mark c1 \<and> tc_mark c1 \<le> ?old + ?rem"
    define c2 where "c2 = (if ?hw then queue_task (High_water (?old + ?rem)) c1 else c1)"
    let ?K = "\<lambda>b. on_channel enableWrite (c2\<lparr>tc_out := b, tc_accepted := tc_accepted c2 @ d\<rparr>)"
    have pos: "0 < ?rem" using 3(2) rest by (simp add: word_gt_0)
    have run: "sendInLoop net d c = bindE (buffer_append (tc_out c2) (drop n d)) ?K"
      using st dw(1) 3(1) pos by (simp add: sendInLoop_def Let_def c2_def)
    have q: "tc_out c2 = tc_out c" "tc_state c2 = tc_state c" "tc_channel c2 = tc_channel c"
        "tc_ctl c2 = tc_ctl c" "tc_accepted c2 = tc_accepted c" "tc_sent c2 = tc_sent c @ take n d"
        "tc_in c2 = tc_in c" "tc_received c2 = tc_received c" "tc_consumed c2 = tc_consumed c"
        "tc_shut c2 = tc_shut c" "tc_closed c2 = tc_closed c"
        "list_all task_ok (tc_tasks c2) = list_all task_ok (tc_tasks c)"
        "Shutdown_in_loop \<in> set (tc_tasks c2) \<longleftrightarrow> Shutdown_in_loop \<in> set (tc_tasks c)"
      using w by (simp_all add: task_ok_def c2_def)
    show ?thesis
    proof (cases "buffer_append (tc_out c) (drop n d)")
      case (Inl e)
      then have "e = Exception ''length_error''"
        using buffer_stream.put_Inl [OF _ _ Inl] conn_inv_bufs [OF inv] len by simp
      then show ?thesis by (simp only: run q Inl bindE_simps safe_simps)
    next
      case (Inr b)
      have b: "buffer_inv b" "content b = content (tc_out c) @ drop n d"
        using buffer_stream.put_Inr [OF _ _ Inr] conn_inv_bufs [OF inv] len by simp_all
      let ?c3 = "c2\<lparr>tc_out := b, tc_accepted := tc_accepted c2 @ d\<rparr>"
      let ?e = "ch_events (tc_channel c) OR EPOLLOUT"
      have "ch_polling (tc_channel ?c3)" "kernel_replay (tc_ctl ?c3) None = Some (ch_reg (tc_channel ?c3))"
        using inv st q by (simp_all add: inv_defs)
      from enableWrite_spec [OF this] obtain x where
        x: "on_channel enableWrite ?c3 = Inr (set_events ?e x ?c3)"
           "kernel_replay (tc_ctl (set_events ?e x ?c3)) None = Some (ch_reg (tc_channel (set_events ?e x ?c3)))"
        using q(3) by auto
      have ne: "?e \<noteq> 0" by (rule has_nonzero, rule has_simps)
      have a: "tc_sent c @ content (tc_out c) = tc_accepted c" using inv by (simp add: inv_defs)
      have sums: "tc_sent c @ take n d @ content (tc_out c) @ drop n d = tc_accepted c @ d"
      proof (cases "take n d = []")
        case True
        then have "drop n d = d" by (metis append_Nil append_take_drop_id)
        with True a show ?thesis by (simp only: append_Nil) (simp only: append_assoc [symmetric])
      next
        case False
        with a dw(4) show ?thesis by simp
      qed
      have "conn_inv (set_events ?e x ?c3)"
        unfolding conn_inv_def
      proof (intro conjI)
        show "open_ok (set_events ?e x ?c3)"
          using inv st q b 3(2) ne by (simp add: inv_defs isWriting_def)
        show "bytes_ok (set_events ?e x ?c3)"
          using inv q b sums by (simp add: inv_defs)
      qed (use inv st q x(2) nshut in \<open>simp_all add: inv_defs\<close>)
      moreover have "keeps_output c (set_events ?e x ?c3)"
        using q b 3(2) by (simp add: keeps_output_def)
      moreover have "tc_state (set_events ?e x ?c3) = tc_state c" using q by simp
      ultimately show ?thesis by (simp only: run q(1) Inr bindE_simps x(1) safe_simps)
    qed
  qed
qed

section \<open>The other operations\<close>

definition good_step :: "tcp_conn \<Rightarrow> tcp_conn res \<Rightarrow> bool" where
  "good_step c r = safe (\<lambda>c'. conn_inv c' \<and> keeps_output c c') r"

lemma good_step_bind:
  assumes "good_step c m" and "\<And>c'. conn_inv c' \<Longrightarrow> keeps_output c c' \<Longrightarrow> good_step c' (f c')"
  shows "good_step c (bindE m f)"
  unfolding good_step_def
proof (rule safe_bind [OF assms(1) [unfolded good_step_def]])
  fix c' assume "conn_inv c' \<and> keeps_output c c'"
  then have c': "conn_inv c'" "keeps_output c c'" by simp_all
  from assms(2) [OF this] show "safe (\<lambda>x. conn_inv x \<and> keeps_output c x) (f c')"
    unfolding good_step_def by (rule safe_mono) (use c'(2) keeps_output_trans in blast)
qed

lemma good_step_Inr: "conn_inv c' \<Longrightarrow> keeps_output c c' \<Longrightarrow> good_step c (Inr c')"
  by (simp add: good_step_def)

lemma closing_inv:
  "conn_inv c \<Longrightarrow> tc_state c \<noteq> kDisconnected \<Longrightarrow> conn_inv (c\<lparr>tc_state := kDisconnecting\<rparr>)"
  by (simp add: inv_defs)

lemma shutdownInLoop_inv:
  "conn_inv c \<Longrightarrow> kDisconnecting \<le> tc_state c \<Longrightarrow>
   conn_inv (shutdownInLoop c) \<and> keeps_output c (shutdownInLoop c) \<and>
   tc_state (shutdownInLoop c) = tc_state c \<and> tc_out (shutdownInLoop c) = tc_out c"
  by (auto simp: inv_defs shutdownInLoop_def keeps_output_def)

lemma shutdown_step:
  assumes "conn_inv c" "tc_state c \<noteq> kDisconnected"
  shows "good_step c (conn_shutdown l c)"
proof -
  let ?c = "c\<lparr>tc_state := kDisconnecting\<rparr>"
  have i: "conn_inv ?c" by (rule closing_inv [OF assms])
  have k: "keeps_output c ?c" using assms(2) by (simp add: keeps_output_def)
  have s: "conn_inv (shutdownInLoop ?c)" "keeps_output c (shutdownInLoop ?c)"
    using shutdownInLoop_inv [OF i] keeps_output_trans [OF k] by simp_all
  have q: "keeps_output c (queue_task Shutdown_in_loop ?c)" using k by (simp add: keeps_output_def)
  show ?thesis
    using assms(2) i k s q
    by (simp add: closing_defs good_step_def task_ok_def)
qed

lemma forceClose_step: "conn_inv c \<Longrightarrow> good_step c (Inr (conn_forceClose c))"
  using closing_inv [of c]
  by (auto simp: good_step_def closing_defs task_ok_def keeps_output_def)

lemma set_events_inv:
  assumes "conn_inv c" "tc_state c \<noteq> kDisconnected" "has e EPOLLPRI"
    and "has e EPOLLOUT = isWriting (tc_channel c)"
    and "kernel_replay (tc_ctl (set_events e x c)) None = Some (ch_reg (tc_channel (set_events e x c)))"
  shows "conn_inv (set_events e x c) \<and> keeps_output c (set_events e x c)"
  using assms has_nonzero [OF assms(3)] by (simp add: inv_defs isWriting_def keeps_output_def)

lemma conn_inv_channel:
  "conn_inv c \<Longrightarrow> tc_state c \<noteq> kDisconnected \<Longrightarrow>
   ch_polling (tc_channel c) \<and> kernel_replay (tc_ctl c) None = Some (ch_reg (tc_channel c)) \<and>
   has (ch_events (tc_channel c)) EPOLLPRI"
  by (simp add: inv_defs)

lemma stopRead_step:
  assumes "conn_inv c"
  shows "good_step c (stopReadInLoop c)"
proof (cases "isReading (tc_channel c)")
  case True
  then have st: "tc_state c \<noteq> kDisconnected" using assms by (auto simp: inv_defs isReading_def)
  note ch = conn_inv_channel [OF assms st]
  let ?e = "ch_events (tc_channel c) AND NOT EPOLLIN"
  obtain x where x: "on_channel disableRead c = Inr (set_events ?e x c)"
      "kernel_replay (tc_ctl (set_events ?e x c)) None = Some (ch_reg (tc_channel (set_events ?e x c)))"
    using on_channel_spec [of disableRead c ?e] ch by (auto simp: disableRead_def)
  then show ?thesis
    using True set_events_inv [OF assms st _ _ x(2)] ch
    by (simp add: stopReadInLoop_def good_step_def isWriting_def)
next
  case False
  then show ?thesis using assms by (simp add: stopReadInLoop_def good_step_def)
qed

lemma startRead_step:
  assumes "conn_inv c" and st: "tc_state c \<noteq> kDisconnected"
  shows "good_step c (startReadInLoop c)"
proof (cases "isReading (tc_channel c)")
  case False
  note ch = conn_inv_channel [OF assms]
  let ?e = "ch_events (tc_channel c) OR 3"
  obtain x where x: "on_channel enableRead c = Inr (set_events ?e x c)"
      "kernel_replay (tc_ctl (set_events ?e x c)) None = Some (ch_reg (tc_channel (set_events ?e x c)))"
    using on_channel_spec [of enableRead c ?e] ch by (auto simp: enableRead_def)
  then show ?thesis
    using False set_events_inv [OF assms _ _ x(2)] ch
    by (simp add: startReadInLoop_def good_step_def isWriting_def)
next
  case True
  then show ?thesis using assms by (simp add: startReadInLoop_def good_step_def)
qed

lemma consume_step:
  assumes "conn_inv c"
  shows "good_step c (conn_consume k c)"
proof -
  have b: "buffer_inv (tc_in c)" using conn_inv_bufs [OF assms] by simp
  let ?n = "word_of_nat (min k (unat (readableBytes (tc_in c)))) :: size_t"
  have "min k (unat (readableBytes (tc_in c))) < 2 ^ 64"
    using unat_size_lt [of "readableBytes (tc_in c)"] by (simp add: min_less_iff_disj)
  then have "unat ?n \<le> length (content (tc_in c))"
    using buffer_invD(6) [OF b] unat_size_of_nat by simp
  then obtain b' where "retrieveAsString (tc_in c) ?n = Inr (take (unat ?n) (content (tc_in c)), b')"
      "buffer_inv b'" "content b' = drop (unat ?n) (content (tc_in c))"
    using retrieveAsString_spec [OF b] by blast
  then show ?thesis using assms
    by (simp add: conn_consume_def good_step_def inv_defs keeps_output_def)
qed

lemma send_step:
  assumes "net_ok net" "conn_inv c" "length d < 2 ^ 63"
  shows "good_step c (conn_send net l d c)"
  using sendInLoop_spec [OF assms] assms(2,3)
  by (auto simp: conn_send_def good_step_def task_ok_def keeps_output_def elim: safe_mono)

section \<open>Event handlers\<close>

lemma handleClose_step:
  assumes inv: "conn_inv c" and st: "tc_state c \<noteq> kDisconnected"
  shows "good_step c (handleClose c)"
proof -
  let ?c = "c\<lparr>tc_state := kDisconnected\<rparr>"
  have "ch_polling (tc_channel ?c)" "kernel_replay (tc_ctl ?c) None = Some (ch_reg (tc_channel ?c))"
    using conn_inv_channel [OF inv st] by simp_all
  with on_channel_spec [of removeChannel ?c 0] obtain x where
    x: "on_channel removeChannel ?c = Inr (set_events 0 x ?c)"
       "kernel_replay (tc_ctl (set_events 0 x ?c)) None = Some (ch_reg (tc_channel (set_events 0 x ?c)))"
    by (auto simp: removeChannel_def diableAll_def)
  have "tc_state c = kConnected \<or> tc_state c = kDisconnecting"
    using inv st by (cases "tc_state c") (simp_all add: inv_defs)
  moreover have "conn_inv ((set_events 0 x ?c)\<lparr>tc_closed := tc_closed (set_events 0 x ?c) + 1\<rparr>)"
    using inv st x(2) by (simp add: inv_defs)
  moreover have "keeps_output c ((set_events 0 x ?c)\<lparr>tc_closed := tc_closed (set_events 0 x ?c) + 1\<rparr>)"
    by (simp add: keeps_output_def)
  ultimately show ?thesis using x(1) by (simp add: handleClose_def good_step_def)
qed

lemma handleRead_step:
  assumes net: "net_ok net" and inv: "conn_inv c" and st: "tc_state c \<noteq> kDisconnected"
    and msg: "\<And>c'. conn_inv c' \<Longrightarrow> tc_state c' \<noteq> kDisconnected \<Longrightarrow> good_step c' (msg c')"
  shows "good_step c (handleRead net msg c)"
proof -
  let ?r = "net_read net (tc_calls c) (readv_room (tc_in c))"
  have b: "buffer_inv (tc_in c)" using conn_inv_bufs [OF inv] by simp
  show ?thesis
  proof (cases ?r)
    case (Io_failed e)
    then have "handleRead net msg c = Inr (c\<lparr>tc_in := tc_in c, tc_calls := tc_calls c + 1, tc_received := tc_received c\<rparr>)"
      using st by (simp add: handleRead_def readFd_def handleError_def)
    moreover have "conn_inv (c\<lparr>tc_in := tc_in c, tc_calls := tc_calls c + 1, tc_received := tc_received c\<rparr>)"
      using inv by (simp add: inv_defs)
    ultimately show ?thesis by (simp add: good_step_def keeps_output_def)
  next
    case (Io_bytes bs)
    then have len: "length bs \<le> readv_room (tc_in c)" using net by (auto simp: net_ok_def)
    from readFd_cases [OF b len] show ?thesis
    proof (elim disjE exE conjE)
      assume "readFd (tc_in c) (Io_bytes bs) = Inl (Exception ''length_error'')"
      then show ?thesis using st Io_bytes by (simp add: handleRead_def good_step_def)
    next
      fix b' assume b': "readFd (tc_in c) (Io_bytes bs) = Inr (b', int (length bs), None)"
        "buffer_inv b'" "content b' = content (tc_in c) @ bs"
      let ?c = "c\<lparr>tc_in := b', tc_calls := tc_calls c + 1, tc_received := tc_received c @ bs\<rparr>"
      have run: "handleRead net msg c = (if bs = [] then handleClose ?c else msg ?c)"
        using st Io_bytes b'(1) by (simp add: handleRead_def Let_def)
      have st': "tc_state ?c \<noteq> kDisconnected" using st by simp
      have i: "conn_inv ?c" using inv b'(2,3) by (auto simp: inv_defs)
      have k: "keeps_output c ?c" by (simp add: keeps_output_def)
      have "good_step ?c (if bs = [] then handleClose ?c else msg ?c)"
        using handleClose_step [OF i st'] msg [OF i st'] by (simp only: if_split simp_thms)
      then show ?thesis unfolding run good_step_def
        by (rule safe_mono) (use k keeps_output_trans in blast)
    qed
  qed
qed

lemma read_all:
  assumes "buffer_inv b"
  shows "mem_read (buf_data b) (unat (peek b)) (unat (readableBytes b)) = Inr (content b)"
proof -
  note d = buffer_invD [OF assms]
  have "unat (readerIndex b) + length (content b) \<le> length (buf_data b)"
    using d(2,8) by simp
  then show ?thesis
    using content_take [OF assms, of "length (content b)"] d(6) by (simp add: peek_def)
qed

text \<open>The write handler: it may drain the output, so it only keeps the invariant.\<close>

definition write_effect :: "net \<Rightarrow> tcp_conn \<Rightarrow> tcp_conn \<Rightarrow> bool" where
  "write_effect net c c' \<longleftrightarrow>
     tc_state c' = tc_state c \<and> tc_accepted c' = tc_accepted c \<and>
     (\<forall>n. net_write net (tc_calls c) (length (content (tc_out c))) = Written n \<longrightarrow>
        tc_sent c' = tc_sent c @ take n (content (tc_out c)) \<and>
        (n = length (content (tc_out c)) \<longrightarrow> tc_state c = kDisconnecting \<longrightarrow> tc_shut c'))"

lemma handleWrite_effect:
  assumes net: "net_ok net" and inv: "conn_inv c" and st: "tc_state c \<noteq> kDisconnected"
    and ne: "content (tc_out c) \<noteq> []"
  shows "\<exists>c'. handleWrite net c = Inr c' \<and> conn_inv c' \<and> write_effect net c c'"
proof -
  let ?d = "content (tc_out c)"
  note bi = conn_inv_bufs [OF inv]
  note bd = buffer_invD [OF bi [THEN conjunct1]]
  have wr: "isWriting (tc_channel c)" using inv st ne by (simp add: inv_defs)
  have pos: "0 < readableBytes (tc_out c)" using readable_pos bi ne by blast
  have rd: "mem_read (buf_data (tc_out c)) (unat (peek (tc_out c))) (unat (readableBytes (tc_out c))) = Inr ?d"
    using read_all bi by blast
  have nshut: "\<not> tc_shut c" using inv ne by (auto simp: inv_defs)
  have hw: "handleWrite net c =
      (case sock_write net ?d c of
         (Write_failed _, c1) \<Rightarrow> Inr c1
       | (Written n, c1) \<Rightarrow>
           bindE (retrieve (tc_out c1) (word_of_nat n)) (\<lambda>b.
           let c2 = c1\<lparr>tc_out := b\<rparr> in
           if readableBytes b = 0
           then bindE (on_channel disableWrite c2) (\<lambda>c3.
                  let c4 = (if tc_state c3 = kDisconnecting then shutdownInLoop c3 else c3)
                  in Inr (if tc_wcb c4 then queue_task Write_complete c4 else c4))
           else Inr c2))"
    using st pos wr rd by (simp add: handleWrite_def)
  from sock_write_cases [OF net, of c ?d] show ?thesis
  proof (elim disjE exE conjE)
    fix e assume "tc_shut c"
    with nshut show ?thesis by simp
  next
    fix e assume "net_write net (tc_calls c) (length ?d) = Write_failed e"
      "sock_write net ?d c = (Write_failed e, c\<lparr>tc_calls := tc_calls c + 1\<rparr>)"
    then show ?thesis using inv by (simp add: hw write_effect_def)
  next
    fix n assume n: "n \<le> length ?d" and nw: "net_write net (tc_calls c) (length ?d) = Written n" and
      w: "sock_write net ?d c = (Written n, c\<lparr>tc_calls := tc_calls c + 1, tc_sent := tc_sent c @ take n ?d\<rparr>)"
    have "n < 2 ^ 64" using n bd(6) unat_size_lt [of "readableBytes (tc_out c)"] by linarith
    then have un: "unat (word_of_nat n :: size_t) = n" by (rule unat_size_of_nat)
    obtain b where b: "retrieve (tc_out c) (word_of_nat n) = Inr b" "buffer_inv b"
        "content b = drop n ?d"
      using retrieve_spec [of "tc_out c" "word_of_nat n"] bi un n by auto
    define c1 where "c1 = c\<lparr>tc_calls := tc_calls c + 1, tc_sent := tc_sent c @ take n ?d\<rparr>"
    define c2 where "c2 = c1\<lparr>tc_out := b\<rparr>"
    have c2: "tc_state c2 = tc_state c" "tc_channel c2 = tc_channel c" "tc_out c2 = b"
        "tc_ctl c2 = tc_ctl c" "tc_tasks c2 = tc_tasks c" "tc_shut c2 = tc_shut c"
        "tc_closed c2 = tc_closed c" "tc_accepted c2 = tc_accepted c" "tc_sent c2 = tc_sent c @ take n ?d"
      by (simp_all add: c1_def c2_def)
    have bytes: "bytes_ok c2"
      using inv b n by (simp add: inv_defs c1_def c2_def)
    have hw2: "handleWrite net c =
        (if readableBytes b = 0
         then bindE (on_channel disableWrite c2) (\<lambda>c3.
                let c4 = (if tc_state c3 = kDisconnecting then shutdownInLoop c3 else c3)
                in Inr (if tc_wcb c4 then queue_task Write_complete c4 else c4))
         else Inr c2)"
      using w b(1) by (simp add: hw c1_def c2_def Let_def)
    show ?thesis
    proof (cases "content b = []")
      case False
      then have "handleWrite net c = Inr c2"
        using readable_zero [OF b(2)] by (simp add: hw2)
      moreover have "conn_inv c2"
        unfolding conn_inv_def using inv st bytes wr False nshut by (simp add: inv_defs isWriting_def c2)
      moreover have "write_effect net c c2" using nw False b(3) n by (simp add: write_effect_def c2)
      ultimately show ?thesis by simp
    next
      case True
      define e where "e = ch_events (tc_channel c) AND NOT EPOLLOUT"
      note ch = conn_inv_channel [OF inv st]
      have e: "has e EPOLLPRI" "\<not> has e EPOLLOUT" using ch by (simp_all add: e_def)
      have "disableWrite (tc_channel c2) = updateChannel ((tc_channel c2)\<lparr>ch_events := e\<rparr>)"
        by (simp only: disableWrite_def e_def c2)
      then obtain x where x: "on_channel disableWrite c2 = Inr (set_events e x c2)"
          "kernel_replay (tc_ctl (set_events e x c2)) None = Some (ch_reg (tc_channel (set_events e x c2)))"
        using on_channel_spec [of disableWrite c2 e] ch by (auto simp: c2)
      define c3 where "c3 = set_events e x c2"
      have "conn_inv c3"
        unfolding conn_inv_def
        using inv st bytes True nshut x(2) e has_nonzero [OF e(1)]
        by (simp add: inv_defs isWriting_def c3_def c2)
      define c4 where "c4 = (if tc_state c3 = kDisconnecting then shutdownInLoop c3 else c3)"
      define c5 where "c5 = (if tc_wcb c4 then queue_task Write_complete c4 else c4)"
      have "conn_inv c4"
        unfolding c4_def using shutdownInLoop_inv [of c3] \<open>conn_inv c3\<close> by simp
      then have "conn_inv c5" by (simp add: c5_def task_ok_def)
      moreover have "\<not> isWriting (tc_channel c3)"
        using e(2) by (simp add: isWriting_def c3_def)
      then have "write_effect net c c5"
        using nw by (simp add: write_effect_def c5_def c4_def shutdownInLoop_def) (simp add: c3_def c2)
      moreover have "handleWrite net c = Inr c5"
        using x(1) readable_zero [OF b(2)] True
        by (simp add: hw2 c3_def [symmetric] Let_def c4_def c5_def)
      ultimately show ?thesis by blast
    qed
  qed
qed

lemma handleWrite_step:
  assumes net: "net_ok net" and inv: "conn_inv c"
    and out: "tc_state c \<noteq> kDisconnected \<longrightarrow> content (tc_out c) \<noteq> []"
  shows "safe conn_inv (handleWrite net c)"
proof (cases "tc_state c = kDisconnected")
  case True
  then show ?thesis using inv by (simp add: handleWrite_def)
next
  case False
  with handleWrite_effect [OF net inv] out show ?thesis by auto
qed

lemma user_do_step:
  assumes "net_ok net" "conn_inv c" "user_ok op"
    and "op = U_shutdown \<or> op = U_start_read \<longrightarrow> tc_state c \<noteq> kDisconnected"
  shows "good_step c (user_do net op c)"
  using assms send_step shutdown_step forceClose_step stopRead_step startRead_step consume_step
  by (cases op) auto

text \<open>No operation of a user closes the connection at once.\<close>

lemma user_do_open:
  assumes "net_ok net" "conn_inv c" "tc_state c \<noteq> kDisconnected" "user_ok op"
    and "user_do net op c = Inr c'"
  shows "tc_state c' \<noteq> kDisconnected"
proof (cases op)
  case (U_send d)
  with sendInLoop_spec [OF assms(1,2), of d] assms(3-5) show ?thesis
    by (auto simp: conn_send_def split: if_splits)
next
  case U_shutdown
  with assms(3,5) show ?thesis
    by (auto simp: closing_defs shutdownInLoop_def split: if_splits)
next
  case U_force_close
  with assms(3,5) show ?thesis
    by (auto simp: closing_defs split: if_splits)
next
  case U_stop_read
  with assms(3,5) show ?thesis
    by (auto simp: stopReadInLoop_def on_channel_def bindE_Inr_iff split: if_splits prod.splits)
next
  case U_start_read
  with assms(3,5) show ?thesis
    by (auto simp: startReadInLoop_def on_channel_def bindE_Inr_iff split: if_splits prod.splits)
next
  case (U_consume k)
  with assms(3,5) show ?thesis
    by (auto simp: conn_consume_def bindE_Inr_iff split: prod.splits)
qed

lemma user_dos_step:
  assumes "net_ok net" "conn_inv c" "tc_state c \<noteq> kDisconnected" "list_all user_ok ops"
  shows "good_step c (user_dos net ops c)"
  using assms(2-4)
proof (induction ops arbitrary: c)
  case Nil
  then show ?case by (simp add: good_step_def)
next
  case (Cons op ops)
  have g: "good_step c (user_do net op c)"
    using user_do_step [OF assms(1) Cons.prems(1)] Cons.prems(2,3) by simp
  show ?case
  proof (cases "user_do net op c")
    case (Inl e)
    with g show ?thesis by (simp add: good_step_def)
  next
    case (Inr c1)
    then have c1: "conn_inv c1" "keeps_output c c1" using g by (simp_all add: good_step_def)
    have "tc_state c1 \<noteq> kDisconnected"
      using user_do_open [OF assms(1) Cons.prems(1,2) _ Inr] Cons.prems(3) by simp
    then have "good_step c1 (user_dos net ops c1)" using Cons.IH [OF c1(1)] Cons.prems(3) by simp
    then show ?thesis unfolding good_step_def
      by (simp add: Inr) (rule safe_mono, assumption, use c1(2) keeps_output_trans in blast)
  qed
qed

lemma upd_channel_inv:
  assumes "\<And>ch. ch_polling (f ch) = ch_polling ch" "\<And>ch. ch_events (f ch) = ch_events ch"
  shows "conn_inv (upd_channel f c) = conn_inv c"
  using assms by (simp add: inv_defs upd_channel_def isWriting_def ch_reg_def)

lemma call_when_step:
  assumes "conn_inv c" and "b \<Longrightarrow> good_step c (f c)"
  shows "good_step c (call_when b (Some f) c)"
  using assms by (simp add: call_when_def good_step_def)

lemma conn_ready_step:
  assumes net: "net_ok net" and inv: "conn_inv c" and ok: "ev_ok (Ev_ready rv ops) c"
  shows "safe conn_inv (conn_ready net rv ops c)"
proof -
  let ?msg = "user_dos net ops"
  define c0 where "c0 = upd_channel (\<lambda>ch. ch\<lparr>ch_handling := True\<rparr>) (upd_channel (set_revents rv) c)"
  have i0: "conn_inv c0"
    unfolding c0_def using inv by (simp add: upd_channel_inv set_revents_def)
  have f0: "ch_revents (tc_channel c0) = rv" "tc_out c0 = tc_out c" "tc_state c0 = tc_state c"
    by (simp_all add: c0_def upd_channel_def set_revents_def)
  have st: "tc_state c \<noteq> kDisconnected" using inv ok by (auto simp: inv_defs)
  have wr: "has rv EPOLLOUT \<longrightarrow> content (tc_out c) \<noteq> []"
    using inv ok st by (simp add: inv_defs)
  let ?hup = "has rv EPOLLHUP \<and> \<not> has rv EPOLLIN"
  let ?rd = "has rv (EPOLLIN OR EPOLLPRI OR EPOLLRDHUP)"
  have norw: "?hup \<Longrightarrow> \<not> ?rd" using ok unfolding has_or [of rv EPOLLIN] by simp
  define P where "P = (\<lambda>c' :: tcp_conn. conn_inv c' \<and> keeps_output c0 c' \<and> (?rd \<longrightarrow> tc_state c' \<noteq> kDisconnected))"
  have s1: "safe P (call_when ?hup (Some handleClose) c0)"
  proof (cases ?hup)
    case True
    then have "good_step c0 (handleClose c0)" using handleClose_step [OF i0] st f0 by simp
    then show ?thesis using True norw
      by (simp add: call_when_def P_def good_step_def)
  next
    case False
    then show ?thesis using i0 st f0 by (auto simp: call_when_def P_def)
  qed
  have s3: "safe (\<lambda>c'. conn_inv c' \<and> keeps_output c0 c') (call_when ?rd (Some (handleRead net ?msg)) c1)"
    if c1: "P c1" for c1
  proof (cases ?rd)
    case True
    have "good_step c1 (handleRead net ?msg c1)"
      using c1 True ok by (intro handleRead_step [OF net] user_dos_step [OF net]) (simp_all add: P_def)
    then have "safe (\<lambda>c'. conn_inv c' \<and> keeps_output c0 c') (handleRead net ?msg c1)"
      unfolding good_step_def
      by (rule safe_mono) (use c1 keeps_output_trans in \<open>auto simp: P_def\<close>)
    then show ?thesis unfolding call_when_def using True by (simp only: if_True option.case)
  next
    case False
    then show ?thesis using c1 unfolding call_when_def P_def by (simp only: if_False safe_simps simp_thms)
  qed
  have s4: "safe conn_inv (call_when (has rv EPOLLOUT) (Some (handleWrite net)) c2)"
    if "conn_inv c2" "keeps_output c0 c2" for c2
  proof (cases "has rv EPOLLOUT")
    case True
    then have "tc_state c2 \<noteq> kDisconnected \<longrightarrow> content (tc_out c2) \<noteq> []"
      using that(2) wr f0 by (simp add: keeps_output_def)
    from handleWrite_step [OF net that(1) this] True show ?thesis by (simp add: call_when_def)
  next
    case False
    then show ?thesis using that by (simp add: call_when_def)
  qed
  have revents: "ch_revents (tc_channel c') = rv" if "keeps_output c0 c'" for c'
    using that f0 by (simp add: keeps_output_def)
  let ?fin = "\<lambda>c'. Inr (upd_channel (\<lambda>ch. ch\<lparr>ch_handling := False\<rparr>) c') :: tcp_conn res"
  let ?w = "\<lambda>c'. bindE (call_when (has (ch_revents (tc_channel c')) EPOLLOUT) (Some (handleWrite net)) c') ?fin"
  let ?r = "\<lambda>c'. bindE (call_when (has (ch_revents (tc_channel c')) (EPOLLIN OR EPOLLPRI OR EPOLLRDHUP))
                   (Some (handleRead net ?msg)) c') ?w"
  have eq: "conn_ready net rv ops c =
      bindE (call_when (has (ch_revents (tc_channel c0)) EPOLLHUP \<and> \<not> has (ch_revents (tc_channel c0)) EPOLLIN)
               (Some handleClose) c0) (\<lambda>c1.
      bindE (call_when (has (ch_revents (tc_channel c1)) EPOLLERR) (Some handleError) c1) ?r)"
    by (simp only: conn_ready_def handleEvent_def handleEventWithGuard_def conn_callbacks_def c0_def Let_def
        if_True if_cancel callbacks.simps)
  have err: "call_when b (Some handleError) c1 = Inr c1" for b c1
    by (simp add: call_when_def handleError_def)
  have fin: "safe conn_inv (?fin c')" if "conn_inv c'" for c'
    using that by (simp add: upd_channel_inv)
  show ?thesis
    unfolding eq err bindE_simps f0(1)
  proof (rule safe_bind [OF s1])
    fix c1 assume c1: "P c1"
    then have r1: "ch_revents (tc_channel c1) = rv" using revents by (simp add: P_def)
    show "safe conn_inv (?r c1)"
      unfolding r1
    proof (rule safe_bind [OF s3 [OF c1]])
      fix c2 assume c2: "conn_inv c2 \<and> keeps_output c0 c2"
      then have r2: "ch_revents (tc_channel c2) = rv" using revents by simp
      show "safe conn_inv (?w c2)"
        unfolding r2 by (rule safe_bind [OF s4]) (use c2 fin in simp_all)
    qed
  qed
qed

section \<open>Every step\<close>

lemma remote_do_step:
  assumes "net_ok net" "conn_inv c" "ev_ok (Ev_remote op) c"
  shows "good_step c (remote_do net op c)"
  using assms send_step shutdown_step forceClose_step
  by (cases op) (auto simp: good_step_def task_ok_def keeps_output_def)

lemma conn_inv_pop:
  "conn_inv c \<Longrightarrow> tc_tasks c = t # ts \<Longrightarrow> conn_inv (c\<lparr>tc_tasks := ts\<rparr>) \<and> task_ok t"
  by (auto simp: inv_defs)

lemma run_task_step:
  assumes net: "net_ok net" and inv: "conn_inv c" and t: "task_ok t"
    and start: "t = Start_read_in_loop \<longrightarrow> tc_state c \<noteq> kDisconnected"
    and shut: "t = Shutdown_in_loop \<longrightarrow> kDisconnecting \<le> tc_state c"
  shows "good_step c (run_task net t c)"
proof (cases t)
  case (Send_in_loop d)
  with sendInLoop_spec [OF net inv, of d] t show ?thesis
    by (auto simp: good_step_def task_ok_def elim: safe_mono)
next
  case Shutdown_in_loop
  with shutdownInLoop_inv [OF inv] shut show ?thesis by (simp add: good_step_def)
next
  case Force_close_in_loop
  with handleClose_step [OF inv] inv show ?thesis by (simp add: forceCloseInLoop_def good_step_def)
qed (use inv start stopRead_step startRead_step in \<open>simp_all add: good_step_def\<close>)

lemma conn_step_inv:
  assumes net: "net_ok net" and inv: "conn_inv c" and ok: "ev_ok ev c"
  shows "safe conn_inv (conn_step net ev c)"
proof (cases ev)
  case (Ev_ready rv ops)
  with conn_ready_step [OF net inv] ok show ?thesis by simp
next
  case (Ev_user op)
  with user_do_step [OF net inv, of op] ok show ?thesis
    by (auto simp: good_step_def elim: safe_mono)
next
  case (Ev_remote op)
  with remote_do_step [OF net inv, of op] ok show ?thesis
    by (auto simp: good_step_def elim: safe_mono)
next
  case Ev_task
  show ?thesis
  proof (cases "tc_tasks c")
    case Nil
    then show ?thesis using Ev_task inv by simp
  next
    case (Cons t ts)
    have "good_step (c\<lparr>tc_tasks := ts\<rparr>) (run_task net t (c\<lparr>tc_tasks := ts\<rparr>))"
      using conn_inv_pop [OF inv Cons] ok Ev_task Cons inv
      by (intro run_task_step [OF net]) (auto simp: inv_defs)
    then show ?thesis using Ev_task Cons by (auto simp: good_step_def elim: safe_mono)
  qed
qed

lemma conn_up_spec:
  "\<exists>c. conn_up fd wcb hcb mark = Inr c \<and> conn_inv c \<and> tc_state c = kConnected \<and>
     content (tc_out c) = [] \<and> tc_sent c = [] \<and> tc_accepted c = [] \<and> tc_tasks c = [] \<and>
     tc_received c = [] \<and> tc_shut c = False \<and> tc_wcb c = wcb \<and> tc_hcb c = hcb \<and>
     tc_calls c = 0 \<and> tc_mark c = mark \<and> length (buf_data (tc_out c)) = 1032 \<and>
     length (buf_data (tc_in c)) = 1032 \<and>
     tc_channel c = \<lparr>ch_polling = True, ch_fd = fd, ch_events = 3, ch_revents = 0, ch_tied = True,
                     ch_handling = False\<rparr>"
proof -
  obtain b where b: "buffer_new kInitialSize = Inr b" "buffer_inv b" "content b = []"
      "length (buf_data b) = 1032"
    using buffer_new_spec [of kInitialSize] by (auto simp: kInitialSize_def vec_max_size_val)
  have h: "has 3 EPOLLPRI" "\<not> has 3 EPOLLOUT" by (simp_all add: has_def)
  show ?thesis
    using b h
    by (simp add: conn_up_def conn_new_def connectEstablished_def on_channel_def enableRead_def
        updateChannel_def isNoneEvent_def channel_new_def tie_def inv_defs isWriting_def ch_reg_def
        list_all_def)
qed

text \<open>Everything the properties say of reachable connections.\<close>

lemma conn_reach_inv:
  assumes net: "net_ok net" and up: "conn_up fd wcb hcb mark = Inr c0" and r: "conn_reach net c0 r"
  shows "safe conn_inv r"
proof -
  have i0: "conn_inv c0" using conn_up_spec [of fd wcb hcb mark] up by auto
  show ?thesis
    using r unfolding conn_reach_def
  proof (induction rule: reach.induct)
    case reach_init
    then show ?case using i0 by simp
  next
    case (reach_step c r)
    then show ?case using conn_step_inv [OF net] by auto
  qed
qed

section \<open>Draining the output\<close>

lemma ready_to_write:
  "conn_ready net EPOLLOUT ops c =
     bindE (handleWrite net (upd_channel (\<lambda>ch. ch\<lparr>ch_revents := EPOLLOUT, ch_handling := True\<rparr>) c))
       (\<lambda>c'. Inr (upd_channel (\<lambda>ch. ch\<lparr>ch_handling := False\<rparr>) c'))"
proof -
  have h: "\<not> has EPOLLOUT EPOLLHUP" "\<not> has EPOLLOUT EPOLLERR" "has EPOLLOUT EPOLLOUT"
    "\<not> has EPOLLOUT (EPOLLIN OR EPOLLPRI OR EPOLLRDHUP)"
    by (simp_all add: has_def)
  show ?thesis
    unfolding conn_ready_def handleEvent_def handleEventWithGuard_def conn_callbacks_def Let_def
    using h by (simp add: upd_channel_def set_revents_def call_when_def)
qed

lemma write_event:
  assumes net: "net_ok net" and inv: "conn_inv c" and st: "tc_state c \<noteq> kDisconnected"
    and ne: "content (tc_out c) \<noteq> []"
  shows "\<exists>c'. conn_step net (Ev_ready EPOLLOUT []) c = Inr c' \<and> conn_inv c' \<and> write_effect net c c'"
proof -
  let ?c = "upd_channel (\<lambda>ch. ch\<lparr>ch_revents := EPOLLOUT, ch_handling := True\<rparr>) c"
  have "conn_inv ?c" using inv by (simp add: upd_channel_inv)
  moreover have "tc_state ?c \<noteq> kDisconnected" "content (tc_out ?c) \<noteq> []"
    using st ne by (simp_all add: upd_channel_def)
  ultimately obtain c' where c': "handleWrite net ?c = Inr c'" "conn_inv c'" "write_effect net ?c c'"
    using handleWrite_effect [OF net] by blast
  let ?c' = "upd_channel (\<lambda>ch. ch\<lparr>ch_handling := False\<rparr>) c'"
  have "conn_inv ?c'" using c'(2) by (simp add: upd_channel_inv)
  moreover have "write_effect net c ?c'"
    using c'(3) by (simp add: write_effect_def upd_channel_def)
  ultimately show ?thesis using c'(1) by (simp add: ready_to_write)
qed

definition net_progress :: "net \<Rightarrow> bool" where
  "net_progress net \<longleftrightarrow> (\<forall>k n. 0 < n \<longrightarrow> (\<exists>m. 0 < m \<and> net_write net k n = Written m))"

text \<open>Notifications that the socket can be written; the kernel may answer each in its own way.\<close>

fun write_events :: "(tcp_conn \<Rightarrow> net) \<Rightarrow> nat \<Rightarrow> tcp_conn \<Rightarrow> tcp_conn res" where
  "write_events K 0 c = Inr c"
| "write_events K (Suc n) c = bindE (conn_step (K c) (Ev_ready EPOLLOUT []) c) (write_events K n)"

lemma write_events_run: "write_events (\<lambda>_. net) n c = conn_run net (replicate n (Ev_ready EPOLLOUT [])) c"
  by (induction n arbitrary: c) (auto intro!: arg_cong2 [where f = bindE])

lemma drain_events:
  assumes net: "\<And>x. net_ok (K x)" "\<And>x. net_progress (K x)" and "conn_inv c" and "tc_state c \<noteq> kDisconnected"
  shows "\<exists>n c'. n \<le> length (content (tc_out c)) \<and>
     write_events K n c = Inr c' \<and> conn_inv c' \<and>
     content (tc_out c') = [] \<and> tc_accepted c' = tc_accepted c \<and> tc_state c' = tc_state c \<and>
     (content (tc_out c) \<noteq> [] \<longrightarrow> tc_state c = kDisconnecting \<longrightarrow> tc_shut c')"
  using assms(3,4)
proof (induction "length (content (tc_out c))" arbitrary: c rule: less_induct)
  case less
  let ?d = "content (tc_out c)"
  show ?case
  proof (cases "?d = []")
    case True
    with less.prems show ?thesis by (intro exI [of _ 0] exI [of _ c]) simp
  next
    case False
    obtain c1 where c1: "conn_step (K c) (Ev_ready EPOLLOUT []) c = Inr c1" "conn_inv c1"
        "write_effect (K c) c c1"
      using write_event [OF net(1) [of c] less.prems False] by blast
    obtain m where m: "0 < m" "net_write (K c) (tc_calls c) (length ?d) = Written m"
      using net(2) [of c] False unfolding net_progress_def by (metis length_greater_0_conv)
    then have ml: "m \<le> length ?d" using net(1) [of c] by (auto simp: net_ok_def)
    have "tc_sent c1 @ content (tc_out c1) = tc_accepted c1" "tc_sent c @ ?d = tc_accepted c"
      using c1(2) less.prems(1) by (simp_all add: inv_defs)
    moreover have "tc_sent c1 = tc_sent c @ take m ?d" "tc_accepted c1 = tc_accepted c"
        "tc_state c1 = tc_state c"
      using c1(3) m(2) by (simp_all add: write_effect_def)
    ultimately have "tc_sent c @ (take m ?d @ content (tc_out c1)) = tc_sent c @ ?d" by simp
    then have rest: "take m ?d @ content (tc_out c1) = ?d" by (simp only: same_append_eq)
    then have "content (tc_out c1) = drop m ?d"
      by (metis append_take_drop_id same_append_eq)
    then have lt: "length (content (tc_out c1)) < length ?d" and emp: "content (tc_out c1) = [] \<longleftrightarrow> m = length ?d"
      using m(1) ml False by auto
    have st1: "tc_state c1 \<noteq> kDisconnected" using less.prems(2) c1(3) by (simp add: write_effect_def)
    obtain n c' where n: "n \<le> length (content (tc_out c1))"
        "write_events K n c1 = Inr c'" "conn_inv c'"
        "content (tc_out c') = []" "tc_accepted c' = tc_accepted c1" "tc_state c' = tc_state c1"
        "content (tc_out c1) \<noteq> [] \<longrightarrow> tc_state c1 = kDisconnecting \<longrightarrow> tc_shut c'"
      using less.hyps [OF lt c1(2) st1] by blast
    have "tc_shut c'" if "tc_state c = kDisconnecting"
    proof (cases "content (tc_out c1) = []")
      case True
      then have "n = 0" using n(1) by simp
      then have "c' = c1" using n(2) by simp
      with True emp m(2) c1(3) that show ?thesis by (simp add: write_effect_def)
    next
      case False
      with n(7) c1(3) that show ?thesis by (simp add: write_effect_def)
    qed
    moreover have "Suc n \<le> length ?d" using n(1) lt by simp
    moreover have "write_events K (Suc n) c = Inr c'"
      using c1(1) n(2) by simp
    moreover have "tc_accepted c1 = tc_accepted c" "tc_state c1 = tc_state c"
      using c1(3) m(2) by (simp_all add: write_effect_def)
    ultimately show ?thesis
      using n(3-6) by (intro exI [of _ "Suc n"] exI [of _ c']) simp
  qed
qed

lemma drain:
  assumes "net_ok net" "net_progress net" and "conn_inv c" and "tc_state c \<noteq> kDisconnected"
  shows "\<exists>n c'. n \<le> length (content (tc_out c)) \<and>
     conn_run net (replicate n (Ev_ready EPOLLOUT [])) c = Inr c' \<and> conn_inv c' \<and>
     content (tc_out c') = [] \<and> tc_accepted c' = tc_accepted c \<and> tc_state c' = tc_state c \<and>
     (content (tc_out c) \<noteq> [] \<longrightarrow> tc_state c = kDisconnecting \<longrightarrow> tc_shut c')"
  using drain_events [OF assms(1,2), of c] assms(3,4) unfolding write_events_run by blast

section \<open>What a send does\<close>

text \<open>
  How many bytes go to the socket at once, and what is queued behind the pending output; whether the
  write-complete callback is scheduled; whether the queue passes the high-water mark.
\<close>

definition send_effect :: "net \<Rightarrow> byte list \<Rightarrow> tcp_conn \<Rightarrow> nat \<times> byte list" where
  "send_effect net d c =
     (if content (tc_out c) \<noteq> [] then (0, d)
      else case net_write net (tc_calls c) (length d) of
          Written n \<Rightarrow> (n, drop n d)
        | Write_failed er \<Rightarrow> (0, if er = EPIPE \<or> er = ECONNRESET then [] else d))"

definition send_completes :: "net \<Rightarrow> byte list \<Rightarrow> tcp_conn \<Rightarrow> conn_task list" where
  "send_completes net d c =
     (if content (tc_out c) = [] \<and> net_write net (tc_calls c) (length d) = Written (length d) \<and> tc_wcb c
      then [Write_complete] else [])"

definition mark_passed :: "byte list \<Rightarrow> tcp_conn \<Rightarrow> conn_task list" where
  "mark_passed rest c =
     (let old = length (content (tc_out c)); new = old + length rest in
      if rest \<noteq> [] \<and> tc_hcb c \<and> old < unat (tc_mark c) \<and> unat (tc_mark c) \<le> new
      then [High_water (word_of_nat new)] else [])"

lemma direct_write_exact:
  assumes net: "net_ok net" and inv: "conn_inv c" and st: "tc_state c \<noteq> kDisconnected" and nshut: "\<not> tc_shut c"
    and len: "length d < 2 ^ 63"
  shows "\<exists>k f. direct_write net d c = Inr (fst (send_effect net d c), f,
       c\<lparr>tc_calls := k, tc_sent := tc_sent c @ take (fst (send_effect net d c)) d,
         tc_tasks := tc_tasks c @ send_completes net d c\<rparr>) \<and>
     snd (send_effect net d c) = (if f then [] else drop (fst (send_effect net d c)) d)"
proof (cases "content (tc_out c) = []")
  case False
  then have "isWriting (tc_channel c)" using inv st by (simp add: inv_defs)
  with False show ?thesis
    by (intro exI [of _ "tc_calls c"] exI [of _ False]) (simp add: direct_write_def send_effect_def send_completes_def)
next
  case True
  have w: "\<not> isWriting (tc_channel c)" using inv st True by (simp add: inv_defs)
  have r0: "readableBytes (tc_out c) = 0" using readable_zero conn_inv_bufs [OF inv] True by blast
  show ?thesis
  proof (cases "net_write net (tc_calls c) (length d)")
    case (Written n)
    then have n: "n \<le> length d" using net by (auto simp: net_ok_def)
    have "vec_size (drop n d) = 0 \<longleftrightarrow> n = length d" using vec_size_zero [of "drop n d"] len n by auto
    with Written True w r0 nshut show ?thesis
      by (intro exI [of _ "tc_calls c + 1"] exI [of _ False])
        (auto simp: direct_write_def send_effect_def send_completes_def sock_write_def Let_def queue_task_def)
  next
    case (Write_failed er)
    with True w r0 nshut show ?thesis
      by (intro exI [of _ "tc_calls c + 1"] exI [of _ "er = EPIPE \<or> er = ECONNRESET"])
        (auto simp: direct_write_def send_effect_def send_completes_def sock_write_def Let_def)
  qed
qed

lemma mark_passed_word:
  assumes "buffer_inv b" "content b = content (tc_out c) @ rest" "buffer_inv (tc_out c)" "length rest < 2 ^ 63"
  shows "mark_passed rest c =
    (if rest \<noteq> [] \<and> tc_hcb c \<and> readableBytes (tc_out c) < tc_mark c \<and> tc_mark c \<le> readableBytes (tc_out c) + vec_size rest
     then [High_water (readableBytes (tc_out c) + vec_size rest)] else [])"
proof -
  have u: "unat (readableBytes (tc_out c)) = length (content (tc_out c))" "unat (vec_size rest) = length rest"
      "unat (readableBytes b) = length (content (tc_out c)) + length rest"
    using buffer_invD(6) [OF assms(1)] buffer_invD(6) [OF assms(3)] assms(2) unat_vec_size [of rest] assms(4) by simp_all
  have "length (content (tc_out c)) + length rest < 2 ^ 64"
    using unat_size_lt [of "readableBytes b"] u(3) by simp
  then have s: "unat (readableBytes (tc_out c) + vec_size rest) = length (content (tc_out c)) + length rest"
    using u(1,2) by (simp add: unat_word_ariths)
  then have "readableBytes (tc_out c) + vec_size rest = word_of_nat (length (content (tc_out c)) + length rest)"
    unfolding s [symmetric] by simp
  then show ?thesis using u s by (simp add: mark_passed_def Let_def word_less_nat_alt word_le_nat_alt)
qed

lemma send_exact:
  assumes net: "net_ok net" and inv: "conn_inv c" and st: "tc_state c \<noteq> kDisconnected" and nshut: "\<not> tc_shut c"
    and len: "length d < 2 ^ 63" and run: "sendInLoop net d c = Inr c'" and e: "send_effect net d c = (n, rest)"
  shows "tc_sent c' = tc_sent c @ take n d \<and> content (tc_out c') = content (tc_out c) @ rest \<and>
    tc_tasks c' = tc_tasks c @ send_completes net d c @ mark_passed rest c"
proof -
  obtain k f where w: "direct_write net d c = Inr (n, f, c\<lparr>tc_calls := k, tc_sent := tc_sent c @ take n d,
         tc_tasks := tc_tasks c @ send_completes net d c\<rparr>)" and rest: "rest = (if f then [] else drop n d)"
    using direct_write_exact [OF net inv st nshut len] unfolding e fst_conv snd_conv by blast
  define c1 where "c1 = c\<lparr>tc_calls := k, tc_sent := tc_sent c @ take n d,
         tc_tasks := tc_tasks c @ send_completes net d c\<rparr>"
  have c1: "tc_out c1 = tc_out c" "tc_mark c1 = tc_mark c" "tc_hcb c1 = tc_hcb c" "tc_sent c1 = tc_sent c @ take n d"
      "tc_tasks c1 = tc_tasks c @ send_completes net d c"
    by (simp_all add: c1_def)
  have vz: "vec_size (drop n d) = 0 \<longleftrightarrow> drop n d = []" using vec_size_zero [of "drop n d"] len by simp
  have bi: "buffer_inv (tc_out c)" using conn_inv_bufs [OF inv] by simp
  note w' = w [folded c1_def]
  show ?thesis
  proof (cases "rest = []")
    case True
    then have "c' = (if f then c1 else c1\<lparr>tc_accepted := tc_accepted c1 @ d\<rparr>)"
      using run st rest vz by (auto simp: sendInLoop_def w' Let_def split: if_splits)
    with True show ?thesis by (simp add: c1 mark_passed_def)
  next
    case False
    then have f: "\<not> f" "rest = drop n d" "0 < vec_size rest" using rest vz by (auto simp: word_gt_0 split: if_splits)
    let ?old = "readableBytes (tc_out c)"
    let ?hw = "tc_hcb c \<and> ?old < tc_mark c \<and> tc_mark c \<le> ?old + vec_size rest"
    define c2 where "c2 = (if ?hw then queue_task (High_water (?old + vec_size rest)) c1 else c1)"
    have "bindE (buffer_append (tc_out c2) rest) (\<lambda>b.
        on_channel enableWrite (c2\<lparr>tc_out := b, tc_accepted := tc_accepted c2 @ d\<rparr>)) = Inr c'"
      using run st f by (cases ?hw) (auto simp: sendInLoop_def w' Let_def c1 c2_def)
    then obtain b where b: "buffer_append (tc_out c2) rest = Inr b"
        "on_channel enableWrite (c2\<lparr>tc_out := b, tc_accepted := tc_accepted c2 @ d\<rparr>) = Inr c'"
      by (auto simp: bindE_Inr_iff)
    have l: "length rest < 2 ^ 63" using len f(2) by simp
    have "tc_out c2 = tc_out c" by (simp add: c2_def c1)
    then have p: "buffer_inv b" "content b = content (tc_out c) @ rest"
      using buffer_stream.put_Inr [OF bi l] b(1) by simp_all
    have "tc_tasks c2 = tc_tasks c @ send_completes net d c @ mark_passed rest c" "tc_sent c2 = tc_sent c @ take n d"
      using False by (simp_all add: c2_def c1 mark_passed_word [OF p bi l])
    with b(2) p show ?thesis by (auto simp: on_channel_def bindE_Inr_iff split: prod.splits)
  qed
qed

section \<open>Properties\<close>

text \<open>The network of the witnesses: the first \<open>write\<close> takes one byte, later ones take all.\<close>

definition slow_net :: net where
  "slow_net = \<lparr>net_write = \<lambda>k n. Written (if k = 0 then min 1 n else n), net_read = \<lambda>_ _. Io_bytes []\<rparr>"

lemma slow_net_ok: "net_ok slow_net" "net_progress slow_net"
  by (auto simp: slow_net_def net_ok_def net_progress_def)

lemma pending_conn:
  "\<exists>c0 c. conn_up 9 True False 0 = Inr c0 \<and> conn_inv c0 \<and> tc_state c0 = kConnected \<and>
     content (tc_out c0) = [] \<and> \<not> tc_shut c0 \<and> tc_calls c0 = 0 \<and> tc_tasks c0 = [] \<and>
     \<not> isWriting (tc_channel c0) \<and> readableBytes (tc_out c0) = 0 \<and> tc_sent c0 = [] \<and>
     tc_received c0 = [] \<and> tc_wcb c0 \<and> \<not> tc_hcb c0 \<and>
     sendInLoop slow_net [1, 2, 3] c0 = Inr c \<and>
     conn_reach slow_net c0 (Inr c) \<and> content (tc_out c) = [2, 3] \<and> tc_accepted c = [1, 2, 3] \<and>
     tc_state c = kConnected"
proof -
  obtain c0 where c0: "conn_up 9 True False 0 = Inr c0" "conn_inv c0" "tc_state c0 = kConnected"
      "content (tc_out c0) = []" "tc_sent c0 = []" "tc_accepted c0 = []" "tc_tasks c0 = []"
      "tc_received c0 = []"
      "\<not> tc_shut c0" "tc_calls c0 = 0" "length (buf_data (tc_out c0)) = 1032" "\<not> tc_hcb c0" "tc_wcb c0"
      "tc_channel c0 = \<lparr>ch_polling = True, ch_fd = 9, ch_events = 3, ch_revents = 0, ch_tied = True,
                     ch_handling = False\<rparr>"
    using conn_up_spec [of 9 True False 0] by auto
  have bi: "buffer_inv (tc_out c0)" using conn_inv_bufs [OF c0(2)] by simp
  have fits: "buffer_fits (tc_out c0) (length [2 :: byte, 3])"
    using buffer_invD [OF bi] c0(11) by (simp add: buffer_fits_def vec_max_size_val)
  obtain b where b: "buffer_append (tc_out c0) [2, 3] = Inr b" "content b = [2, 3]"
    using buffer_append_spec [OF bi, of "[2, 3]"] fits c0(4) by auto
  have v: "vec_size [2 :: byte, 3] = 2" by (simp add: vec_size_def)
  have r0: "readableBytes (tc_out c0) = 0" using readable_zero [OF bi] c0(4) by simp
  obtain c where c: "sendInLoop slow_net [1, 2, 3] c0 = Inr c" "tc_out c = b"
      "tc_accepted c = [1, 2, 3]" "tc_state c = kConnected"
    using c0 b v r0
    by (simp add: sendInLoop_def direct_write_def sock_write_def slow_net_def isWriting_def has_def
        on_channel_def enableWrite_def updateChannel_def isNoneEvent_def Let_def)
  have "conn_reach slow_net c0 (Inr c)"
    unfolding conn_reach_def
    by (rule reach_first, rule exI [of _ "Ev_user (U_send [1, 2, 3])"])
       (simp add: conn_send_def c0(3) c(1))
  moreover have "\<not> isWriting (tc_channel c0)" by (simp add: c0(14) isWriting_def has_def)
  ultimately show ?thesis using c0 c b r0 by blast
qed

text \<open>C2. A connection that \<open>connectEstablished\<close> brought up never aborts the process, whatever
  its users send, stop, start, shut down or close, from the loop or from other threads, and
  whatever the kernel answers: of all assertions in \<open>TcpConnection\<close>, \<open>Channel\<close> and \<open>Buffer\<close> none
  fails, as long as a closed connection is left alone (\<open>ev_ok\<close>). Only memory may run out, as the
  exception of the vector.\<close>
theorem connection_safe:
  assumes "net_ok net" and "conn_up fd wcb hcb mark = Inr c0" and "conn_reach net c0 r"
  shows "case r of Inl e \<Rightarrow> e = Exception ''length_error'' | Inr c \<Rightarrow> tc_state c \<noteq> kConnecting"
  using conn_reach_inv [OF assms] by (cases r) (simp_all add: conn_inv_def)

theorem connection_safe_witness:
  "\<exists>c0 c. conn_up 9 True False 0 = Inr c0 \<and> conn_reach slow_net c0 (Inr c) \<and>
     content (tc_out c) = [2, 3] \<and> tc_state c \<noteq> kConnecting"
  using pending_conn connection_safe [OF slow_net_ok(1)] by fastforce

text \<open>C1. A connection is two byte streams. What was written to the socket followed by what waits
  in the output buffer is exactly what \<open>sendInLoop\<close> accepted, in order; what the message callback
  consumed followed by what waits in the input buffer is exactly what was read. Nothing is lost,
  duplicated or reordered, however the writes are split and the calls interleave.\<close>
theorem connection_streams:
  assumes "net_ok net" and "conn_up fd wcb hcb mark = Inr c0" and "conn_reach net c0 (Inr c)"
  shows "tc_sent c @ content (tc_out c) = tc_accepted c \<and>
         tc_consumed c @ content (tc_in c) = tc_received c"
  using conn_reach_inv [OF assms] by (simp add: inv_defs)

theorem connection_streams_witness:
  "\<exists>c0 c. conn_up 9 True False 0 = Inr c0 \<and> conn_reach slow_net c0 (Inr c) \<and>
     content (tc_out c) = [2, 3] \<and> tc_sent c = [1]"
proof -
  obtain c0 c where c: "conn_up 9 True False 0 = Inr c0" "conn_reach slow_net c0 (Inr c)"
      "content (tc_out c) = [2, 3]" "tc_accepted c = [1, 2, 3]"
    using pending_conn by blast
  from connection_streams [OF slow_net_ok(1) c(1,2)] c(3,4) have "tc_sent c @ [2, 3] = [1] @ [2, 3]"
    by simp
  then have "tc_sent c = [1]" by (simp only: append_same_eq)
  with c show ?thesis by blast
qed

text \<open>C25. While a connection is open its descriptor is registered with the kernel, for urgent data
  at least and for writing exactly when output is pending, and the close callback was not called.
  Once it is closed the descriptor is not registered any more and the close callback was called
  exactly once. This holds as long as a closed connection is left alone (\<open>ev_ok\<close>), and \<open>startRead\<close>
  is what ends it: called on a closed connection, or run there as a task from when it was open, it
  registers the descriptor again, for reading, though the connection stays closed.\<close>
theorem connection_registration:
  assumes "net_ok net" and "conn_up fd wcb hcb mark = Inr c0" and "conn_reach net c0 (Inr c)"
  shows "if tc_state c = kDisconnected
         then kernel_replay (tc_ctl c) None = Some None \<and> tc_closed c = 1 \<and>
              (\<exists>c' e. startReadInLoop c = Inr c' \<and> tc_state c' = kDisconnected \<and>
                 kernel_replay (tc_ctl c') None = Some (Some e) \<and> has e EPOLLIN)
         else (\<exists>e. kernel_replay (tc_ctl c) None = Some (Some e) \<and> has e EPOLLPRI \<and>
                  (has e EPOLLOUT \<longleftrightarrow> content (tc_out c) \<noteq> [])) \<and> tc_closed c = 0"
proof (cases "tc_state c = kDisconnected")
  case True
  have inv: "conn_inv c" using conn_reach_inv [OF assms] by simp
  then have "kernel_replay (tc_ctl c) None = Some None" "tc_closed c = 1"
    using True by (simp_all add: inv_defs ch_reg_def)
  with True startRead_closed [OF inv True] show ?thesis by auto
next
  case False
  with conn_reach_inv [OF assms] show ?thesis
    by (auto simp: inv_defs ch_reg_def isWriting_def split: if_splits)
qed

theorem connection_registration_witness:
  "\<exists>c0 c e. conn_up 9 True False 0 = Inr c0 \<and> conn_reach slow_net c0 (Inr c) \<and>
     kernel_replay (tc_ctl c) None = Some (Some e) \<and> has e EPOLLOUT"
proof -
  obtain c0 c where c: "conn_up 9 True False 0 = Inr c0" "conn_reach slow_net c0 (Inr c)"
      "content (tc_out c) = [2, 3]" "tc_state c = kConnected"
    using pending_conn by blast
  from connection_registration [OF slow_net_ok(1) c(1,2)] c(3,4)
  have "\<exists>e. kernel_replay (tc_ctl c) None = Some (Some e) \<and> has e EPOLLOUT" by auto
  with c(1,2) show ?thesis by blast
qed

text \<open>C28. \<open>shutdown\<close> is graceful: by the time \<open>SHUT_WR\<close> is issued the connection is no longer
  connected and every byte that \<open>sendInLoop\<close> accepted has been written.\<close>
theorem connection_fin_last:
  assumes "net_ok net" and "conn_up fd wcb hcb mark = Inr c0" and "conn_reach net c0 (Inr c)"
    and "tc_shut c"
  shows "tc_sent c = tc_accepted c \<and> kDisconnecting \<le> tc_state c"
  using conn_reach_inv [OF assms(1-3)] assms(4) by (auto simp: inv_defs)

theorem connection_fin_last_witness:
  "\<exists>c0 c. conn_up 9 True False 0 = Inr c0 \<and> conn_reach slow_net c0 (Inr c) \<and> tc_shut c \<and>
     tc_sent c = [5] \<and> tc_accepted c = [5]"
proof -
  obtain c0 where c0: "conn_up 9 True False 0 = Inr c0" "tc_state c0 = kConnected" "\<not> tc_shut c0"
      "tc_calls c0 = 0" "\<not> isWriting (tc_channel c0)" "readableBytes (tc_out c0) = 0"
      "tc_sent c0 = []"
    using pending_conn by blast
  obtain c1 where c1: "conn_step slow_net (Ev_user (U_send [5])) c0 = Inr c1" "tc_sent c1 = [5]"
      "tc_state c1 = kConnected" "\<not> isWriting (tc_channel c1)"
    using c0(2-) by (simp add: conn_send_def sendInLoop_def direct_write_def sock_write_def
        slow_net_def vec_size_def Let_def)
  obtain c where c: "conn_step slow_net (Ev_user U_shutdown) c1 = Inr c" "tc_sent c = [5]" "tc_shut c"
    using c1(2-) by (simp add: closing_defs shutdownInLoop_def assertE_def)
  have "conn_reach slow_net c0 (Inr c1)"
    unfolding conn_reach_def
    by (rule reach_first, rule exI [of _ "Ev_user (U_send [5])"]) (simp only: c1(1), simp)
  then have r: "conn_reach slow_net c0 (Inr c)"
    unfolding conn_reach_def
    by (rule reach_step, intro exI [of _ "Ev_user U_shutdown"]) (use c(1) c1(3) in simp)
  from connection_fin_last [OF slow_net_ok(1) c0(1) r c(3)] c0(1) r c(2,3) show ?thesis by force
qed

text \<open>C24. Pending output is drained: if every \<open>write\<close> of the kernel takes at least a byte, then
  after at most one readiness notification per pending byte the output buffer is empty, everything
  accepted has been written, and a \<open>shutdown\<close> that was waiting for it has been carried out.\<close>
theorem connection_drains:
  assumes "net_ok net" and "net_progress net" and "conn_up fd wcb hcb mark = Inr c0"
    and "conn_reach net c0 (Inr c)" and "tc_state c \<noteq> kDisconnected"
  shows "\<exists>n c'. n \<le> length (content (tc_out c)) \<and>
     conn_run net (replicate n (Ev_ready EPOLLOUT [])) c = Inr c' \<and>
     content (tc_out c') = [] \<and> tc_sent c' = tc_accepted c \<and>
     (content (tc_out c) \<noteq> [] \<longrightarrow> tc_state c = kDisconnecting \<longrightarrow> tc_shut c')"
proof -
  have "conn_inv c" using conn_reach_inv [OF assms(1,3,4)] by simp
  then obtain n c' where n: "n \<le> length (content (tc_out c))"
      "conn_run net (replicate n (Ev_ready EPOLLOUT [])) c = Inr c'" "conn_inv c'"
      "content (tc_out c') = []" "tc_accepted c' = tc_accepted c"
      "content (tc_out c) \<noteq> [] \<longrightarrow> tc_state c = kDisconnecting \<longrightarrow> tc_shut c'"
    using drain [OF assms(1,2) _ assms(5)] by metis
  have "tc_sent c' = tc_accepted c" using n(3-5) by (simp add: inv_defs)
  with n show ?thesis by blast
qed

theorem connection_drains_witness:
  "\<exists>c0 c n c'. conn_up 9 True False 0 = Inr c0 \<and> conn_reach slow_net c0 (Inr c) \<and>
     content (tc_out c) = [2, 3] \<and>
     conn_run slow_net (replicate n (Ev_ready EPOLLOUT [])) c = Inr c' \<and> tc_sent c' = [1, 2, 3]"
proof -
  obtain c0 c where c: "conn_up 9 True False 0 = Inr c0" "conn_reach slow_net c0 (Inr c)"
      "content (tc_out c) = [2, 3]" "tc_accepted c = [1, 2, 3]" "tc_state c = kConnected"
    using pending_conn by blast
  then have "tc_state c \<noteq> kDisconnected" by simp
  from connection_drains [OF slow_net_ok c(1,2) this] c show ?thesis by metis
qed

text \<open>C27. What \<open>send\<close> does on every path. On a connection that is not connected: nothing. From
  another thread: it leaves a task. In the loop thread: behind pending output the data are queued and the
  socket is not touched; otherwise they are written at once, what the kernel took is sent and
  exactly the rest is queued; after \<open>EAGAIN\<close> and unknown errors all of it is queued, after \<open>EPIPE\<close> and
  \<open>ECONNRESET\<close> it is dropped (\<open>send_effect\<close>). The write-complete callback is scheduled if it is set and
  the kernel took everything at once, and only then; the high-water callback if it is set and the pending output
  passes the mark, with the new length, and only then; nothing else is scheduled. It fails only for lack of memory.\<close>
theorem connection_send:
  assumes "net_ok net" and "conn_up fd wcb hcb mark = Inr c0" and "conn_reach net c0 (Inr c)"
    and "length d < 2 ^ 63"
  shows "if tc_state c \<noteq> kConnected then conn_send net il d c = Inr c
    else if \<not> il then conn_send net il d c = Inr (c\<lparr>tc_tasks := tc_tasks c @ [Send_in_loop d]\<rparr>)
    else case conn_send net il d c of
        Inl e \<Rightarrow> e = Exception ''length_error''
      | Inr c' \<Rightarrow> (case send_effect net d c of (n, rest) \<Rightarrow>
          tc_sent c' = tc_sent c @ take n d \<and> content (tc_out c') = content (tc_out c) @ rest \<and>
          tc_tasks c' = tc_tasks c @ send_completes net d c @ mark_passed rest c \<and>
          tc_state c' = kConnected \<and> (isWriting (tc_channel c') \<longleftrightarrow> content (tc_out c') \<noteq> []))"
proof (cases "tc_state c = kConnected \<and> il")
  case False
  then show ?thesis by (auto simp: conn_send_def queue_task_def)
next
  case True
  have inv: "conn_inv c" using conn_reach_inv [OF assms(1-3)] by simp
  then have c: "\<not> tc_shut c" "tc_state c \<noteq> kDisconnected" using True by (auto simp: inv_defs)
  have s: "conn_send net il d c = sendInLoop net d c" using True by (simp add: conn_send_def)
  note i = sendInLoop_spec [OF assms(1) inv assms(4)]
  obtain n rest where e: "send_effect net d c = (n, rest)" by (cases "send_effect net d c")
  show ?thesis
  proof (cases "sendInLoop net d c")
    case (Inl x)
    with i True s show ?thesis by simp
  next
    case (Inr c')
    then have "conn_inv c'" "tc_state c' = kConnected" using i True by simp_all
    then have "isWriting (tc_channel c') \<longleftrightarrow> content (tc_out c') \<noteq> []" by (simp add: inv_defs)
    with send_exact [OF assms(1) inv c(2,1) assms(4) Inr e] True s Inr e \<open>tc_state c' = kConnected\<close>
    show ?thesis by simp
  qed
qed

theorem connection_send_witness:
  "\<exists>c0 c'. conn_up 9 True False 0 = Inr c0 \<and> conn_send slow_net True [1, 2, 3] c0 = Inr c' \<and>
     tc_sent c' = [1] \<and> content (tc_out c') = [2, 3] \<and> tc_tasks c' = []"
proof -
  obtain c0 c where c: "conn_up 9 True False 0 = Inr c0" "tc_state c0 = kConnected"
      "content (tc_out c0) = []" "tc_sent c0 = []" "tc_calls c0 = 0" "tc_tasks c0 = []" "\<not> tc_hcb c0"
      "sendInLoop slow_net [1, 2, 3] c0 = Inr c"
    using pending_conn by blast
  have r: "conn_reach slow_net c0 (Inr c0)" unfolding conn_reach_def by (rule reach_init)
  have s: "conn_send slow_net True [1, 2, 3] c0 = Inr c" using c(2,8) by (simp add: conn_send_def)
  have e: "send_effect slow_net [1, 2, 3] c0 = (1, [2, 3])" "send_completes slow_net [1, 2, 3] c0 = []"
      "mark_passed [2, 3] c0 = []"
    using c(3,5,7) by (simp_all add: send_effect_def send_completes_def mark_passed_def slow_net_def)
  have "length [1 :: byte, 2, 3] < 2 ^ 63" by simp
  from connection_send [OF slow_net_ok(1) c(1) r this, of True] c s e show ?thesis by simp
qed

text \<open>A \<open>send\<close> from another thread is lost when the loop thread calls \<open>shutdown\<close> before it
  runs the queued task: \<open>SHUT_WR\<close> overtakes the data, the later \<open>write\<close> fails with \<open>EPIPE\<close>, and
  the data are dropped without being written, queued or reported.\<close>
theorem remote_send_lost:
  assumes "net_ok net" and "conn_up fd wcb hcb mark = Inr c0" and "conn_reach net c0 (Inr c)"
    and "tc_state c = kConnected" and "content (tc_out c) = []" and "tc_tasks c = []"
  shows "\<exists>c'. conn_run net [Ev_remote (R_send d), Ev_user U_shutdown, Ev_task] c = Inr c' \<and>
     tc_shut c' \<and> tc_sent c' = tc_sent c \<and> content (tc_out c') = [] \<and> tc_tasks c' = []"
proof -
  have inv: "conn_inv c" using conn_reach_inv [OF assms(1-3)] by simp
  then have "readableBytes (tc_out c) = 0" "\<not> isWriting (tc_channel c)"
    using assms(4,5) readable_zero [of "tc_out c"] by (simp_all add: inv_defs)
  with assms(4-6) show ?thesis
    by (simp add: conn_send_def closing_defs shutdownInLoop_def
        sendInLoop_def direct_write_def sock_write_def Let_def assertE_def)
qed

theorem remote_send_lost_witness:
  "\<exists>c0 c'. conn_up 9 True False 0 = Inr c0 \<and>
     conn_run slow_net [Ev_remote (R_send [1, 2, 3]), Ev_user U_shutdown, Ev_task] c0 = Inr c' \<and>
     tc_sent c' = []"
proof -
  obtain c0 where c: "conn_up 9 True False 0 = Inr c0" "tc_state c0 = kConnected"
      "content (tc_out c0) = []" "tc_tasks c0 = []" "tc_sent c0 = []"
    using pending_conn by blast
  have r: "conn_reach slow_net c0 (Inr c0)" unfolding conn_reach_def by (rule reach_init)
  obtain c' where c': "conn_run slow_net [Ev_remote (R_send [1, 2, 3]), Ev_user U_shutdown, Ev_task] c0 = Inr c'"
      "tc_sent c' = tc_sent c0"
    using remote_send_lost [OF slow_net_ok(1) c(1) r c(2-4), of "[1, 2, 3]"] by blast
  have "tc_sent c' = []" using c'(2) c(5) by (rule trans)
  then show ?thesis using c(1) c'(1) by blast
qed

text \<open>A thread that calls \<open>shutdown\<close> or \<open>forceClose\<close> checks the state before it exchanges
  it. If the loop closes the connection in between, the exchange overwrites \<open>kDisconnected\<close>: the
  check had passed, the close went well, but the destructor's assertion now fails.\<close>
theorem shutdown_races_close:
  assumes "net_ok net" and "conn_up fd wcb hcb mark = Inr c0" and "conn_reach net c0 (Inr c)"
    and "tc_state c \<noteq> kDisconnected"
  shows "tc_state c \<le> kDisconnecting \<and>
     (\<exists>c1 c2. handleClose c = Inr c1 \<and> tc_state c1 = kDisconnected \<and>
        stateAtomicGetAndSet kDisconnecting c1 = (kDisconnected, c2) \<and>
        conn_dtor c2 = Inl (Assertion ''state_ == kDisconnected''))"
proof -
  have inv: "conn_inv c" using conn_reach_inv [OF assms(1-3)] by simp
  then have "ch_polling (tc_channel c)" "tc_state c = kConnected \<or> tc_state c = kDisconnecting"
    using assms(4) by (auto simp: inv_defs intro: conn_state.exhaust [of "tc_state c"])
  then show ?thesis
    by (auto simp: handleClose_def on_channel_def channel_op_defs updateChannel_def isNoneEvent_def
        stateAtomicGetAndSet_def conn_dtor_def assertE_def)
qed

theorem shutdown_races_close_witness:
  "\<exists>c0 c1 c2. conn_up 9 True False 0 = Inr c0 \<and> handleClose c0 = Inr c1 \<and>
     stateAtomicGetAndSet kDisconnecting c1 = (kDisconnected, c2) \<and>
     conn_dtor c2 = Inl (Assertion ''state_ == kDisconnected'')"
proof -
  obtain c0 where c: "conn_up 9 True False 0 = Inr c0" "tc_state c0 = kConnected"
    using pending_conn by blast
  have r: "conn_reach slow_net c0 (Inr c0)" unfolding conn_reach_def by (rule reach_init)
  have "tc_state c0 \<noteq> kDisconnected" using c(2) by simp
  from shutdown_races_close [OF slow_net_ok(1) c(1) r this] c(1) show ?thesis by blast
qed

text \<open>C40. A closed connection is not safe to leave to late events, because \<open>handleRead\<close> asserts
  that it is open: a hang-up reported without input but together with urgent data closes it and
  then reads it in the same dispatch, and \<open>startRead\<close> on a closed connection registers the
  descriptor again, whose next event reads it. Both abort the process.\<close>
theorem closed_connection_aborts:
  assumes "net_ok net" and "conn_up fd wcb hcb mark = Inr c0" and "conn_reach net c0 (Inr c)"
  shows "if tc_state c = kDisconnected
    then conn_run net [Ev_user U_start_read, Ev_ready EPOLLIN ops] c
           = Inl (Assertion ''state_ != kDisconnected'')
    else conn_step net (Ev_ready (EPOLLHUP OR EPOLLPRI) ops) c
           = Inl (Assertion ''state_ != kDisconnected'')"
proof (cases "tc_state c = kDisconnected")
  case True
  have inv: "conn_inv c" using conn_reach_inv [OF assms] by simp
  then have "\<not> ch_polling (tc_channel c)" "ch_events (tc_channel c) = 0"
    using True by (simp_all add: inv_defs)
  with True show ?thesis
    by (simp add: startReadInLoop_def isReading_def has_def on_channel_def channel_op_defs
        updateChannel_def isNoneEvent_def conn_ready_def handleEvent_def handleEventWithGuard_def
        conn_callbacks_def upd_channel_def set_revents_def call_when_def handleRead_def Let_def assertE_def)
next
  case False
  have inv: "conn_inv c" using conn_reach_inv [OF assms] by simp
  then have "ch_polling (tc_channel c)" "tc_state c = kConnected \<or> tc_state c = kDisconnecting"
    using False by (auto simp: inv_defs intro: conn_state.exhaust [of "tc_state c"])
  with False show ?thesis
    by (simp add: has_def on_channel_def channel_op_defs handleClose_def
        updateChannel_def isNoneEvent_def conn_ready_def handleEvent_def handleEventWithGuard_def
        conn_callbacks_def upd_channel_def set_revents_def call_when_def handleRead_def Let_def assertE_def)
qed

theorem closed_connection_aborts_witness:
  "\<exists>c0. conn_up 9 True False 0 = Inr c0 \<and>
     conn_step slow_net (Ev_ready (EPOLLHUP OR EPOLLPRI) []) c0
       = Inl (Assertion ''state_ != kDisconnected'')"
proof -
  obtain c0 where c: "conn_up 9 True False 0 = Inr c0" "tc_state c0 = kConnected"
    using pending_conn by blast
  have r: "conn_reach slow_net c0 (Inr c0)" unfolding conn_reach_def by (rule reach_init)
  from closed_connection_aborts [OF slow_net_ok(1) c(1) r, of "[]"] c
  have "conn_step slow_net (Ev_ready (EPOLLHUP OR EPOLLPRI) []) c0
       = Inl (Assertion ''state_ != kDisconnected'')"
    by (simp only: conn_state.distinct if_False)
  with c(1) show ?thesis by blast
qed

text \<open>C38. Sending a buffer is sending its readable bytes and, on a connected connection, emptying the
  buffer, from either thread, though the code reads the bytes in place in the loop thread and copies
  them out elsewhere. If the connection is not connected the buffer keeps what it holds.\<close>
theorem send_buffer_equivalent:
  assumes "buffer_inv b"
  shows "conn_send_buffer net il b c =
    bindE (conn_send net il (content b) c) (\<lambda>c1.
      Inr (if tc_state c = kConnected then retrieveAll b else b, c1)) \<and> content (retrieveAll b) = []"
  using read_all [OF assms] retrieveAll_spec [OF assms]
  by (simp add: conn_send_buffer_def conn_send_def retrieveAllAsString_def retrieveAsString_def
      retrieve_def)

theorem send_buffer_equivalent_witness:
  "\<exists>c0 b b' c'. conn_up 9 True False 0 = Inr c0 \<and> content b = [2, 3] \<and>
     conn_send_buffer slow_net False b c0 = Inr (b', c') \<and> content b' = [] \<and>
     tc_tasks c' = [Send_in_loop [2, 3]]"
proof -
  obtain c0 c where c: "conn_up 9 True False 0 = Inr c0" "conn_reach slow_net c0 (Inr c)"
      "content (tc_out c) = [2, 3]" "tc_state c0 = kConnected" "tc_tasks c0 = []"
    using pending_conn by blast
  have "conn_inv c" using conn_reach_inv [OF slow_net_ok(1) c(1,2)] by simp
  then have "buffer_inv (tc_out c)" by (simp add: inv_defs)
  from send_buffer_equivalent [OF this, of slow_net False c0] c show ?thesis
    by (auto simp: conn_send_def)
qed

end
