(* ===== verification/Connection_Spec.thy ===== *)
theory Connection_Spec
  imports Tcp_Connection "HOL-Library.Sublist"
begin

text \<open>
  What a connection promises, as a small abstract machine, and the proof that the model of
  \<open>TcpConnection\<close> refines it: every event of a connection is a sequence of abstract steps. The
  abstract connection knows nothing of buffers, channels, tasks or system calls: it has a phase
  that only advances, bytes pending and sent, bytes read and not yet consumed, and the end of
  its output.
\<close>

section \<open>The abstract connection\<close>

record spec_conn =
  sp_phase :: conn_state
  sp_pending :: "byte list"
  sp_sent :: "byte list"
  sp_unread :: "byte list"
  sp_fin :: bool

inductive spec_step :: "spec_conn \<Rightarrow> spec_conn \<Rightarrow> bool" where
  accept: "sp_phase a \<noteq> kDisconnected \<Longrightarrow> \<not> sp_fin a \<Longrightarrow>
    spec_step a (a\<lparr>sp_pending := sp_pending a @ d\<rparr>)"
| transmit: "sp_phase a \<noteq> kDisconnected \<Longrightarrow> \<not> sp_fin a \<Longrightarrow> sp_pending a = d @ p \<Longrightarrow>
    spec_step a (a\<lparr>sp_pending := p, sp_sent := sp_sent a @ d\<rparr>)"
| receive: "sp_phase a \<noteq> kDisconnected \<Longrightarrow> spec_step a (a\<lparr>sp_unread := sp_unread a @ d\<rparr>)"
| consume: "sp_unread a = d @ u \<Longrightarrow> spec_step a (a\<lparr>sp_unread := u\<rparr>)"
| advance: "sp_phase a \<le> p \<Longrightarrow> spec_step a (a\<lparr>sp_phase := p\<rparr>)"
| finish: "kDisconnecting \<le> sp_phase a \<Longrightarrow> sp_pending a = [] \<Longrightarrow>
    spec_step a (a\<lparr>sp_fin := True\<rparr>)"

abbreviation spec_steps :: "spec_conn \<Rightarrow> spec_conn \<Rightarrow> bool" where
  "spec_steps \<equiv> spec_step\<^sup>*\<^sup>*"

definition abs_conn :: "tcp_conn \<Rightarrow> spec_conn" where
  "abs_conn c =
     \<lparr>sp_phase = tc_state c, sp_pending = content (tc_out c), sp_sent = tc_sent c,
      sp_unread = content (tc_in c), sp_fin = tc_shut c\<rparr>"

section \<open>What every operation leaves in place\<close>

definition grows :: "tcp_conn \<Rightarrow> tcp_conn \<Rightarrow> bool" where
  "grows c c' \<longleftrightarrow>
     tc_state c \<le> tc_state c' \<and> prefix (tc_sent c) (tc_sent c') \<and>
     prefix (tc_accepted c) (tc_accepted c') \<and> prefix (tc_received c) (tc_received c') \<and>
     prefix (tc_consumed c) (tc_consumed c') \<and> prefix (tc_tasks c) (tc_tasks c') \<and> (tc_shut c \<longrightarrow> tc_shut c' \<and> tc_sent c' = tc_sent c) \<and>
     (tc_state c = kDisconnected \<longrightarrow> tc_sent c' = tc_sent c \<and> tc_accepted c' = tc_accepted c \<and>
        tc_received c' = tc_received c)"

lemma disconnected_top: "kDisconnected \<le> s \<longleftrightarrow> s = kDisconnected" "s \<le> kDisconnected"
  by (cases s; simp add: less_eq_conn_state_def)+

lemma grows_refl [simp]: "grows c c"
  by (simp add: grows_def)

lemma grows_trans: "grows c c' \<Longrightarrow> grows c' c'' \<Longrightarrow> grows c c''"
  unfolding grows_def
  by (auto simp: disconnected_top intro: prefix_order.trans order.trans)

text \<open>Changes of the other fields.\<close>

definition same_record :: "tcp_conn \<Rightarrow> tcp_conn \<Rightarrow> bool" where
  "same_record c c' \<longleftrightarrow>
     tc_state c' = tc_state c \<and> tc_sent c' = tc_sent c \<and> tc_accepted c' = tc_accepted c \<and>
     tc_received c' = tc_received c \<and> tc_consumed c' = tc_consumed c \<and> tc_tasks c' = tc_tasks c \<and>
     tc_shut c' = tc_shut c"

lemma same_record_grows: "same_record c c' \<Longrightarrow> grows c c'"
  by (simp add: same_record_def grows_def)

lemma on_channel_same: "on_channel f c = Inr c' \<Longrightarrow> same_record c c'"
  by (auto simp: on_channel_def res_simps same_record_def split: prod.splits)

lemmas on_channel_grows = on_channel_same [THEN same_record_grows]

lemma queue_task_grows [simp]: "grows c (queue_task t c)"
  by (simp add: grows_def)

text \<open>A write to the socket of an open connection.\<close>

lemma sock_write_grows:
  assumes "sock_write net d c = (r, c')" "tc_state c \<noteq> kDisconnected"
  shows "grows c c' \<and> tc_state c' = tc_state c \<and> tc_accepted c' = tc_accepted c"
  using assms
  by (auto simp: sock_write_def Let_def grows_def split: write_result.splits if_splits)

lemma direct_write_grows:
  assumes "direct_write net d c = Inr (n, f, c')" "tc_state c \<noteq> kDisconnected"
  shows "grows c c' \<and> tc_state c' = tc_state c \<and> tc_accepted c' = tc_accepted c"
proof (cases "isWriting (tc_channel c)")
  case True
  with assms show ?thesis by (simp add: direct_write_def)
next
  case False
  obtain r c1 where w: "sock_write net d c = (r, c1)" by (cases "sock_write net d c")
  note g = sock_write_grows [OF w assms(2)]
  consider "c' = c1" | "c' = queue_task Write_complete c1"
    using assms(1) False w by (auto simp: direct_write_def res_simps split: write_result.splits if_splits)
  then show ?thesis
  proof cases
    case 1
    with g show ?thesis by simp
  next
    case 2
    have "grows c c'" unfolding 2 using g queue_task_grows by (blast intro: grows_trans)
    with g 2 show ?thesis by simp
  qed
qed

lemma accept_grows:
  "tc_state c \<noteq> kDisconnected \<Longrightarrow> grows c (c\<lparr>tc_out := b, tc_accepted := tc_accepted c @ d\<rparr>)"
  "tc_state c \<noteq> kDisconnected \<Longrightarrow> grows c (c\<lparr>tc_accepted := tc_accepted c @ d\<rparr>)"
  by (simp_all add: grows_def)

text \<open>The ways through \<open>sendInLoop\<close>, \<open>handleWrite\<close> and an event: what each leaves behind.\<close>

lemma sendInLoop_paths:
  assumes "sendInLoop net d c = Inr c'" and st: "tc_state c \<noteq> kDisconnected"
  obtains n f c1 where "direct_write net d c = Inr (n, f, c1)"
    "c' = c1 \<or> c' = c1\<lparr>tc_accepted := tc_accepted c1 @ d\<rparr> \<or>
     (\<exists>c2 b t. (c2 = c1 \<or> c2 = queue_task t c1) \<and>
        on_channel enableWrite (c2\<lparr>tc_out := b, tc_accepted := tc_accepted c2 @ d\<rparr>) = Inr c')"
proof -
  obtain n f c1 where w: "direct_write net d c = Inr (n, f, c1)"
    using assms by (auto simp: sendInLoop_def bindE_Inr_iff)
  show thesis
  proof (cases "\<not> f \<and> 0 < vec_size (drop n d)")
    case True
    define t where "t = High_water (readableBytes (tc_out c1) + vec_size (drop n d))"
    define c2 where "c2 = (if tc_hcb c1 \<and> readableBytes (tc_out c1) < tc_mark c1 \<and>
        tc_mark c1 \<le> readableBytes (tc_out c1) + vec_size (drop n d) then queue_task t c1 else c1)"
    have "bindE (buffer_append (tc_out c2) (drop n d)) (\<lambda>b.
        on_channel enableWrite (c2\<lparr>tc_out := b, tc_accepted := tc_accepted c2 @ d\<rparr>)) = Inr c'"
      using assms st True w unfolding sendInLoop_def Let_def c2_def t_def by simp
    then obtain b where b: "on_channel enableWrite (c2\<lparr>tc_out := b, tc_accepted := tc_accepted c2 @ d\<rparr>) = Inr c'"
      unfolding bindE_Inr_iff by blast
    moreover have "c2 = c1 \<or> c2 = queue_task t c1" unfolding c2_def by (rule if_splits [THEN iffD2]) simp
    ultimately show thesis using that [OF w] by blast
  next
    case False
    then have "c' = c1 \<or> c' = c1\<lparr>tc_accepted := tc_accepted c1 @ d\<rparr>"
      using assms st w by (auto simp: sendInLoop_def Let_def split: if_splits)
    then show thesis using that [OF w] by blast
  qed
qed

definition write_done :: "tcp_conn \<Rightarrow> tcp_conn" where
  "write_done c =
     (let y = (if tc_state c = kDisconnecting then shutdownInLoop c else c)
      in if tc_wcb y then queue_task Write_complete y else y)"

lemma handleWrite_paths:
  assumes "handleWrite net c = Inr c'" and st: "tc_state c \<noteq> kDisconnected"
  obtains d r c1 where "sock_write net d c = (r, c1)"
    "c' = c1 \<or> (\<exists>b. c' = c1\<lparr>tc_out := b\<rparr>) \<or>
     (\<exists>b c3. on_channel disableWrite (c1\<lparr>tc_out := b\<rparr>) = Inr c3 \<and> c' = write_done c3)"
proof -
  obtain d where d: "mem_read (buf_data (tc_out c)) (unat (peek (tc_out c))) (unat (readableBytes (tc_out c))) = Inr d"
    using assms st by (auto simp: handleWrite_def assertE_def bindE_Inr_iff split: if_splits)
  obtain r c1 where w: "sock_write net d c = (r, c1)" by (cases "sock_write net d c")
  have rest: "(case (r, c1) of (Write_failed _, c1) \<Rightarrow> Inr c1
           | (Written n, c1) \<Rightarrow>
               bindE (retrieve (tc_out c1) (word_of_nat n)) (\<lambda>b.
               let c2 = c1\<lparr>tc_out := b\<rparr> in
               if readableBytes b = 0
               then bindE (on_channel disableWrite c2) (\<lambda>c3.
                      let c4 = (if tc_state c3 = kDisconnecting then shutdownInLoop c3 else c3)
                      in Inr (if tc_wcb c4 then queue_task Write_complete c4 else c4))
               else Inr c2)) = Inr c'"
    using assms st d w by (simp add: handleWrite_def assertE_def split: if_splits)
  show thesis
  proof (cases r)
    case (Write_failed e)
    with rest have "c' = c1" by simp
    then show thesis using that [OF w] by blast
  next
    case (Written n)
    with rest obtain b where b: "(if readableBytes b = 0
        then bindE (on_channel disableWrite (c1\<lparr>tc_out := b\<rparr>)) (\<lambda>c3.
               let c4 = (if tc_state c3 = kDisconnecting then shutdownInLoop c3 else c3)
               in Inr (if tc_wcb c4 then queue_task Write_complete c4 else c4))
        else Inr (c1\<lparr>tc_out := b\<rparr>)) = Inr c'"
      unfolding Written prod.case write_result.case bindE_Inr_iff [of "retrieve _ _"] Let_def by blast
    show thesis
    proof (cases "readableBytes b = 0")
      case False
      with b have "c' = c1\<lparr>tc_out := b\<rparr>" by simp
      then show thesis using that [OF w] by blast
    next
      case True
      with b obtain c3 where "on_channel disableWrite (c1\<lparr>tc_out := b\<rparr>) = Inr c3" "c' = write_done c3"
        unfolding if_P [OF True] bindE_Inr_iff write_done_def Let_def by blast
      then show thesis using that [OF w] by blast
    qed
  qed
qed

lemma conn_ready_paths:
  assumes "conn_ready net rv ops c = Inr c'"
  obtains f f' b e i w c1 c2 c3 c4 where
      "call_when b (Some handleClose) (upd_channel f (upd_channel (set_revents rv) c)) = Inr c1"
      "call_when e (Some handleError) c1 = Inr c2"
      "call_when i (Some (handleRead net (user_dos net ops))) c2 = Inr c3"
      "call_when w (Some (handleWrite net)) c3 = Inr c4" "c' = upd_channel f' c4"
  using assms
  unfolding conn_ready_def handleEvent_def handleEventWithGuard_def conn_callbacks_def Let_def
    callbacks.simps if_True if_cancel bindE_Inr_iff
  by (blast dest: sum.inject(2) [THEN iffD1, OF sym])

lemma sendInLoop_grows:
  assumes "sendInLoop net d c = Inr c'"
  shows "grows c c'"
proof (cases "tc_state c = kDisconnected")
  case True
  with assms show ?thesis by (simp add: sendInLoop_def)
next
  case False
  from sendInLoop_paths [OF assms False] obtain n f c1 where w: "direct_write net d c = Inr (n, f, c1)"
    and cs: "c' = c1 \<or> c' = c1\<lparr>tc_accepted := tc_accepted c1 @ d\<rparr> \<or>
      (\<exists>c2 b t. (c2 = c1 \<or> c2 = queue_task t c1) \<and>
        on_channel enableWrite (c2\<lparr>tc_out := b, tc_accepted := tc_accepted c2 @ d\<rparr>) = Inr c')" .
  have g: "grows c c1" "tc_state c1 \<noteq> kDisconnected" using direct_write_grows [OF w False] False by simp_all
  from cs consider (short) "c' = c1 \<or> c' = c1\<lparr>tc_accepted := tc_accepted c1 @ d\<rparr>"
    | (queued) c2 b t where "c2 = c1 \<or> c2 = queue_task t c1"
        "on_channel enableWrite (c2\<lparr>tc_out := b, tc_accepted := tc_accepted c2 @ d\<rparr>) = Inr c'" by blast
  then have "grows c1 c'"
  proof cases
    case short
    then show ?thesis using g(2) accept_grows(2) [of c1] by auto
  next
    case (queued c2 b t)
    note c2 = queued(1) and b = queued(2)
    have q: "grows c1 c2" "tc_state c2 \<noteq> kDisconnected" using c2 g(2) by auto
    from grows_trans [OF grows_trans [OF q(1) accept_grows(1) [OF q(2)]] on_channel_grows [OF b]]
    show ?thesis .
  qed
  with g(1) show ?thesis by (rule grows_trans)
qed

lemma state_grows: "tc_state c \<le> s \<Longrightarrow> grows c (c\<lparr>tc_state := s\<rparr>)"
  by (simp add: grows_def)

lemma shutdownInLoop_grows [simp]: "grows c (shutdownInLoop c)"
  by (simp add: shutdownInLoop_def grows_def)

lemma handleClose_grows:
  assumes "handleClose c = Inr c'"
  shows "grows c c'"
proof -
  obtain c1 where c1: "on_channel removeChannel (c\<lparr>tc_state := kDisconnected\<rparr>) = Inr c1"
      "c' = c1\<lparr>tc_closed := tc_closed c1 + 1\<rparr>"
    using assms by (auto simp: handleClose_def res_simps)
  have "grows c1 c'" by (simp add: c1(2) grows_def)
  with on_channel_grows [OF c1(1)] state_grows [of c kDisconnected] show ?thesis
    using grows_trans disconnected_top by metis
qed

lemma conn_send_grows: "conn_send net l d c = Inr c' \<Longrightarrow> grows c c'"
  by (auto simp: conn_send_def dest: sendInLoop_grows split: if_splits)

lemma disconnecting_grows:
  "tc_state c \<noteq> kDisconnected \<Longrightarrow> grows c (c\<lparr>tc_state := kDisconnecting\<rparr>)"
  by (rule state_grows) simp

lemma conn_shutdown_grows: "conn_shutdown l c = Inr c' \<Longrightarrow> grows c c'"
  using disconnecting_grows [of c] grows_trans [OF _ shutdownInLoop_grows] grows_trans [OF _ queue_task_grows]
  by (auto simp: closing_defs res_simps split: if_splits)

lemma conn_forceClose_grows: "grows c (conn_forceClose c)"
  using disconnecting_grows [of c] grows_trans [OF _ queue_task_grows]
  by (auto simp: closing_defs)

lemma conn_consume_grows: "conn_consume k c = Inr c' \<Longrightarrow> grows c c'"
  by (auto simp: conn_consume_def res_simps grows_def split: prod.splits)

lemma read_switch_grows:
  "stopReadInLoop c = Inr c' \<Longrightarrow> grows c c'" "startReadInLoop c = Inr c' \<Longrightarrow> grows c c'"
  by (auto simp: stopReadInLoop_def startReadInLoop_def dest: on_channel_grows split: if_splits)

lemma user_do_grows: "user_do net op c = Inr c' \<Longrightarrow> grows c c'"
  using conn_send_grows conn_shutdown_grows conn_forceClose_grows conn_consume_grows read_switch_grows
  by (cases op) auto

lemma user_dos_grows: "user_dos net ops c = Inr c' \<Longrightarrow> grows c c'"
proof (induction ops arbitrary: c)
  case (Cons op ops)
  then obtain c1 where "user_do net op c = Inr c1" "user_dos net ops c1 = Inr c'"
    by (auto simp: bindE_Inr_iff)
  with Cons.IH [of c1] user_do_grows [of net op c c1] show ?case using grows_trans by blast
qed simp

lemma handleRead_grows:
  assumes "handleRead net (user_dos net ops) c = Inr c'"
  shows "grows c c'"
proof -
  let ?r = "net_read net (tc_calls c) (readv_room (tc_in c))"
  obtain b n e where rd: "readFd (tc_in c) ?r = Inr (b, n, e)" and st: "tc_state c \<noteq> kDisconnected"
    using assms by (auto simp: handleRead_def Let_def res_simps)
  define c1 where "c1 = c\<lparr>tc_in := b, tc_calls := tc_calls c + 1,
      tc_received := tc_received c @ (case ?r of Io_bytes bs \<Rightarrow> bs | Io_failed _ \<Rightarrow> [])\<rparr>"
  have "grows c c1" using st by (simp add: c1_def grows_def)
  moreover have "grows c1 c'"
    using assms rd handleClose_grows [of c1 c'] user_dos_grows [of net ops c1 c']
    by (auto simp: handleRead_def Let_def handleError_def c1_def res_simps split: if_splits)
  ultimately show ?thesis by (rule grows_trans)
qed

lemma handleWrite_grows:
  assumes "handleWrite net c = Inr c'"
  shows "grows c c'"
proof (cases "tc_state c = kDisconnected")
  case True
  with assms show ?thesis by (simp add: handleWrite_def)
next
  case False
  from handleWrite_paths [OF assms False] obtain d r c1 where w: "sock_write net d c = (r, c1)"
    and cs: "c' = c1 \<or> (\<exists>b. c' = c1\<lparr>tc_out := b\<rparr>) \<or>
     (\<exists>b c3. on_channel disableWrite (c1\<lparr>tc_out := b\<rparr>) = Inr c3 \<and> c' = write_done c3)" .
  have out: "grows c1 (c1\<lparr>tc_out := b\<rparr>)" for b by (simp add: grows_def)
  have fin: "grows x (write_done x)" for x
    by (simp add: write_done_def Let_def grows_def shutdownInLoop_def queue_task_def)
  from cs have "grows c1 c'"
  proof (elim disjE exE conjE)
    fix b c3 assume c3: "on_channel disableWrite (c1\<lparr>tc_out := b\<rparr>) = Inr c3" "c' = write_done c3"
    have "grows c1 c3" using out [of b] on_channel_grows [OF c3(1)] by (rule grows_trans)
    then show ?thesis unfolding c3(2) using fin by (rule grows_trans)
  qed (use out in simp_all)
  with sock_write_grows [OF w False] show ?thesis using grows_trans by blast
qed

lemma upd_channel_grows [simp]: "grows c (upd_channel f c)"
  by (simp add: same_record_grows same_record_def upd_channel_def)

lemma call_when_grows:
  assumes "call_when b (Some f) c = Inr c'" and "f c = Inr c' \<Longrightarrow> grows c c'"
  shows "grows c c'"
  using assms by (cases b) (simp_all add: call_when_def)

lemma conn_ready_grows:
  assumes "conn_ready net rv ops c = Inr c'"
  shows "grows c c'"
proof -
  obtain f f' b e i w c1 c2 c3 c4 where
      h: "call_when b (Some handleClose) (upd_channel f (upd_channel (set_revents rv) c)) = Inr c1"
        "call_when e (Some handleError) c1 = Inr c2"
        "call_when i (Some (handleRead net (user_dos net ops))) c2 = Inr c3"
        "call_when w (Some (handleWrite net)) c3 = Inr c4" "c' = upd_channel f' c4"
    by (rule conn_ready_paths [OF assms])
  have g1: "grows c c1"
    using grows_trans [OF upd_channel_grows upd_channel_grows] call_when_grows [OF h(1) handleClose_grows]
    by (blast intro: grows_trans)
  have "c2 = c1" using h(2) by (cases e) (simp_all add: call_when_def handleError_def)
  with g1 call_when_grows [OF h(3) handleRead_grows] have g3: "grows c c3" by (blast intro: grows_trans)
  from call_when_grows [OF h(4) handleWrite_grows] have "grows c3 c4" .
  then show ?thesis unfolding h(5) using g3 upd_channel_grows by (blast intro: grows_trans)
qed

lemma remote_do_grows: "remote_do net op c = Inr c' \<Longrightarrow> grows c c'"
  using conn_send_grows conn_shutdown_grows conn_forceClose_grows by (cases op) auto

lemma run_task_grows: "run_task net t c = Inr c' \<Longrightarrow> grows c c'"
  using sendInLoop_grows handleClose_grows read_switch_grows
  by (cases t) (auto simp: forceCloseInLoop_def split: if_splits)

text \<open>Running a task takes it off the queue first.\<close>

fun begin_event :: "conn_event \<Rightarrow> tcp_conn \<Rightarrow> tcp_conn" where
  "begin_event Ev_task c = c\<lparr>tc_tasks := tl (tc_tasks c)\<rparr>"
| "begin_event ev c = c"

lemma conn_step_grows:
  assumes "conn_step net ev c = Inr c'"
  shows "grows (begin_event ev c) c'"
proof (cases ev)
  case Ev_task
  show ?thesis
  proof (cases "tc_tasks c")
    case Nil
    with assms Ev_task have "c' = c" "begin_event ev c = c" by simp_all
    then show ?thesis by simp
  next
    case (Cons t ts)
    with assms Ev_task run_task_grows show ?thesis by simp
  qed
qed (use assms conn_ready_grows user_do_grows remote_do_grows in auto)

lemma begin_event_inv:
  assumes "conn_inv c"
  shows "conn_inv (begin_event ev c)"
proof (cases ev)
  case Ev_task
  show ?thesis
  proof (cases "tc_tasks c")
    case Nil
    with Ev_task have "begin_event ev c = c" by simp
    with assms show ?thesis by simp
  next
    case (Cons t ts)
    with conn_inv_pop [OF assms Cons] Ev_task show ?thesis by simp
  qed
qed (use assms in simp_all)

lemma begin_event_abs: "abs_conn (begin_event ev c) = abs_conn c"
  by (cases ev) (simp_all add: abs_conn_def)

section \<open>Refinement\<close>

text \<open>What the abstract machine promises in any run.\<close>

lemma spec_steps_promise:
  assumes "spec_steps a b"
  shows "sp_phase a \<le> sp_phase b \<and> prefix (sp_sent a) (sp_sent b) \<and>
    (sp_fin a \<longrightarrow> sp_fin b \<and> sp_sent b = sp_sent a \<and> sp_pending b = sp_pending a) \<and>
    (sp_phase a = kDisconnected \<longrightarrow> suffix (sp_unread b) (sp_unread a))"
  using assms
proof (induction rule: rtranclp_induct)
  case (step b c)
  from step(2) show ?case
    by cases (use step(3) in \<open>auto simp: disconnected_top suffix_def prefix_def\<close>)
qed simp

lemma spec_step_path:
  assumes "sp_pending a @ d = e @ p" and "sp_unread a @ r = k @ u" and "sp_phase a \<le> s"
    and "sp_phase a = kDisconnected \<longrightarrow> d = [] \<and> e = [] \<and> r = []"
    and "sp_fin a \<longrightarrow> f \<and> d = [] \<and> e = []"
    and "f \<longrightarrow> p = [] \<and> kDisconnecting \<le> s"
  shows "spec_steps a \<lparr>sp_phase = s, sp_pending = p, sp_sent = sp_sent a @ e, sp_unread = u, sp_fin = f\<rparr>"
proof -
  define a1 where "a1 = a\<lparr>sp_pending := sp_pending a @ d\<rparr>"
  define a2 where "a2 = a1\<lparr>sp_pending := p, sp_sent := sp_sent a1 @ e\<rparr>"
  define a3 where "a3 = a2\<lparr>sp_unread := sp_unread a2 @ r\<rparr>"
  define a4 where "a4 = a3\<lparr>sp_unread := u\<rparr>"
  define a5 where "a5 = a4\<lparr>sp_phase := s\<rparr>"
  have "spec_steps a a1"
  proof (cases "sp_phase a = kDisconnected \<or> sp_fin a")
    case False
    then show ?thesis unfolding a1_def by (intro r_into_rtranclp spec_step.accept) simp_all
  next
    case True
    then have "a1 = a" using assms(4,5) by (auto simp: a1_def)
    then show ?thesis by simp
  qed
  moreover have "spec_steps a1 a2"
  proof (cases "sp_phase a = kDisconnected \<or> sp_fin a")
    case False
    then show ?thesis
      unfolding a2_def by (intro r_into_rtranclp spec_step.transmit) (simp_all add: a1_def assms(1))
  next
    case True
    then have "a2 = a1" using assms(1,4,5) by (auto simp: a1_def a2_def)
    then show ?thesis by simp
  qed
  moreover have "spec_steps a2 a3"
  proof (cases "sp_phase a = kDisconnected")
    case False
    then show ?thesis
      unfolding a3_def by (intro r_into_rtranclp spec_step.receive) (simp add: a1_def a2_def)
  next
    case True
    then have "a3 = a2" using assms(4) by (simp add: a3_def)
    then show ?thesis by simp
  qed
  moreover have "spec_steps a3 a4"
    unfolding a4_def
    by (intro r_into_rtranclp spec_step.consume [of _ k]) (simp add: a1_def a2_def a3_def assms(2))
  moreover have "spec_steps a4 a5"
    unfolding a5_def
    by (intro r_into_rtranclp spec_step.advance) (simp add: a1_def a2_def a3_def a4_def assms(3))
  moreover have "spec_steps a5 (a5\<lparr>sp_fin := f\<rparr>)"
  proof (cases "f")
    case True
    then show ?thesis
      using assms(6) by (intro r_into_rtranclp) (simp add: spec_step.finish a1_def a2_def a3_def a4_def a5_def)
  next
    case False
    then have "a5\<lparr>sp_fin := f\<rparr> = a5" using assms(5) by (simp add: a1_def a2_def a3_def a4_def a5_def)
    then show ?thesis by simp
  qed
  ultimately have "spec_steps a (a5\<lparr>sp_fin := f\<rparr>)" by (blast intro: rtranclp_trans)
  then show ?thesis by (cases a) (simp add: a1_def a2_def a3_def a4_def a5_def)
qed

lemma inv_grows_refines:
  assumes "conn_inv c" "conn_inv c'" "grows c c'"
  shows "spec_steps (abs_conn c) (abs_conn c')"
proof -
  obtain e d r k where g: "tc_sent c' = tc_sent c @ e" "tc_accepted c' = tc_accepted c @ d"
      "tc_received c' = tc_received c @ r" "tc_consumed c' = tc_consumed c @ k"
    using assms(3) unfolding grows_def prefix_def by blast
  have b: "tc_sent c @ content (tc_out c) = tc_accepted c" "tc_sent c' @ content (tc_out c') = tc_accepted c'"
      "tc_consumed c @ content (tc_in c) = tc_received c" "tc_consumed c' @ content (tc_in c') = tc_received c'"
    using assms(1,2) by (simp_all add: inv_defs)
  have s: "tc_shut c \<longrightarrow> content (tc_out c) = []" 
      "tc_shut c' \<longrightarrow> content (tc_out c') = [] \<and> kDisconnecting \<le> tc_state c'"
    using assms(1,2) unfolding conn_inv_def shut_ok_def by blast+
  have gs: "tc_state c \<le> tc_state c'" "tc_shut c \<longrightarrow> tc_shut c' \<and> e = []"
      "tc_state c = kDisconnected \<longrightarrow> e = [] \<and> d = [] \<and> r = []"
    using assms(3) unfolding grows_def g by auto
  have out: "content (tc_out c) @ d = e @ content (tc_out c')"
    using b(1,2) unfolding g(1,2) by (metis append_assoc same_append_eq)
  have inp: "content (tc_in c) @ r = k @ content (tc_in c')"
    using b(3,4) unfolding g(3,4) by (metis append_assoc same_append_eq)
  have "tc_shut c \<longrightarrow> d = []" using out gs(2) s by auto
  then have "spec_steps (abs_conn c)
      \<lparr>sp_phase = tc_state c', sp_pending = content (tc_out c'), sp_sent = sp_sent (abs_conn c) @ e,
       sp_unread = content (tc_in c'), sp_fin = tc_shut c'\<rparr>"
    by (intro spec_step_path [of _ d _ _ r k]) (use out inp gs s in \<open>simp_all add: abs_conn_def\<close>)
  then show ?thesis by (simp add: abs_conn_def g(1))
qed

lemma conn_step_refines:
  assumes "net_ok net" "conn_inv c" "ev_ok ev c" "conn_step net ev c = Inr c'"
  shows "conn_inv c' \<and> spec_steps (abs_conn c) (abs_conn c')"
proof -
  have "conn_inv c'" using conn_step_inv [OF assms(1-3)] assms(4) by simp
  with inv_grows_refines [OF begin_event_inv [OF assms(2)] _ conn_step_grows [OF assms(4)]]
  show ?thesis by (simp add: begin_event_abs)
qed

text \<open>C3. The connection refines its specification: it starts as the abstract connection with nothing
  pending, sent or read, and whatever event comes, what the connection does is a run of the abstract
  machine. So its phase only advances, bytes are written in the order they were accepted, nothing is
  written after the end of the output, and that end comes only after everything accepted was
  written.\<close>
theorem connection_refines:
  assumes "net_ok net" and "conn_up fd wcb hcb mark = Inr c0" and "conn_reach net c0 (Inr c)"
    and "ev_ok ev c" and "conn_step net ev c = Inr c'"
  shows "abs_conn c0 = \<lparr>sp_phase = kConnected, sp_pending = [], sp_sent = [], sp_unread = [], sp_fin = False\<rparr> \<and>
    spec_steps (abs_conn c0) (abs_conn c) \<and> spec_steps (abs_conn c) (abs_conn c')"
proof (intro conjI)
  show "abs_conn c0 = \<lparr>sp_phase = kConnected, sp_pending = [], sp_sent = [], sp_unread = [], sp_fin = False\<rparr>"
    using conn_up_spec [of fd wcb hcb mark] assms(2) by (auto simp: abs_conn_def inv_defs)
  have inv: "conn_inv c" using conn_reach_inv [OF assms(1-3)] by simp
  show "spec_steps (abs_conn c) (abs_conn c')"
    using conn_step_refines [OF assms(1) inv assms(4,5)] by blast
  have "case r of Inl _ \<Rightarrow> True | Inr x \<Rightarrow> spec_steps (abs_conn c0) (abs_conn x)"
    if "conn_reach net c0 r" for r
    using that unfolding conn_reach_def
  proof (induction rule: reach.induct)
    case (reach_step x r)
    then obtain e where e: "ev_ok e x" "r = conn_step net e x" by blast
    have ix: "conn_inv x"
      using conn_reach_inv [OF assms(1,2), of "Inr x"] reach_step(1) by (simp add: conn_reach_def)
    show ?case
    proof (cases r)
      case (Inr y)
      have y: "conn_step net e x = Inr y" using e(2) Inr by (rule subst)
      have "spec_steps (abs_conn x) (abs_conn y)"
        using conn_step_refines [OF assms(1) ix e(1) y] by blast
      with reach_step.IH Inr show ?thesis by simp
    qed simp
  qed simp
  from this [OF assms(3)] show "spec_steps (abs_conn c0) (abs_conn c)" by simp
qed

theorem connection_refines_witness:
  "\<exists>c0 c c'. conn_up 9 True False 0 = Inr c0 \<and> conn_reach slow_net c0 (Inr c) \<and>
     conn_step slow_net (Ev_user U_force_close) c = Inr c' \<and> sp_pending (abs_conn c) = [2, 3] \<and>
     spec_steps (abs_conn c0) (abs_conn c) \<and> spec_steps (abs_conn c) (abs_conn c')"
proof -
  obtain c0 c where c: "conn_up 9 True False 0 = Inr c0" "conn_reach slow_net c0 (Inr c)"
      "content (tc_out c) = [2, 3]"
    using pending_conn by blast
  have ok: "ev_ok (Ev_user U_force_close) c" by simp
  have s: "conn_step slow_net (Ev_user U_force_close) c = Inr (conn_forceClose c)" by simp
  have p: "sp_pending (abs_conn c) = [2, 3]" using c(3) by (simp add: abs_conn_def)
  from connection_refines [OF slow_net_ok(1) c(1,2) ok s] c(1,2) s p show ?thesis by blast
qed

end
