(* ===== verification/Connection_Pair.thy ===== *)
theory Connection_Pair
  imports Connection_Spec
begin

text \<open>
  Two connections of the program joined by a network: what one end writes is what the other
  end's \<open>readv\<close> delivers, in order, and the end of the stream is delivered after everything
  else. The kernels, the interleaving of the two ends and the users on both sides are
  arbitrary. The lemmas account for every byte between the \<open>send\<close> at one end and the user at
  the other, and show that after a \<open>shutdown\<close> everything arrives and the other end closes.
\<close>

section \<open>What an event receives\<close>

definition same_received :: "tcp_conn \<Rightarrow> tcp_conn \<Rightarrow> bool" where
  "same_received c c' \<longleftrightarrow> tc_received c' = tc_received c"

lemma same_received_simps [simp]:
  "same_received c c" "same_received c (queue_task t c)" "same_received c (upd_channel f c)"
  "same_received c (shutdownInLoop c)" "same_received c (conn_forceClose c)"
  by (simp_all add: same_received_def queue_task_def upd_channel_def shutdownInLoop_def
      closing_defs)

lemma same_received_trans: "same_received c c' \<Longrightarrow> same_received c' c'' \<Longrightarrow> same_received c c''"
  by (simp add: same_received_def)

lemma on_channel_received: "on_channel f c = Inr c' \<Longrightarrow> same_received c c'"
  using on_channel_same [of f c c'] by (simp add: same_record_def same_received_def)

lemma sock_write_received: "sock_write net d c = (r, c') \<Longrightarrow> same_received c c'"
  by (auto simp: sock_write_def Let_def same_received_def split: write_result.splits if_splits)

lemma direct_write_received:
  assumes "direct_write net d c = Inr (n, f, c')"
  shows "same_received c c'"
proof (cases "isWriting (tc_channel c)")
  case False
  obtain r c1 where w: "sock_write net d c = (r, c1)" by (cases "sock_write net d c")
  with assms False have "c' = c1 \<or> c' = queue_task Write_complete c1"
    by (auto simp: direct_write_def res_simps split: write_result.splits if_splits)
  with sock_write_received [OF w] same_received_trans same_received_simps(2) show ?thesis by metis
qed (use assms in \<open>simp add: direct_write_def\<close>)

lemma sendInLoop_received:
  assumes "sendInLoop net d c = Inr c'"
  shows "same_received c c'"
proof (cases "tc_state c = kDisconnected")
  case True
  with assms show ?thesis by (simp add: sendInLoop_def)
next
  case False
  from sendInLoop_paths [OF assms False] obtain n f c1 where w: "direct_write net d c = Inr (n, f, c1)"
    and cs: "c' = c1 \<or> c' = c1\<lparr>tc_accepted := tc_accepted c1 @ d\<rparr> \<or>
      (\<exists>c2 b t. (c2 = c1 \<or> c2 = queue_task t c1) \<and>
        on_channel enableWrite (c2\<lparr>tc_out := b, tc_accepted := tc_accepted c2 @ d\<rparr>) = Inr c')" .
  from cs consider (short) "c' = c1 \<or> c' = c1\<lparr>tc_accepted := tc_accepted c1 @ d\<rparr>"
    | (queued) c2 b t where "c2 = c1 \<or> c2 = queue_task t c1"
        "on_channel enableWrite (c2\<lparr>tc_out := b, tc_accepted := tc_accepted c2 @ d\<rparr>) = Inr c'" by blast
  then have "same_received c1 c'"
  proof cases
    case short
    then show ?thesis by (auto simp: same_received_def)
  next
    case (queued c2 b t)
    have "same_received c1 c2" using queued(1) by auto
    with on_channel_received [OF queued(2)] show ?thesis by (simp add: same_received_def)
  qed
  with direct_write_received [OF w] show ?thesis by (rule same_received_trans)
qed

lemma handleClose_received:
  assumes "handleClose c = Inr c'"
  shows "same_received c c' \<and> tc_calls c' = tc_calls c \<and> tc_in c' = tc_in c \<and> tc_state c' = kDisconnected"
  using assms
  by (auto simp: handleClose_def res_simps on_channel_def same_received_def split: prod.splits)

lemma user_do_received: "user_do net op c = Inr c' \<Longrightarrow> same_received c c'"
proof (cases op)
  case (U_send d)
  moreover assume "user_do net op c = Inr c'"
  ultimately show ?thesis
    using sendInLoop_received [of net d c c'] by (auto simp: conn_send_def split: if_splits)
next
  case U_shutdown
  moreover assume "user_do net op c = Inr c'"
  ultimately show ?thesis
    by (auto simp: closing_defs res_simps same_received_def
        shutdownInLoop_def split: if_splits)
next
  case (U_consume k)
  moreover assume "user_do net op c = Inr c'"
  ultimately show ?thesis by (auto simp: conn_consume_def res_simps same_received_def split: prod.splits)
qed (auto simp: stopReadInLoop_def startReadInLoop_def dest: on_channel_received split: if_splits)

lemma user_dos_received: "user_dos net ops c = Inr c' \<Longrightarrow> same_received c c'"
proof (induction ops arbitrary: c)
  case (Cons op ops)
  then obtain c1 where "user_do net op c = Inr c1" "user_dos net ops c1 = Inr c'"
    by (auto simp: bindE_Inr_iff)
  with Cons.IH [of c1] user_do_received [of net op c c1] same_received_trans show ?case by blast
qed simp

text \<open>The bytes of the answer to the next \<open>readv\<close>.\<close>

definition took :: "net \<Rightarrow> tcp_conn \<Rightarrow> tcp_conn \<Rightarrow> bool" where
  "took net c c' \<longleftrightarrow> same_received c c' \<or>
     (\<exists>bs. net_read net (tc_calls c) (readv_room (tc_in c)) = Io_bytes bs \<and>
           tc_received c' = tc_received c @ bs)"

lemma handleRead_took:
  assumes "handleRead net (user_dos net ops) c = Inr c'"
  shows "took net c c'"
proof -
  let ?r = "net_read net (tc_calls c) (readv_room (tc_in c))"
  obtain b n e where rd: "readFd (tc_in c) ?r = Inr (b, n, e)"
    using assms by (auto simp: handleRead_def Let_def res_simps)
  define c1 where "c1 = c\<lparr>tc_in := b, tc_calls := tc_calls c + 1,
      tc_received := tc_received c @ (case ?r of Io_bytes bs \<Rightarrow> bs | Io_failed _ \<Rightarrow> [])\<rparr>"
  have "same_received c1 c'"
    using assms rd handleClose_received [of c1 c'] user_dos_received [of net ops c1 c']
    by (auto simp: handleRead_def Let_def handleError_def c1_def res_simps split: if_splits)
  then show ?thesis
    by (cases ?r) (auto simp: took_def same_received_def c1_def)
qed

lemma handleWrite_received:
  assumes "handleWrite net c = Inr c'"
  shows "same_received c c'"
proof (cases "tc_state c = kDisconnected")
  case True
  with assms show ?thesis by (simp add: handleWrite_def)
next
  case False
  from handleWrite_paths [OF assms False] obtain d r c1 where w: "sock_write net d c = (r, c1)"
    and cs: "c' = c1 \<or> (\<exists>b. c' = c1\<lparr>tc_out := b\<rparr>) \<or>
     (\<exists>b c3. on_channel disableWrite (c1\<lparr>tc_out := b\<rparr>) = Inr c3 \<and> c' = write_done c3)" .
  have fin: "same_received x (write_done x)" for x
    by (simp add: write_done_def Let_def same_received_def shutdownInLoop_def queue_task_def)
  from cs have "same_received c1 c'"
  proof (elim disjE exE conjE)
    fix b c3 assume "on_channel disableWrite (c1\<lparr>tc_out := b\<rparr>) = Inr c3" "c' = write_done c3"
    with on_channel_received fin [of c3] show ?thesis by (auto simp: same_received_def)
  qed (simp_all add: same_received_def)
  with sock_write_received [OF w] show ?thesis by (rule same_received_trans)
qed

lemma call_when_received:
  assumes "call_when b (Some f) c = Inr c'" and "f c = Inr c' \<Longrightarrow> same_received c c'"
  shows "same_received c c'"
  using assms by (cases b) (simp_all add: call_when_def)

lemma conn_ready_took:
  assumes "conn_ready net rv ops c = Inr c'"
  shows "took net c c'"
proof -
  obtain f f' b e i w c1 c2 c3 c4 where
      h: "call_when b (Some handleClose) (upd_channel f (upd_channel (set_revents rv) c)) = Inr c1"
        "call_when e (Some handleError) c1 = Inr c2"
        "call_when i (Some (handleRead net (user_dos net ops))) c2 = Inr c3"
        "call_when w (Some (handleWrite net)) c3 = Inr c4" "c' = upd_channel f' c4"
    by (rule conn_ready_paths [OF assms])
  let ?c = "upd_channel f (upd_channel (set_revents rv) c)"
  have "c2 = c1" using h(2) by (cases e) (simp_all add: call_when_def handleError_def)
  moreover have "tc_calls c1 = tc_calls c \<and> tc_in c1 = tc_in c \<and> tc_received c1 = tc_received c"
    using h(1) handleClose_received [of ?c c1]
    by (cases b) (auto simp: call_when_def upd_channel_def same_received_def)
  moreover have "took net c2 c3"
    using h(3) handleRead_took [of net ops c2 c3]
    by (cases i) (auto simp: call_when_def took_def)
  moreover have "same_received c3 c4" by (rule call_when_received [OF h(4) handleWrite_received])
  moreover have "tc_received c' = tc_received c4" by (simp add: h(5) upd_channel_def)
  ultimately show ?thesis by (simp add: took_def same_received_def)
qed

lemma conn_step_took:
  assumes "conn_step net ev c = Inr c'"
  shows "took net c c'"
proof (cases ev)
  case (Ev_ready rv ops)
  with assms conn_ready_took show ?thesis by simp
next
  case (Ev_user op)
  with assms user_do_received show ?thesis by (simp add: took_def)
next
  case (Ev_remote op)
  with assms show ?thesis
    by (cases op) (auto simp: took_def conn_send_def closing_defs
        res_simps same_received_def queue_task_def split: if_splits)
next
  case Ev_task
  show ?thesis
  proof (cases "tc_tasks c")
    case Nil
    with assms Ev_task show ?thesis by (simp add: took_def)
  next
    case (Cons t ts)
    let ?c = "c\<lparr>tc_tasks := ts\<rparr>"
    have r: "run_task net t ?c = Inr c'" using assms Ev_task Cons by simp
    have "same_received ?c c'"
      using r sendInLoop_received handleClose_received
      by (cases t) (auto simp: forceCloseInLoop_def stopReadInLoop_def startReadInLoop_def
          dest: on_channel_received split: if_splits)
    then show ?thesis by (simp add: took_def same_received_def)
  qed
qed

section \<open>The network between two connections\<close>

text \<open>The bytes on their way: written by one end and not yet read by the other.\<close>

definition wire :: "tcp_conn \<Rightarrow> tcp_conn \<Rightarrow> byte list" where
  "wire src dst = drop (length (tc_received dst)) (tc_sent src)"

text \<open>
  What TCP promises the end \<open>me\<close> of a connection with \<open>peer\<close>: \<open>readv\<close> delivers the next bytes
  on their way, and nothing (the end of the stream) only when all were delivered and the peer
  issued \<open>SHUT_WR\<close> or closed. Writes and failures are as arbitrary as before.
\<close>

definition link_ok :: "net \<Rightarrow> tcp_conn \<Rightarrow> tcp_conn \<Rightarrow> bool" where
  "link_ok net me peer \<longleftrightarrow>
     net_ok net \<and>
     (\<forall>room bs. net_read net (tc_calls me) room = Io_bytes bs \<longrightarrow>
        prefix bs (wire peer me) \<and>
        (bs = [] \<longrightarrow> wire peer me = [] \<and> (tc_shut peer \<or> tc_state peer = kDisconnected)))"

inductive pair_step :: "tcp_conn \<times> tcp_conn \<Rightarrow> (tcp_conn \<times> tcp_conn) res \<Rightarrow> bool" where
  left: "link_ok net a b \<Longrightarrow> ev_ok ev a \<Longrightarrow>
    pair_step (a, b) (bindE (conn_step net ev a) (\<lambda>a'. Inr (a', b)))"
| right: "link_ok net b a \<Longrightarrow> ev_ok ev b \<Longrightarrow>
    pair_step (a, b) (bindE (conn_step net ev b) (\<lambda>b'. Inr (a, b')))"

inductive_cases pair_stepE: "pair_step (a, b) r"

definition pair_inv :: "tcp_conn \<times> tcp_conn \<Rightarrow> bool" where
  "pair_inv p = (case p of (a, b) \<Rightarrow>
     conn_inv a \<and> conn_inv b \<and>
     prefix (tc_received b) (tc_sent a) \<and> prefix (tc_received a) (tc_sent b))"

lemma wire_split: "prefix (tc_received dst) (tc_sent src) \<Longrightarrow> tc_received dst @ wire src dst = tc_sent src"
  by (auto simp: wire_def prefix_def)

text \<open>One end moves: what it received stays a prefix of what the other sent, and vice versa.\<close>

lemma half_step:
  assumes link: "link_ok net me peer" and ok: "ev_ok ev me" and run: "conn_step net ev me = Inr me'"
    and inv: "conn_inv me" and pre: "prefix (tc_received me) (tc_sent peer)" "prefix (tc_received peer) (tc_sent me)"
  shows "conn_inv me' \<and> prefix (tc_received me') (tc_sent peer) \<and> prefix (tc_received peer) (tc_sent me')"
proof (intro conjI)
  have net: "net_ok net" using link by (simp add: link_ok_def)
  show "conn_inv me'" using conn_step_inv [OF net inv ok] run by simp
  have "prefix (tc_sent me) (tc_sent me')"
    using conn_step_grows [OF run] by (cases ev) (auto simp: grows_def)
  with pre(2) show "prefix (tc_received peer) (tc_sent me')" by (rule prefix_order.trans)
  from conn_step_took [OF run] show "prefix (tc_received me') (tc_sent peer)"
    unfolding took_def
  proof (elim disjE exE conjE)
    assume "same_received me me'"
    then show ?thesis using pre(1) by (simp add: same_received_def)
  next
    fix bs
    assume r: "net_read net (tc_calls me) (readv_room (tc_in me)) = Io_bytes bs"
      "tc_received me' = tc_received me @ bs"
    then have "prefix bs (wire peer me)" using link by (simp add: link_ok_def)
    then have "prefix (tc_received me @ bs) (tc_received me @ wire peer me)" by simp
    then show ?thesis unfolding r(2) wire_split [OF pre(1)] .
  qed
qed

lemma pair_step_inv: "pair_inv p \<Longrightarrow> pair_step p (Inr p') \<Longrightarrow> pair_inv p'"
proof -
  assume inv: "pair_inv p" and step: "pair_step p (Inr p')"
  obtain a b where p: "p = (a, b)" by (cases p)
  from step show ?thesis
    unfolding p
  proof (cases rule: pair_step.cases)
    case (left net ev)
    then have "bindE (conn_step net ev a) (\<lambda>a'. Inr (a', b)) = Inr p'" by (simp only:)
    then obtain a' where "conn_step net ev a = Inr a'" "p' = (a', b)"
      unfolding bindE_Inr_iff by blast
    with half_step [OF left(2,3)] inv p show ?thesis by (simp add: pair_inv_def)
  next
    case (right net ev)
    then have "bindE (conn_step net ev b) (\<lambda>b'. Inr (a, b')) = Inr p'" by (simp only:)
    then obtain b' where "conn_step net ev b = Inr b'" "p' = (a, b')"
      unfolding bindE_Inr_iff by blast
    with half_step [OF right(2,3)] inv p show ?thesis by (simp add: pair_inv_def)
  qed
qed

definition pair_up :: "int \<Rightarrow> bool \<Rightarrow> bool \<Rightarrow> size_t \<Rightarrow> int \<Rightarrow> bool \<Rightarrow> bool \<Rightarrow> size_t \<Rightarrow> (tcp_conn \<times> tcp_conn) res" where
  "pair_up fd wcb hcb mark fd' wcb' hcb' mark' =
     bindE (conn_up fd wcb hcb mark) (\<lambda>a. bindE (conn_up fd' wcb' hcb' mark') (\<lambda>b. Inr (a, b)))"

lemma pair_up_inv:
  assumes "pair_up fd wcb hcb mark fd' wcb' hcb' mark' = Inr p"
  shows "pair_inv p"
proof -
  obtain a where a: "conn_up fd wcb hcb mark = Inr a" "conn_inv a" "tc_received a = []"
    using conn_up_spec [of fd wcb hcb mark] by blast
  obtain b where b: "conn_up fd' wcb' hcb' mark' = Inr b" "conn_inv b" "tc_received b = []"
    using conn_up_spec [of fd' wcb' hcb' mark'] by blast
  have "p = (a, b)" using assms a(1) b(1) by (simp add: pair_up_def)
  then show ?thesis using a b by (simp add: pair_inv_def)
qed

lemma pair_reach_inv:
  assumes "pair_up fd wcb hcb mark fd' wcb' hcb' mark' = Inr p0" and "reach pair_step p0 (Inr p)"
  shows "pair_inv p"
  by (rule reach_inv_Inr [where I = pair_inv, OF assms(2) pair_up_inv [OF assms(1)] pair_step_inv])

text \<open>What the invariant says of one direction.\<close>

lemma pair_inv_stream:
  assumes "pair_inv (a, b)"
  shows "tc_accepted a = tc_consumed b @ content (tc_in b) @ wire a b @ content (tc_out a)"
    and "tc_accepted b = tc_consumed a @ content (tc_in a) @ wire b a @ content (tc_out b)"
proof -
  have i: "tc_sent a @ content (tc_out a) = tc_accepted a" "tc_consumed b @ content (tc_in b) = tc_received b"
    "tc_sent b @ content (tc_out b) = tc_accepted b" "tc_consumed a @ content (tc_in a) = tc_received a"
    using assms by (simp_all add: pair_inv_def inv_defs)
  have w: "tc_received b @ wire a b = tc_sent a" "tc_received a @ wire b a = tc_sent b"
    using assms wire_split by (auto simp: pair_inv_def)
  show "tc_accepted a = tc_consumed b @ content (tc_in b) @ wire a b @ content (tc_out a)"
    unfolding i(1) [symmetric] w(1) [symmetric] i(2) [symmetric] by simp
  show "tc_accepted b = tc_consumed a @ content (tc_in a) @ wire b a @ content (tc_out b)"
    unfolding i(3) [symmetric] w(2) [symmetric] i(4) [symmetric] by simp
qed

section \<open>Reading until the end\<close>

text \<open>Notifications of input, which the kernel reports to a connection that asked for them.\<close>

fun read_events :: "(tcp_conn \<Rightarrow> net) \<Rightarrow> nat \<Rightarrow> tcp_conn \<Rightarrow> tcp_conn res" where
  "read_events K 0 c = Inr c"
| "read_events K (Suc n) c =
     (if isReading (tc_channel c)
      then bindE (conn_step (K c) (Ev_ready EPOLLIN []) c) (read_events K n) else Inr c)"

lemma read_events_add:
  "isReading (tc_channel c) \<Longrightarrow> read_events K n c = Inr c1 \<Longrightarrow>
   read_events K (n + k) c = (if isReading (tc_channel c1) then read_events K k c1 else Inr c1)"
proof (induction n arbitrary: c)
  case (Suc n)
  then obtain c2 where c2: "conn_step (K c) (Ev_ready EPOLLIN []) c = Inr c2" "read_events K n c2 = Inr c1"
    by (auto simp: bindE_Inr_iff)
  show ?case
  proof (cases "isReading (tc_channel c2)")
    case True
    with Suc.IH [OF True c2(2)] Suc.prems(1) c2(1) show ?thesis by simp
  next
    case False
    then have "read_events K m c2 = Inr c2" for m by (cases m) simp_all
    with c2 False Suc.prems(1) show ?thesis by auto
  qed
qed simp

lemma ready_to_read:
  "conn_ready net EPOLLIN ops c =
     bindE (handleRead net (user_dos net ops) (upd_channel (\<lambda>ch. ch\<lparr>ch_revents := EPOLLIN, ch_handling := True\<rparr>) c))
       (\<lambda>c1. bindE (call_when (has (ch_revents (tc_channel c1)) EPOLLOUT) (Some (handleWrite net)) c1)
       (\<lambda>c'. Inr (upd_channel (\<lambda>ch. ch\<lparr>ch_handling := False\<rparr>) c')))"
proof -
  have h: "\<not> has EPOLLIN EPOLLHUP" "\<not> has EPOLLIN EPOLLERR" "has EPOLLIN (EPOLLIN OR EPOLLPRI OR EPOLLRDHUP)"
    by (simp_all add: has_def)
  show ?thesis
    unfolding conn_ready_def handleEvent_def handleEventWithGuard_def conn_callbacks_def Let_def
    using h by (simp add: upd_channel_def set_revents_def call_when_def)
qed

lemma read_event:
  assumes inv: "conn_inv c" and st: "tc_state c \<noteq> kDisconnected"
    and r: "net_read net (tc_calls c) (readv_room (tc_in c)) = Io_bytes bs" "length bs \<le> readv_room (tc_in c)"
    and room: "length (buf_data (tc_in c)) + length bs \<le> vec_max_size"
  shows "\<exists>c'. conn_step net (Ev_ready EPOLLIN []) c = Inr c' \<and> tc_received c' = tc_received c @ bs \<and>
    (if bs = [] then tc_state c' = kDisconnected \<and> tc_closed c' = 1
     else tc_state c' = tc_state c \<and> isReading (tc_channel c') = isReading (tc_channel c) \<and>
          length (buf_data (tc_in c')) \<le> length (buf_data (tc_in c)) + length bs)"
proof -
  let ?c = "upd_channel (\<lambda>ch. ch\<lparr>ch_revents := EPOLLIN, ch_handling := True\<rparr>) c"
  have no: "\<not> has EPOLLIN EPOLLOUT" by (simp add: has_def)
  have open_c: "ch_polling (tc_channel c)" "tc_closed c = 0" "tc_state c = kConnected \<or> tc_state c = kDisconnecting"
    using inv st by (auto simp: inv_defs intro: conn_state.exhaust [of "tc_state c"])
  obtain b' where b': "readFd (tc_in c) (Io_bytes bs) = Inr (b', int (length bs), None)"
      "length (buf_data b') \<le> length (buf_data (tc_in c)) + length bs"
    using readFd_capacity [OF _ r(2) room] conn_inv_bufs [OF inv] by blast
  let ?d = "?c\<lparr>tc_in := b', tc_calls := tc_calls c + 1, tc_received := tc_received c @ bs\<rparr>"
  have run: "handleRead net (user_dos net []) ?c = (if bs = [] then handleClose ?d else Inr ?d)"
    using st r(1) b'(1) by (simp add: handleRead_def Let_def upd_channel_def)
  show ?thesis
  proof (cases "bs = []")
    case True
    have cl: "\<exists>e. handleClose ?d = Inr e \<and> tc_received e = tc_received c \<and> tc_state e = kDisconnected \<and>
        tc_closed e = 1 \<and> ch_revents (tc_channel e) = EPOLLIN"
      using open_c True
      by (auto simp: handleClose_def on_channel_def removeChannel_def diableAll_def updateChannel_def
          isNoneEvent_def assertE_def upd_channel_def)
    then obtain e where e: "handleClose ?d = Inr e" "tc_received e = tc_received c"
        "tc_state e = kDisconnected" "tc_closed e = 1" "ch_revents (tc_channel e) = EPOLLIN" by blast
    have "conn_step net (Ev_ready EPOLLIN []) c = Inr (upd_channel (\<lambda>ch. ch\<lparr>ch_handling := False\<rparr>) e)"
      using run True e(1,5) no by (simp add: ready_to_read call_when_def)
    then show ?thesis using e True by (simp add: upd_channel_def)
  next
    case False
    have "conn_step net (Ev_ready EPOLLIN []) c = Inr (upd_channel (\<lambda>ch. ch\<lparr>ch_handling := False\<rparr>) ?d)"
      using run False no by (simp add: ready_to_read call_when_def upd_channel_def)
    then show ?thesis using b'(2) False by (simp add: upd_channel_def isReading_def)
  qed
qed

text \<open>
  A network that makes progress: it writes at least a byte, delivers at least a byte while
  there are some on their way, and then the end of the stream if the peer issued \<open>SHUT_WR\<close>.
\<close>

definition link_live :: "net \<Rightarrow> tcp_conn \<Rightarrow> tcp_conn \<Rightarrow> bool" where
  "link_live net me peer \<longleftrightarrow>
     link_ok net me peer \<and> net_progress net \<and>
     (\<forall>room. 0 < room \<and> (wire peer me \<noteq> [] \<or> tc_shut peer) \<longrightarrow>
        (\<exists>bs. net_read net (tc_calls me) room = Io_bytes bs \<and> (bs = [] \<longleftrightarrow> wire peer me = [])))"

lemma readv_room_pos: "0 < readv_room b"
  by (simp add: readv_room_def extrabuf_size_def split: if_splits)

text \<open>One read event of a live link.\<close>

lemma live_read:
  assumes live: "link_live net me peer" and inv: "conn_inv me" and st: "tc_state me \<noteq> kDisconnected"
    and pre: "prefix (tc_received me) (tc_sent peer)"
    and go: "wire peer me \<noteq> [] \<or> tc_shut peer"
    and room: "length (buf_data (tc_in me)) + length (wire peer me) \<le> vec_max_size"
  shows "\<exists>me' bs. conn_step net (Ev_ready EPOLLIN []) me = Inr me' \<and> conn_inv me' \<and>
    tc_received me' = tc_received me @ bs \<and> wire peer me = bs @ wire peer me' \<and>
    prefix (tc_received me') (tc_sent peer) \<and> (bs = [] \<longleftrightarrow> wire peer me = []) \<and>
    (if bs = [] then tc_state me' = kDisconnected \<and> tc_closed me' = 1
     else tc_state me' = tc_state me \<and> isReading (tc_channel me') = isReading (tc_channel me) \<and>
          length (buf_data (tc_in me')) + length (wire peer me') \<le> length (buf_data (tc_in me)) + length (wire peer me))"
proof -
  have net: "net_ok net" using live by (simp add: link_live_def link_ok_def)
  obtain bs where bs: "net_read net (tc_calls me) (readv_room (tc_in me)) = Io_bytes bs"
      "bs = [] \<longleftrightarrow> wire peer me = []"
    using live go readv_room_pos [of "tc_in me"] unfolding link_live_def by blast
  have pb: "prefix bs (wire peer me)" using live bs(1) by (simp add: link_live_def link_ok_def)
  have len: "length bs \<le> readv_room (tc_in me)" using net bs(1) by (simp add: net_ok_def)
  have "length (buf_data (tc_in me)) + length bs \<le> vec_max_size"
    using room prefix_length_le [OF pb] by simp
  from read_event [OF inv st bs(1) len this] obtain me' where m: "conn_step net (Ev_ready EPOLLIN []) me = Inr me'"
    "tc_received me' = tc_received me @ bs"
    "if bs = [] then tc_state me' = kDisconnected \<and> tc_closed me' = 1
     else tc_state me' = tc_state me \<and> isReading (tc_channel me') = isReading (tc_channel me) \<and>
          length (buf_data (tc_in me')) \<le> length (buf_data (tc_in me)) + length bs" by blast
  have "ch_polling (tc_channel me)" using inv st by (simp add: inv_defs)
  then have ok: "ev_ok (Ev_ready EPOLLIN []) me" by (simp add: has_def)
  have i: "conn_inv me'" using conn_step_inv [OF net inv ok] m(1) by simp
  obtain rest where rest: "wire peer me = bs @ rest" using pb by (auto simp: prefix_def)
  have snt: "tc_sent peer = (tc_received me @ bs) @ rest"
    using wire_split [OF pre] rest by simp
  have w: "wire peer me' = rest" unfolding wire_def m(2) snt by simp
  have "prefix (tc_received me') (tc_sent peer)" unfolding m(2) snt by simp
  moreover have wl: "wire peer me = bs @ wire peer me'" by (simp only: rest w)
  moreover have "if bs = [] then tc_state me' = kDisconnected \<and> tc_closed me' = 1
     else tc_state me' = tc_state me \<and> isReading (tc_channel me') = isReading (tc_channel me) \<and>
          length (buf_data (tc_in me')) + length (wire peer me') \<le> length (buf_data (tc_in me)) + length (wire peer me)"
  proof (cases "bs = []")
    case True
    with m(3) show ?thesis by simp
  next
    case False
    then have f: "tc_state me' = tc_state me" "isReading (tc_channel me') = isReading (tc_channel me)"
      "length (buf_data (tc_in me')) \<le> length (buf_data (tc_in me)) + length bs"
      using m(3) by simp_all
    have "length (wire peer me) = length bs + length (wire peer me')"
      unfolding wl length_append ..
    with f False show ?thesis by simp
  qed
  ultimately show ?thesis using m(1,2) i bs(2) by blast
qed

lemma reads_arrive:
  assumes live: "\<And>x. link_live (K x) x peer" and "conn_inv c" and "tc_state c \<noteq> kDisconnected"
    and "prefix (tc_received c) (tc_sent peer)" and "isReading (tc_channel c)"
    and "length (buf_data (tc_in c)) + length (wire peer c) \<le> vec_max_size"
  shows "\<exists>n c'. n \<le> length (wire peer c) \<and> read_events K n c = Inr c' \<and> conn_inv c' \<and>
    tc_received c' = tc_sent peer \<and> tc_state c' = tc_state c \<and>
    isReading (tc_channel c') \<and> length (buf_data (tc_in c')) \<le> vec_max_size"
  using assms(2-6)
proof (induction "length (wire peer c)" arbitrary: c rule: less_induct)
  case less
  show ?case
  proof (cases "wire peer c = []")
    case True
    then have "tc_received c = tc_sent peer" using wire_split [OF less.prems(3)] by simp
    then show ?thesis using less.prems by (intro exI [of _ 0] exI [of _ c]) simp
  next
    case False
    obtain c1 bs where c1: "conn_step (K c) (Ev_ready EPOLLIN []) c = Inr c1" "conn_inv c1"
        "wire peer c = bs @ wire peer c1" "prefix (tc_received c1) (tc_sent peer)"
        "bs = [] \<longleftrightarrow> wire peer c = []"
        "if bs = [] then tc_state c1 = kDisconnected \<and> tc_closed c1 = 1
         else tc_state c1 = tc_state c \<and> isReading (tc_channel c1) = isReading (tc_channel c) \<and>
          length (buf_data (tc_in c1)) + length (wire peer c1) \<le> length (buf_data (tc_in c)) + length (wire peer c)"
      using live_read [OF live less.prems(1,2,3) _ less.prems(5)] False by blast
    have ne: "bs \<noteq> []" using c1(5) False by simp
    have lt: "length (wire peer c1) < length (wire peer c)" using c1(3) ne by simp
    have st: "tc_state c1 = tc_state c"
      and rm: "length (buf_data (tc_in c1)) + length (wire peer c1) \<le> vec_max_size"
      and rd: "isReading (tc_channel c1)"
      using c1(6) ne less.prems(4,5) by simp_all
    have "tc_state c1 \<noteq> kDisconnected" using st less.prems(2) by simp
    from less.hyps [OF lt c1(2) this c1(4) rd rm] obtain n c' where n: "n \<le> length (wire peer c1)"
      "read_events K n c1 = Inr c'" "conn_inv c'" "tc_received c' = tc_sent peer" "tc_state c' = tc_state c1"
      "isReading (tc_channel c')" "length (buf_data (tc_in c')) \<le> vec_max_size" by blast
    have "Suc n \<le> length (wire peer c)" using n(1) lt by simp
    moreover have "read_events K (Suc n) c = Inr c'" using c1(1) n(2) less.prems(4) by simp
    ultimately show ?thesis using n(3-7) st by metis
  qed
qed

section \<open>Properties\<close>

text \<open>A network that delivers at once, and a kernel that never reads; used by the examples.\<close>

definition good_link :: "tcp_conn \<Rightarrow> tcp_conn \<Rightarrow> net" where
  "good_link me peer =
     \<lparr>net_write = \<lambda>_ n. Written n,
      net_read = \<lambda>_ room. if room = 0 \<or> (wire peer me = [] \<and> \<not> tc_shut peer) then Io_failed 11
                          else Io_bytes (take room (wire peer me))\<rparr>"

definition slow_link :: net where
  "slow_link = slow_net\<lparr>net_read := \<lambda>_ _. Io_failed 11\<rparr>"

lemma good_link_live: "link_live (good_link x y) x y"
  by (auto simp: link_live_def link_ok_def net_ok_def net_progress_def good_link_def take_is_prefix
      split: if_splits)

lemma slow_link_ok: "link_ok slow_link x y"
  by (auto simp: slow_link_def slow_net_def link_ok_def net_ok_def)

lemma pending_pair:
  "\<exists>a0 a. pair_up 9 True False 0 9 True False 0 = Inr (a0, a0) \<and> reach pair_step (a0, a0) (Inr (a, a0)) \<and>
     tc_accepted a = [1, 2, 3] \<and> content (tc_out a) = [2, 3] \<and> tc_state a = kConnected \<and> tc_state a0 = kConnected \<and>
     isReading (tc_channel a0) \<and> wire a a0 = [1] \<and> length (buf_data (tc_in a0)) = 1032"
proof -
  obtain a0 a where a: "conn_up 9 True False 0 = Inr a0" "tc_state a0 = kConnected" "tc_received a0 = []"
      "sendInLoop slow_net [1, 2, 3] a0 = Inr a" "conn_reach slow_net a0 (Inr a)"
      "content (tc_out a) = [2, 3]" "tc_accepted a = [1, 2, 3]" "tc_state a = kConnected"
    using pending_conn by blast
  obtain x where x: "conn_up 9 True False 0 = Inr x" "length (buf_data (tc_in x)) = 1032"
      "tc_channel x = \<lparr>ch_polling = True, ch_fd = 9, ch_events = 3, ch_revents = 0, ch_tied = True,
                     ch_handling = False\<rparr>"
    using conn_up_spec [of 9 True False 0] by blast
  have "x = a0" using x(1) a(1) by simp
  then have c0: "length (buf_data (tc_in a0)) = 1032" "ch_events (tc_channel a0) = 3"
    using x(2,3) by simp_all
  have inv: "conn_inv a" using conn_reach_inv [OF slow_net_ok(1) a(1,5)] by simp
  then have "tc_sent a @ content (tc_out a) = tc_accepted a" unfolding conn_inv_def bytes_ok_def by blast
  then have "tc_sent a @ [2, 3] = [1] @ [2, 3]" unfolding a(6,7) by simp
  then have snt: "tc_sent a = [1]" by (simp only: append_same_eq)
  have "sendInLoop slow_link [1, 2, 3] a0 = sendInLoop slow_net [1, 2, 3] a0"
    by (simp add: sendInLoop_def direct_write_def sock_write_def slow_link_def)
  then have step: "conn_step slow_link (Ev_user (U_send [1, 2, 3])) a0 = Inr a"
    using a(2,4) by (simp add: conn_send_def)
  have "pair_step (a0, a0) (bindE (conn_step slow_link (Ev_user (U_send [1, 2, 3])) a0) (\<lambda>a'. Inr (a', a0)))"
    by (rule pair_step.left [OF slow_link_ok]) simp
  then have "reach pair_step (a0, a0) (Inr (a, a0))" unfolding step by (intro reach_first) simp
  moreover have "pair_up 9 True False 0 9 True False 0 = Inr (a0, a0)" by (simp add: pair_up_def a(1))
  moreover have "isReading (tc_channel a0)" by (simp add: isReading_def has_def c0(2))
  moreover have "wire a a0 = [1]" by (simp add: wire_def a(3) snt)
  ultimately show ?thesis using a(2,6-8) c0(1) by blast
qed

text \<open>C8. 
  Every byte is accounted for from one end to the other: whatever the two users, loops and
  kernels do, what one end accepted is what the other end's user consumed, followed by what
  waits in its input buffer, what is on its way, and what waits in the first end's output
  buffer. So the two buffers and the network are one FIFO in each direction, and once the
  \<open>SHUT_WR\<close> of an end is out and its bytes have arrived, the other end has received all of them.
\<close>
theorem pair_streams:
  assumes "pair_up fd wcb hcb mark fd' wcb' hcb' mark' = Inr p0" and "reach pair_step p0 (Inr (a, b))"
  shows "tc_accepted a = tc_consumed b @ content (tc_in b) @ wire a b @ content (tc_out a) \<and>
    tc_accepted b = tc_consumed a @ content (tc_in a) @ wire b a @ content (tc_out b) \<and>
    (tc_shut a \<and> wire a b = [] \<longrightarrow> tc_received b = tc_accepted a)"
proof -
  have inv: "pair_inv (a, b)" by (rule pair_reach_inv [OF assms])
  have "tc_received b = tc_accepted a" if "tc_shut a" "wire a b = []"
  proof -
    have "conn_inv a" using inv by (simp add: pair_inv_def)
    then have "content (tc_out a) = []" "tc_sent a @ content (tc_out a) = tc_accepted a"
      using that(1) unfolding conn_inv_def shut_ok_def bytes_ok_def by blast+
    moreover have "tc_received b @ wire a b = tc_sent a"
      using inv by (intro wire_split) (simp add: pair_inv_def)
    ultimately show ?thesis using that(2) by simp
  qed
  with pair_inv_stream [OF inv] show ?thesis by blast
qed

theorem pair_streams_witness:
  "\<exists>a0 a. pair_up 9 True False 0 9 True False 0 = Inr (a0, a0) \<and> reach pair_step (a0, a0) (Inr (a, a0)) \<and>
     tc_accepted a = [1, 2, 3] \<and> wire a a0 = [1] \<and> content (tc_out a) = [2, 3] \<and>
     tc_accepted a = tc_consumed a0 @ content (tc_in a0) @ wire a a0 @ content (tc_out a)"
proof -
  obtain a0 a where a: "pair_up 9 True False 0 9 True False 0 = Inr (a0, a0)"
      "reach pair_step (a0, a0) (Inr (a, a0))" "tc_accepted a = [1, 2, 3]" "content (tc_out a) = [2, 3]"
      "wire a a0 = [1]"
    using pending_pair by blast
  from pair_streams [OF a(1,2)] a show ?thesis by blast
qed

text \<open>C9. 
  Delivery: from every state the two ends can come to, if both are open, the second one is
  reading and its vector has room to grow by what is outstanding, and whatever a network that
  makes progress does, after at most as many notifications as there are bytes outstanding
  everything the first end accepted has been written and read by the second; and if the first end
  had shut down its output, or does so once it is drained, one notification more closes the second
  end, exactly once.
\<close>
theorem pair_delivers:
  assumes up: "pair_up fd wcb hcb mark fd' wcb' hcb' mark' = Inr p0" and r: "reach pair_step p0 (Inr (a, b))"
    and live: "\<And>x y. link_live (K x y) x y"
    and st: "tc_state a \<noteq> kDisconnected" "tc_state b \<noteq> kDisconnected" "isReading (tc_channel b)"
    and room: "length (buf_data (tc_in b)) + length (wire a b) + length (content (tc_out a)) \<le> vec_max_size"
  shows "\<exists>n m a' b'. n \<le> length (content (tc_out a)) \<and> m \<le> length (wire a b) + length (content (tc_out a)) \<and>
    write_events (\<lambda>x. K x b) n a = Inr a' \<and> read_events (\<lambda>y. K y a') m b = Inr b' \<and>
    tc_accepted a' = tc_accepted a \<and> tc_received b' = tc_accepted a \<and>
    (tc_shut a \<or> content (tc_out a) \<noteq> [] \<and> tc_state a = kDisconnecting \<longrightarrow>
      (\<exists>b''. read_events (\<lambda>y. K y a') (m + 1) b = Inr b'' \<and> tc_received b'' = tc_accepted a \<and>
         tc_state b'' = kDisconnected \<and> tc_closed b'' = 1))"
proof -
  have inv: "conn_inv a" "conn_inv b" "prefix (tc_received b) (tc_sent a)"
    using pair_reach_inv [OF up r] by (simp_all add: pair_inv_def)
  have net: "net_ok (K x y)" "net_progress (K x y)" for x y
    using live [of x y] by (simp_all add: link_live_def link_ok_def)
  obtain n a' where n: "n \<le> length (content (tc_out a))" "write_events (\<lambda>x. K x b) n a = Inr a'"
      "conn_inv a'" "content (tc_out a') = []" "tc_accepted a' = tc_accepted a"
      "content (tc_out a) \<noteq> [] \<longrightarrow> tc_state a = kDisconnecting \<longrightarrow> tc_shut a'"
    using drain_events [of "\<lambda>x. K x b" a, OF net inv(1) st(1)] by blast
  have sent: "tc_sent a' = tc_accepted a" using n(3-5) by (simp add: inv_defs)
  have all: "tc_sent a @ content (tc_out a) = tc_accepted a" using inv(1) by (simp add: inv_defs)
  have pre: "prefix (tc_received b) (tc_sent a')" unfolding sent all [symmetric] using inv(3) by simp
  have "tc_received b @ wire a' b = tc_received b @ wire a b @ content (tc_out a)"
    using wire_split [OF pre] unfolding sent all [symmetric] wire_split [OF inv(3), symmetric] by simp
  then have w: "wire a' b = wire a b @ content (tc_out a)" by simp
  have rm: "length (buf_data (tc_in b)) + length (wire a' b) \<le> vec_max_size" using room w by simp
  obtain m b' where m: "m \<le> length (wire a' b)" "read_events (\<lambda>y. K y a') m b = Inr b'" "conn_inv b'"
      "tc_received b' = tc_sent a'" "tc_state b' = tc_state b" "isReading (tc_channel b')"
      "length (buf_data (tc_in b')) \<le> vec_max_size"
    using reads_arrive [of "\<lambda>y. K y a'" a' b, OF live inv(2) st(2) pre st(3) rm] by blast
  have w0: "wire a' b' = []" using m(4) by (simp add: wire_def)
  have eof: "\<exists>b''. read_events (\<lambda>y. K y a') (m + 1) b = Inr b'' \<and> tc_received b'' = tc_accepted a \<and>
      tc_state b'' = kDisconnected \<and> tc_closed b'' = 1" if "tc_shut a'"
  proof -
    have "tc_state b' \<noteq> kDisconnected" "prefix (tc_received b') (tc_sent a')"
      "length (buf_data (tc_in b')) + length (wire a' b') \<le> vec_max_size"
      using m(4,5,7) st(2) w0 by simp_all
    from live_read [OF live m(3) this(1,2) _ this(3)] that w0 obtain b'' where
      "conn_step (K b' a') (Ev_ready EPOLLIN []) b' = Inr b''" "tc_received b'' = tc_received b'"
      "tc_state b'' = kDisconnected" "tc_closed b'' = 1" by auto
    then show ?thesis
      using read_events_add [of b "\<lambda>y. K y a'" m b' 1, OF st(3) m(2)] m(4,6) sent by auto
  qed
  have "tc_shut a'" if "tc_shut a \<or> content (tc_out a) \<noteq> [] \<and> tc_state a = kDisconnecting"
  proof (cases "content (tc_out a) = []")
    case True
    then have "n = 0" using n(1) by simp
    then have "a' = a" using n(2) by simp
    then show ?thesis using that True by simp
  next
    case False
    moreover have "\<not> tc_shut a" using False inv(1) by (auto simp: inv_defs)
    ultimately show ?thesis using that n(6) by blast
  qed
  then show ?thesis using n(1,2,5) m(1,2,4) sent w eof by (intro exI [of _ n] exI [of _ m] exI [of _ a'] exI [of _ b']) auto
qed

theorem pair_delivers_witness:
  "\<exists>a0 a n m a' b'. pair_up 9 True False 0 9 True False 0 = Inr (a0, a0) \<and>
     reach pair_step (a0, a0) (Inr (a, a0)) \<and>
     write_events (\<lambda>x. good_link x a0) n a = Inr a' \<and> read_events (\<lambda>y. good_link y a') m a0 = Inr b' \<and>
     tc_received b' = [1, 2, 3]"
proof -
  obtain a0 a where a: "pair_up 9 True False 0 9 True False 0 = Inr (a0, a0)"
      "reach pair_step (a0, a0) (Inr (a, a0))" "tc_accepted a = [1, 2, 3]" "content (tc_out a) = [2, 3]"
      "tc_state a = kConnected" "tc_state a0 = kConnected" "isReading (tc_channel a0)" "wire a a0 = [1]"
      "length (buf_data (tc_in a0)) = 1032"
    using pending_pair by blast
  have st: "tc_state a \<noteq> kDisconnected" "tc_state a0 \<noteq> kDisconnected" using a(5,6) by simp_all
  have room: "length (buf_data (tc_in a0)) + length (wire a a0) + length (content (tc_out a)) \<le> vec_max_size"
    by (simp add: a(4,8,9) vec_max_size_val)
  from pair_delivers [OF a(1,2) good_link_live st a(7) room] a(1-3) show ?thesis by metis
qed

end
