(* ===== verification/Timer_Queue.thy ===== *)
theory Timer_Queue
  imports Prelude "HOL-Library.Product_Lexorder"
begin

text \<open>
  Timers: \<open>Timer.h\<close>, \<open>TimerQueue.h\<close>, \<open>TimerQueue.cpp\<close>. Timers are objects on a heap, a
  \<open>Timer*\<close> is an address (0 is the null pointer), and using an address that is not allocated is
  the error \<open>Use_after_free\<close>. The \<open>std::set\<close> of (time, pointer) pairs is its sorted list of
  elements. Times are nanoseconds as integers, so the overflow of the 64-bit count (in the year 2262) is
  not covered; an address is given out once only, so a stale pointer never designates a
  younger timer that the allocator put in its place. The lemmas show which timers fire and in which
  order, that the queue stays consistent with the heap and the timer descriptor is set for the
  earliest deadline, and what goes wrong when a timer is cancelled that has already expired.
\<close>

section \<open>Timer\<close>

record timer =
  tm_when :: int
  tm_interval :: int
  tm_repeat :: bool
  tm_canceled :: bool

definition timer_new :: "int \<Rightarrow> int \<Rightarrow> timer" where
  "timer_new when interval =
     \<lparr>tm_when = when, tm_interval = interval, tm_repeat = (0 < interval), tm_canceled = False\<rparr>"

definition timer_expired :: "int \<Rightarrow> timer \<Rightarrow> bool" where
  "timer_expired now t \<longleftrightarrow> tm_when t \<le> now"

definition timer_restart :: "timer \<Rightarrow> timer res" where
  "timer_restart t =
     assertE (tm_repeat t) ''repeat_'' (Inr (t\<lparr>tm_when := tm_when t + tm_interval t\<rparr>))"

definition timer_cancel :: "timer \<Rightarrow> timer res" where
  "timer_cancel t = assertE (\<not> tm_canceled t) ''!canceled_'' (Inr (t\<lparr>tm_canceled := True\<rparr>))"

section \<open>The timer descriptor\<close>

text \<open>\<open>durationFromNow\<close>: seconds and nanoseconds, at least one millisecond ahead.\<close>

definition durationFromNow :: "int \<Rightarrow> int \<Rightarrow> int \<times> int" where
  "durationFromNow now when =
     (let ns = when - now; ns' = (if ns < 1000000 then 1000000 else ns)
      in (ns' div 1000000000, ns' mod 1000000000))"

section \<open>The queue\<close>

type_synonym entry = "int \<times> nat"

text \<open>
  \<open>tq_armed\<close> is the deadline the descriptor was last set for since it was last read,
  \<open>tq_next\<close> the address of the next allocation. \<open>tq_ran\<close> records the callbacks run.
\<close>

record timer_queue =
  tq_heap :: "nat \<rightharpoonup> timer"
  tq_next :: nat
  tq_timers :: "entry list"
  tq_armed :: "int option"
  tq_ran :: "nat list"

definition tq_new :: timer_queue where
  "tq_new = \<lparr>tq_heap = Map.empty, tq_next = 1, tq_timers = [], tq_armed = None, tq_ran = []\<rparr>"

definition timer_at :: "timer_queue \<Rightarrow> nat \<Rightarrow> timer res" where
  "timer_at q p = (case tq_heap q p of None \<Rightarrow> Inl Use_after_free | Some t \<Rightarrow> Inr t)"

definition set_insert :: "entry \<Rightarrow> entry list \<Rightarrow> entry list \<times> bool" where
  "set_insert e es = (if e \<in> set es then (es, False) else (insort e es, True))"

definition set_erase :: "entry \<Rightarrow> entry list \<Rightarrow> entry list" where
  "set_erase e es = filter (\<lambda>x. x \<noteq> e) es"

definition timerfdSet :: "int \<Rightarrow> timer_queue \<Rightarrow> timer_queue" where
  "timerfdSet when q = q\<lparr>tq_armed := Some when\<rparr>"

definition timerfdRead :: "timer_queue \<Rightarrow> timer_queue" where
  "timerfdRead q = q\<lparr>tq_armed := None\<rparr>"

text \<open>\<open>addTimer\<close> allocates the timer in the calling thread; the closure it hands to \<open>runInLoop\<close>
  inserts it. \<open>addTimer\<close> and \<open>cancelTimer\<close> here are the calls of the loop thread, where the closure
  runs at once.\<close>

definition timer_alloc :: "int \<Rightarrow> int \<Rightarrow> timer_queue \<Rightarrow> nat \<times> timer_queue" where
  "timer_alloc when interval q =
     (tq_next q, q\<lparr>tq_heap := (tq_heap q)(tq_next q \<mapsto> timer_new when interval), tq_next := tq_next q + 1\<rparr>)"

definition insertTimer :: "int \<Rightarrow> nat \<Rightarrow> timer_queue \<Rightarrow> timer_queue res" where
  "insertTimer when p q =
     (let (es, new) = set_insert (when, p) (tq_timers q)
      in assertE new ''ret.second'' (
           let q2 = q\<lparr>tq_timers := es\<rparr> in Inr (if hd es = (when, p) then timerfdSet when q2 else q2)))"

definition addTimer :: "int \<Rightarrow> int \<Rightarrow> timer_queue \<Rightarrow> (nat \<times> timer_queue) res" where
  "addTimer when interval q =
     (case timer_alloc when interval q of (p, q1) \<Rightarrow> bindE (insertTimer when p q1) (\<lambda>q2. Inr (p, q2)))"

definition cancelTimer :: "nat \<Rightarrow> timer_queue \<Rightarrow> timer_queue res" where
  "cancelTimer p q =
     bindE (timer_at q p) (\<lambda>t.
     bindE (timer_cancel t) (\<lambda>t'.
     Inr (q\<lparr>tq_timers := set_erase (tm_when t', p) (tq_timers q),
            tq_heap := (tq_heap q)(p := None)\<rparr>)))"

text \<open>\<open>lower_bound\<close> of (now + 1, null): the position of the first entry not below it.\<close>

definition getExpired :: "int \<Rightarrow> timer_queue \<Rightarrow> entry list \<times> timer_queue" where
  "getExpired now q =
     (let en = (now + 1, 0)
      in (takeWhile (\<lambda>e. e < en) (tq_timers q),
          q\<lparr>tq_timers := dropWhile (\<lambda>e. e < en) (tq_timers q)\<rparr>))"

text \<open>What a callback does to the queue: \<open>acts p\<close> for the timer at \<open>p\<close>.\<close>

datatype timer_act = Act_add int int | Act_cancel nat

fun do_act :: "timer_act \<Rightarrow> timer_queue \<Rightarrow> timer_queue res" where
  "do_act (Act_add when interval) q = bindE (addTimer when interval q) (\<lambda>r. Inr (snd r))"
| "do_act (Act_cancel p) q = cancelTimer p q"

fun do_acts :: "timer_act list \<Rightarrow> timer_queue \<Rightarrow> timer_queue res" where
  "do_acts [] q = Inr q"
| "do_acts (a # as) q = bindE (do_act a q) (do_acts as)"

definition timer_run :: "(nat \<Rightarrow> timer_act list) \<Rightarrow> nat \<Rightarrow> timer_queue \<Rightarrow> timer_queue res" where
  "timer_run acts p q = do_acts (acts p) (q\<lparr>tq_ran := tq_ran q @ [p]\<rparr>)"

text \<open>The body of the loop of \<open>handleRead\<close> and the whole of it.\<close>

definition fire :: "int \<Rightarrow> (nat \<Rightarrow> timer_act list) \<Rightarrow> entry \<Rightarrow> timer_queue \<Rightarrow> timer_queue res" where
  "fire now acts e q =
     (let p = snd e in
      bindE (timer_at q p) (\<lambda>t.
      assertE (timer_expired now t) ''timer->expired(now)'' (
      bindE (if \<not> tm_canceled t then timer_run acts p q else Inr q) (\<lambda>q1.
      bindE (timer_at q1 p) (\<lambda>t1.
      if \<not> tm_canceled t1 \<and> tm_repeat t1
      then bindE (timer_restart t1) (\<lambda>t2.
             Inr (q1\<lparr>tq_heap := (tq_heap q1)(p \<mapsto> t2),
                     tq_timers := fst (set_insert (tm_when t2, p) (tq_timers q1))\<rparr>))
      else Inr (q1\<lparr>tq_heap := (tq_heap q1)(p := None)\<rparr>))))))"

fun fire_all ::
  "int \<Rightarrow> (nat \<Rightarrow> timer_act list) \<Rightarrow> entry list \<Rightarrow> timer_queue \<Rightarrow> timer_queue res" where
  "fire_all now acts [] q = Inr q"
| "fire_all now acts (e # es) q = bindE (fire now acts e q) (fire_all now acts es)"

definition timer_handleRead :: "int \<Rightarrow> (nat \<Rightarrow> timer_act list) \<Rightarrow> timer_queue \<Rightarrow> timer_queue res" where
  "timer_handleRead now acts q =
     (case getExpired now (timerfdRead q) of (es, q1) \<Rightarrow>
        bindE (fire_all now acts es q1) (\<lambda>q2.
          Inr (if tq_timers q2 \<noteq> [] then timerfdSet (fst (hd (tq_timers q2))) q2 else q2)))"

section \<open>The sorted set\<close>

lemma set_insert_spec:
  assumes "sorted es" "distinct es"
  shows "sorted (fst (set_insert e es))" "distinct (fst (set_insert e es))"
    "set (fst (set_insert e es)) = insert e (set es)" "snd (set_insert e es) \<longleftrightarrow> e \<notin> set es"
  using assms
  by (auto simp: set_insert_def sorted_insort distinct_insort set_insort_key)

lemma set_erase_spec:
  assumes "sorted es" "distinct es"
  shows "sorted (set_erase e es)" "distinct (set_erase e es)" "set (set_erase e es) = set es - {e}"
  using assms by (auto simp: set_erase_def sorted_wrt_filter)

lemma below_now: "((w, p) :: entry) < (now + 1, 0) \<longleftrightarrow> w \<le> now"
  by (auto simp: less_prod_def)

lemma takeWhile_sorted:
  "sorted es \<Longrightarrow> takeWhile (\<lambda>e. e < x) es = filter (\<lambda>e. e < x) es"
proof (induction es)
  case (Cons e es)
  then have "\<not> e < x \<Longrightarrow> filter (\<lambda>e. e < x) es = []"
    by (auto simp: filter_empty_conv dest: order.strict_trans1)
  with Cons show ?case by auto
qed simp

lemma dropWhile_sorted:
  "sorted es \<Longrightarrow> dropWhile (\<lambda>e. e < x) es = filter (\<lambda>e. \<not> e < x) es"
proof (induction es)
  case (Cons e es)
  then have "\<not> e < x \<Longrightarrow> filter (\<lambda>e. \<not> e < x) es = es"
    by (auto simp: filter_id_conv dest: order.strict_trans2)
  with Cons show ?case by auto
qed simp

lemma getExpired_split:
  assumes "sorted (tq_timers q)"
  shows "getExpired now q =
     (filter (\<lambda>e. fst e \<le> now) (tq_timers q), q\<lparr>tq_timers := filter (\<lambda>e. now < fst e) (tq_timers q)\<rparr>)"
proof -
  have "(\<lambda>e :: entry. e < (now + 1, 0)) = (\<lambda>e. fst e \<le> now)"
    by (auto simp: below_now [symmetric])
  moreover have "(\<lambda>e :: entry. \<not> e < (now + 1, 0)) = (\<lambda>e. now < fst e)"
    by (auto simp: below_now [symmetric] not_le [symmetric])
  ultimately show ?thesis
    using takeWhile_sorted [OF assms] dropWhile_sorted [OF assms] by (simp add: getExpired_def)
qed

section \<open>The queue and the heap\<close>

text \<open>
  \<open>es\<close> are expired entries still to be fired: an entry of theirs or of the queue is a live
  timer that was not cancelled and carries the same time, no timer has two entries, and every
  timer has one.
\<close>

definition live :: "timer_queue \<Rightarrow> entry \<Rightarrow> bool" where
  "live q e \<longleftrightarrow> (\<exists>t. tq_heap q (snd e) = Some t \<and> tm_when t = fst e \<and> \<not> tm_canceled t)"

definition heap_ok :: "entry list \<Rightarrow> timer_queue \<Rightarrow> bool" where
  "heap_ok es q \<longleftrightarrow>
     (\<forall>p t. tq_heap q p = Some t \<longrightarrow>
        p < tq_next q \<and> (tm_when t, p) \<in> set es \<union> set (tq_timers q) \<and> (tm_repeat t \<longleftrightarrow> 0 < tm_interval t))"

definition tq_inv :: "entry list \<Rightarrow> timer_queue \<Rightarrow> bool" where
  "tq_inv es q \<longleftrightarrow>
     sorted (tq_timers q) \<and> distinct (tq_timers q) \<and> distinct es \<and>
     set es \<inter> set (tq_timers q) = {} \<and>
     (\<forall>e \<in> set es \<union> set (tq_timers q). live q e) \<and> heap_ok es q"

lemma tq_invI:
  assumes "sorted (tq_timers q)" "distinct (tq_timers q)" "distinct es"
    "set es \<inter> set (tq_timers q) = {}"
    "\<And>e. e \<in> set es \<union> set (tq_timers q) \<Longrightarrow> live q e" "heap_ok es q"
  shows "tq_inv es q"
  using assms by (simp add: tq_inv_def)

lemma tq_inv_armed: "tq_inv es (q\<lparr>tq_armed := x\<rparr>) = tq_inv es q"
  by (simp add: tq_inv_def heap_ok_def live_def)

lemma tq_inv_live: "tq_inv es q \<Longrightarrow> e \<in> set es \<union> set (tq_timers q) \<Longrightarrow> live q e"
  by (simp add: tq_inv_def)

lemma live_unique: "live q e \<Longrightarrow> live q e' \<Longrightarrow> snd e = snd e' \<Longrightarrow> e = e'"
  by (auto simp: live_def prod_eq_iff)

lemma tq_inv_below: "tq_inv es q \<Longrightarrow> e \<in> set es \<union> set (tq_timers q) \<Longrightarrow> snd e < tq_next q"
  using tq_inv_live [of es q e] by (auto simp: tq_inv_def heap_ok_def live_def)

lemma live_frame:
  "live q e \<Longrightarrow> tq_heap q' (snd e) = tq_heap q (snd e) \<Longrightarrow> live q' e"
  by (simp add: live_def)

lemma tq_inv_perm: "tq_inv es q \<Longrightarrow> set es' = set es \<Longrightarrow> distinct es' \<Longrightarrow> tq_inv es' q"
  by (simp add: tq_inv_def heap_ok_def)

text \<open>A new timer is one still to be entered.\<close>

lemma timer_alloc_spec:
  assumes inv: "tq_inv es q"
  shows "tq_inv ((when, tq_next q) # es) (snd (timer_alloc when interval q))"
proof -
  let ?p = "tq_next q" and ?q = "snd (timer_alloc when interval q)"
  have old: "snd e \<noteq> ?p" if "e \<in> set es \<union> set (tq_timers q)" for e
    using tq_inv_below [OF inv that] by simp
  then have new: "(when, ?p) \<notin> set es \<union> set (tq_timers q)" by fastforce
  show ?thesis
  proof (rule tq_invI)
    show "live ?q e" if "e \<in> set ((when, ?p) # es) \<union> set (tq_timers ?q)" for e
    proof (cases "e = (when, ?p)")
      case True
      then show ?thesis by (simp add: live_def timer_alloc_def timer_new_def)
    next
      case False
      then have "e \<in> set es \<union> set (tq_timers q)" using that by (auto simp: timer_alloc_def)
      from tq_inv_live [OF inv this] old [OF this] show ?thesis by (simp add: live_def timer_alloc_def)
    qed
    show "heap_ok ((when, ?p) # es) ?q"
      using inv by (auto simp: tq_inv_def heap_ok_def timer_alloc_def timer_new_def less_Suc_eq)
  qed (use inv new in \<open>auto simp: tq_inv_def timer_alloc_def\<close>)
qed

lemma insertTimer_spec:
  assumes inv: "tq_inv ((when, p) # es) q"
  shows "\<exists>q'. insertTimer when p q = Inr q' \<and> tq_inv es q' \<and>
     tq_ran q' = tq_ran q \<and> tq_next q' = tq_next q \<and> tq_heap q' = tq_heap q \<and>
     set (tq_timers q') = insert (when, p) (set (tq_timers q)) \<and>
     tq_armed q' = (if hd (tq_timers q') = (when, p) then Some when else tq_armed q)"
proof -
  let ?ts = "tq_timers q"
  have srt: "sorted ?ts" "distinct ?ts" and new: "(when, p) \<notin> set ?ts"
    using inv by (auto simp: tq_inv_def)
  note i = set_insert_spec [OF srt, of "(when, p)"]
  obtain ts where ts: "set_insert (when, p) ?ts = (ts, True)" using i(4) new by (metis prod.collapse)
  have ts': "sorted ts" "distinct ts" "set ts = insert (when, p) (set ?ts)"
    using i ts by simp_all
  let ?q = "q\<lparr>tq_timers := ts\<rparr>"
  have add: "insertTimer when p q = Inr (if hd ts = (when, p) then ?q\<lparr>tq_armed := Some when\<rparr> else ?q)"
    by (simp add: insertTimer_def ts timerfdSet_def Let_def)
  have inv': "tq_inv es ?q"
  proof (rule tq_invI)
    show "live ?q e" if "e \<in> set es \<union> set (tq_timers ?q)" for e
      by (rule live_frame [where q = q]) (use that ts' tq_inv_live [OF inv, of e] in auto)
    show "heap_ok es ?q" using inv ts' by (auto simp: tq_inv_def heap_ok_def)
  qed (use inv ts' new in \<open>auto simp: tq_inv_def\<close>)
  with ts' show ?thesis by (simp add: add tq_inv_armed)
qed

lemma addTimer_spec:
  assumes inv: "tq_inv es q"
  shows "\<exists>q'. addTimer when interval q = Inr (tq_next q, q') \<and> tq_inv es q' \<and>
     tq_ran q' = tq_ran q \<and> tq_next q' = tq_next q + 1 \<and>
     tq_heap q' = (tq_heap q)(tq_next q \<mapsto> timer_new when interval) \<and>
     set (tq_timers q') = insert (when, tq_next q) (set (tq_timers q)) \<and>
     tq_armed q' = (if hd (tq_timers q') = (when, tq_next q) then Some when else tq_armed q)"
  using insertTimer_spec [OF timer_alloc_spec [OF inv, of "when" interval]]
  by (auto simp: addTimer_def timer_alloc_def)

lemma cancelTimer_spec:
  assumes inv: "tq_inv es q" and p: "p \<in> snd ` set (tq_timers q)"
  shows "\<exists>q'. cancelTimer p q = Inr q' \<and> tq_inv es q' \<and> tq_ran q' = tq_ran q \<and>
     tq_next q' = tq_next q \<and> tq_heap q' = (tq_heap q)(p := None) \<and>
     set (tq_timers q') = {e \<in> set (tq_timers q). snd e \<noteq> p} \<and> tq_armed q' = tq_armed q"
proof -
  obtain w where w: "(w, p) \<in> set (tq_timers q)" using p by auto
  have lv: "live q (w, p)" using tq_inv_live [OF inv] w by auto
  then obtain t where t: "tq_heap q p = Some t" "tm_when t = w" "\<not> tm_canceled t"
    by (auto simp: live_def)
  have only: "e = (w, p)" if "e \<in> set es \<union> set (tq_timers q)" "snd e = p" for e
    using live_unique [OF tq_inv_live [OF inv that(1)] lv] that(2) by simp
  let ?ts = "set_erase (w, p) (tq_timers q)"
  let ?q = "q\<lparr>tq_timers := ?ts, tq_heap := (tq_heap q)(p := None)\<rparr>"
  have c: "cancelTimer p q = Inr ?q" using t by (simp add: cancelTimer_def timer_at_def timer_cancel_def)
  have srt: "sorted (tq_timers q)" "distinct (tq_timers q)" "set es \<inter> set (tq_timers q) = {}"
    using inv by (simp_all add: tq_inv_def)
  note ers = set_erase_spec [OF srt(1,2), of "(w, p)"]
  have notp: "snd e \<noteq> p" if "e \<in> set es \<union> set ?ts" for e
    using that only [of e] ers(3) w srt(3) by auto
  have ts: "set ?ts = {e \<in> set (tq_timers q). snd e \<noteq> p}"
    using only ers(3) notp by auto
  have "tq_inv es ?q"
  proof (rule tq_invI)
    show "live ?q e" if "e \<in> set es \<union> set (tq_timers ?q)" for e
    proof (rule live_frame)
      show "live q e" using tq_inv_live [OF inv, of e] that ers(3) by auto
      show "tq_heap ?q (snd e) = tq_heap q (snd e)" using notp [of e] that by simp
    qed
    show "heap_ok es ?q" using inv ers(3) by (auto simp: tq_inv_def heap_ok_def)
  qed (use inv ers in \<open>auto simp: tq_inv_def\<close>)
  with c ts show ?thesis by simp
qed

section \<open>Callbacks and firing\<close>

fun cancels :: "timer_act list \<Rightarrow> nat list" where
  "cancels [] = []"
| "cancels (Act_add w i # as) = cancels as"
| "cancels (Act_cancel p # as) = p # cancels as"

text \<open>What stays: timers that exist already and are not cancelled keep their object and entry.\<close>

definition frame :: "nat set \<Rightarrow> timer_queue \<Rightarrow> timer_queue \<Rightarrow> bool" where
  "frame C q q' \<longleftrightarrow>
     tq_next q \<le> tq_next q' \<and>
     (\<forall>p < tq_next q. p \<notin> C \<longrightarrow> tq_heap q' p = tq_heap q p) \<and>
     (\<forall>e \<in> set (tq_timers q). snd e \<notin> C \<longrightarrow> e \<in> set (tq_timers q'))"

lemma frame_refl: "frame C q q"
  by (simp add: frame_def)

lemma frame_armed: "frame C q (q'\<lparr>tq_armed := x\<rparr>) = frame C q q'"
  by (simp add: frame_def)

lemma frame_trans: "frame C q q' \<Longrightarrow> frame D q' q'' \<Longrightarrow> frame (C \<union> D) q q''"
  by (auto simp: frame_def)

lemma frame_mono: "frame C q q' \<Longrightarrow> C \<subseteq> D \<Longrightarrow> frame D q q'"
  by (auto simp: frame_def)

lemma frame_entries:
  "frame C q q' \<Longrightarrow> D \<subseteq> snd ` set (tq_timers q) \<Longrightarrow> C \<inter> D = {} \<Longrightarrow> D \<subseteq> snd ` set (tq_timers q')"
  by (force simp: frame_def)

lemma do_act_spec:
  assumes inv: "tq_inv es q" and c: "set (cancels [a]) \<subseteq> snd ` set (tq_timers q)"
  shows "\<exists>q'. do_act a q = Inr q' \<and> tq_inv es q' \<and> tq_ran q' = tq_ran q \<and> frame (set (cancels [a])) q q'"
proof (cases a)
  case (Act_add w i)
  obtain q' where "addTimer w i q = Inr (tq_next q, q')" "tq_inv es q'" "tq_ran q' = tq_ran q"
      "tq_next q' = tq_next q + 1" "tq_heap q' = (tq_heap q)(tq_next q \<mapsto> timer_new w i)"
      "set (tq_timers q') = insert (w, tq_next q) (set (tq_timers q))"
    using addTimer_spec [OF inv] by blast
  with Act_add show ?thesis by (auto simp: frame_def)
next
  case (Act_cancel p)
  then have "p \<in> snd ` set (tq_timers q)" using c by simp
  from cancelTimer_spec [OF inv this] Act_cancel show ?thesis by (auto simp: frame_def)
qed

lemma do_acts_spec:
  assumes "tq_inv es q" "set (cancels as) \<subseteq> snd ` set (tq_timers q)" "distinct (cancels as)"
  shows "\<exists>q'. do_acts as q = Inr q' \<and> tq_inv es q' \<and> tq_ran q' = tq_ran q \<and> frame (set (cancels as)) q q'"
  using assms
proof (induction as arbitrary: q)
  case Nil
  then show ?case by (simp add: frame_refl)
next
  case (Cons a as)
  have ca: "set (cancels (a # as)) = set (cancels [a]) \<union> set (cancels as)"
      "set (cancels [a]) \<inter> set (cancels as) = {}" "distinct (cancels as)"
    using Cons.prems(3) by (cases a; auto)+
  obtain q1 where q1: "do_act a q = Inr q1" "tq_inv es q1" "tq_ran q1 = tq_ran q"
      "frame (set (cancels [a])) q q1"
    using do_act_spec [OF Cons.prems(1), of a] Cons.prems(2) ca(1) by auto
  have "set (cancels as) \<subseteq> snd ` set (tq_timers q1)"
    by (rule frame_entries [OF q1(4)]) (use Cons.prems(2) ca in auto)
  from Cons.IH [OF q1(2) this ca(3)] q1 obtain q2 where "do_acts as q1 = Inr q2" "tq_inv es q2"
      "tq_ran q2 = tq_ran q" "frame (set (cancels as)) q1 q2" by auto
  with q1 ca(1) frame_trans [OF q1(4)] show ?case by (metis bindE_simps(2) do_acts.simps(2))
qed

text \<open>What becomes of a timer that fired.\<close>

definition after_fire :: "timer option \<Rightarrow> timer option" where
  "after_fire o_t = Option.bind o_t (\<lambda>t.
     if tm_repeat t then Some (t\<lparr>tm_when := tm_when t + tm_interval t\<rparr>) else None)"

lemma fire_spec:
  assumes inv: "tq_inv (e # es) q" and exp: "fst e \<le> now"
    and c: "set (cancels (acts (snd e))) \<subseteq> snd ` set (tq_timers q)" "distinct (cancels (acts (snd e)))"
  shows "\<exists>q'. fire now acts e q = Inr q' \<and> tq_inv es q' \<and> tq_ran q' = tq_ran q @ [snd e] \<and>
     tq_heap q' (snd e) = after_fire (tq_heap q (snd e)) \<and>
     frame (insert (snd e) (set (cancels (acts (snd e))))) q q'"
proof -
  let ?p = "snd e" and ?C = "set (cancels (acts (snd e)))"
  have lv: "live q e" using tq_inv_live [OF inv] by simp
  then obtain t where t: "tq_heap q ?p = Some t" "tm_when t = fst e" "\<not> tm_canceled t"
    by (auto simp: live_def)
  have notin: "?p \<notin> ?C"
  proof
    assume "?p \<in> ?C"
    then obtain e' where e': "e' \<in> set (tq_timers q)" "snd e' = ?p" using c(1) by force
    then have "e' = e" using live_unique [OF tq_inv_live [OF inv, of e'] lv] by simp
    with e' inv show False by (simp add: tq_inv_def)
  qed
  let ?q0 = "q\<lparr>tq_ran := tq_ran q @ [?p]\<rparr>"
  have "tq_inv (e # es) ?q0" using inv by (simp add: tq_inv_def heap_ok_def live_def)
  moreover have "?C \<subseteq> snd ` set (tq_timers ?q0)" using c(1) by simp
  ultimately obtain q1 where q1: "do_acts (acts ?p) ?q0 = Inr q1" "tq_inv (e # es) q1"
      "tq_ran q1 = tq_ran q @ [?p]" "frame ?C ?q0 q1"
    using do_acts_spec [OF _ _ c(2)] by fastforce
  have f1: "frame ?C q q1" using q1(4) by (simp add: frame_def)
  have t1: "tq_heap q1 ?p = Some t"
    using f1 tq_inv_below [OF inv, of e] notin t(1) by (simp add: frame_def)
  have uniq: "snd e' \<noteq> ?p" if "e' \<in> set es \<union> set (tq_timers q1)" for e'
  proof
    assume "snd e' = ?p"
    with live_unique [OF tq_inv_live [OF q1(2)] tq_inv_live [OF q1(2), of e]] that
    have "e' = e" by auto
    with that q1(2) show False by (auto simp: tq_inv_def)
  qed
  have srt: "sorted (tq_timers q1)" "distinct (tq_timers q1)" using q1(2) by (simp_all add: tq_inv_def)
  have run: "fire now acts e q =
      (if tm_repeat t
       then Inr (q1\<lparr>tq_heap := (tq_heap q1)(?p \<mapsto> t\<lparr>tm_when := tm_when t + tm_interval t\<rparr>),
              tq_timers := fst (set_insert (tm_when t + tm_interval t, ?p) (tq_timers q1))\<rparr>)
       else Inr (q1\<lparr>tq_heap := (tq_heap q1)(?p := None)\<rparr>))"
    using t q1(1) t1 exp
    by (simp add: fire_def timer_at_def timer_expired_def timer_run_def timer_restart_def Let_def)
  show ?thesis
  proof (cases "tm_repeat t")
    case True
    let ?w = "tm_when t + tm_interval t"
    let ?q = "q1\<lparr>tq_heap := (tq_heap q1)(?p \<mapsto> t\<lparr>tm_when := ?w\<rparr>),
               tq_timers := fst (set_insert (?w, ?p) (tq_timers q1))\<rparr>"
    note i = set_insert_spec [OF srt, of "(?w, ?p)"]
    have "tq_inv es ?q"
    proof (rule tq_invI)
      show "live ?q e'" if "e' \<in> set es \<union> set (tq_timers ?q)" for e'
      proof (cases "e' = (?w, ?p)")
        case True
        with t(3) show ?thesis by (simp add: live_def)
      next
        case False
        with that i(3) have "e' \<in> set es \<union> set (tq_timers q1)" by auto
        with uniq tq_inv_live [OF q1(2)] show ?thesis by (simp add: live_def)
      qed
      show "heap_ok es ?q"
        using q1(2) i(3) t1 by (cases e) (auto simp: tq_inv_def heap_ok_def)
      show "set es \<inter> set (tq_timers ?q) = {}"
        using q1(2) i(3) uniq by (force simp: tq_inv_def)
    qed (use q1(2) i in \<open>auto simp: tq_inv_def\<close>)
    moreover have "frame (insert ?p ?C) q ?q"
      using f1 i(3) by (auto simp: frame_def)
    ultimately show ?thesis using run True t q1(3) by (simp add: after_fire_def)
  next
    case False
    let ?q = "q1\<lparr>tq_heap := (tq_heap q1)(?p := None)\<rparr>"
    have "tq_inv es ?q"
    proof (rule tq_invI)
      show "live ?q e'" if "e' \<in> set es \<union> set (tq_timers ?q)" for e'
        using uniq [of e'] tq_inv_live [OF q1(2), of e'] that by (auto simp: live_def)
      show "heap_ok es ?q"
        using q1(2) by (cases e) (auto simp: tq_inv_def heap_ok_def)
    qed (use q1(2) in \<open>auto simp: tq_inv_def\<close>)
    moreover have "frame (insert ?p ?C) q ?q" using f1 by (auto simp: frame_def)
    ultimately show ?thesis using run False t q1(3) by (simp add: after_fire_def)
  qed
qed

definition all_cancels :: "(nat \<Rightarrow> timer_act list) \<Rightarrow> entry list \<Rightarrow> nat list" where
  "all_cancels acts es = concat (map (\<lambda>e. cancels (acts (snd e))) es)"

lemma no_cancels: "all_cancels (\<lambda>_. []) es = []"
  by (induction es) (simp_all add: all_cancels_def)

lemma fire_all_spec:
  assumes "tq_inv (es @ ps) q" and "\<forall>e \<in> set es. fst e \<le> now"
    and "set (all_cancels acts es) \<subseteq> snd ` set (tq_timers q)" and "distinct (all_cancels acts es)"
  shows "\<exists>q'. fire_all now acts es q = Inr q' \<and> tq_inv ps q' \<and> tq_ran q' = tq_ran q @ map snd es \<and>
     (\<forall>e \<in> set es. tq_heap q' (snd e) = after_fire (tq_heap q (snd e))) \<and>
     frame (snd ` set es \<union> set (all_cancels acts es)) q q'"
  using assms
proof (induction es arbitrary: q)
  case Nil
  then show ?case by (simp add: frame_refl)
next
  case (Cons e es)
  let ?C = "set (cancels (acts (snd e)))" and ?D = "set (all_cancels acts es)"
  have sub: "?C \<subseteq> snd ` set (tq_timers q)" "?D \<subseteq> snd ` set (tq_timers q)" "?C \<inter> ?D = {}"
      "distinct (cancels (acts (snd e)))" "distinct (all_cancels acts es)"
    using Cons.prems(3,4) by (auto simp: all_cancels_def)
  obtain q1 where q1: "fire now acts e q = Inr q1" "tq_inv (es @ ps) q1" "tq_ran q1 = tq_ran q @ [snd e]"
      "tq_heap q1 (snd e) = after_fire (tq_heap q (snd e))" "frame (insert (snd e) ?C) q q1"
    using fire_spec [of e "es @ ps" q now acts] Cons.prems(1,2) sub(1,4) by auto
  have other: "snd e' \<noteq> snd e" if "e' \<in> set es \<union> set (tq_timers q)" for e'
    using live_unique [OF tq_inv_live [OF Cons.prems(1), of e'] tq_inv_live [OF Cons.prems(1), of e]]
      that Cons.prems(1) by (auto simp: tq_inv_def)
  have nd: "snd e' \<notin> snd ` set (tq_timers q)" if "e' \<in> set (e # es)" for e'
  proof
    assume "snd e' \<in> snd ` set (tq_timers q)"
    then obtain e2 where "e2 \<in> set (tq_timers q)" "snd e2 = snd e'" by force
    with live_unique [OF tq_inv_live [OF Cons.prems(1), of e2] tq_inv_live [OF Cons.prems(1), of e']]
      that Cons.prems(1) show False by (auto simp: tq_inv_def)
  qed
  have "insert (snd e) ?C \<inter> ?D = {}" using sub(2,3) nd [of e] by auto
  then have d1: "?D \<subseteq> snd ` set (tq_timers q1)" by (rule frame_entries [OF q1(5) sub(2)])
  obtain q2 where q2: "fire_all now acts es q1 = Inr q2" "tq_inv ps q2"
      "tq_ran q2 = tq_ran q1 @ map snd es"
      "\<forall>e' \<in> set es. tq_heap q2 (snd e') = after_fire (tq_heap q1 (snd e'))"
      "frame (snd ` set es \<union> ?D) q1 q2"
    using Cons.IH [OF q1(2) _ d1 sub(5)] Cons.prems(2) by auto
  have below: "snd e' < tq_next q" if "e' \<in> set (e # es)" for e'
    using tq_inv_below [OF Cons.prems(1), of e'] that by auto
  have h1: "tq_heap q1 (snd e') = tq_heap q (snd e')" if "e' \<in> set es" for e'
  proof -
    have "snd e' < tq_next q" using below [of e'] that by simp
    moreover have "snd e' \<notin> insert (snd e) ?C" using other [of e'] nd [of e'] sub(1) that by auto
    ultimately show ?thesis using q1(5) unfolding frame_def by blast
  qed
  have h2: "tq_heap q2 (snd e) = tq_heap q1 (snd e)"
  proof -
    have "snd e < tq_next q1" using q1(5) below [of e] by (simp add: frame_def)
    moreover have "snd e \<notin> snd ` set es" using other by (force simp del: split_paired_All)
    then have "snd e \<notin> snd ` set es \<union> ?D" using nd [of e] sub(2) by auto
    ultimately show ?thesis using q2(5) unfolding frame_def by blast
  qed
  have "frame (insert (snd e) ?C \<union> (snd ` set es \<union> ?D)) q q2"
    by (rule frame_trans [OF q1(5) q2(5)])
  then have "frame (snd ` set (e # es) \<union> set (all_cancels acts (e # es))) q q2"
    by (rule frame_mono) (auto simp: all_cancels_def)
  moreover have "fire_all now acts (e # es) q = Inr q2" using q1(1) q2(1) by simp
  moreover have "tq_ran q2 = tq_ran q @ map snd (e # es)" using q1(3) q2(3) by simp
  moreover have "\<forall>e' \<in> set (e # es). tq_heap q2 (snd e') = after_fire (tq_heap q (snd e'))"
    using q1(4) q2(4) h1 h2 by simp
  ultimately show ?case using q2(2) by blast
qed

lemma timer_handleRead_spec:
  assumes inv: "tq_inv ps q"
    and c: "set (all_cancels acts (filter (\<lambda>e. fst e \<le> now) (tq_timers q)))
              \<subseteq> {p. \<exists>w. now < w \<and> (w, p) \<in> set (tq_timers q)}"
      "distinct (all_cancels acts (filter (\<lambda>e. fst e \<le> now) (tq_timers q)))"
  shows "\<exists>q'. timer_handleRead now acts q = Inr q' \<and> tq_inv ps q' \<and>
     tq_ran q' = tq_ran q @ map snd (filter (\<lambda>e. fst e \<le> now) (tq_timers q)) \<and>
     (\<forall>e \<in> set (tq_timers q). fst e \<le> now \<longrightarrow>
        tq_heap q' (snd e) = after_fire (tq_heap q (snd e))) \<and>
     frame (snd ` set (filter (\<lambda>e. fst e \<le> now) (tq_timers q)) \<union>
            set (all_cancels acts (filter (\<lambda>e. fst e \<le> now) (tq_timers q)))) q q' \<and>
     (tq_timers q' \<noteq> [] \<longrightarrow> tq_armed q' = Some (fst (hd (tq_timers q'))))"
proof -
  let ?es = "filter (\<lambda>e. fst e \<le> now) (tq_timers q)"
  let ?q1 = "(timerfdRead q)\<lparr>tq_timers := filter (\<lambda>e. now < fst e) (tq_timers q)\<rparr>"
  have srt: "sorted (tq_timers (timerfdRead q))" using inv by (simp add: tq_inv_def timerfdRead_def)
  have ge: "getExpired now (timerfdRead q) = (?es, ?q1)"
    using getExpired_split [OF srt, of now] by (simp add: timerfdRead_def)
  have sets: "set ?es \<union> set (tq_timers ?q1) = set (tq_timers q)" "set ?es \<inter> set (tq_timers ?q1) = {}"
    by (auto simp: timerfdRead_def)
  have h: "tq_heap ?q1 = tq_heap q" "tq_next ?q1 = tq_next q" by (simp_all add: timerfdRead_def)
  have "tq_inv (?es @ ps) ?q1"
  proof (rule tq_invI)
    show "live ?q1 e" if "e \<in> set (?es @ ps) \<union> set (tq_timers ?q1)" for e
      using tq_inv_live [OF inv, of e] that unfolding live_def h by (auto simp: timerfdRead_def)
    show "heap_ok (?es @ ps) ?q1"
      using inv unfolding tq_inv_def heap_ok_def h by (auto simp: timerfdRead_def)
    show "sorted (tq_timers ?q1)" "distinct (tq_timers ?q1)" "distinct (?es @ ps)"
        "set (?es @ ps) \<inter> set (tq_timers ?q1) = {}"
      using inv by (auto simp: tq_inv_def sorted_wrt_filter timerfdRead_def)
  qed
  moreover have "\<forall>e \<in> set ?es. fst e \<le> now" by simp
  moreover have "set (all_cancels acts ?es) \<subseteq> snd ` set (tq_timers ?q1)"
  proof
    fix p assume "p \<in> set (all_cancels acts ?es)"
    then obtain w where "now < w" "(w, p) \<in> set (tq_timers q)" using c(1) by blast
    then have "(w, p) \<in> set (tq_timers ?q1)" by simp
    then show "p \<in> snd ` set (tq_timers ?q1)" by force
  qed
  ultimately obtain q2 where q2: "fire_all now acts ?es ?q1 = Inr q2" "tq_inv ps q2"
      "tq_ran q2 = tq_ran ?q1 @ map snd ?es"
      "\<forall>e \<in> set ?es. tq_heap q2 (snd e) = after_fire (tq_heap ?q1 (snd e))"
      "frame (snd ` set ?es \<union> set (all_cancels acts ?es)) ?q1 q2"
    using fire_all_spec [OF _ _ _ c(2)] by blast
  let ?q' = "if tq_timers q2 \<noteq> [] then timerfdSet (fst (hd (tq_timers q2))) q2 else q2"
  have "timer_handleRead now acts q = Inr ?q'"
    using q2(1) ge by (simp add: timer_handleRead_def)
  moreover have "tq_inv ps ?q'"
    using q2(2) by (simp add: timerfdSet_def tq_inv_armed)
  moreover have "tq_ran ?q' = tq_ran q @ map snd ?es"
    using q2(3) by (simp add: timerfdSet_def timerfdRead_def)
  moreover have "\<forall>e \<in> set (tq_timers q). fst e \<le> now \<longrightarrow>
      tq_heap ?q' (snd e) = after_fire (tq_heap q (snd e))"
  proof (intro ballI impI)
    fix e assume "e \<in> set (tq_timers q)" "fst e \<le> now"
    then have "e \<in> set ?es" by simp
    then have "tq_heap q2 (snd e) = after_fire (tq_heap ?q1 (snd e))" by (rule bspec [OF q2(4)])
    then show "tq_heap ?q' (snd e) = after_fire (tq_heap q (snd e))"
      unfolding h(1) by (simp add: timerfdSet_def)
  qed
  moreover have "frame (snd ` set ?es \<union> set (all_cancels acts ?es)) q ?q'"
  proof -
    let ?C = "snd ` set ?es \<union> set (all_cancels acts ?es)"
    have "e \<in> set (tq_timers q2)" if "e \<in> set (tq_timers q)" "snd e \<notin> ?C" for e
    proof -
      have "snd e \<notin> snd ` set ?es" using that(2) by blast
      then have "now < fst e" using that(1) by force
      then have "e \<in> set (tq_timers ?q1)" using that(1) by simp
      with q2(5) that(2) show ?thesis unfolding frame_def by blast
    qed
    then have "frame ?C q q2" using q2(5) unfolding frame_def h by blast
    then show ?thesis by (simp add: timerfdSet_def frame_armed)
  qed
  moreover have "tq_timers ?q' \<noteq> [] \<longrightarrow> tq_armed ?q' = Some (fst (hd (tq_timers ?q')))"
    by (simp add: timerfdSet_def)
  ultimately show ?thesis by blast
qed

section \<open>Deadlines\<close>

text \<open>While there are timers, the descriptor is set for the earliest one or earlier.\<close>

definition armed_ok :: "timer_queue \<Rightarrow> bool" where
  "armed_ok q \<longleftrightarrow>
     (tq_timers q \<noteq> [] \<longrightarrow> (\<exists>a. tq_armed q = Some a \<and> a \<le> fst (hd (tq_timers q))))"

lemma fst_mono: "(e :: entry) \<le> e' \<Longrightarrow> fst e \<le> fst e'"
  by (auto simp: less_eq_prod_def)

lemma hd_sorted_le: "sorted es \<Longrightarrow> (e :: entry) \<in> set es \<Longrightarrow> fst (hd es) \<le> fst e"
  by (cases es) (auto intro: fst_mono)

lemma insertTimer_armed:
  assumes inv: "tq_inv ((when, p) # es) q" and ok: "armed_ok q" and ins: "insertTimer when p q = Inr q'"
  shows "armed_ok q'"
proof -
  have q': "set (tq_timers q') = insert (when, p) (set (tq_timers q))"
      "tq_armed q' = (if hd (tq_timers q') = (when, p) then Some when else tq_armed q)"
    using insertTimer_spec [OF inv] ins by auto
  show ?thesis
  proof (cases "hd (tq_timers q') = (when, p)")
    case True
    with q'(2) show ?thesis by (simp add: armed_ok_def)
  next
    case False
    have "tq_timers q' \<noteq> []" using q'(1) by auto
    then have "hd (tq_timers q') \<in> set (tq_timers q)" using hd_in_set q'(1) False by fastforce
    moreover have "sorted (tq_timers q)" using inv by (simp add: tq_inv_def)
    ultimately have "fst (hd (tq_timers q)) \<le> fst (hd (tq_timers q'))" "tq_timers q \<noteq> []"
      using hd_sorted_le by auto
    with ok False q'(2) show ?thesis by (auto simp: armed_ok_def)
  qed
qed

lemma addTimer_armed:
  assumes inv: "tq_inv es q" and ok: "armed_ok q" and add: "addTimer when i q = Inr (p, q')"
  shows "armed_ok q'"
proof -
  have "insertTimer when (tq_next q) (snd (timer_alloc when i q)) = Inr q'"
    using add by (auto simp: addTimer_def timer_alloc_def res_simps)
  moreover have "armed_ok (snd (timer_alloc when i q))" using ok by (simp add: armed_ok_def timer_alloc_def)
  ultimately show ?thesis using insertTimer_armed [OF timer_alloc_spec [OF inv]] by blast
qed

lemma cancelTimer_armed:
  assumes inv: "tq_inv es q" and ok: "armed_ok q" and p: "p \<in> snd ` set (tq_timers q)"
    and c: "cancelTimer p q = Inr q'"
  shows "armed_ok q'"
proof -
  have ts: "set (tq_timers q') \<subseteq> set (tq_timers q)" "tq_armed q' = tq_armed q"
    using cancelTimer_spec [OF inv p] c by auto
  have "sorted (tq_timers q)" using inv by (simp add: tq_inv_def)
  then have "fst (hd (tq_timers q)) \<le> fst (hd (tq_timers q'))" if "tq_timers q' \<noteq> []"
    using that ts(1) hd_sorted_le by (meson hd_in_set subsetD)
  with ok ts show ?thesis by (fastforce simp: armed_ok_def)
qed

section \<open>Properties\<close>

text \<open>C23. Expired timers fire exactly once, in order of their time, and nothing else does: on a
  consistent queue \<open>handleRead\<close> never fails; it runs the callbacks of exactly the timers whose
  time has come, earliest first; a one-shot timer is then freed, a repeating one moved on by its
  interval; the queue is consistent again and the descriptor set for its earliest deadline.
  Callbacks may add timers and may cancel timers that are not yet due, each at most once.\<close>
theorem timers_fire:
  assumes "tq_inv [] q"
    and "set (all_cancels acts (filter (\<lambda>e. fst e \<le> now) (tq_timers q)))
           \<subseteq> {p. \<exists>w. now < w \<and> (w, p) \<in> set (tq_timers q)}"
    and "distinct (all_cancels acts (filter (\<lambda>e. fst e \<le> now) (tq_timers q)))"
  shows "\<exists>q'. timer_handleRead now acts q = Inr q' \<and> tq_inv [] q' \<and>
     tq_ran q' = tq_ran q @ map snd (filter (\<lambda>e. fst e \<le> now) (tq_timers q)) \<and>
     (\<forall>e \<in> set (tq_timers q). fst e \<le> now \<longrightarrow>
        tq_heap q' (snd e) = after_fire (tq_heap q (snd e))) \<and>
     (tq_timers q' \<noteq> [] \<longrightarrow> tq_armed q' = Some (fst (hd (tq_timers q'))))"
  using timer_handleRead_spec [OF assms] by blast

text \<open>A queue with a one-shot timer due at 5, a repeating one due at 3 and one due at 90.\<close>

definition three_timers :: timer_queue where
  "three_timers =
     \<lparr>tq_heap = [1 \<mapsto> timer_new 5 0, 2 \<mapsto> timer_new 3 100, 3 \<mapsto> timer_new 90 0], tq_next = 4,
      tq_timers = [(3, 2), (5, 1), (90, 3)], tq_armed = Some 3, tq_ran = []\<rparr>"

lemma three_timers_inv: "tq_inv [] three_timers"
  by (auto simp: tq_inv_def three_timers_def live_def heap_ok_def timer_new_def split: if_splits)

theorem timers_fire_witness:
  "\<exists>q'. timer_handleRead 10 (\<lambda>p. if p = 1 then [Act_add 7 0, Act_cancel 3] else []) three_timers = Inr q' \<and>
     tq_ran q' = [2, 1]"
proof -
  let ?acts = "\<lambda>p :: nat. if p = 1 then [Act_add 7 0, Act_cancel 3] else []"
  have "set (all_cancels ?acts (filter (\<lambda>e. fst e \<le> 10) (tq_timers three_timers)))
      \<subseteq> {p. \<exists>w. 10 < w \<and> (w, p) \<in> set (tq_timers three_timers)}"
      "distinct (all_cancels ?acts (filter (\<lambda>e. fst e \<le> 10) (tq_timers three_timers)))"
    by (simp_all add: all_cancels_def three_timers_def)
  from timers_fire [OF three_timers_inv this] show ?thesis
    by (auto simp: three_timers_def)
qed

text \<open>No deadline is missed: adding a timer always succeeds on a consistent queue, and
  cancelling one that is pending does too; both keep the queue consistent and the descriptor
  set for the earliest pending deadline or an earlier one.\<close>
theorem timer_queue_armed:
  assumes "tq_inv [] q" and "armed_ok q"
  shows "(\<exists>p q'. addTimer when interval q = Inr (p, q') \<and> tq_inv [] q' \<and> armed_ok q' \<and>
            (when, p) \<in> set (tq_timers q') \<and> p \<notin> dom (tq_heap q)) \<and>
         (\<forall>p \<in> snd ` set (tq_timers q).
            \<exists>q'. cancelTimer p q = Inr q' \<and> tq_inv [] q' \<and> armed_ok q' \<and> p \<notin> snd ` set (tq_timers q'))"
proof (intro conjI ballI)
  obtain q' where q': "addTimer when interval q = Inr (tq_next q, q')" "tq_inv [] q'"
      "set (tq_timers q') = insert (when, tq_next q) (set (tq_timers q))"
    using addTimer_spec [OF assms(1)] by blast
  have "tq_next q \<notin> dom (tq_heap q)" using assms(1) by (fastforce simp: tq_inv_def heap_ok_def)
  with q' addTimer_armed [OF assms q'(1)] show
    "\<exists>p q'. addTimer when interval q = Inr (p, q') \<and> tq_inv [] q' \<and> armed_ok q' \<and>
            (when, p) \<in> set (tq_timers q') \<and> p \<notin> dom (tq_heap q)" by blast
next
  fix p assume p: "p \<in> snd ` set (tq_timers q)"
  obtain q' where q': "cancelTimer p q = Inr q'" "tq_inv [] q'"
      "set (tq_timers q') = {e \<in> set (tq_timers q). snd e \<noteq> p}"
    using cancelTimer_spec [OF assms(1) p] by blast
  have "armed_ok q'" by (rule cancelTimer_armed [OF assms p q'(1)])
  moreover have "p \<notin> snd ` set (tq_timers q')" using q'(3) by auto
  ultimately show "\<exists>q'. cancelTimer p q = Inr q' \<and> tq_inv [] q' \<and> armed_ok q' \<and> p \<notin> snd ` set (tq_timers q')"
    using q' by blast
qed

theorem timer_queue_armed_witness:
  "\<exists>p q'. addTimer 1 0 three_timers = Inr (p, q') \<and> armed_ok q' \<and> (1, p) \<in> set (tq_timers q')"
proof -
  have "armed_ok three_timers" by (simp add: armed_ok_def three_timers_def)
  from timer_queue_armed [OF three_timers_inv this, of 1 0] show ?thesis by blast
qed

text \<open>Cancelling a timer that has expired is a use after free: when the callback of an
  expired timer cancels that timer (the usual way to end a repeating one), \<open>cancelTimer\<close> frees
  the object that \<open>handleRead\<close> then reads; and cancelling a one-shot timer after it has run
  reads an object that \<open>handleRead\<close> freed.\<close>
theorem cancel_expired_is_use_after_free:
  assumes "when \<le> now"
  shows "\<exists>p q. addTimer when interval tq_new = Inr (p, q) \<and>
     timer_handleRead now (\<lambda>_. [Act_cancel p]) q = Inl Use_after_free \<and>
     (interval \<le> 0 \<longrightarrow> (\<exists>q'. timer_handleRead now (\<lambda>_. []) q = Inr q' \<and>
                          cancelTimer p q' = Inl Use_after_free))"
proof -
  let ?q = "\<lparr>tq_heap = [1 \<mapsto> timer_new when interval], tq_next = 2, tq_timers = [(when, 1)],
             tq_armed = Some when, tq_ran = []\<rparr>"
  have add: "addTimer when interval tq_new = Inr (1, ?q)"
    by (simp add: addTimer_def timer_alloc_def insertTimer_def tq_new_def set_insert_def timerfdSet_def Let_def)
  have ge: "getExpired now (timerfdRead ?q) = ([(when, 1)], ?q\<lparr>tq_timers := [], tq_armed := None\<rparr>)"
    using assms by (simp add: getExpired_def timerfdRead_def below_now)
  have hr: "timer_handleRead now acts ?q =
      bindE (fire_all now acts [(when, 1)] (?q\<lparr>tq_timers := [], tq_armed := None\<rparr>)) (\<lambda>q2.
        Inr (if tq_timers q2 \<noteq> [] then timerfdSet (fst (hd (tq_timers q2))) q2 else q2))" for acts
    by (simp only: timer_handleRead_def ge prod.case)
  note run = fire_def timer_at_def timer_new_def timer_expired_def
    timer_run_def cancelTimer_def timer_cancel_def Let_def
  have "timer_handleRead now (\<lambda>_. [Act_cancel 1]) ?q = Inl Use_after_free"
    unfolding hr using assms by (simp add: run)
  moreover have "\<exists>q'. timer_handleRead now (\<lambda>_. []) ?q = Inr q' \<and> cancelTimer 1 q' = Inl Use_after_free"
    if "interval \<le> 0"
    unfolding hr using assms that by (simp add: run)
  ultimately show ?thesis using add by blast
qed

theorem cancel_expired_is_use_after_free_witness:
  "\<exists>p q. addTimer 5 1000 tq_new = Inr (p, q) \<and>
     timer_handleRead 7 (\<lambda>_. [Act_cancel p]) q = Inl Use_after_free"
  using cancel_expired_is_use_after_free [of 5 7 1000] by auto

text \<open>The timer descriptor gets a valid, never zero duration: seconds and nanoseconds of
  \<open>durationFromNow\<close> are in range and make up the time to the deadline, but at least one
  millisecond (a zero duration would disarm the timer).\<close>
theorem durationFromNow_valid:
  "case durationFromNow now when of (sec, nsec) \<Rightarrow>
     0 \<le> sec \<and> 0 \<le> nsec \<and> nsec < 1000000000 \<and>
     sec * 1000000000 + nsec = max (when - now) 1000000"
  by (auto simp: durationFromNow_def Let_def max_def pos_imp_zdiv_nonneg_iff)

end
