(* ===== verification/Timestamp.thy ===== *)
theory Timestamp
  imports Prelude
begin

text \<open>
  Points of time and durations, \<open>base/Timestamp.h\<close>: names for the types of \<open>std::chrono\<close> and three
  functions. A \<open>Timestamp\<close> and a \<open>Nanosecond\<close> are counts of nanoseconds in a signed 64-bit integer,
  whose overflow C++ leaves undefined: a result out of range is \<open>None\<close>. What the system's clock
  answers is an argument. The other theories compute times as integers; the lemmas say how far that
  is what the program computes.
\<close>

section \<open>Durations\<close>

definition rep_max :: int where
  "rep_max = 2 ^ 63 - 1"

definition in_rep :: "int \<Rightarrow> int option" where
  "in_rep n = (if - rep_max - 1 \<le> n \<and> n \<le> rep_max then Some n else None)"

datatype time_unit = Nanosecond | Microsecond | Millisecond | Second | Minute | Hour

fun unit_ns :: "time_unit \<Rightarrow> int" where
  "unit_ns Nanosecond = 1"
| "unit_ns Microsecond = 1000"
| "unit_ns Millisecond = 1000000"
| "unit_ns Second = 1000000000"
| "unit_ns Minute = 60 * 1000000000"
| "unit_ns Hour = 3600 * 1000000000"

text \<open>The conversion that a call like \<open>runEvery(Second(3), ...)\<close> makes.\<close>

definition to_ns :: "time_unit \<Rightarrow> int \<Rightarrow> int option" where
  "to_ns u n = in_rep (n * unit_ns u)"

section \<open>Points of time\<close>

definition now_time :: "int \<Rightarrow> int option" where
  "now_time clock = in_rep clock"

definition nowAfter :: "int \<Rightarrow> int \<Rightarrow> int option" where
  "nowAfter clock interval = Option.bind (now_time clock) (\<lambda>t. in_rep (t + interval))"

definition nowBefore :: "int \<Rightarrow> int \<Rightarrow> int option" where
  "nowBefore clock interval = Option.bind (now_time clock) (\<lambda>t. in_rep (t - interval))"

section \<open>When nothing overflows\<close>

lemma in_rep_Some: "in_rep n = Some m \<longleftrightarrow> m = n \<and> - rep_max - 1 \<le> n \<and> n \<le> rep_max"
  by (auto simp: in_rep_def)

lemma now_round_trip: "nowAfter clock d = Some t \<Longrightarrow> nowBefore t d = Some clock"
  by (auto simp: nowAfter_def nowBefore_def now_time_def in_rep_Some bind_eq_Some_conv)

text \<open>Up to the year 2116, intervals of up to 146 years are safe.\<close>

lemma nowAfter_safe:
  assumes "0 \<le> clock" "clock \<le> rep_max div 2" "0 \<le> d" "d \<le> rep_max div 2"
  shows "nowAfter clock d = Some (clock + d)" "nowBefore clock d = Some (clock - d)"
  using assms by (simp_all add: nowAfter_def nowBefore_def now_time_def in_rep_def rep_max_def)

lemma hours_safe: "0 \<le> n \<Longrightarrow> n \<le> 146 * 365 * 24 \<Longrightarrow> \<exists>d. to_ns Hour n = Some d \<and> 0 \<le> d \<and> d \<le> rep_max div 2"
  by (auto simp: to_ns_def in_rep_def rep_max_def)

lemma units_exact:
  "to_ns u n = Some d \<Longrightarrow> to_ns u m = Some e \<Longrightarrow> d < e \<longleftrightarrow> n < m"
  by (cases u) (auto simp: to_ns_def in_rep_Some)

end
