(* ===== verification/Loop_Object.thy ===== *)
theory Loop_Object
  imports Channel Timer_Queue Timestamp
begin

text \<open>
  The life of an \<open>EventLoop\<close> object around \<open>loop()\<close>, and its timers: the constructor and the
  destructor of \<open>EventLoop.cpp\<close> and \<open>TimerQueue.cpp\<close>, the thread-local pointer to the loop of the
  thread, and \<open>runAt\<close>, \<open>runAfter\<close> and \<open>runEvery\<close> as the loop thread calls them. The lemmas show that
  a loop can be destroyed whenever it does not loop and then leaves no timer behind, what a second
  loop in a thread does to the first, and that repeating timers do not drift.
\<close>

section \<open>Timers by time and interval\<close>

text \<open>\<open>now\<close> is what \<open>clock::now()\<close> answers.\<close>

definition runAt :: "int \<Rightarrow> timer_queue \<Rightarrow> (nat \<times> timer_queue) res" where
  "runAt when q = addTimer when 0 q"

definition runAfter :: "int \<Rightarrow> int \<Rightarrow> timer_queue \<Rightarrow> (nat \<times> timer_queue) res" where
  "runAfter now interval q = runAt (now + interval) q"

definition runEvery :: "int \<Rightarrow> int \<Rightarrow> timer_queue \<Rightarrow> (nat \<times> timer_queue) res" where
  "runEvery now interval q = addTimer (now + interval) interval q"

text \<open>\<open>handleRead\<close> at some times, with callbacks that leave the timers alone.\<close>

fun ticks :: "int list \<Rightarrow> timer_queue \<Rightarrow> timer_queue res" where
  "ticks [] q = Inr q"
| "ticks (t # ts) q = bindE (timer_handleRead t (\<lambda>_. []) q) (ticks ts)"

section \<open>The destructor of the timers\<close>

text \<open>\<open>delete p.second\<close> for every entry of the set, then \<open>close\<close>.\<close>

fun delete_all :: "entry list \<Rightarrow> timer_queue \<Rightarrow> timer_queue res" where
  "delete_all [] q = Inr q"
| "delete_all (e # es) q =
     bindE (timer_at q (snd e)) (\<lambda>_. delete_all es (q\<lparr>tq_heap := (tq_heap q)(snd e := None)\<rparr>))"

definition timer_queue_dtor :: "timer_queue \<Rightarrow> timer_queue res" where
  "timer_queue_dtor q = delete_all (tq_timers q) q"

section \<open>The loop object\<close>

text \<open>\<open>self\<close> is the address of the object, \<open>cur\<close> the thread-local \<open>t_loopInThisThread\<close>.\<close>

record loop_object =
  lo_looping :: bool
  lo_threadId :: int
  lo_wakeup :: channel
  lo_timer :: channel
  lo_timers :: timer_queue

definition loop_object_new ::
  "int \<Rightarrow> int \<Rightarrow> int \<Rightarrow> nat \<Rightarrow> nat option \<Rightarrow> (loop_object \<times> nat option) res" where
  "loop_object_new tid wakeupFd timerfd self cur =
     bindE (enableRead (channel_new timerfd)) (\<lambda>(tch, _).
     let cur' = (case cur of Some other \<Rightarrow> cur | None \<Rightarrow> Some self) in
     bindE (enableRead (channel_new wakeupFd)) (\<lambda>(wch, _).
       Inr (\<lparr>lo_looping = False, lo_threadId = tid, lo_wakeup = wch, lo_timer = tch, lo_timers = tq_new\<rparr>, cur')))"

definition getEventLoopOfCurrentThread :: "nat option \<Rightarrow> nat option" where
  "getEventLoopOfCurrentThread cur = cur"

text \<open>\<open>isInLoopThread\<close>; a call from another thread is logged by \<open>abortNotInLoopThread\<close> and goes on.\<close>

definition isInLoopThread :: "int \<Rightarrow> loop_object \<Rightarrow> bool" where
  "isInLoopThread tid l \<longleftrightarrow> lo_threadId l = tid"

definition abortNotInLoopThread :: "int \<Rightarrow> loop_object \<Rightarrow> (int \<times> int) list" where
  "abortNotInLoopThread tid l = [(lo_threadId l, tid)]"

text \<open>What the call logs: the two thread ids.\<close>

definition assertInLoopThread :: "int \<Rightarrow> loop_object \<Rightarrow> (int \<times> int) list" where
  "assertInLoopThread tid l = (if \<not> isInLoopThread tid l then abortNotInLoopThread tid l else [])"

text \<open>\<open>Channel::update\<close> calls \<open>EventLoop::updateChannel\<close>, which calls that of the poller.\<close>

definition loop_updateChannel ::
  "int \<Rightarrow> loop_object \<Rightarrow> channel \<Rightarrow> (channel \<times> ctl_call \<times> (int \<times> int) list) res" where
  "loop_updateChannel tid l ch =
     bindE (updateChannel ch) (\<lambda>(ch', call). Inr (ch', call, assertInLoopThread tid l))"

definition channel_update ::
  "int \<Rightarrow> loop_object \<Rightarrow> channel \<Rightarrow> (channel \<times> ctl_call \<times> (int \<times> int) list) res" where
  "channel_update tid l ch = loop_updateChannel tid l ch"

definition loop_cancelTimer :: "nat \<Rightarrow> loop_object \<Rightarrow> loop_object res" where
  "loop_cancelTimer p l = bindE (cancelTimer p (lo_timers l)) (\<lambda>q. Inr (l\<lparr>lo_timers := q\<rparr>))"

definition channel_dtor :: "channel \<Rightarrow> unit res" where
  "channel_dtor ch = assertE (\<not> ch_handling ch) ''!handlingEvents_'' (Inr ())"

text \<open>The body of the destructor, then the members from the last to the first; the result is the
  heap that is left and the thread-local pointer.\<close>

definition loop_object_dtor :: "loop_object \<Rightarrow> ((nat \<rightharpoonup> timer) \<times> nat option) res" where
  "loop_object_dtor l =
     assertE (\<not> lo_looping l) ''!looping_''
       (bindE (diableAll (lo_wakeup l)) (\<lambda>(wch, _).
        bindE (timer_queue_dtor (lo_timers l)) (\<lambda>q.
        bindE (channel_dtor (lo_timer l)) (\<lambda>_.
        bindE (channel_dtor wch) (\<lambda>_. Inr (tq_heap q, None))))))"

section \<open>Destroying timers\<close>

lemma delete_all_spec:
  assumes "distinct (map snd es)" "\<forall>e \<in> set es. tq_heap q (snd e) \<noteq> None"
  shows "\<exists>q'. delete_all es q = Inr q' \<and> tq_heap q' = tq_heap q |` (- snd ` set es)"
  using assms
proof (induction es arbitrary: q)
  case Nil
  then show ?case by (simp add: restrict_map_def)
next
  case (Cons e es)
  let ?q = "q\<lparr>tq_heap := (tq_heap q)(snd e := None)\<rparr>"
  obtain t where t: "tq_heap q (snd e) = Some t" using Cons.prems(2) by auto
  have "\<forall>x \<in> set es. tq_heap ?q (snd x) \<noteq> None"
    using Cons.prems by (auto simp: image_iff)
  then obtain q' where q': "delete_all es ?q = Inr q'" "tq_heap q' = tq_heap ?q |` (- snd ` set es)"
    using Cons.IH [of ?q] Cons.prems(1) unfolding list.map distinct.simps by blast
  have "tq_heap q' = tq_heap q |` (- snd ` set (e # es))"
    unfolding q'(2) by (auto simp: restrict_map_def fun_eq_iff)
  with q'(1) t show ?case by (simp add: timer_at_def)
qed

lemma distinct_addresses:
  assumes "tq_inv [] q"
  shows "distinct (map snd (tq_timers q))"
proof -
  have l: "live q e" if "e \<in> set (tq_timers q)" for e using assms that by (simp add: tq_inv_def)
  have "inj_on snd (set (tq_timers q))"
  proof (rule inj_onI)
    fix x y assume "x \<in> set (tq_timers q)" "y \<in> set (tq_timers q)" and s: "snd x = snd y"
    then have "live q x" "live q y" using l by simp_all
    then have "fst x = fst y" using s by (auto simp: live_def)
    with s show "x = y" by (simp add: prod_eq_iff)
  qed
  with assms show ?thesis by (simp add: distinct_map tq_inv_def)
qed

lemma timer_queue_dtor_spec:
  assumes "tq_inv [] q"
  shows "\<exists>q'. timer_queue_dtor q = Inr q' \<and> tq_heap q' = Map.empty"
proof -
  have l: "\<forall>e \<in> set (tq_timers q). tq_heap q (snd e) \<noteq> None"
    using assms by (auto simp: tq_inv_def live_def)
  obtain q' where q': "timer_queue_dtor q = Inr q'" "tq_heap q' = tq_heap q |` (- snd ` set (tq_timers q))"
    using delete_all_spec [OF distinct_addresses [OF assms] l] by (auto simp: timer_queue_dtor_def)
  have "p \<in> snd ` set (tq_timers q)" if "tq_heap q p = Some t" for p t
    using assms that by (force simp: tq_inv_def heap_ok_def)
  then have "tq_heap q' = Map.empty"
    unfolding q'(2) by (fastforce simp: restrict_map_def fun_eq_iff)
  with q'(1) show ?thesis by blast
qed

text \<open>Another thread that changes a channel is reported and changes it all the same; the loop thread
  is not reported.\<close>

lemma update_any_thread:
  assumes "updateChannel ch = Inr (ch', call)"
  shows "channel_update tid l ch =
    Inr (ch', call, if tid = lo_threadId l then [] else [(lo_threadId l, tid)])"
  using assms
  by (simp add: channel_update_def loop_updateChannel_def assertInLoopThread_def abortNotInLoopThread_def
      isInLoopThread_def)

text \<open>A timer that \<open>runAfter\<close> or \<open>runEvery\<close> made can be cancelled through the loop, and is freed.\<close>

lemma cancel_after_run:
  assumes "tq_inv [] q" and "runAfter now interval q = Inr (p, q1)"
  shows "\<exists>l'. loop_cancelTimer p (l\<lparr>lo_timers := q1\<rparr>) = Inr l' \<and> tq_heap (lo_timers l') p = None"
proof -
  obtain q1' where a: "addTimer (now + interval) 0 q = Inr (tq_next q, q1')" "tq_inv [] q1'"
      "tq_heap q1' = (tq_heap q)(tq_next q \<mapsto> timer_new (now + interval) 0)"
    using addTimer_spec [OF assms(1)] by blast
  then have p: "p = tq_next q" "q1 = q1'" using assms(2) by (simp_all add: runAfter_def runAt_def)
  have "tq_heap q1 p = Some (timer_new (now + interval) 0)" using a(3) p by simp
  then have "p \<in> snd ` set (tq_timers q1)" using a(2) p(2) by (force simp: tq_inv_def heap_ok_def)
  from cancelTimer_spec [OF a(2) [folded p(2)] this] show ?thesis by (auto simp: loop_cancelTimer_def)
qed

text \<open>The time of \<open>runAfter\<close> is the one that the program computes.\<close>

lemma runAfter_time:
  assumes "nowAfter now interval = Some w"
  shows "runAfter now interval q = runAt w q"
  using assms by (auto simp: runAfter_def nowAfter_def now_time_def in_rep_Some bind_eq_Some_conv)

lemma count_distinct: "distinct xs \<Longrightarrow> x \<in> set xs \<Longrightarrow> count_list xs x = 1"
  by (induction xs) auto

section \<open>Properties\<close>

text \<open>A loop that does not loop can be destroyed, whatever timers it has: no assertion fails, and every
  timer is freed, exactly once. A loop that loops cannot. And with a second loop in the thread the
  thread forgets the first: constructing the second is only reported, its destruction clears the
  pointer to the first.\<close>
theorem loop_object_life:
  assumes "loop_object_new tid wakeupFd timerfd self cur = Inr (l, cur')" and "tq_inv [] q"
  shows "loop_object_dtor (l\<lparr>lo_timers := q\<rparr>) = Inr (Map.empty, None) \<and>
     loop_object_dtor (l\<lparr>lo_looping := True\<rparr>) = Inl (Assertion ''!looping_'') \<and>
     isInLoopThread tid l \<and>
     getEventLoopOfCurrentThread cur' = (case cur of None \<Rightarrow> Some self | Some other \<Rightarrow> Some other)"
proof -
  have l: "\<not> lo_looping l" "lo_threadId l = tid" "ch_polling (lo_wakeup l)" "\<not> ch_handling (lo_wakeup l)"
      "\<not> ch_handling (lo_timer l)" "cur' = (case cur of None \<Rightarrow> Some self | Some other \<Rightarrow> Some other)"
    using assms(1)
    by (auto simp: loop_object_new_def enableRead_def updateChannel_def channel_new_def isNoneEvent_def Let_def
        split: option.split)
  obtain q' where "timer_queue_dtor q = Inr q'" "tq_heap q' = Map.empty"
    using timer_queue_dtor_spec [OF assms(2)] by blast
  with l show ?thesis
    by (simp add: loop_object_dtor_def diableAll_def updateChannel_def isNoneEvent_def channel_dtor_def
        isInLoopThread_def getEventLoopOfCurrentThread_def split: option.split)
qed

theorem loop_object_life_witness:
  "\<exists>l cur'. loop_object_new 42 7 8 1 None = Inr (l, cur') \<and> cur' = Some 1 \<and>
     loop_object_dtor (l\<lparr>lo_timers := three_timers\<rparr>) = Inr (Map.empty, None)"
proof -
  obtain l cur' where n: "loop_object_new 42 7 8 1 None = Inr (l, cur')" "cur' = Some 1"
    by (simp add: loop_object_new_def enableRead_def updateChannel_def channel_new_def isNoneEvent_def Let_def)
  with loop_object_life [OF n(1) three_timers_inv] show ?thesis by blast
qed

text \<open>C31. Repeating timers do not drift: a timer that \<open>runEvery\<close> starts runs once in every call of
  \<open>handleRead\<close> that comes at or after its due time, however late, and its next due time is always a
  whole number of intervals after the start, whatever other timers there are.\<close>
theorem runEvery_no_drift:
  assumes "tq_inv [] q" and "p \<notin> set (tq_ran q)" and "0 < interval"
    and "runEvery now interval q = Inr (p, q1)"
    and "\<forall>k < length ts. now + (int k + 1) * interval \<le> ts ! k"
  shows "\<exists>q2 t. ticks ts q1 = Inr q2 \<and> tq_inv [] q2 \<and> count_list (tq_ran q2) p = length ts \<and>
     tq_heap q2 p = Some t \<and> tm_when t = now + (int (length ts) + 1) * interval"
proof -
  have step: "\<exists>q2 t. ticks ts q1 = Inr q2 \<and> tq_inv [] q2 \<and> count_list (tq_ran q2) p = n + length ts \<and>
      tq_heap q2 p = Some t \<and> tm_when t = s + (int (length ts) + 1) * interval"
    if "tq_inv [] q1" "count_list (tq_ran q1) p = n" "tq_heap q1 p = Some t" "tm_when t = s + interval"
      "tm_repeat t" "tm_interval t = interval" "\<forall>k < length ts. s + (int k + 1) * interval \<le> ts ! k"
    for n s t q1 ts
    using that
  proof (induction ts arbitrary: q1 n s t)
    case Nil
    then show ?case by simp
  next
    case (Cons u us)
    let ?due = "filter (\<lambda>e. fst e \<le> u) (tq_timers q1)"
    obtain q2 where q2: "timer_handleRead u (\<lambda>_. []) q1 = Inr q2" "tq_inv [] q2"
        "tq_ran q2 = tq_ran q1 @ map snd ?due"
        "\<forall>e \<in> set (tq_timers q1). fst e \<le> u \<longrightarrow> tq_heap q2 (snd e) = after_fire (tq_heap q1 (snd e))"
      using timer_handleRead_spec [OF Cons.prems(1), of "\<lambda>_. []" u] unfolding no_cancels by auto
    have u: "s + interval \<le> u" using Cons.prems(7) [rule_format, of 0] by simp
    have e: "(s + interval, p) \<in> set (tq_timers q1)"
      using Cons.prems(1,3,4) by (force simp: tq_inv_def heap_ok_def)
    then have "p \<in> set (map snd ?due)" using u by force
    moreover have "distinct (map snd ?due)"
      using distinct_addresses [OF Cons.prems(1)] by (rule distinct_map_filter)
    ultimately have "count_list (map snd ?due) p = 1" by (intro count_distinct)
    then have c: "count_list (tq_ran q2) p = n + 1" using Cons.prems(2) q2(3) by simp
    let ?t = "t\<lparr>tm_when := tm_when t + interval\<rparr>"
    have "tq_heap q2 p = after_fire (tq_heap q1 p)" using q2(4) e u by force
    then have h: "tq_heap q2 p = Some ?t" using Cons.prems(3,5,6) by (simp add: after_fire_def)
    have "(s + interval) + (int k + 1) * interval \<le> us ! k" if "k < length us" for k
      using Cons.prems(7) [rule_format, of "Suc k"] that by (simp add: algebra_simps)
    then obtain q3 t3 where "ticks us q2 = Inr q3" "tq_inv [] q3" "count_list (tq_ran q3) p = n + 1 + length us"
        "tq_heap q3 p = Some t3" "tm_when t3 = (s + interval) + (int (length us) + 1) * interval"
      using Cons.IH [OF q2(2) c h, of "s + interval"] Cons.prems(4-6) by auto
    then show ?case by (simp add: q2(1) algebra_simps)
  qed
  obtain q1' where a: "runEvery now interval q = Inr (tq_next q, q1')" "tq_inv [] q1'" "tq_ran q1' = tq_ran q"
      "tq_heap q1' = (tq_heap q)(tq_next q \<mapsto> timer_new (now + interval) interval)"
    using addTimer_spec [OF assms(1), of "now + interval" interval] by (auto simp: runEvery_def)
  then have "p = tq_next q" "q1 = q1'" using assms(4) by simp_all
  moreover have "count_list (tq_ran q) p = 0" using assms(2) by simp
  ultimately show ?thesis
    using step [OF a(2), of 0 "timer_new (now + interval) interval" now ts] a assms(3,5)
    by (simp add: timer_new_def)
qed

theorem runEvery_no_drift_witness:
  "\<exists>p q1 q2 t. runEvery 0 10 tq_new = Inr (p, q1) \<and> ticks [12, 35, 36] q1 = Inr q2 \<and>
     count_list (tq_ran q2) p = 3 \<and> tq_heap q2 p = Some t \<and> tm_when t = 40"
proof -
  have i: "tq_inv [] tq_new" by (simp add: tq_inv_def tq_new_def heap_ok_def)
  obtain p q1 where r: "runEvery 0 10 tq_new = Inr (p, q1)"
    using addTimer_spec [OF i, of 10 10] by (auto simp: runEvery_def)
  have "p \<notin> set (tq_ran tq_new)" by (simp add: tq_new_def)
  moreover have "\<forall>k < length [12, 35, 36 :: int]. 0 + (int k + 1) * 10 \<le> [12, 35, 36] ! k"
    by (auto simp: less_Suc_eq)
  ultimately show ?thesis
    using runEvery_no_drift [OF i _ _ r, of "[12, 35, 36]"] r by auto
qed

end
