(* ===== verification/Tcp_Server.thy ===== *)
theory Tcp_Server
  imports Tcp_Connection
begin

text \<open>
  A server in one loop: \<open>Acceptor.h\<close>, \<open>Accept.cpp\<close>, \<open>TcpServerSingle.h\<close> and
  \<open>TcpServerSingle.cpp\<close>, on top of the connections. Connection objects have addresses and live
  while somebody holds a \<open>shared_ptr\<close> to them: the server's set \<open>connections_\<close>, a queued task or
  a user. The lemmas show that the set always holds exactly the open connections, that users
  hear of each connection once when it is up and once when it is down, when the assertions of
  \<open>closeConnection\<close> and of the destructor of a connection hold, and what goes wrong when
  \<open>accept4\<close> fails, when the server is destroyed and when \<open>stopRead\<close> outlives the connection.
\<close>

unbundle bit_operations_syntax

section \<open>Acceptor\<close>

datatype accept_errno = ECONNABORTED | EMFILE | Unexpected

datatype accept_result = Accepted int | Accept_failed accept_errno

record acceptor =
  ac_listening :: bool
  ac_channel :: channel
  ac_ctl :: "ctl_call list"
  ac_callback :: bool

definition acceptor_new :: "int \<Rightarrow> acceptor" where
  "acceptor_new fd =
     \<lparr>ac_listening = False, ac_channel = channel_new fd, ac_ctl = [], ac_callback = False\<rparr>"

definition acceptor_listen :: "acceptor \<Rightarrow> acceptor res" where
  "acceptor_listen a =
     bindE (enableRead (ac_channel a)) (\<lambda>(ch, call).
       Inr (a\<lparr>ac_channel := ch, ac_ctl := ac_ctl a @ [call]\<rparr>))"

text \<open>A failed \<open>accept4\<close> is logged, whatever its error; then the callback gets what it returned.\<close>

definition acceptor_handleRead ::
  "accept_result \<Rightarrow> (int \<Rightarrow> 's \<Rightarrow> 's res) option \<Rightarrow> 's \<Rightarrow> 's res" where
  "acceptor_handleRead r newConnectionCallback s =
     (let sockfd = (case r of Accepted fd \<Rightarrow> fd | Accept_failed _ \<Rightarrow> - 1)
      in case newConnectionCallback of Some f \<Rightarrow> f sockfd s | None \<Rightarrow> Inr s)"

definition acceptor_dtor :: "acceptor \<Rightarrow> unit res" where
  "acceptor_dtor a =
     bindE (diableAll (ac_channel a)) (\<lambda>(ch, _).
     bindE (channel_remove ch) (\<lambda>_. Inr ()))"

section \<open>The server\<close>

text \<open>
  \<open>sv_objects\<close> are the connection objects by address, \<open>sv_next\<close> is the next address, and
  \<open>sv_notes\<close> records the calls of the connection callback with the value of \<open>connected()\<close>.
  \<open>sv_wcb\<close>: whether a write-complete callback is set.
\<close>

record single_server =
  sv_acceptor :: acceptor
  sv_connections :: "nat list"
  sv_wcb :: bool
  sv_objects :: "nat \<rightharpoonup> tcp_conn"
  sv_next :: nat
  sv_notes :: "(nat \<times> bool) list"

definition server_new :: "int \<Rightarrow> bool \<Rightarrow> single_server" where
  "server_new fd wcb =
     \<lparr>sv_acceptor = (acceptor_new fd)\<lparr>ac_callback := True\<rparr>, sv_connections = [], sv_wcb = wcb,
      sv_objects = Map.empty, sv_next = 0, sv_notes = []\<rparr>"

definition server_start :: "single_server \<Rightarrow> single_server res" where
  "server_start s = bindE (acceptor_listen (sv_acceptor s)) (\<lambda>a. Inr (s\<lparr>sv_acceptor := a\<rparr>))"

definition object_at :: "single_server \<Rightarrow> nat \<Rightarrow> tcp_conn res" where
  "object_at s i = (case sv_objects s i of None \<Rightarrow> Inl Use_after_free | Some c \<Rightarrow> Inr c)"

text \<open>The connection callback does \<open>ops\<close> to the connection.\<close>

definition connectionCallback ::
  "net \<Rightarrow> user_op list \<Rightarrow> nat \<Rightarrow> single_server \<Rightarrow> single_server res" where
  "connectionCallback net ops i s =
     bindE (object_at s i) (\<lambda>c.
     bindE (user_dos net ops c) (\<lambda>c'.
       Inr (s\<lparr>sv_objects := (sv_objects s)(i \<mapsto> c'),
              sv_notes := sv_notes s @ [(i, tc_state c = kConnected)]\<rparr>)))"

definition newConnection ::
  "net \<Rightarrow> user_op list \<Rightarrow> int \<Rightarrow> single_server \<Rightarrow> single_server res" where
  "newConnection net ops connfd s =
     bindE (conn_up connfd (sv_wcb s) False 0) (\<lambda>conn.
       let i = sv_next s in
       connectionCallback net ops i
         (s\<lparr>sv_objects := (sv_objects s)(i \<mapsto> conn), sv_next := i + 1,
            sv_connections := sv_connections s @ [i]\<rparr>))"

definition closeConnection ::
  "net \<Rightarrow> user_op list \<Rightarrow> nat \<Rightarrow> single_server \<Rightarrow> single_server res" where
  "closeConnection net ops i s =
     assertE (i \<in> set (sv_connections s)) ''ret == 1''
       (connectionCallback net ops i (s\<lparr>sv_connections := remove1 i (sv_connections s)\<rparr>))"

text \<open>
  What happens to a server: the listening descriptor is ready, something happens to a
  connection (and \<open>ops\<close> is what the connection callback does if this closes it), the last
  reference to a connection goes. The close callback runs inside the event; what is left of the
  event after it does not look at a closed connection, so it may as well run at its end.
\<close>

datatype server_event =
    Sv_accept accept_result "user_op list"
  | Sv_conn nat conn_event "user_op list"
  | Sv_drop nat

fun server_step :: "net \<Rightarrow> server_event \<Rightarrow> single_server \<Rightarrow> single_server res" where
  "server_step net (Sv_accept r ops) s =
     acceptor_handleRead r
       (if ac_callback (sv_acceptor s) then Some (newConnection net ops) else None) s"
| "server_step net (Sv_conn i ev ops) s =
     bindE (object_at s i) (\<lambda>c.
     bindE (conn_step net ev c) (\<lambda>c'.
       let s' = s\<lparr>sv_objects := (sv_objects s)(i \<mapsto> c')\<rparr>
       in if tc_closed c < tc_closed c' then closeConnection net ops i s' else Inr s'))"
| "server_step net (Sv_drop i) s =
     bindE (object_at s i) (\<lambda>c.
     bindE (conn_dtor c) (\<lambda>_. Inr (s\<lparr>sv_objects := (sv_objects s)(i := None)\<rparr>)))"

fun server_run :: "net \<Rightarrow> server_event list \<Rightarrow> single_server \<Rightarrow> single_server res" where
  "server_run net [] s = Inr s"
| "server_run net (ev # evs) s = bindE (server_step net ev s) (server_run net evs)"

text \<open>The tasks that do not hold a \<open>shared_ptr\<close>: \<open>stopRead\<close> and \<open>startRead\<close> capture \<open>this\<close>.\<close>

definition raw_task :: "conn_task \<Rightarrow> bool" where
  "raw_task t \<longleftrightarrow> t = Stop_read_in_loop \<or> t = Start_read_in_loop"

fun sv_ok :: "server_event \<Rightarrow> single_server \<Rightarrow> bool" where
  "sv_ok (Sv_accept r ops) s = list_all user_ok ops"
| "sv_ok (Sv_conn i ev ops) s =
     ((case sv_objects s i of None \<Rightarrow> False | Some c \<Rightarrow> ev_ok ev c) \<and>
      list_all (\<lambda>op. user_ok op \<and> op \<noteq> U_shutdown \<and> op \<noteq> U_start_read) ops)"
| "sv_ok (Sv_drop i) s =
     (i \<notin> set (sv_connections s) \<and>
      (case sv_objects s i of None \<Rightarrow> False | Some c \<Rightarrow> list_all raw_task (tc_tasks c)))"

definition server_reach :: "net \<Rightarrow> int \<Rightarrow> bool \<Rightarrow> single_server res \<Rightarrow> bool" where
  "server_reach net fd wcb =
     reach (\<lambda>s r. \<exists>ev. sv_ok ev s \<and> r = server_step net ev s) (server_new fd wcb)"

text \<open>The destructor: the references in \<open>connections_\<close> (here the last ones), then the acceptor.\<close>

fun drop_all :: "nat list \<Rightarrow> single_server \<Rightarrow> unit res" where
  "drop_all [] s = Inr ()"
| "drop_all (i # is) s =
     bindE (object_at s i) (\<lambda>c. bindE (conn_dtor c) (\<lambda>_. drop_all is s))"

definition server_dtor :: "single_server \<Rightarrow> unit res" where
  "server_dtor s = bindE (drop_all (sv_connections s) s) (\<lambda>_. acceptor_dtor (sv_acceptor s))"

section \<open>What an event does to the channel and the state\<close>

definition handling :: "tcp_conn \<Rightarrow> bool" where
  "handling c = ch_handling (tc_channel c)"

lemma update_handling: "updateChannel ch = Inr (ch', x) \<Longrightarrow> ch_handling ch' = ch_handling ch"
  by (auto simp: updateChannel_def res_simps split: if_splits)

lemma on_channel_handling:
  assumes "on_channel f c = Inr c'"
    and "f \<in> {enableRead, enableWrite, disableRead, disableWrite, removeChannel}"
  shows "handling c' = handling c \<and> tc_tasks c' = tc_tasks c \<and> tc_state c' = tc_state c"
  using assms
  by (auto simp: on_channel_def res_simps handling_def channel_op_defs dest!: update_handling
      split: prod.splits)

lemmas handling_dest = on_channel_handling [THEN conjunct1]

lemma handling_simps [simp]:
  "handling (queue_task t c) = handling c" "handling (c\<lparr>tc_state := st\<rparr>) = handling c"
  "handling (c\<lparr>tc_in := b\<rparr>) = handling c" "handling (c\<lparr>tc_out := b\<rparr>) = handling c"
  "handling (c\<lparr>tc_tasks := ts\<rparr>) = handling c" "handling (c\<lparr>tc_calls := k\<rparr>) = handling c"
  "handling (c\<lparr>tc_sent := d\<rparr>) = handling c" "handling (c\<lparr>tc_accepted := d\<rparr>) = handling c"
  "handling (c\<lparr>tc_received := d\<rparr>) = handling c" "handling (c\<lparr>tc_consumed := d\<rparr>) = handling c"
  "handling (c\<lparr>tc_shut := v\<rparr>) = handling c" "handling (c\<lparr>tc_closed := k\<rparr>) = handling c"
  by (simp_all add: handling_def)

lemma sock_write_handling: "sock_write net d c = (r, c') \<Longrightarrow> handling c' = handling c"
  by (auto simp: sock_write_def Let_def handling_def split: write_result.splits)

lemma direct_write_handling:
  "direct_write net d c = Inr (n, f, c') \<Longrightarrow> handling c' = handling c"
  by (auto simp: direct_write_def res_simps split: if_splits prod.splits write_result.splits
      dest: sock_write_handling)

lemma sendInLoop_handling:
  assumes "sendInLoop net d c = Inr c'"
  shows "handling c' = handling c"
proof (cases "tc_state c = kDisconnected")
  case True
  with assms show ?thesis by (simp add: sendInLoop_def)
next
  case False
  then obtain n f c1 where w: "direct_write net d c = Inr (n, f, c1)"
    using assms by (auto simp: sendInLoop_def bindE_Inr_iff)
  show ?thesis
    using assms False w direct_write_handling [OF w]
    by (auto simp: sendInLoop_def bindE_Inr_iff Let_def dest!: handling_dest split: if_splits)
qed

lemma shutdownInLoop_handling [simp]: "handling (shutdownInLoop c) = handling c"
  by (simp add: shutdownInLoop_def)

lemma handleClose_handling: "handleClose c = Inr c' \<Longrightarrow> handling c' = handling c"
  by (auto simp: handleClose_def res_simps dest!: handling_dest)

lemma user_do_handling: "user_do net op c = Inr c' \<Longrightarrow> handling c' = handling c"
  by (cases op)
    (auto simp: conn_send_def closing_defs stopReadInLoop_def startReadInLoop_def
      conn_consume_def res_simps split: if_splits prod.splits
      dest: sendInLoop_handling dest!: handling_dest)

lemma user_dos_handling: "user_dos net ops c = Inr c' \<Longrightarrow> handling c' = handling c"
proof (induction ops arbitrary: c)
  case (Cons op ops)
  then obtain c1 where "user_do net op c = Inr c1" "user_dos net ops c1 = Inr c'"
    by (auto simp: bindE_Inr_iff)
  with Cons.IH [of c1] user_do_handling [of net op c c1] show ?case by simp
qed simp

lemma run_task_handling: "run_task net t c = Inr c' \<Longrightarrow> handling c' = handling c"
  by (cases t)
    (auto simp: forceCloseInLoop_def stopReadInLoop_def startReadInLoop_def split: if_splits
      dest: sendInLoop_handling handleClose_handling dest!: handling_dest)

lemma remote_do_handling: "remote_do net op c = Inr c' \<Longrightarrow> handling c' = handling c"
  by (cases op)
    (auto simp: conn_send_def closing_defs res_simps
      split: if_splits prod.splits)

lemma conn_ready_handling: "conn_ready net rv ops c = Inr c' \<Longrightarrow> \<not> handling c \<Longrightarrow> \<not> handling c'"
  by (simp only: conn_ready_def handleEvent_def handleEventWithGuard_def Let_def bindE_Inr_iff
      if_True if_cancel) (auto simp: upd_channel_def handling_def)

lemma conn_step_handling: "conn_step net ev c = Inr c' \<Longrightarrow> \<not> handling c \<Longrightarrow> \<not> handling c'"
  by (cases ev)
    (auto split: list.splits dest: conn_ready_handling user_do_handling remote_do_handling run_task_handling)

text \<open>A closed connection stays closed.\<close>

lemma conn_step_closed:
  assumes "net_ok net" "conn_inv c" "ev_ok ev c" "tc_state c = kDisconnected" "conn_step net ev c = Inr c'"
  shows "tc_state c' = kDisconnected"
proof (cases ev)
  case (Ev_ready rv ops)
  with assms show ?thesis by (simp add: inv_defs)
next
  case (Ev_user op)
  with user_do_step [OF assms(1,2), of op] assms(3-5) show ?thesis
    by (auto simp: good_step_def keeps_output_def)
next
  case (Ev_remote op)
  with remote_do_step [OF assms(1,2), of op] assms(3-5) show ?thesis
    by (auto simp: good_step_def keeps_output_def)
next
  case Ev_task
  show ?thesis
  proof (cases "tc_tasks c")
    case Nil
    with Ev_task assms show ?thesis by simp
  next
    case (Cons t ts)
    have "good_step (c\<lparr>tc_tasks := ts\<rparr>) (run_task net t (c\<lparr>tc_tasks := ts\<rparr>))"
      using conn_inv_pop [OF assms(2) Cons] assms(2,3) Ev_task Cons
      by (intro run_task_step [OF assms(1)]) (auto simp: inv_defs)
    with Ev_task Cons assms(4,5) show ?thesis by (simp add: good_step_def keeps_output_def)
  qed
qed

section \<open>Invariant\<close>

definition history :: "single_server \<Rightarrow> nat \<Rightarrow> bool list" where
  "history s i = map snd (filter (\<lambda>n. fst n = i) (sv_notes s))"

definition object_ok :: "tcp_conn \<Rightarrow> bool \<Rightarrow> bool" where
  "object_ok c opened \<longleftrightarrow> conn_inv c \<and> \<not> handling c \<and> (tc_state c \<noteq> kDisconnected \<longleftrightarrow> opened)"

definition server_inv :: "single_server \<Rightarrow> bool" where
  "server_inv s \<longleftrightarrow>
     distinct (sv_connections s) \<and> set (sv_connections s) \<subseteq> dom (sv_objects s) \<and>
     dom (sv_objects s) \<subseteq> {..<sv_next s} \<and>
     (\<forall>i c. sv_objects s i = Some c \<longrightarrow> object_ok c (i \<in> set (sv_connections s))) \<and>
     (\<forall>i. history s i =
        (if i \<in> set (sv_connections s) then [True] else if i < sv_next s then [True, False] else []))"

lemma server_new_inv: "server_inv (server_new fd wcb)"
  by (simp add: server_inv_def server_new_def history_def)

text \<open>What the connection callback may do to an open connection, and to a closed one.\<close>

definition callback_ok :: "user_op list \<Rightarrow> bool \<Rightarrow> bool" where
  "callback_ok ops opened \<longleftrightarrow>
     list_all user_ok ops \<and> (\<not> opened \<longrightarrow> list_all (\<lambda>op. op \<noteq> U_shutdown \<and> op \<noteq> U_start_read) ops)"

lemma callback_ok_none [simp]: "callback_ok [] b"
  by (simp add: callback_ok_def)

lemma user_dos_object:
  assumes net: "net_ok net" and "object_ok c b" and "callback_ok ops b"
  shows "safe (\<lambda>c'. object_ok c' b) (user_dos net ops c)"
  using assms(2,3)
proof (induction ops arbitrary: c)
  case Nil
  then show ?case by simp
next
  case (Cons op ops)
  have inv: "conn_inv c" and ok: "user_ok op"
    and st: "op = U_shutdown \<or> op = U_start_read \<longrightarrow> tc_state c \<noteq> kDisconnected"
    using Cons.prems by (auto simp: object_ok_def callback_ok_def)
  have g: "good_step c (user_do net op c)" by (rule user_do_step [OF net inv ok st])
  show ?case
  proof (cases "user_do net op c")
    case (Inl e)
    with g show ?thesis by (simp add: good_step_def)
  next
    case (Inr c1)
    have "tc_state c1 \<noteq> kDisconnected \<longleftrightarrow> b"
      using g Cons.prems(1) user_do_open [OF net inv _ ok Inr]
      by (auto simp: Inr good_step_def keeps_output_def object_ok_def)
    then have "object_ok c1 b"
      using g Cons.prems(1) user_do_handling [OF Inr] by (simp add: Inr good_step_def object_ok_def)
    moreover have "callback_ok ops b" using Cons.prems(2) by (auto simp: callback_ok_def)
    ultimately have "safe (\<lambda>c'. object_ok c' b) (user_dos net ops c1)" by (rule Cons.IH)
    then show ?thesis by (simp add: Inr)
  qed
qed

definition called :: "nat \<Rightarrow> bool \<Rightarrow> single_server \<Rightarrow> single_server \<Rightarrow> bool" where
  "called i up s s' \<longleftrightarrow>
     (\<exists>c'. s' = s\<lparr>sv_objects := (sv_objects s)(i \<mapsto> c'), sv_notes := sv_notes s @ [(i, up)]\<rparr> \<and>
           object_ok c' (i \<in> set (sv_connections s)))"

lemma connectionCallback_spec:
  assumes "net_ok net" "sv_objects s i = Some c" "object_ok c (i \<in> set (sv_connections s))"
    and "callback_ok ops (i \<in> set (sv_connections s))"
  shows "safe (called i (tc_state c = kConnected) s) (connectionCallback net ops i s)"
proof -
  have "safe (called i (tc_state c = kConnected) s)
      (bindE (user_dos net ops c) (\<lambda>c'. Inr (s\<lparr>sv_objects := (sv_objects s)(i \<mapsto> c'),
              sv_notes := sv_notes s @ [(i, tc_state c = kConnected)]\<rparr>)))"
    by (rule safe_bind [OF user_dos_object [OF assms(1,3,4)]]) (auto simp: called_def)
  then show ?thesis by (simp add: connectionCallback_def object_at_def assms(2))
qed

text \<open>The invariant when the connection callback is due for \<open>i\<close>.\<close>

lemma called_inv:
  assumes "called i up s s'"
    and "distinct (sv_connections s)" "set (sv_connections s) \<subseteq> dom (sv_objects s)"
    and "dom (sv_objects s) \<subseteq> {..<sv_next s}" "i < sv_next s"
    and "\<And>j c. j \<noteq> i \<Longrightarrow> sv_objects s j = Some c \<Longrightarrow> object_ok c (j \<in> set (sv_connections s))"
    and "\<And>j. j \<noteq> i \<Longrightarrow> history s j =
        (if j \<in> set (sv_connections s) then [True] else if j < sv_next s then [True, False] else [])"
    and "history s i @ [up] = (if i \<in> set (sv_connections s) then [True] else [True, False])"
  shows "server_inv s'"
proof -
  obtain c' where s': "s' = s\<lparr>sv_objects := (sv_objects s)(i \<mapsto> c'), sv_notes := sv_notes s @ [(i, up)]\<rparr>"
      "object_ok c' (i \<in> set (sv_connections s))"
    using assms(1) by (auto simp: called_def)
  have h: "history s' j = (if j = i then history s i @ [up] else history s j)" for j
    by (simp add: s'(1) history_def)
  have "history s' j = (if j \<in> set (sv_connections s') then [True]
      else if j < sv_next s' then [True, False] else [])" for j
    using h [of j] assms(5,7,8) by (simp add: s'(1))
  moreover have "object_ok x (j \<in> set (sv_connections s'))" if "sv_objects s' j = Some x" for j x
    using that s'(2) assms(6) by (auto simp: s'(1) split: if_splits)
  ultimately show ?thesis
    using assms(2-5) by (auto simp: server_inv_def s'(1))
qed

lemma accept_step:
  assumes net: "net_ok net" and inv: "server_inv s" and ok: "list_all user_ok ops"
  shows "safe server_inv (newConnection net ops fd s)"
proof -
  obtain c where c: "conn_up fd (sv_wcb s) False 0 = Inr c" "conn_inv c" "tc_state c = kConnected"
      "ch_handling (tc_channel c) = False"
    using conn_up_spec [of fd "sv_wcb s" False 0] by auto
  let ?i = "sv_next s"
  define s1 where "s1 = s\<lparr>sv_objects := (sv_objects s)(?i \<mapsto> c), sv_next := ?i + 1,
      sv_connections := sv_connections s @ [?i]\<rparr>"
  have i: "?i \<notin> dom (sv_objects s)" "?i \<notin> set (sv_connections s)"
    using inv by (auto simp: server_inv_def)
  have hist: "history s1 j = history s j" for j by (simp add: s1_def history_def)
  have "safe (called ?i True s1) (connectionCallback net ops ?i s1)"
    using connectionCallback_spec [OF net, of s1 ?i c ops] c ok
    by (simp add: s1_def object_ok_def handling_def callback_ok_def)
  then have "safe server_inv (connectionCallback net ops ?i s1)"
  proof (rule safe_mono)
    fix s' assume s': "called ?i True s1 s'"
    show "server_inv s'"
      by (rule called_inv [OF s']) (use inv i hist in \<open>auto simp: server_inv_def s1_def\<close>)
  qed
  then show ?thesis by (simp add: newConnection_def c(1) s1_def Let_def)
qed

lemma close_step:
  assumes net: "net_ok net" and inv: "server_inv s" and i: "i \<in> set (sv_connections s)"
    and c: "object_ok c False" and ok: "callback_ok ops False"
  shows "safe server_inv (closeConnection net ops i (s\<lparr>sv_objects := (sv_objects s)(i \<mapsto> c)\<rparr>))"
proof -
  define s1 where "s1 = s\<lparr>sv_objects := (sv_objects s)(i \<mapsto> c), sv_connections := remove1 i (sv_connections s)\<rparr>"
  have d: "set (remove1 i (sv_connections s)) = set (sv_connections s) - {i}"
    using inv by (simp add: server_inv_def)
  have hist: "history s1 j = history s j" for j by (simp add: s1_def history_def)
  have dn: "tc_state c \<noteq> kConnected" using c by (auto simp: object_ok_def)
  have "safe (called i False s1) (connectionCallback net ops i s1)"
    using connectionCallback_spec [OF net, of s1 i c ops] c ok d dn
    by (simp add: s1_def)
  then have "safe server_inv (connectionCallback net ops i s1)"
  proof (rule safe_mono)
    fix s' assume s': "called i False s1 s'"
    show "server_inv s'"
      by (rule called_inv [OF s']) (use inv i d hist in \<open>auto simp: server_inv_def s1_def\<close>)
  qed
  then show ?thesis using i by (simp add: closeConnection_def s1_def)
qed

lemma conn_event_step:
  assumes net: "net_ok net" and inv: "server_inv s" and ok: "sv_ok (Sv_conn i ev ops) s"
  shows "safe server_inv (server_step net (Sv_conn i ev ops) s)"
proof -
  obtain c where c: "sv_objects s i = Some c" "ev_ok ev c"
    using ok by (auto split: option.splits)
  have oc: "object_ok c (i \<in> set (sv_connections s))" using inv c(1) by (simp add: server_inv_def)
  have cb: "callback_ok ops False" using ok by (auto simp: callback_ok_def list_all_iff)
  show ?thesis
  proof (cases "conn_step net ev c")
    case (Inl e)
    then show ?thesis using conn_step_inv [OF net _ c(2)] oc c(1) by (simp add: object_at_def object_ok_def)
  next
    case (Inr c')
    let ?s = "s\<lparr>sv_objects := (sv_objects s)(i \<mapsto> c')\<rparr>"
    have inv': "conn_inv c'" "\<not> handling c'"
      using conn_step_inv [OF net _ c(2)] conn_step_handling [OF Inr] oc Inr by (simp_all add: object_ok_def)
    have cl: "tc_closed c' = (if tc_state c' = kDisconnected then 1 else 0)"
        "tc_closed c = (if tc_state c = kDisconnected then 1 else 0)"
      using inv' oc by (simp_all add: object_ok_def inv_defs)
    have stay: "tc_state c = kDisconnected \<Longrightarrow> tc_state c' = kDisconnected"
      using conn_step_closed [OF net _ c(2) _ Inr] oc by (simp add: object_ok_def)
    show ?thesis
    proof (cases "tc_closed c < tc_closed c'")
      case True
      then have "i \<in> set (sv_connections s)" "object_ok c' False"
        using cl oc inv' by (auto simp: object_ok_def split: if_splits)
      then have "safe server_inv (closeConnection net ops i ?s)"
        using close_step [OF net inv] cb by blast
      then show ?thesis using True c(1) Inr by (simp add: object_at_def Let_def)
    next
      case False
      then have "object_ok c' (i \<in> set (sv_connections s))"
        using cl oc inv' stay by (auto simp: object_ok_def split: if_splits)
      then have "server_inv ?s"
        using inv c(1) by (auto simp: server_inv_def history_def)
      then show ?thesis using False c(1) Inr by (simp add: object_at_def Let_def)
    qed
  qed
qed

lemma drop_step:
  assumes inv: "server_inv s" and ok: "sv_ok (Sv_drop i) s"
  shows "safe server_inv (server_step net (Sv_drop i) s)"
proof -
  obtain c where c: "sv_objects s i = Some c" "i \<notin> set (sv_connections s)"
    using ok by (auto split: option.splits)
  then have "tc_state c = kDisconnected" "\<not> handling c"
    using inv by (auto simp: server_inv_def object_ok_def)
  then have "conn_dtor c = Inr ()" by (simp add: conn_dtor_def handling_def)
  moreover have "server_inv (s\<lparr>sv_objects := (sv_objects s)(i := None)\<rparr>)"
    using inv c by (auto simp: server_inv_def history_def)
  ultimately show ?thesis using c(1) by (simp add: object_at_def)
qed

lemma server_step_inv:
  assumes "net_ok net" "server_inv s" "sv_ok ev s"
  shows "safe server_inv (server_step net ev s)"
proof (cases ev)
  case (Sv_accept r ops)
  have "safe server_inv (Inr s)" using assms(2) by simp
  with Sv_accept accept_step [OF assms(1,2)] assms(3) show ?thesis
    by (simp add: acceptor_handleRead_def Let_def)
qed (use assms conn_event_step drop_step in \<open>simp_all only:\<close>)

lemma server_reach_inv:
  assumes net: "net_ok net" and r: "server_reach net fd wcb r"
  shows "safe server_inv r"
  using r unfolding server_reach_def
proof (induction rule: reach.induct)
  case reach_init
  show ?case by (simp add: server_new_inv)
next
  case (reach_step s r)
  then show ?case using server_step_inv [OF net] by auto
qed

lemma server_reach_step:
  "server_reach net fd wcb (Inr s) \<Longrightarrow> sv_ok ev s \<Longrightarrow> server_reach net fd wcb (server_step net ev s)"
  unfolding server_reach_def by (rule reach_step) blast+

lemma server_reach_new: "server_reach net fd wcb (Inr (server_new fd wcb))"
  unfolding server_reach_def by (rule reach_init)

text \<open>Accepting without a callback that does anything, and a hang-up that closes.\<close>

lemma accept_plain:
  obtains c where "newConnection net [] connfd s =
      Inr (s\<lparr>sv_objects := (sv_objects s)(sv_next s \<mapsto> c), sv_next := sv_next s + 1,
             sv_connections := sv_connections s @ [sv_next s],
             sv_notes := sv_notes s @ [(sv_next s, True)]\<rparr>)"
    and "tc_state c = kConnected" "tc_tasks c = []" "ch_fd (tc_channel c) = connfd"
proof -
  obtain c where c: "conn_up connfd (sv_wcb s) False 0 = Inr c" "tc_state c = kConnected"
      "tc_tasks c = []" "ch_fd (tc_channel c) = connfd"
    using conn_up_spec [of connfd "sv_wcb s" False 0] by auto
  then show thesis
    by (intro that [of c]) (simp_all add: newConnection_def connectionCallback_def object_at_def Let_def)
qed

lemma hangup_closes:
  assumes "conn_inv c" "tc_state c \<noteq> kDisconnected"
  shows "ev_ok (Ev_ready EPOLLHUP []) c \<and>
    (\<exists>c'. conn_step net (Ev_ready EPOLLHUP []) c = Inr c' \<and> tc_state c' = kDisconnected \<and>
          tc_closed c < tc_closed c' \<and> tc_tasks c' = tc_tasks c \<and> \<not> handling c')"
proof -
  have p: "ch_polling (tc_channel c)" "tc_state c = kConnected \<or> tc_state c = kDisconnecting"
    using assms by (auto simp: inv_defs intro: conn_state.exhaust [of "tc_state c"])
  moreover have "\<not> has EPOLLHUP EPOLLOUT" "\<not> has EPOLLHUP EPOLLIN" "has EPOLLHUP EPOLLHUP"
      "\<not> has EPOLLHUP EPOLLERR" "\<not> has EPOLLHUP (EPOLLIN OR EPOLLPRI OR EPOLLRDHUP)"
      "\<not> has EPOLLHUP (EPOLLPRI OR EPOLLRDHUP)"
    by (simp_all add: has_def)
  ultimately show ?thesis
    using assms(2)
    by (auto simp: conn_ready_def handleEvent_def handleEventWithGuard_def conn_callbacks_def call_when_def
        upd_channel_def set_revents_def handleClose_def on_channel_def channel_op_defs updateChannel_def
        isNoneEvent_def handling_def Let_def)
qed

text \<open>A task that the loop runs, whatever it finds: the ways in which it can fail.\<close>

lemma task_fails:
  assumes net: "net_ok net" and inv: "server_inv s" and ops: "callback_ok ops False"
    and e: "server_step net (Sv_conn i Ev_task ops) s = Inl e"
  shows "e = Exception ''length_error'' \<or> e = Use_after_free \<and> sv_objects s i = None"
proof (cases "sv_objects s i")
  case None
  with e show ?thesis by (simp add: object_at_def)
next
  case (Some c)
  then have ci: "conn_inv c" using inv by (simp add: server_inv_def object_ok_def)
  show ?thesis
  proof (cases "ev_ok Ev_task c")
    case True
    then have "sv_ok (Sv_conn i Ev_task ops) s" using Some ops by (simp add: callback_ok_def list_all_iff)
    from server_step_inv [OF net inv this] e show ?thesis by simp
  next
    case False
    then obtain ts where t: "tc_tasks c = Start_read_in_loop # ts" "tc_state c = kDisconnected"
      by (cases "tc_tasks c") auto
    then have i: "conn_inv (c\<lparr>tc_tasks := ts\<rparr>)" "tc_state (c\<lparr>tc_tasks := ts\<rparr>) = kDisconnected"
      using conn_inv_pop [OF ci] by simp_all
    from startRead_closed [OF this] obtain c' where
      "startReadInLoop (c\<lparr>tc_tasks := ts\<rparr>) = Inr c'" "tc_closed c' = tc_closed c" by auto
    with e Some t show ?thesis by (simp add: object_at_def)
  qed
qed

section \<open>Properties\<close>

text \<open>C14. The server keeps exactly its open connections: whatever is accepted, sent, received and
  closed, in any order, as long as closed connections are left alone and the kernel does not report a
  hang-up without input together with urgent data (\<open>sv_ok\<close>), no assertion fails,
  among them the one that \<open>closeConnection\<close> finds the connection;
  \<open>connections_\<close> holds every open connection once and nothing else; the users heard of every
  connection once, or, when it is closed, once up and then once down; and the destructor of a closed
  connection passes.
  Where that discipline ends: a task that the loop runs fails only for lack of memory or as a use
  after free, when it is a \<open>stopRead\<close> or \<open>startRead\<close> whose connection is gone. And \<open>shutdown\<close> and
  \<open>forceClose\<close> of another thread test the state before they exchange it: an exchange that finds the
  connection open is the call made at that moment, but one that finds it closed makes the destructor's
  assertion fail.\<close>
theorem server_connections:
  assumes "net_ok net" and "server_reach net fd wcb r"
  shows "case r of Inl e \<Rightarrow> e = Exception ''length_error''
    | Inr s \<Rightarrow> distinct (sv_connections s) \<and>
        set (sv_connections s) = {i. \<exists>c. sv_objects s i = Some c \<and> tc_state c \<noteq> kDisconnected} \<and>
        (\<forall>i. map snd (filter (\<lambda>n. fst n = i) (sv_notes s)) =
           (if i \<in> set (sv_connections s) then [True] else if i < sv_next s then [True, False] else [])) \<and>
        (\<forall>i c. sv_objects s i = Some c \<longrightarrow>
           (if tc_state c = kDisconnected
            then conn_dtor c = Inr () \<and>
                 conn_dtor (shutdown_exchange False c) = Inl (Assertion ''state_ == kDisconnected'') \<and>
                 conn_dtor (forceClose_exchange c) = Inl (Assertion ''state_ == kDisconnected'')
            else conn_shutdown False c = Inr (shutdown_exchange False c) \<and>
                 conn_forceClose c = forceClose_exchange c)) \<and>
        (\<forall>i ops e. callback_ok ops False \<longrightarrow> server_step net (Sv_conn i Ev_task ops) s = Inl e \<longrightarrow>
           e = Exception ''length_error'' \<or> e = Use_after_free \<and> sv_objects s i = None)"
proof (cases r)
  case (Inl e)
  then show ?thesis using server_reach_inv [OF assms] by simp
next
  case (Inr s)
  then have inv: "server_inv s" using server_reach_inv [OF assms] by simp
  have set: "set (sv_connections s) = {i. \<exists>c. sv_objects s i = Some c \<and> tc_state c \<noteq> kDisconnected}"
    using inv by (auto simp: server_inv_def object_ok_def)
  have obj: "if tc_state c = kDisconnected
            then conn_dtor c = Inr () \<and>
                 conn_dtor (shutdown_exchange False c) = Inl (Assertion ''state_ == kDisconnected'') \<and>
                 conn_dtor (forceClose_exchange c) = Inl (Assertion ''state_ == kDisconnected'')
            else conn_shutdown False c = Inr (shutdown_exchange False c) \<and>
                 conn_forceClose c = forceClose_exchange c" if "sv_objects s i = Some c" for i c
  proof -
    have "\<not> handling c" using inv that by (auto simp: server_inv_def object_ok_def)
    then show ?thesis using exchange_is_call [of c False] exchange_unclosed [of c False]
      by (simp add: conn_dtor_def handling_def)
  qed
  from inv set obj task_fails [OF assms(1) inv] Inr show ?thesis
    unfolding server_inv_def history_def by (simp only: sum.case) blast
qed

lemma server_example:
  "\<exists>s1 s2 c. server_reach slow_net 5 False (Inr s1) \<and> sv_connections s1 = [0] \<and>
     sv_objects s1 0 = Some c \<and> tc_tasks c = [] \<and>
     server_reach slow_net 5 False (Inr s2) \<and> sv_connections s2 = [] \<and> sv_next s2 = 1"
proof -
  let ?s0 = "server_new 5 False"
  obtain c where c: "newConnection slow_net [] 9 ?s0 =
      Inr (?s0\<lparr>sv_objects := (sv_objects ?s0)(sv_next ?s0 \<mapsto> c), sv_next := sv_next ?s0 + 1,
             sv_connections := sv_connections ?s0 @ [sv_next ?s0],
             sv_notes := sv_notes ?s0 @ [(sv_next ?s0, True)]\<rparr>)"
      "tc_state c = kConnected" "tc_tasks c = []"
    by (rule accept_plain)
  define s1 where "s1 = ?s0\<lparr>sv_objects := (sv_objects ?s0)(sv_next ?s0 \<mapsto> c), sv_next := sv_next ?s0 + 1,
             sv_connections := sv_connections ?s0 @ [sv_next ?s0],
             sv_notes := sv_notes ?s0 @ [(sv_next ?s0, True)]\<rparr>"
  have s1: "sv_connections s1 = [0]" "sv_objects s1 0 = Some c" "sv_next s1 = 1"
    by (simp_all add: s1_def server_new_def)
  have "server_step slow_net (Sv_accept (Accepted 9) []) ?s0 = Inr s1"
    using c(1) by (simp add: acceptor_handleRead_def Let_def s1_def server_new_def)
  then have r1: "server_reach slow_net 5 False (Inr s1)"
    using server_reach_step [OF server_reach_new, of "Sv_accept (Accepted 9) []" 5 False slow_net] by simp
  have "conn_inv c"
    using server_reach_inv [OF slow_net_ok(1) r1] s1(2) by (simp add: server_inv_def object_ok_def)
  then obtain c' where c': "ev_ok (Ev_ready EPOLLHUP []) c"
      "conn_step slow_net (Ev_ready EPOLLHUP []) c = Inr c'" "tc_closed c < tc_closed c'"
    using hangup_closes [of c slow_net] c(2) by auto
  have "sv_ok (Sv_conn 0 (Ev_ready EPOLLHUP []) []) s1" using s1(2) c'(1) by simp
  from server_reach_step [OF r1 this]
  have "\<exists>s2. server_reach slow_net 5 False (Inr s2) \<and> sv_connections s2 = [] \<and> sv_next s2 = 1"
    using c'(2,3) s1
    by (auto simp del: conn_step.simps
        simp: object_at_def closeConnection_def connectionCallback_def Let_def intro: exI)
  with r1 s1 c(3) show ?thesis by blast
qed

theorem server_connections_witness:
  "\<exists>s. server_reach slow_net 5 False (Inr s) \<and> sv_connections s = [] \<and>
     map snd (filter (\<lambda>n. fst n = 0) (sv_notes s)) = [True, False]"
proof -
  obtain s where s: "server_reach slow_net 5 False (Inr s)" "sv_connections s = []" "sv_next s = 1"
    using server_example by blast
  have "map snd (filter (\<lambda>n. fst n = 0) (sv_notes s)) =
      (if 0 \<in> set (sv_connections s) then [True] else if 0 < sv_next s then [True, False] else [])"
    by (rule server_connections [OF slow_net_ok(1) s(1), unfolded sum.case, THEN conjunct2, THEN conjunct2,
        THEN conjunct1, THEN spec])
  then have "map snd (filter (\<lambda>n. fst n = 0) (sv_notes s)) = [True, False]" unfolding s(2,3) by simp
  with s(1,2) show ?thesis by (intro exI [of _ s] conjI)
qed

text \<open>A failed \<open>accept4\<close> becomes a connection: after logging the error the acceptor goes on and
  hands descriptor -1 to the server, which creates a connection on it, puts it into its set and
  tells the users that it is up.\<close>
theorem accept_failure_connects:
  assumes "server_reach net fd wcb (Inr s)" and "ac_callback (sv_acceptor s)"
  shows "\<exists>s' c. server_step net (Sv_accept (Accept_failed e) []) s = Inr s' \<and>
     sv_connections s' = sv_connections s @ [sv_next s] \<and> sv_objects s' (sv_next s) = Some c \<and>
     ch_fd (tc_channel c) = - 1 \<and> tc_state c = kConnected \<and>
     sv_notes s' = sv_notes s @ [(sv_next s, True)]"
proof -
  obtain c where "newConnection net [] (- 1) s =
      Inr (s\<lparr>sv_objects := (sv_objects s)(sv_next s \<mapsto> c), sv_next := sv_next s + 1,
             sv_connections := sv_connections s @ [sv_next s],
             sv_notes := sv_notes s @ [(sv_next s, True)]\<rparr>)"
      "tc_state c = kConnected" "ch_fd (tc_channel c) = - 1"
    by (rule accept_plain)
  then show ?thesis using assms(2) by (simp add: acceptor_handleRead_def)
qed

theorem accept_failure_connects_witness:
  "\<exists>s'. server_step slow_net (Sv_accept (Accept_failed EMFILE) []) (server_new 5 False) = Inr s' \<and>
     sv_connections s' = [0]"
proof -
  have "ac_callback (sv_acceptor (server_new 5 False))" by (simp add: server_new_def)
  from accept_failure_connects [OF server_reach_new this, of slow_net EMFILE] show ?thesis
    by (auto simp: server_new_def simp del: server_step.simps)
qed

lemma acceptor_dtor_fails: "\<exists>w. acceptor_dtor a = Inl (Assertion w)"
  by (cases "ch_polling (ac_channel a)")
    (simp_all add: acceptor_dtor_def channel_op_defs updateChannel_def isNoneEvent_def)

text \<open>A server cannot be destroyed: with an open connection the destructor of the connection
  aborts, as nobody closed it; without one the acceptor's destructor does, which asserts that its
  channel is still registered right after it has disabled it (or, if it never listened, disables
  what was not registered).\<close>
theorem server_dtor_aborts:
  assumes "net_ok net" and "server_reach net fd wcb (Inr s)"
  shows "\<exists>w. server_dtor s = Inl (Assertion w) \<and>
     (case server_start s of Inr s' \<Rightarrow> \<exists>w. server_dtor s' = Inl (Assertion w) | Inl _ \<Rightarrow> True)"
proof -
  have inv: "server_inv s" using server_reach_inv [OF assms] by simp
  have d: "\<exists>w. server_dtor t = Inl (Assertion w)"
    if t: "sv_objects t = sv_objects s" "sv_connections t = sv_connections s" for t
  proof (cases "sv_connections s")
    case Nil
    with acceptor_dtor_fails t show ?thesis by (simp add: server_dtor_def)
  next
    case (Cons i rest)
    then have "i \<in> dom (sv_objects s)" using inv by (auto simp: server_inv_def)
    then obtain c where "sv_objects s i = Some c" by blast
    moreover from this have "tc_state c \<noteq> kDisconnected"
      using inv Cons by (auto simp: server_inv_def object_ok_def)
    ultimately show ?thesis
      using t Cons by (simp add: server_dtor_def object_at_def conn_dtor_def)
  qed
  show ?thesis
    using d [of s] d by (auto simp: server_start_def bindE_Inr_iff split: sum.split)
qed

theorem server_dtor_aborts_witness:
  "\<exists>w. server_dtor (server_new 5 False) = Inl (Assertion w)"
  using server_dtor_aborts [OF slow_net_ok(1) server_reach_new] by blast

text \<open>\<open>stopRead\<close> (and \<open>startRead\<close>) from another thread queues a task with a bare \<open>this\<close>: if the
  peer hangs up and the last reference goes before the loop runs the task, it runs on a freed
  connection. For every open idle connection there is such a run.\<close>
theorem stop_read_dangles:
  assumes "net_ok net" and "server_reach net fd wcb (Inr s)"
    and "i \<in> set (sv_connections s)" and "sv_objects s i = Some c" and "tc_tasks c = []"
  shows "\<exists>s'. server_run net [Sv_conn i (Ev_remote R_stop_read) [], Sv_conn i (Ev_ready EPOLLHUP []) [],
       Sv_drop i] s = Inr s' \<and> server_reach net fd wcb (Inr s') \<and>
     server_step net (Sv_conn i Ev_task []) s' = Inl Use_after_free"
proof -
  have inv: "server_inv s" using server_reach_inv [OF assms(1,2)] by simp
  then have ci: "conn_inv c" "tc_state c \<noteq> kDisconnected"
    using assms(3,4) by (auto simp: server_inv_def object_ok_def)
  define c1 where "c1 = queue_task Stop_read_in_loop c"
  have c1: "conn_inv c1" "tc_state c1 \<noteq> kDisconnected" "tc_tasks c1 = [Stop_read_in_loop]"
    using ci assms(5) by (simp_all add: c1_def task_ok_def)
  obtain c2 where c2: "ev_ok (Ev_ready EPOLLHUP []) c1" "conn_step net (Ev_ready EPOLLHUP []) c1 = Inr c2"
      "tc_state c2 = kDisconnected" "tc_closed c1 < tc_closed c2" "tc_tasks c2 = [Stop_read_in_loop]"
      "\<not> handling c2"
    using hangup_closes [OF c1(1,2), of net] c1(3) by auto
  define s1 where "s1 = s\<lparr>sv_objects := (sv_objects s)(i \<mapsto> c1)\<rparr>"
  define s2 where "s2 = s\<lparr>sv_objects := (sv_objects s)(i \<mapsto> c2),
      sv_connections := remove1 i (sv_connections s), sv_notes := sv_notes s @ [(i, False)]\<rparr>"
  define s3 where "s3 = s2\<lparr>sv_objects := (sv_objects s2)(i := None)\<rparr>"
  have st1: "server_step net (Sv_conn i (Ev_remote R_stop_read) []) s = Inr s1"
    using assms(4) by (simp add: object_at_def c1_def s1_def)
  have st2: "server_step net (Sv_conn i (Ev_ready EPOLLHUP []) []) s1 = Inr s2"
    using c2 assms(3) by (simp del: conn_step.simps
        add: object_at_def closeConnection_def connectionCallback_def Let_def s1_def s2_def)
  have st3: "server_step net (Sv_drop i) s2 = Inr s3"
    using c2 by (simp add: object_at_def conn_dtor_def handling_def s2_def s3_def)
  have ok1: "sv_ok (Sv_conn i (Ev_remote R_stop_read) []) s" using assms(4) by simp
  have ok2: "sv_ok (Sv_conn i (Ev_ready EPOLLHUP []) []) s1" using c2(1) by (simp add: s1_def)
  have ok3: "sv_ok (Sv_drop i) s2"
    using c2(5) inv by (simp add: s2_def raw_task_def server_inv_def)
  have "server_reach net fd wcb (Inr s1)" using server_reach_step [OF assms(2) ok1] st1 by simp
  then have "server_reach net fd wcb (Inr s2)" using server_reach_step [OF _ ok2] st2 by metis
  then have "server_reach net fd wcb (Inr s3)" using server_reach_step [OF _ ok3] st3 by metis
  moreover have "server_run net [Sv_conn i (Ev_remote R_stop_read) [], Sv_conn i (Ev_ready EPOLLHUP []) [],
       Sv_drop i] s = Inr s3"
    using st1 st2 st3 by (simp del: server_step.simps)
  moreover have "server_step net (Sv_conn i Ev_task []) s3 = Inl Use_after_free"
    by (simp add: object_at_def s3_def)
  ultimately show ?thesis by blast
qed

theorem stop_read_dangles_witness:
  "\<exists>s'. server_reach slow_net 5 False (Inr s') \<and>
     server_step slow_net (Sv_conn 0 Ev_task []) s' = Inl Use_after_free"
proof -
  obtain s c where s: "server_reach slow_net 5 False (Inr s)" "sv_connections s = [0]"
      "sv_objects s 0 = Some c" "tc_tasks c = []"
    using server_example by blast
  have "0 \<in> set (sv_connections s)" using s(2) by simp
  from stop_read_dangles [OF slow_net_ok(1) s(1) this s(3,4)] show ?thesis by blast
qed

end
