(* ===== verification/Event_Loop.thy ===== *)
theory Event_Loop
  imports Prelude
begin

text \<open>
  The event loop of \<open>EventLoop.h\<close> and \<open>EventLoop.cpp\<close> as a state machine: the loop thread goes
  round polling, handling events and running the pending tasks, while other threads queue tasks
  and wake it through the eventfd. Queueing from another thread is two steps (push under the
  mutex, then write the eventfd), and all steps interleave freely. A task is an opaque value of
  type \<open>'t\<close>; what a running task or event handler does to the loop are further steps of the
  loop thread. The lemmas show that tasks run exactly once and in the order they were queued,
  and when the loop can be asleep on work.
\<close>

section \<open>State\<close>

text \<open>
  Where the loop thread is: before \<open>loop()\<close>, at the test of \<open>quit_\<close>, blocked in
  \<open>epoll_wait\<close>, calling event handlers (\<open>True\<close>: the eventfd is among the active channels and
  its handler has still to run), running tasks, or behind the loop.
\<close>

datatype loop_pc = Before | Check | Polling | Handling bool | Running | Ended

text \<open>
  \<open>lp_wake\<close> is the counter of the eventfd, \<open>lp_batch\<close> the local variable \<open>tasks\<close> of
  \<open>doPendingTasks\<close>. Ghosts: \<open>lp_owed\<close> counts the other threads between their two steps,
  \<open>lp_queued\<close> and \<open>lp_done\<close> record the tasks queued and the queued tasks run.
\<close>

record 't event_loop =
  lp_looping :: bool
  lp_quit :: bool
  lp_doing :: bool
  lp_pending :: "'t list"
  lp_wake :: nat
  lp_pc :: loop_pc
  lp_batch :: "'t list"
  lp_owed :: nat
  lp_queued :: "'t list"
  lp_done :: "'t list"

definition loop_new :: "'t event_loop" where
  "loop_new =
     \<lparr>lp_looping = False, lp_quit = False, lp_doing = False, lp_pending = [], lp_wake = 0,
      lp_pc = Before, lp_batch = [], lp_owed = 0, lp_queued = [], lp_done = []\<rparr>"

section \<open>Operations\<close>

text \<open>A write to the non-blocking eventfd fails (and is only logged) when the counter is full;
  a read takes the whole counter.\<close>

definition eventfd_max :: nat where
  "eventfd_max = 2 ^ 64 - 2"

definition wakeup :: "'t event_loop \<Rightarrow> 't event_loop" where
  "wakeup s = (if lp_wake s < eventfd_max then s\<lparr>lp_wake := lp_wake s + 1\<rparr> else s)"

definition loop_handleRead :: "'t event_loop \<Rightarrow> 't event_loop" where
  "loop_handleRead s = s\<lparr>lp_wake := 0\<rparr>"

definition push_task :: "'t \<Rightarrow> 't event_loop \<Rightarrow> 't event_loop" where
  "push_task t s = s\<lparr>lp_pending := lp_pending s @ [t], lp_queued := lp_queued s @ [t]\<rparr>"

definition queueInLoop :: "bool \<Rightarrow> 't \<Rightarrow> 't event_loop \<Rightarrow> 't event_loop" where
  "queueInLoop in_loop t s =
     (let s1 = push_task t s in if \<not> in_loop \<or> lp_doing s1 then wakeup s1 else s1)"

definition runInLoop ::
  "bool \<Rightarrow> ('t \<Rightarrow> 't event_loop \<Rightarrow> 't event_loop) \<Rightarrow> 't \<Rightarrow> 't event_loop \<Rightarrow> 't event_loop" where
  "runInLoop in_loop call t s = (if in_loop then call t s else queueInLoop in_loop t s)"

definition set_quit :: "'t event_loop \<Rightarrow> 't event_loop res" where
  "set_quit s = assertE (\<not> lp_quit s) ''!quit_'' (Inr (s\<lparr>lp_quit := True\<rparr>))"

definition loop_quit :: "bool \<Rightarrow> 't event_loop \<Rightarrow> 't event_loop res" where
  "loop_quit in_loop s = bindE (set_quit s) (\<lambda>s1. Inr (if \<not> in_loop then wakeup s1 else s1))"

text \<open>The head of \<open>loop()\<close>.\<close>

definition loop_enter :: "'t event_loop \<Rightarrow> 't event_loop res" where
  "loop_enter s =
     assertE (\<not> lp_looping s) ''!looping_''
       (Inr (s\<lparr>lp_looping := True, lp_quit := False, lp_pc := Check\<rparr>))"

text \<open>\<open>doPendingTasks\<close>, up to its loop over the tasks.\<close>

definition swap_tasks :: "'t event_loop \<Rightarrow> 't event_loop" where
  "swap_tasks s =
     s\<lparr>lp_batch := lp_pending s, lp_pending := [], lp_doing := True, lp_pc := Running\<rparr>"

text \<open>
  The next step of the loop thread left to itself; \<open>None\<close> if it is blocked in \<open>epoll_wait\<close>
  with nothing but the eventfd to wake it, or not in \<open>loop()\<close>.
\<close>

definition loop_thread :: "'t event_loop \<Rightarrow> 't event_loop option" where
  "loop_thread s =
     (case lp_pc s of
        Before \<Rightarrow> None
      | Check \<Rightarrow> Some (if lp_quit s then s\<lparr>lp_looping := False, lp_pc := Ended\<rparr>
                       else s\<lparr>lp_pc := Polling\<rparr>)
      | Polling \<Rightarrow> (if 0 < lp_wake s then Some (s\<lparr>lp_pc := Handling True\<rparr>) else None)
      | Handling b \<Rightarrow> Some (if b then (loop_handleRead s)\<lparr>lp_pc := Handling False\<rparr> else swap_tasks s)
      | Running \<Rightarrow>
          (case lp_batch s of
             [] \<Rightarrow> Some (s\<lparr>lp_doing := False, lp_pc := Check\<rparr>)
           | t # ts \<Rightarrow> Some (s\<lparr>lp_batch := ts, lp_done := lp_done s @ [t]\<rparr>))
      | Ended \<Rightarrow> None)"

definition executing :: "loop_pc \<Rightarrow> bool" where
  "executing pc = (case pc of Handling _ \<Rightarrow> True | Running \<Rightarrow> True | _ \<Rightarrow> False)"

section \<open>The system\<close>

text \<open>
  \<open>early\<close> allows the thread that owns the loop to queue a task, and another thread to call
  \<open>quit()\<close>, before \<open>loop()\<close> is entered.
\<close>

inductive loop_step :: "bool \<Rightarrow> 't event_loop \<Rightarrow> 't event_loop res \<Rightarrow> bool" for early where
  enter: "lp_pc s = Before \<Longrightarrow> loop_step early s (loop_enter s)"
| thread: "loop_thread s = Some s' \<Longrightarrow> loop_step early s (Inr s')"
| io: "lp_pc s = Polling \<Longrightarrow> b \<longrightarrow> 0 < lp_wake s \<Longrightarrow>
    loop_step early s (Inr (s\<lparr>lp_pc := Handling b\<rparr>))"
| local_queue: "executing (lp_pc s) \<or> early \<and> lp_pc s = Before \<Longrightarrow>
    loop_step early s (Inr (queueInLoop True t s))"
| local_quit: "executing (lp_pc s) \<Longrightarrow> loop_step early s (loop_quit True s)"
| remote_push: "loop_step early s (Inr ((push_task t s)\<lparr>lp_owed := lp_owed s + 1\<rparr>))"
| remote_quit: "lp_pc s \<noteq> Before \<or> early \<Longrightarrow>
    loop_step early s (bindE (set_quit s) (\<lambda>s1. Inr (s1\<lparr>lp_owed := lp_owed s + 1\<rparr>)))"
| remote_wakeup: "0 < lp_owed s \<Longrightarrow>
    loop_step early s (Inr ((wakeup s)\<lparr>lp_owed := lp_owed s - 1\<rparr>))"

abbreviation loop_reach :: "bool \<Rightarrow> 't event_loop res \<Rightarrow> bool" where
  "loop_reach early \<equiv> reach (loop_step early) loop_new"

section \<open>Invariants\<close>

lemma wakeup_simps [simp]:
  "lp_looping (wakeup s) = lp_looping s" "lp_quit (wakeup s) = lp_quit s"
  "lp_doing (wakeup s) = lp_doing s" "lp_pending (wakeup s) = lp_pending s"
  "lp_pc (wakeup s) = lp_pc s" "lp_batch (wakeup s) = lp_batch s" "lp_owed (wakeup s) = lp_owed s"
  "lp_queued (wakeup s) = lp_queued s" "lp_done (wakeup s) = lp_done s"
  "0 < lp_wake (wakeup s)"
  by (simp_all add: wakeup_def eventfd_max_def)

definition fifo :: "'t event_loop \<Rightarrow> bool" where
  "fifo s \<longleftrightarrow>
     lp_done s @ lp_batch s @ lp_pending s = lp_queued s \<and>
     (lp_batch s \<noteq> [] \<longrightarrow> lp_pc s = Running) \<and> (lp_doing s \<longleftrightarrow> lp_pc s = Running) \<and>
     (lp_looping s \<longleftrightarrow> lp_pc s \<noteq> Before \<and> lp_pc s \<noteq> Ended)"

lemmas loop_op_defs =
  queueInLoop_def push_task_def loop_quit_def set_quit_def loop_enter_def swap_tasks_def
  loop_handleRead_def

lemma loop_thread_fifo:
  assumes "fifo s" "loop_thread s = Some s'"
  shows "fifo s'"
  using assms
  by (cases "lp_pc s"; cases "lp_batch s")
     (auto simp: loop_thread_def fifo_def swap_tasks_def loop_handleRead_def split: if_splits)

lemma executing_simps [simp]:
  "executing (Handling b)" "executing Running" "\<not> executing Before" "\<not> executing Check"
  "\<not> executing Polling" "\<not> executing Ended"
  by (simp_all add: executing_def)

lemma queueInLoop_simps [simp]:
  "lp_looping (queueInLoop l t s) = lp_looping s" "lp_quit (queueInLoop l t s) = lp_quit s"
  "lp_doing (queueInLoop l t s) = lp_doing s" "lp_pc (queueInLoop l t s) = lp_pc s"
  "lp_pending (queueInLoop l t s) = lp_pending s @ [t]" "lp_batch (queueInLoop l t s) = lp_batch s"
  "lp_queued (queueInLoop l t s) = lp_queued s @ [t]" "lp_done (queueInLoop l t s) = lp_done s"
  "lp_owed (queueInLoop l t s) = lp_owed s"
  by (simp_all add: queueInLoop_def push_task_def Let_def)

lemma queueInLoop_wakes: "\<not> l \<or> lp_doing s \<Longrightarrow> 0 < lp_wake (queueInLoop l t s)"
  by (simp add: queueInLoop_def push_task_def Let_def)

lemma queueInLoop_keeps: "0 < lp_wake s \<Longrightarrow> 0 < lp_wake (queueInLoop l t s)"
  by (simp add: queueInLoop_def push_task_def Let_def)

lemma loop_quit_True: "loop_quit True s = Inr s' \<longleftrightarrow> \<not> lp_quit s \<and> s' = s\<lparr>lp_quit := True\<rparr>"
  by (auto simp: loop_quit_def set_quit_def res_simps)

lemma set_quit_Inr: "set_quit s = Inr s' \<longleftrightarrow> \<not> lp_quit s \<and> s' = s\<lparr>lp_quit := True\<rparr>"
  by (auto simp: set_quit_def res_simps)

lemma loop_enter_Inr:
  "loop_enter s = Inr s' \<longleftrightarrow>
     \<not> lp_looping s \<and> s' = s\<lparr>lp_looping := True, lp_quit := False, lp_pc := Check\<rparr>"
  by (auto simp: loop_enter_def res_simps)

text \<open>The successful steps, with their effect spelled out.\<close>

lemma loop_step_cases [consumes 1, case_names enter thread io local_queue local_quit remote_push
    remote_quit remote_wakeup]:
  assumes "loop_step early s (Inr s')"
    and "\<lbrakk>lp_pc s = Before; \<not> lp_looping s;
          s' = s\<lparr>lp_looping := True, lp_quit := False, lp_pc := Check\<rparr>\<rbrakk> \<Longrightarrow> thesis"
    and "loop_thread s = Some s' \<Longrightarrow> thesis"
    and "\<And>b. \<lbrakk>lp_pc s = Polling; b \<Longrightarrow> 0 < lp_wake s; s' = s\<lparr>lp_pc := Handling b\<rparr>\<rbrakk> \<Longrightarrow> thesis"
    and "\<And>t. \<lbrakk>executing (lp_pc s) \<or> early \<and> lp_pc s = Before; s' = queueInLoop True t s\<rbrakk> \<Longrightarrow> thesis"
    and "\<lbrakk>executing (lp_pc s); \<not> lp_quit s; s' = s\<lparr>lp_quit := True\<rparr>\<rbrakk> \<Longrightarrow> thesis"
    and "\<And>t. s' = s\<lparr>lp_pending := lp_pending s @ [t], lp_queued := lp_queued s @ [t],
                    lp_owed := lp_owed s + 1\<rparr> \<Longrightarrow> thesis"
    and "\<lbrakk>lp_pc s \<noteq> Before \<or> early; \<not> lp_quit s;
          s' = s\<lparr>lp_quit := True, lp_owed := lp_owed s + 1\<rparr>\<rbrakk> \<Longrightarrow> thesis"
    and "\<lbrakk>0 < lp_owed s; s' = (wakeup s)\<lparr>lp_owed := lp_owed s - 1\<rparr>\<rbrakk> \<Longrightarrow> thesis"
  shows thesis
  using assms(1)
proof cases
  case enter
  then have "loop_enter s = Inr s'" by simp
  then show ?thesis using assms(2) enter(2) unfolding loop_enter_Inr by blast
next
  case thread
  then show ?thesis by (rule assms(3))
next
  case (io b)
  then show ?thesis using assms(4) [of b] by blast
next
  case (local_queue t)
  then show ?thesis using assms(5) [of t] by blast
next
  case local_quit
  then have "loop_quit True s = Inr s'" by simp
  then show ?thesis using assms(6) local_quit(2) unfolding loop_quit_True by blast
next
  case (remote_push t)
  then show ?thesis using assms(7) [of t] by (simp add: push_task_def)
next
  case remote_quit
  then have "bindE (set_quit s) (\<lambda>s1. Inr (s1\<lparr>lp_owed := lp_owed s + 1\<rparr>)) = Inr s'" by simp
  then obtain s1 where "set_quit s = Inr s1" "s' = s1\<lparr>lp_owed := lp_owed s + 1\<rparr>"
    unfolding bindE_Inr_iff by blast
  then have "\<not> lp_quit s" "s' = s\<lparr>lp_quit := True, lp_owed := lp_owed s + 1\<rparr>"
    by (simp_all add: set_quit_Inr)
  then show ?thesis using assms(8) remote_quit(2) by blast
next
  case remote_wakeup
  then show ?thesis using assms(9) by blast
qed

lemma loop_step_fifo:
  assumes "fifo s" "loop_step early s (Inr s')"
  shows "fifo s'"
  using assms(2)
proof (cases rule: loop_step_cases)
  case thread
  with assms(1) loop_thread_fifo show ?thesis by blast
qed (use assms(1) in \<open>auto simp: fifo_def\<close>)

lemma loop_reach_fifo: "loop_reach early (Inr s) \<Longrightarrow> fifo s"
  by (erule reach_inv_Inr [where I = fifo]) (simp add: fifo_def loop_new_def, rule loop_step_fifo)

text \<open>The tasks queued and not yet begun, in the order in which they will run.\<close>

definition queue :: "'t event_loop \<Rightarrow> 't list" where
  "queue l = lp_batch l @ lp_pending l"

lemma queue_record: "fifo l \<Longrightarrow> lp_done l @ queue l = lp_queued l"
  by (simp add: fifo_def queue_def)

lemma loop_thread_queue:
  assumes "fifo l" "loop_thread l = Some l'"
  shows "if lp_pc l = Running \<and> lp_batch l \<noteq> [] then queue l = hd (lp_batch l) # queue l'
    else queue l' = queue l"
  using assms
  by (cases "lp_pc l"; cases "lp_batch l")
    (auto simp: loop_thread_def fifo_def queue_def swap_tasks_def loop_handleRead_def split: if_splits)

lemma loop_thread_reach: "loop_reach False (Inr l) \<Longrightarrow> loop_thread l = Some l' \<Longrightarrow> loop_reach False (Inr l')"
  by (erule reach_step) (rule loop_step.thread)

text \<open>Nothing to do, or a wake-up is on its way.\<close>

definition awake :: "'t event_loop \<Rightarrow> bool" where
  "awake s \<longleftrightarrow> 0 < lp_wake s \<or> 0 < lp_owed s"

definition no_lost_wakeup :: "'t event_loop \<Rightarrow> bool" where
  "no_lost_wakeup s \<longleftrightarrow>
     ((\<forall>b. lp_pc s \<noteq> Handling b) \<longrightarrow> lp_pending s \<noteq> [] \<longrightarrow> awake s) \<and>
     (lp_pc s = Polling \<longrightarrow> lp_quit s \<longrightarrow> awake s)"

lemma loop_thread_wakeup:
  assumes "no_lost_wakeup s" "loop_thread s = Some s'"
  shows "no_lost_wakeup s'"
  using assms
  by (cases "lp_pc s"; cases "lp_batch s")
     (auto simp: loop_thread_def no_lost_wakeup_def awake_def swap_tasks_def loop_handleRead_def
       split: if_splits)

lemma loop_step_wakeup:
  assumes "no_lost_wakeup s" "fifo s" "loop_step False s (Inr s')"
  shows "no_lost_wakeup s'"
  using assms(3)
proof (cases rule: loop_step_cases)
  case thread
  with assms(1) loop_thread_wakeup show ?thesis by blast
next
  case (local_queue t)
  with assms(1,2) queueInLoop_wakes [of True s t] show ?thesis
    by (cases "lp_pc s") (auto simp: no_lost_wakeup_def awake_def fifo_def)
qed (use assms(1) in \<open>auto simp: no_lost_wakeup_def awake_def\<close>)

lemma loop_new_inv: "fifo loop_new" "no_lost_wakeup loop_new"
  by (simp_all add: fifo_def no_lost_wakeup_def loop_new_def)

lemma loop_reach_wakeup:
  assumes "loop_reach False (Inr s)"
  shows "no_lost_wakeup s"
proof -
  have "no_lost_wakeup s \<and> fifo s"
    by (rule reach_inv_Inr [OF assms]) (use loop_new_inv loop_step_fifo loop_step_wakeup in blast)+
  then show ?thesis by simp
qed

section \<open>A round of the loop\<close>

text \<open>\<open>n\<close> steps of the loop thread with no interference; \<open>None\<close> if it blocks before.\<close>

fun loop_run :: "nat \<Rightarrow> 't event_loop \<Rightarrow> 't event_loop option" where
  "loop_run 0 s = Some s"
| "loop_run (Suc n) s = Option.bind (loop_thread s) (loop_run n)"

lemma run_batch:
  assumes "lp_pc s = Running"
  shows "loop_run (length (lp_batch s) + 1) s =
     Some (s\<lparr>lp_done := lp_done s @ lp_batch s, lp_batch := [], lp_doing := False, lp_pc := Check\<rparr>)"
  using assms
proof (induction "lp_batch s" arbitrary: s)
  case Nil
  then show ?case by (simp add: loop_thread_def)
next
  case (Cons t ts)
  let ?s = "s\<lparr>lp_batch := ts, lp_done := lp_done s @ [t]\<rparr>"
  have "loop_thread s = Some ?s"
    using Cons.prems Cons.hyps(2) [symmetric] by (simp add: loop_thread_def)
  moreover have "loop_run (length ts + 1) ?s =
      Some (?s\<lparr>lp_done := lp_done ?s @ ts, lp_batch := [], lp_doing := False, lp_pc := Check\<rparr>)"
    using Cons.hyps(1) [of ?s] Cons.prems by simp
  ultimately show ?case
    using Cons.hyps(2) [symmetric] by (simp del: One_nat_def)
qed

lemma loop_round:
  assumes "lp_pc s = Polling" "0 < lp_wake s" "lp_batch s = []"
  shows "\<exists>s'. loop_run (length (lp_pending s) + 4) s = Some s' \<and> lp_pc s' = Check \<and>
     lp_done s' = lp_done s @ lp_pending s \<and> lp_pending s' = [] \<and> lp_quit s' = lp_quit s"
proof -
  let ?s1 = "s\<lparr>lp_pc := Handling True\<rparr>"
  let ?s2 = "?s1\<lparr>lp_wake := 0, lp_pc := Handling False\<rparr>"
  let ?s3 = "swap_tasks ?s2"
  have n: "length (lp_pending s) + 4 = Suc (Suc (Suc (length (lp_batch ?s3) + 1)))"
    by (simp add: swap_tasks_def)
  have "loop_run (length (lp_batch ?s3) + 1) ?s3 =
      Some (?s3\<lparr>lp_done := lp_done ?s3 @ lp_batch ?s3, lp_batch := [], lp_doing := False, lp_pc := Check\<rparr>)"
    by (rule run_batch) (simp add: swap_tasks_def)
  moreover have "loop_run (length (lp_pending s) + 4) s = loop_run (length (lp_batch ?s3) + 1) ?s3"
    unfolding n using assms(1,2) by (simp add: loop_thread_def loop_handleRead_def del: One_nat_def)
  ultimately show ?thesis by (simp add: swap_tasks_def)
qed

section \<open>Properties\<close>

text \<open>C11. Tasks run exactly once and in order: in every reachable state the tasks run, those
  of the batch being run and those still pending, in this order, are exactly the tasks queued
  so far in the order of their \<open>push_back\<close>, whatever threads queued them and however the steps
  interleaved.\<close>
theorem tasks_run_once_in_order:
  assumes "loop_reach early (Inr s)"
  shows "lp_done s @ lp_batch s @ lp_pending s = lp_queued s"
  using loop_reach_fifo [OF assms] by (simp add: fifo_def)

text \<open>C10. No wake-up is lost: once \<open>loop()\<close> has been entered (with nothing queued by the
  loop's own thread before) and every other thread is out of \<open>queueInLoop\<close> and \<open>quit\<close>, a loop
  in \<open>epoll_wait\<close> with pending tasks does not block: its own next steps, one for each pending
  task and four more, run all of them in order. And it does not block either when \<open>quit()\<close> was
  called.\<close>
theorem no_wakeup_is_lost:
  assumes "loop_reach False (Inr s)" and "lp_pc s = Polling" and "lp_owed s = 0"
    and "lp_pending s \<noteq> [] \<or> lp_quit s"
  shows "\<exists>s'. loop_run (length (lp_pending s) + 4) s = Some s' \<and> lp_pc s' = Check \<and>
     lp_done s' = lp_done s @ lp_pending s \<and> lp_pending s' = [] \<and> lp_quit s' = lp_quit s"
proof -
  have "0 < lp_wake s"
    using loop_reach_wakeup [OF assms(1)] assms(2-4) by (auto simp: no_lost_wakeup_def awake_def)
  moreover have "lp_batch s = []"
    using loop_reach_fifo [OF assms(1)] assms(2) by (auto simp: fifo_def)
  ultimately show ?thesis using loop_round assms(2) by blast
qed

lemma reach_enter: "loop_reach early (loop_enter loop_new)"
  by (rule reach_first, rule loop_step.enter) (simp add: loop_new_def)

lemma reach_Polling:
  "loop_reach early (Inr (loop_new\<lparr>lp_looping := True, lp_pc := Polling\<rparr>) :: 't event_loop res)"
proof -
  let ?c = "loop_new\<lparr>lp_looping := True, lp_pc := Check\<rparr> :: 't event_loop"
  have "loop_enter loop_new = Inr ?c" by (simp add: loop_enter_def loop_new_def)
  then have c: "loop_reach early (Inr ?c)" using reach_enter [of early] by metis
  have "loop_thread ?c = Some (loop_new\<lparr>lp_looping := True, lp_pc := Polling\<rparr>)"
    by (simp add: loop_thread_def loop_new_def)
  then show ?thesis by (rule reach_step [OF c loop_step.thread])
qed

lemma reach_remote_queue:
  assumes "loop_reach early (Inr s)"
  shows "loop_reach early (Inr (wakeup (push_task t s)))"
proof -
  have "loop_reach early (Inr ((push_task t s)\<lparr>lp_owed := lp_owed s + 1\<rparr>))"
    by (rule reach_step [OF assms loop_step.remote_push])
  then have "loop_reach early
      (Inr ((wakeup ((push_task t s)\<lparr>lp_owed := lp_owed s + 1\<rparr>))\<lparr>lp_owed := lp_owed s + 1 - 1\<rparr>))"
  proof (rule reach_step)
    let ?s = "(push_task t s)\<lparr>lp_owed := lp_owed s + 1\<rparr>"
    show "loop_step early ?s (Inr ((wakeup ?s)\<lparr>lp_owed := lp_owed s + 1 - 1\<rparr>))"
      using loop_step.remote_wakeup [of ?s early] by simp
  qed
  then show ?thesis by (simp add: wakeup_def push_task_def split: if_splits)
qed

lemma wakeup_once: "lp_wake s = 0 \<Longrightarrow> wakeup s = s\<lparr>lp_wake := 1\<rparr>"
  by (simp add: wakeup_def eventfd_max_def)

theorem no_wakeup_is_lost_witness:
  "\<exists>s. loop_reach False (Inr s) \<and> lp_pending s = [1 :: nat, 2] \<and>
     (\<exists>s'. loop_run 6 s = Some s' \<and> lp_done s' = [1, 2] \<and> lp_pending s' = [])"
proof -
  let ?p = "loop_new\<lparr>lp_looping := True, lp_pc := Polling\<rparr> :: nat event_loop"
  let ?s = "wakeup (push_task 2 (wakeup (push_task 1 ?p)))"
  have r: "loop_reach False (Inr ?s)"
    by (intro reach_remote_queue reach_Polling)
  have s: "lp_pc ?s = Polling" "lp_owed ?s = 0" "lp_pending ?s = [1, 2]" "lp_done ?s = []"
    by (simp_all add: push_task_def loop_new_def)
  have "lp_pending ?s \<noteq> [] \<or> lp_quit ?s" using s(3) by simp
  from no_wakeup_is_lost [OF r s(1,2) this]
  have "\<exists>s'. loop_run (length (lp_pending ?s) + 4) ?s = Some s' \<and>
      lp_done s' = lp_done ?s @ lp_pending ?s \<and> lp_pending s' = []" by blast
  moreover have "length (lp_pending ?s) + 4 = 6" by (simp only: s) simp
  moreover have "lp_done ?s @ lp_pending ?s = [1, 2]" by (simp only: s append.simps)
  ultimately show ?thesis using r s(3) by metis
qed

theorem tasks_run_once_in_order_witness:
  "\<exists>s. loop_reach False (Inr s) \<and> lp_done s @ lp_batch s @ lp_pending s = [7 :: nat]"
proof -
  let ?s = "wakeup (push_task 7 (loop_new\<lparr>lp_looping := True, lp_pc := Polling\<rparr>)) :: nat event_loop"
  have r: "loop_reach False (Inr ?s)" by (intro reach_remote_queue reach_Polling)
  have "lp_queued ?s = [7]" by (simp add: push_task_def loop_new_def)
  with tasks_run_once_in_order [OF r] r show ?thesis by metis
qed

text \<open>A task queued before the loop runs can stall: when the thread that owns the loop
  calls \<open>queueInLoop\<close> before \<open>loop()\<close>, no wake-up is written, and the loop then blocks in
  \<open>epoll_wait\<close> with the task pending until something unrelated happens.\<close>
theorem early_task_stalls:
  "\<exists>s1 s2. loop_enter (queueInLoop True t loop_new) = Inr s1 \<and> loop_run 1 s1 = Some s2 \<and>
     lp_pc s2 = Polling \<and> lp_pending s2 = [t] \<and> loop_thread s2 = None"
  by (simp add: loop_enter_def queueInLoop_def push_task_def loop_new_def loop_thread_def)

text \<open>\<open>quit()\<close> before \<open>loop()\<close> is forgotten: \<open>loop()\<close> begins by clearing \<open>quit_\<close>, so when
  another thread calls \<open>quit()\<close> after the loop was published but before it is entered (as
  \<open>EventLoopThread\<close>'s destructor can), the loop spends the wake-up on one idle round and then
  blocks in \<open>epoll_wait\<close> with \<open>quit_\<close> false; the destructor waits for it forever.\<close>
theorem quit_before_loop_is_lost:
  "\<exists>s0 s1 s2. loop_quit False (loop_new :: 't event_loop) = Inr s0 \<and> loop_enter s0 = Inr s1 \<and>
     loop_run 6 s1 = Some s2 \<and> lp_pc s2 = Polling \<and> \<not> lp_quit s2 \<and> loop_thread s2 = None"
  by (simp add: loop_quit_def set_quit_def loop_enter_def loop_new_def wakeup_once
      loop_thread_def loop_handleRead_def swap_tasks_def numeral_eq_Suc)

end
