(* ===== verification/Loop_Server.thy ===== *)
theory Loop_Server
  imports Tcp_Server Event_Loop Connection_Spec
begin

text \<open>
  A server in its loop: the model of \<open>TcpServerSingle\<close> with its connections, composed with the
  model of \<open>EventLoop\<close>. There each connection had a list of tasks of its own; here the tasks lie in
  \<open>pendingTasks_\<close> of the loop, mixed with those of other connections and of the users, and the
  loop thread runs them when \<open>doPendingTasks\<close> comes to them. Calls from other threads push their
  task and wake the loop in two steps. The lemmas show that every run of the composition is a run
  of the loop and a run of the server, with each connection's list the part of the loop's queue
  that belongs to it, and that what another thread sends is handed to the socket by the loop
  thread alone.
\<close>

section \<open>State\<close>

datatype loop_task = Of_conn nat conn_task | Of_user nat

record loop_server =
  ls_loop :: "loop_task event_loop"
  ls_server :: single_server

definition loop_server_new :: "int \<Rightarrow> bool \<Rightarrow> loop_server" where
  "loop_server_new fd wcb = \<lparr>ls_loop = loop_new, ls_server = server_new fd wcb\<rparr>"

section \<open>Operations\<close>

definition tasks_of :: "nat \<Rightarrow> single_server \<Rightarrow> conn_task list" where
  "tasks_of i s = (case sv_objects s i of None \<Rightarrow> [] | Some c \<Rightarrow> tc_tasks c)"

text \<open>The connection an event is about, and its tasks before the event without one that it runs.\<close>

fun subject :: "server_event \<Rightarrow> single_server \<Rightarrow> nat" where
  "subject (Sv_accept r ops) s = sv_next s"
| "subject (Sv_conn i ev ops) s = i"
| "subject (Sv_drop i) s = i"

fun kept_tasks :: "server_event \<Rightarrow> single_server \<Rightarrow> conn_task list" where
  "kept_tasks (Sv_accept r ops) s = []"
| "kept_tasks (Sv_conn i ev ops) s =
     (case ev of Ev_task \<Rightarrow> tl (tasks_of i s) | _ \<Rightarrow> tasks_of i s)"
| "kept_tasks (Sv_drop i) s = []"

definition added :: "server_event \<Rightarrow> single_server \<Rightarrow> single_server \<Rightarrow> conn_task list" where
  "added ev s s' = drop (length (kept_tasks ev s)) (tasks_of (subject ev s) s')"

text \<open>What a connection leaves to the loop, from the loop thread and from another one.\<close>

definition queue_tasks :: "nat \<Rightarrow> conn_task list \<Rightarrow> loop_task event_loop \<Rightarrow> loop_task event_loop" where
  "queue_tasks i ts = fold (\<lambda>t. queueInLoop True (Of_conn i t)) ts"

definition push_tasks :: "nat \<Rightarrow> conn_task list \<Rightarrow> loop_task event_loop \<Rightarrow> loop_task event_loop" where
  "push_tasks i ts = fold (\<lambda>t l. (push_task (Of_conn i t) l)\<lparr>lp_owed := lp_owed l + 1\<rparr>) ts"

definition ls_event :: "net \<Rightarrow> server_event \<Rightarrow> loop_server \<Rightarrow> loop_server res" where
  "ls_event net ev s =
     bindE (server_step net ev (ls_server s)) (\<lambda>sv.
       Inr \<lparr>ls_loop = queue_tasks (subject ev (ls_server s)) (added ev (ls_server s) sv) (ls_loop s),
            ls_server = sv\<rparr>)"

definition ls_remote :: "net \<Rightarrow> nat \<Rightarrow> remote_op \<Rightarrow> loop_server \<Rightarrow> loop_server res" where
  "ls_remote net i op s =
     (let ev = Sv_conn i (Ev_remote op) [] in
      bindE (server_step net ev (ls_server s)) (\<lambda>sv.
        Inr \<lparr>ls_loop = push_tasks i (added ev (ls_server s) sv) (ls_loop s), ls_server = sv\<rparr>))"

text \<open>The connection whose task the loop thread runs next.\<close>

definition head_conn :: "loop_task event_loop \<Rightarrow> nat option" where
  "head_conn l =
     (if lp_pc l = Running then (case lp_batch l of Of_conn i t # ts \<Rightarrow> Some i | _ \<Rightarrow> None) else None)"

text \<open>The loop thread; \<open>ops\<close> is what the connection callback does if the task closes a connection.\<close>

definition ls_thread :: "net \<Rightarrow> user_op list \<Rightarrow> loop_server \<Rightarrow> loop_server res option" where
  "ls_thread net ops s =
     map_option (\<lambda>l. case head_conn (ls_loop s) of
         Some i \<Rightarrow> ls_event net (Sv_conn i Ev_task ops) (s\<lparr>ls_loop := l\<rparr>)
       | None \<Rightarrow> Inr (s\<lparr>ls_loop := l\<rparr>)) (loop_thread (ls_loop s))"

fun ls_run :: "nat \<Rightarrow> net \<Rightarrow> loop_server \<Rightarrow> loop_server res option" where
  "ls_run 0 net s = Some (Inr s)"
| "ls_run (Suc n) net s =
     (case ls_thread net [] s of Some (Inr s') \<Rightarrow> ls_run n net s' | r \<Rightarrow> r)"

section \<open>The system\<close>

fun local_event :: "server_event \<Rightarrow> bool" where
  "local_event (Sv_conn i ev ops) = (case ev of Ev_task \<Rightarrow> False | Ev_remote op \<Rightarrow> False | _ \<Rightarrow> True)"
| "local_event _ = True"

text \<open>
  The task that the loop thread runs next finds its connection, and open if it is a \<open>startRead\<close>. A
  \<open>stopRead\<close> or \<open>startRead\<close> of another thread captures \<open>this\<close> and may come too late.
\<close>

definition fresh_task :: "loop_server \<Rightarrow> bool" where
  "fresh_task s \<longleftrightarrow>
     (case head_conn (ls_loop s) of
        None \<Rightarrow> True
      | Some i \<Rightarrow> (case sv_objects (ls_server s) i of None \<Rightarrow> False | Some c \<Rightarrow> ev_ok Ev_task c))"

text \<open>
  \<open>thread\<close>: the loop thread goes on, with \<open>stale\<close> whatever its next task finds; \<open>event\<close>: in the loop
  thread, from an event handler or a task; \<open>other\<close>: what else happens to the
  loop (entering, polling, wake-ups, quitting, tasks of the users). The events and calls are those
  that \<open>sv_ok\<close> allows.
\<close>

inductive ls_step :: "bool \<Rightarrow> net \<Rightarrow> loop_server \<Rightarrow> loop_server res \<Rightarrow> bool" for stale net where
  thread: "ls_thread net ops s = Some r \<Longrightarrow> callback_ok ops False \<Longrightarrow> (\<not> stale \<Longrightarrow> fresh_task s) \<Longrightarrow>
    ls_step stale net s r"
| event: "executing (lp_pc (ls_loop s)) \<Longrightarrow> local_event ev \<Longrightarrow> sv_ok ev (ls_server s) \<Longrightarrow>
    ls_step stale net s (ls_event net ev s)"
| remote: "sv_ok (Sv_conn i (Ev_remote op) []) (ls_server s) \<Longrightarrow> ls_step stale net s (ls_remote net i op s)"
| other: "loop_step False (ls_loop s) (Inr l) \<Longrightarrow> lp_done l = lp_done (ls_loop s) \<Longrightarrow>
    lp_queued l = lp_queued (ls_loop s) @ map Of_user us \<Longrightarrow> ls_step stale net s (Inr (s\<lparr>ls_loop := l\<rparr>))"

text \<open>The states that are reached as long as no task has come too late.\<close>

abbreviation ls_reach :: "net \<Rightarrow> int \<Rightarrow> bool \<Rightarrow> loop_server res \<Rightarrow> bool" where
  "ls_reach net fd wcb \<equiv> reach (ls_step False net) (loop_server_new fd wcb)"

lemma fresh_task_ok:
  "fresh_task s \<Longrightarrow> head_conn (ls_loop s) = Some i \<Longrightarrow> callback_ok ops False \<Longrightarrow>
     sv_ok (Sv_conn i Ev_task ops) (ls_server s)"
  by (auto simp: fresh_task_def callback_ok_def list_all_iff split: option.splits)

section \<open>The queue of the loop\<close>

text \<open>The tasks of a connection in a list of tasks of the loop.\<close>

fun of_conn :: "nat \<Rightarrow> loop_task list \<Rightarrow> conn_task list" where
  "of_conn i [] = []"
| "of_conn i (Of_conn j t # ts) = (if j = i then t # of_conn i ts else of_conn i ts)"
| "of_conn i (Of_user u # ts) = of_conn i ts"

lemma of_conn_append [simp]: "of_conn i (xs @ ys) = of_conn i xs @ of_conn i ys"
  by (induction i xs rule: of_conn.induct) simp_all

lemma of_conn_map [simp]: "of_conn i (map (Of_conn j) ts) = (if i = j then ts else [])"
  by (induction ts) auto

lemma of_conn_user [simp]: "of_conn i (map Of_user us) = []"
  by (induction us) simp_all

lemma of_conn_none: "(\<And>t. Of_conn i t \<notin> set ts) \<Longrightarrow> of_conn i ts = []"
  by (induction i ts rule: of_conn.induct) (auto split: if_splits)

lemma queue_tasks_simps:
  "queue (queue_tasks i ts l) = queue l @ map (Of_conn i) ts" "lp_pc (queue_tasks i ts l) = lp_pc l"
  by (induction ts arbitrary: l) (simp_all add: queue_tasks_def queue_def)

lemma push_tasks_simps:
  "queue (push_tasks i ts l) = queue l @ map (Of_conn i) ts" "lp_pc (push_tasks i ts l) = lp_pc l"
  by (induction ts arbitrary: l) (simp_all add: push_tasks_def queue_def push_task_def)

lemma queue_tasks_reach:
  "loop_reach False (Inr l) \<Longrightarrow> executing (lp_pc l) \<Longrightarrow> loop_reach False (Inr (queue_tasks i ts l))"
proof (induction ts arbitrary: l)
  case (Cons t ts)
  have "loop_reach False (Inr (queueInLoop True (Of_conn i t) l))"
    using Cons.prems(1) by (rule reach_step) (rule loop_step.local_queue, simp add: Cons.prems(2))
  with Cons.IH Cons.prems(2) show ?case by (simp add: queue_tasks_def)
qed (simp add: queue_tasks_def)

lemma push_tasks_reach:
  "loop_reach False (Inr l) \<Longrightarrow> loop_reach False (Inr (push_tasks i ts l))"
proof (induction ts arbitrary: l)
  case (Cons t ts)
  have "loop_reach False (Inr ((push_task (Of_conn i t) l)\<lparr>lp_owed := lp_owed l + 1\<rparr>))"
    using Cons.prems by (rule reach_step) (rule loop_step.remote_push)
  with Cons.IH show ?case by (simp add: push_tasks_def)
qed (simp add: push_tasks_def)

lemma queue_tasks_none [simp]: "queue_tasks i [] l = l"
  by (simp add: queue_tasks_def)

section \<open>What a server event does to the tasks\<close>

lemma connectionCallback_tasks:
  assumes "connectionCallback net ops i s = Inr s'" "sv_objects s i = Some c"
  shows "\<exists>c'. sv_objects s' = (sv_objects s)(i \<mapsto> c') \<and> prefix (tc_tasks c) (tc_tasks c') \<and> sv_next s' = sv_next s"
proof -
  obtain c' where u: "user_dos net ops c = Inr c'" and s': "sv_objects s' = (sv_objects s)(i \<mapsto> c')" "sv_next s' = sv_next s"
    using assms by (auto simp: connectionCallback_def object_at_def bindE_Inr_iff)
  from user_dos_grows [OF u] s' show ?thesis by (auto simp: grows_def)
qed

lemma conn_event_tasks:
  assumes "server_step net (Sv_conn i ev ops) s = Inr s'"
  shows "\<exists>c'. sv_objects s' = (sv_objects s)(i \<mapsto> c') \<and> prefix (kept_tasks (Sv_conn i ev ops) s) (tc_tasks c') \<and>
     sv_next s' = sv_next s"
proof -
  obtain c c1 where c: "sv_objects s i = Some c" "conn_step net ev c = Inr c1"
      "(if tc_closed c < tc_closed c1 then closeConnection net ops i (s\<lparr>sv_objects := (sv_objects s)(i \<mapsto> c1)\<rparr>)
        else Inr (s\<lparr>sv_objects := (sv_objects s)(i \<mapsto> c1)\<rparr>)) = Inr s'"
    using assms by (auto simp: object_at_def bindE_Inr_iff Let_def split: option.splits)
  have "prefix (tc_tasks (begin_event ev c)) (tc_tasks c1)"
    using conn_step_grows [OF c(2)] by (simp add: grows_def)
  then have p: "prefix (kept_tasks (Sv_conn i ev ops) s) (tc_tasks c1)"
    using c(1) by (cases ev) (simp_all add: tasks_of_def)
  show ?thesis
  proof (cases "tc_closed c < tc_closed c1")
    case True
    then have "connectionCallback net ops i (s\<lparr>sv_objects := (sv_objects s)(i \<mapsto> c1),
        sv_connections := remove1 i (sv_connections s)\<rparr>) = Inr s'"
      using c(3) by (auto simp: closeConnection_def assertE_def split: if_splits)
    from connectionCallback_tasks [OF this, of c1] p show ?thesis
      by (auto intro: prefix_order.trans)
  next
    case False
    with c(3) have "s' = s\<lparr>sv_objects := (sv_objects s)(i \<mapsto> c1)\<rparr>" by simp
    with p show ?thesis by (intro exI [of _ c1]) simp
  qed
qed

lemma server_step_tasks:
  assumes "server_inv s" "server_step net ev s = Inr s'"
  shows "(\<forall>j. j \<noteq> subject ev s \<longrightarrow> sv_objects s' j = sv_objects s j) \<and>
     (\<forall>c. sv_objects s' (subject ev s) = Some c \<longrightarrow> tc_tasks c = kept_tasks ev s @ added ev s s') \<and>
     sv_next s \<le> sv_next s'"
proof (cases ev)
  case (Sv_accept r ops)
  show ?thesis
  proof (cases "ac_callback (sv_acceptor s)")
    case True
    then obtain fd where "newConnection net ops fd s = Inr s'"
      using assms(2) Sv_accept by (auto simp: acceptor_handleRead_def Let_def)
    then obtain c where "connectionCallback net ops (sv_next s)
        (s\<lparr>sv_objects := (sv_objects s)(sv_next s \<mapsto> c), sv_next := sv_next s + 1,
           sv_connections := sv_connections s @ [sv_next s]\<rparr>) = Inr s'"
      by (auto simp: newConnection_def bindE_Inr_iff Let_def)
    from connectionCallback_tasks [OF this, of c] Sv_accept show ?thesis
      by (auto simp: added_def tasks_of_def)
  next
    case False
    then show ?thesis
      using assms(2) Sv_accept by (auto simp: acceptor_handleRead_def added_def tasks_of_def)
  qed
next
  case (Sv_conn i e ops)
  from conn_event_tasks [OF assms(2) [unfolded Sv_conn]] obtain c' where
      "sv_objects s' = (sv_objects s)(i \<mapsto> c')" "prefix (kept_tasks (Sv_conn i e ops) s) (tc_tasks c')"
      "sv_next s' = sv_next s"
    by blast
  then show ?thesis
    unfolding Sv_conn by (auto simp: added_def tasks_of_def prefix_def simp del: kept_tasks.simps)
next
  case (Sv_drop i)
  then show ?thesis using assms(2) by (auto simp: bindE_Inr_iff)
qed

section \<open>The composition\<close>

text \<open>The second part: a task that holds a \<open>shared_ptr\<close> keeps its connection alive.\<close>

definition coupled :: "loop_task list \<Rightarrow> single_server \<Rightarrow> bool" where
  "coupled q s \<longleftrightarrow>
     (\<forall>i c. sv_objects s i = Some c \<longrightarrow> tc_tasks c = of_conn i q) \<and>
     (\<forall>i t. Of_conn i t \<in> set q \<longrightarrow> i < sv_next s \<and> (\<not> raw_task t \<longrightarrow> sv_objects s i \<noteq> None))"

text \<open>A task of a connection that exists belongs to its list.\<close>

lemma in_of_conn: "Of_conn i t \<in> set q \<longleftrightarrow> t \<in> set (of_conn i q)"
  by (induction i q rule: of_conn.induct) auto

text \<open>An event keeps the coupling when its new tasks go to the end of the queue, and when it runs
  a task that task was the first.\<close>

lemma coupled_event:
  assumes "server_inv s" "server_inv s'" "server_step net ev s = Inr s'"
    and "\<And>j t. Of_conn j t \<in> set q \<Longrightarrow> j < sv_next s \<and>
      (\<not> raw_task t \<longrightarrow> (if j = subject ev s then sv_objects s' j \<noteq> None else sv_objects s j \<noteq> None))"
    and "\<And>j c. j \<noteq> subject ev s \<Longrightarrow> sv_objects s j = Some c \<Longrightarrow> tc_tasks c = of_conn j q"
    and "\<And>c. sv_objects s' (subject ev s) = Some c \<Longrightarrow> kept_tasks ev s = of_conn (subject ev s) q"
  shows "coupled (q @ map (Of_conn (subject ev s)) (added ev s s')) s'"
proof -
  note t = server_step_tasks [OF assms(1,3)]
  have "tc_tasks c = of_conn i (q @ map (Of_conn (subject ev s)) (added ev s s'))"
    if "sv_objects s' i = Some c" for i c
    using t assms(5) [of i c] assms(6) [of c] that by (cases "i = subject ev s") auto
  moreover have "subject ev s < sv_next s' \<and> sv_objects s' (subject ev s) \<noteq> None" if "added ev s s' \<noteq> []"
  proof -
    have "sv_objects s' (subject ev s) \<noteq> None"
      using that by (auto simp: added_def tasks_of_def split: option.splits)
    then show ?thesis using assms(2) by (auto simp: server_inv_def)
  qed
  then have "j < sv_next s' \<and> (\<not> raw_task x \<longrightarrow> sv_objects s' j \<noteq> None)"
    if "Of_conn j x \<in> set (q @ map (Of_conn (subject ev s)) (added ev s s'))" for j x
    using that t assms(4) [of j x] by (cases "added ev s s'"; cases "j = subject ev s") auto
  ultimately show ?thesis unfolding coupled_def by blast
qed

definition ls_inv :: "net \<Rightarrow> int \<Rightarrow> bool \<Rightarrow> loop_server \<Rightarrow> bool" where
  "ls_inv net fd wcb s \<longleftrightarrow>
     loop_reach False (Inr (ls_loop s)) \<and> server_reach net fd wcb (Inr (ls_server s)) \<and>
     coupled (queue (ls_loop s)) (ls_server s)"

lemma coupled_free:
  "coupled q s \<Longrightarrow> server_inv s \<Longrightarrow> of_conn (sv_next s) q = []"
  by (rule of_conn_none) (auto simp: coupled_def)

lemma kept_same:
  assumes "local_event ev \<or> (\<exists>i op. ev = Sv_conn i (Ev_remote op) [])" "coupled q s" "server_inv s"
    and "server_step net ev s = Inr s'" "sv_objects s' (subject ev s) = Some c"
  shows "kept_tasks ev s = of_conn (subject ev s) q"
proof (cases ev)
  case (Sv_accept r ops)
  with coupled_free [OF assms(2,3)] show ?thesis by simp
next
  case (Sv_conn i e ops)
  then obtain x where x: "sv_objects s i = Some x"
    using assms(4) by (auto simp: object_at_def bindE_Inr_iff split: option.splits)
  have "e \<noteq> Ev_task" using assms(1) Sv_conn by auto
  with x Sv_conn assms(2) show ?thesis by (cases e) (auto simp: tasks_of_def coupled_def)
next
  case (Sv_drop i)
  with assms(4,5) show ?thesis by (auto simp: bindE_Inr_iff)
qed

text \<open>What an event leaves of its subject: a connection is only freed when no task holds it.\<close>

lemma subject_held:
  assumes "sv_ok ev s" "coupled q s" "server_step net ev s = Inr s'"
    and "Of_conn (subject ev s) t \<in> set q" "\<not> raw_task t"
  shows "sv_objects s' (subject ev s) \<noteq> None"
proof (cases ev)
  case (Sv_accept r ops)
  with assms(2,4) show ?thesis by (auto simp: coupled_def)
next
  case (Sv_conn i e ops)
  from conn_event_tasks [OF assms(3) [unfolded Sv_conn]] Sv_conn show ?thesis by auto
next
  case (Sv_drop i)
  then obtain c where "sv_objects s i = Some c" "list_all raw_task (tc_tasks c)"
    using assms(1) by (auto split: option.splits)
  moreover have "t \<in> set (of_conn i q)" using assms(4) Sv_drop in_of_conn by simp
  ultimately show ?thesis using assms(2,5) by (auto simp: coupled_def list_all_iff)
qed

lemma event_coupled:
  assumes net: "net_ok net" and r: "server_reach net fd wcb (Inr s)" and ok: "sv_ok ev s"
    and ev: "local_event ev \<or> (\<exists>i op. ev = Sv_conn i (Ev_remote op) [])"
    and c: "coupled q s" and s': "server_step net ev s = Inr s'"
  shows "server_reach net fd wcb (Inr s') \<and> coupled (q @ map (Of_conn (subject ev s)) (added ev s s')) s'"
proof -
  have r': "server_reach net fd wcb (Inr s')" using server_reach_step [OF r ok] s' by simp
  have i: "server_inv s" "server_inv s'" using server_reach_inv [OF net r] server_reach_inv [OF net r'] by simp_all
  have "coupled (q @ map (Of_conn (subject ev s)) (added ev s s')) s'"
    by (rule coupled_event [OF i s'])
      (use c kept_same [OF ev c i(1) s'] subject_held [OF ok c s'] in \<open>auto simp: coupled_def\<close>)
  with r' show ?thesis by simp
qed

lemma task_coupled:
  assumes net: "net_ok net" and r: "server_reach net fd wcb (Inr s)" and ok: "sv_ok (Sv_conn i Ev_task ops) s"
    and c: "coupled (Of_conn i t # q) s" and s': "server_step net (Sv_conn i Ev_task ops) s = Inr s'"
  shows "server_reach net fd wcb (Inr s') \<and>
    coupled (q @ map (Of_conn i) (added (Sv_conn i Ev_task ops) s s')) s'"
proof -
  have r': "server_reach net fd wcb (Inr s')" using server_reach_step [OF r ok] s' by simp
  have inv: "server_inv s" "server_inv s'" using server_reach_inv [OF net r] server_reach_inv [OF net r'] by simp_all
  obtain x where "sv_objects s i = Some x" using ok by (auto split: option.splits)
  then have "tl (tasks_of i s) = of_conn i q" using c by (simp add: tasks_of_def coupled_def)
  then have "coupled (q @ map (Of_conn (subject (Sv_conn i Ev_task ops) s)) (added (Sv_conn i Ev_task ops) s s')) s'"
    by (intro coupled_event [OF inv s']) (use c subject_held [OF ok c s'] in \<open>auto simp: coupled_def\<close>)
  with r' show ?thesis by simp
qed

lemma ls_inv_parts:
  assumes "net_ok net" "ls_inv net fd wcb s"
  shows "server_inv (ls_server s) \<and> fifo (ls_loop s)"
  using server_reach_inv [OF assms(1), of fd wcb "Inr (ls_server s)"] loop_reach_fifo [of False "ls_loop s"] assms(2)
  by (simp add: ls_inv_def)

lemma ls_event_inv:
  assumes net: "net_ok net" and inv: "ls_inv net fd wcb s" and ok: "sv_ok ev (ls_server s)"
    and ev: "local_event ev" and pc: "executing (lp_pc (ls_loop s))"
  shows "safe (ls_inv net fd wcb) (ls_event net ev s)"
  unfolding ls_event_def
proof (rule safe_bind)
  have "server_inv (ls_server s)" using ls_inv_parts [OF net inv] by simp
  then show "safe (\<lambda>sv. server_step net ev (ls_server s) = Inr sv) (server_step net ev (ls_server s))"
    using server_step_inv [OF net _ ok] by (cases "server_step net ev (ls_server s)") auto
next
  fix sv assume s': "server_step net ev (ls_server s) = Inr sv"
  show "safe (ls_inv net fd wcb) (Inr \<lparr>ls_loop = queue_tasks (subject ev (ls_server s))
      (added ev (ls_server s) sv) (ls_loop s), ls_server = sv\<rparr>)"
    using event_coupled [OF net _ ok _ _ s', of fd wcb "queue (ls_loop s)"] queue_tasks_reach [OF _ pc] inv ev
    by (simp add: ls_inv_def queue_tasks_simps)
qed

lemma ls_remote_inv:
  assumes net: "net_ok net" and inv: "ls_inv net fd wcb s" and ok: "sv_ok (Sv_conn i (Ev_remote op) []) (ls_server s)"
  shows "safe (ls_inv net fd wcb) (ls_remote net i op s)"
  unfolding ls_remote_def Let_def
proof (rule safe_bind)
  let ?ev = "Sv_conn i (Ev_remote op) []"
  have "server_inv (ls_server s)" using ls_inv_parts [OF net inv] by simp
  then show "safe (\<lambda>sv. server_step net ?ev (ls_server s) = Inr sv) (server_step net ?ev (ls_server s))"
    using server_step_inv [OF net _ ok] by (cases "server_step net ?ev (ls_server s)") auto
  fix sv assume s': "server_step net ?ev (ls_server s) = Inr sv"
  show "safe (ls_inv net fd wcb) (Inr \<lparr>ls_loop = push_tasks i (added ?ev (ls_server s) sv) (ls_loop s), ls_server = sv\<rparr>)"
    using event_coupled [OF net _ ok _ _ s', of fd wcb "queue (ls_loop s)"] push_tasks_reach inv
    by (simp add: ls_inv_def push_tasks_simps)
qed

lemma ls_task_inv:
  assumes net: "net_ok net" and inv: "ls_inv net fd wcb s" and l: "loop_thread (ls_loop s) = Some l"
    and i: "head_conn (ls_loop s) = Some i" and ok: "sv_ok (Sv_conn i Ev_task ops) (ls_server s)"
  shows "safe (ls_inv net fd wcb) (ls_event net (Sv_conn i Ev_task ops) (s\<lparr>ls_loop := l\<rparr>))"
  unfolding ls_event_def
proof (rule safe_bind)
  let ?ev = "Sv_conn i Ev_task ops"
  have "server_inv (ls_server s)" using ls_inv_parts [OF net inv] by simp
  then show "safe (\<lambda>sv. server_step net ?ev (ls_server s) = Inr sv) (server_step net ?ev (ls_server (s\<lparr>ls_loop := l\<rparr>)))"
    using server_step_inv [OF net _ ok] by (cases "server_step net ?ev (ls_server s)") auto
  fix sv assume s': "server_step net ?ev (ls_server s) = Inr sv"
  have r: "loop_reach False (Inr l)" using loop_thread_reach [OF _ l] inv by (simp add: ls_inv_def)
  obtain t ts where b: "lp_pc (ls_loop s) = Running" "lp_batch (ls_loop s) = Of_conn i t # ts"
    using i by (auto simp: head_conn_def split: if_splits list.splits loop_task.splits)
  then have q: "queue (ls_loop s) = Of_conn i t # queue l"
    using loop_thread_queue [OF _ l] ls_inv_parts [OF net inv] by simp
  have "lp_pc l = Running" using l b by (auto simp: loop_thread_def)
  then have "loop_reach False (Inr (queue_tasks i (added ?ev (ls_server s) sv) l))"
    by (intro queue_tasks_reach r) simp
  with task_coupled [OF net _ ok _ s', of fd wcb t "queue l"] inv q
  show "safe (ls_inv net fd wcb) (Inr \<lparr>ls_loop = queue_tasks (subject ?ev (ls_server (s\<lparr>ls_loop := l\<rparr>)))
      (added ?ev (ls_server (s\<lparr>ls_loop := l\<rparr>)) sv) (ls_loop (s\<lparr>ls_loop := l\<rparr>)), ls_server = sv\<rparr>)"
    by (simp add: ls_inv_def queue_tasks_simps)
qed

lemma coupled_queue:
  assumes "coupled q s" and "q' = q @ map Of_user us \<or> (\<exists>u. q = Of_user u # q')"
  shows "coupled q' s"
proof -
  have "Of_conn i t \<in> set q" if "Of_conn i t \<in> set q'" for i t using assms(2) that by auto
  moreover have "of_conn i q' = of_conn i q" for i using assms(2) by auto
  ultimately show ?thesis using assms(1) unfolding coupled_def by metis
qed

lemma ls_step_inv:
  assumes net: "net_ok net" and inv: "ls_inv net fd wcb s" and step: "ls_step False net s r"
  shows "safe (ls_inv net fd wcb) r"
  using step
proof cases
  case (thread ops)
  then obtain l where l: "loop_thread (ls_loop s) = Some l" by (auto simp: ls_thread_def)
  show ?thesis
  proof (cases "head_conn (ls_loop s)")
    case (Some i)
    with thread l have "r = ls_event net (Sv_conn i Ev_task ops) (s\<lparr>ls_loop := l\<rparr>)" by (simp add: ls_thread_def)
    with ls_task_inv [OF net inv l Some fresh_task_ok [OF _ Some thread(2)]] thread(3) show ?thesis by simp
  next
    case None
    have f: "fifo (ls_loop s)" using ls_inv_parts [OF net inv] by simp
    have "coupled (queue l) (ls_server s)"
    proof (rule coupled_queue)
      show "coupled (queue (ls_loop s)) (ls_server s)" using inv by (simp add: ls_inv_def)
      show "queue l = queue (ls_loop s) @ map Of_user [] \<or> (\<exists>u. queue (ls_loop s) = Of_user u # queue l)"
        using loop_thread_queue [OF f l] None
        by (auto simp: head_conn_def neq_Nil_conv split: if_splits list.splits loop_task.splits)
    qed
    moreover have "loop_reach False (Inr l)" using loop_thread_reach [OF _ l] inv by (simp add: ls_inv_def)
    moreover have "r = Inr (s\<lparr>ls_loop := l\<rparr>)" using thread(1) l None by (simp add: ls_thread_def)
    ultimately show ?thesis using inv by (simp add: ls_inv_def)
  qed
next
  case (event ev)
  with ls_event_inv [OF net inv] show ?thesis by simp
next
  case (remote i op)
  with ls_remote_inv [OF net inv] show ?thesis by simp
next
  case (other l us)
  have r: "loop_reach False (Inr l)"
    using inv other(2) by (auto simp: ls_inv_def intro: reach_step)
  have "fifo (ls_loop s)" "fifo l" using ls_inv_parts [OF net inv] loop_reach_fifo [OF r] by simp_all
  then have "lp_done l @ queue l = lp_done l @ queue (ls_loop s) @ map Of_user us"
    using queue_record [of l] queue_record [of "ls_loop s"] other(3,4) by (metis append_assoc)
  then have "coupled (queue l) (ls_server s)"
    using coupled_queue [of "queue (ls_loop s)" "ls_server s" "queue l" us] inv by (simp add: ls_inv_def)
  with other(1) r inv show ?thesis by (simp add: ls_inv_def)
qed



lemma ls_reach_inv:
  assumes net: "net_ok net" and r: "ls_reach net fd wcb r"
  shows "safe (ls_inv net fd wcb) r"
  using r
proof (induction rule: reach.induct)
  case reach_init
  have "loop_reach False (Inr loop_new)" by (rule reach_init)
  then show ?case
    using server_reach_new
    by (simp add: ls_inv_def loop_server_new_def queue_def loop_new_def coupled_def server_new_def)
next
  case (reach_step s r)
  then show ?case using ls_step_inv [OF net] by simp
qed

section \<open>A call from another thread\<close>

text \<open>The other thread's second step.\<close>

definition ls_wakeup :: "loop_server \<Rightarrow> loop_server" where
  "ls_wakeup s = s\<lparr>ls_loop := (wakeup (ls_loop s))\<lparr>lp_owed := lp_owed (ls_loop s) - 1\<rparr>\<rparr>"

lemma remote_send_queues:
  assumes "sv_objects (ls_server s) i = Some c" "tc_state c = kConnected"
  shows "ls_remote net i (R_send d) s = Inr \<lparr>
     ls_loop = (push_task (Of_conn i (Send_in_loop d)) (ls_loop s))\<lparr>lp_owed := lp_owed (ls_loop s) + 1\<rparr>,
     ls_server = (ls_server s)\<lparr>sv_objects := (sv_objects (ls_server s))(i \<mapsto> queue_task (Send_in_loop d) c)\<rparr>\<rparr>"
proof -
  let ?ev = "Sv_conn i (Ev_remote (R_send d)) []"
  let ?sv = "(ls_server s)\<lparr>sv_objects := (sv_objects (ls_server s))(i \<mapsto> queue_task (Send_in_loop d) c)\<rparr>"
  have "server_step net ?ev (ls_server s) = Inr ?sv"
    using assms by (simp add: object_at_def conn_send_def)
  moreover have "added ?ev (ls_server s) ?sv = [Send_in_loop d]"
    using assms(1) by (simp add: added_def tasks_of_def)
  ultimately show ?thesis by (simp add: ls_remote_def push_tasks_def Let_def del: server_step.simps)
qed

lemma send_stream:
  assumes net: "net_ok net" and inv: "conn_inv c" and st: "tc_state c = kConnected"
    and len: "length d < 2 ^ 63" and run: "sendInLoop net d c = Inr c'"
  shows "tc_sent c' @ content (tc_out c') = tc_sent c @ content (tc_out c) @
    (case send_effect net d c of (n, rest) \<Rightarrow> take n d @ rest)"
proof -
  obtain n rest where e: "send_effect net d c = (n, rest)" by (cases "send_effect net d c")
  have s: "tc_state c \<noteq> kDisconnected" "\<not> tc_shut c" using inv st by (auto simp: inv_defs)
  have "content (tc_out c) = [] \<or> n = 0" using e by (auto simp: send_effect_def split: if_splits)
  with send_exact [OF net inv s len run e] e show ?thesis by auto
qed

text \<open>Everything is sent or queued, but for the two errors after which it is dropped.\<close>

lemma send_effect_all:
  "(case send_effect net d c of (n, rest) \<Rightarrow> take n d @ rest) =
    (if content (tc_out c) = [] \<and> net_write net (tc_calls c) (length d) \<in> {Write_failed EPIPE, Write_failed ECONNRESET}
     then [] else d)"
  by (auto simp: send_effect_def split: write_result.split)

lemma pop_queued: "tc_tasks c = [] \<Longrightarrow> (queue_task t c)\<lparr>tc_tasks := []\<rparr> = c"
  by (cases c) (simp add: queue_task_def)

text \<open>A polling loop with a single task, which another thread left for a connection.\<close>

lemma ls_run_task:
  assumes "lp_pc l = Polling" "0 < lp_wake l" "lp_batch l = []" "lp_pending l = [Of_conn i t]"
  shows "\<exists>l'. ls_run 4 net \<lparr>ls_loop = l, ls_server = sv\<rparr> =
    Some (ls_event net (Sv_conn i Ev_task []) \<lparr>ls_loop = l', ls_server = sv\<rparr>)"
proof -
  let ?l1 = "l\<lparr>lp_pc := Handling True\<rparr>"
  let ?l2 = "?l1\<lparr>lp_wake := 0, lp_pc := Handling False\<rparr>"
  let ?l3 = "?l2\<lparr>lp_batch := [Of_conn i t], lp_pending := [], lp_doing := True, lp_pc := Running\<rparr>"
  let ?l4 = "?l3\<lparr>lp_batch := [], lp_done := lp_done l @ [Of_conn i t]\<rparr>"
  have "loop_thread l = Some ?l1" "loop_thread ?l1 = Some ?l2" "loop_thread ?l2 = Some ?l3"
      "loop_thread ?l3 = Some ?l4"
    using assms by (simp_all add: loop_thread_def loop_handleRead_def swap_tasks_def)
  moreover have "head_conn l = None" "head_conn ?l1 = None" "head_conn ?l2 = None" "head_conn ?l3 = Some i"
    using assms by (simp_all add: head_conn_def)
  ultimately have s: "ls_thread net [] \<lparr>ls_loop = l, ls_server = sv\<rparr> = Some (Inr \<lparr>ls_loop = ?l1, ls_server = sv\<rparr>)"
      "ls_thread net [] \<lparr>ls_loop = ?l1, ls_server = sv\<rparr> = Some (Inr \<lparr>ls_loop = ?l2, ls_server = sv\<rparr>)"
      "ls_thread net [] \<lparr>ls_loop = ?l2, ls_server = sv\<rparr> = Some (Inr \<lparr>ls_loop = ?l3, ls_server = sv\<rparr>)"
      "ls_thread net [] \<lparr>ls_loop = ?l3, ls_server = sv\<rparr> =
         Some (ls_event net (Sv_conn i Ev_task []) \<lparr>ls_loop = ?l4, ls_server = sv\<rparr>)"
    by (simp_all only: ls_thread_def loop_server.simps option.map option.case)
  let ?e = "ls_event net (Sv_conn i Ev_task []) \<lparr>ls_loop = ?l4, ls_server = sv\<rparr>"
  have "ls_run (Suc (Suc (Suc (Suc 0)))) net \<lparr>ls_loop = l, ls_server = sv\<rparr> = Some ?e"
    by (simp only: ls_run.simps s option.case sum.case) (cases ?e; simp)
  moreover have "(4 :: nat) = Suc (Suc (Suc (Suc 0)))" by simp
  ultimately have "ls_run 4 net \<lparr>ls_loop = l, ls_server = sv\<rparr> = Some ?e" by (simp only:)
  then show ?thesis by blast
qed

lemma send_task:
  assumes net: "net_ok net" and inv: "conn_inv c" and st: "tc_state c = kConnected" and t: "tc_tasks c = []"
    and len: "length d < 2 ^ 63" and run: "sendInLoop net d c = Inr c'"
    and i: "sv_objects sv i = Some (queue_task (Send_in_loop d) c)"
  shows "\<exists>l'. ls_event net (Sv_conn i Ev_task []) \<lparr>ls_loop = l, ls_server = sv\<rparr> =
    Inr \<lparr>ls_loop = l', ls_server = sv\<lparr>sv_objects := (sv_objects sv)(i \<mapsto> c')\<rparr>\<rparr>"
proof -
  have "conn_inv c'" "tc_state c' = kConnected"
    using sendInLoop_spec [OF net inv len] run st by simp_all
  then have "tc_closed c' = tc_closed c" using inv st by (simp add: inv_defs)
  then have "server_step net (Sv_conn i Ev_task []) sv = Inr (sv\<lparr>sv_objects := (sv_objects sv)(i \<mapsto> c')\<rparr>)"
    using i t run by (simp add: object_at_def pop_queued)
  then show ?thesis by (simp add: ls_event_def del: server_step.simps)
qed

section \<open>An example\<close>

lemma ls_reach_thread:
  assumes "ls_reach net fd wcb (Inr \<lparr>ls_loop = l, ls_server = sv\<rparr>)" "loop_thread l = Some l'"
    and "lp_done l' = lp_done l" "lp_queued l' = lp_queued l"
  shows "ls_reach net fd wcb (Inr \<lparr>ls_loop = l', ls_server = sv\<rparr>)"
  using assms(1)
proof (rule reach_step)
  have "loop_step False l (Inr l')" using assms(2) by (rule loop_step.thread)
  then have "ls_step False net \<lparr>ls_loop = l, ls_server = sv\<rparr> (Inr (\<lparr>ls_loop = l, ls_server = sv\<rparr>\<lparr>ls_loop := l'\<rparr>))"
    using assms(3,4) by (intro ls_step.other [where us = "[]"]) simp_all
  then show "ls_step False net \<lparr>ls_loop = l, ls_server = sv\<rparr> (Inr \<lparr>ls_loop = l', ls_server = sv\<rparr>)" by simp
qed

text \<open>A connection was accepted and the loop sleeps again.\<close>

lemma ls_example:
  "\<exists>s c. ls_reach net 5 False (Inr s) \<and> lp_pc (ls_loop s) = Polling \<and> lp_pending (ls_loop s) = [] \<and>
     sv_objects (ls_server s) 0 = Some c \<and> tc_state c = kConnected \<and> content (tc_out c) = [] \<and>
     tc_sent c = [] \<and> tc_calls c = 0"
proof -
  let ?sv = "server_new 5 False"
  let ?r = "\<lambda>l sv. ls_reach net 5 False (Inr \<lparr>ls_loop = l, ls_server = sv\<rparr>)"
  let ?l = "\<lambda>pc. (loop_new :: loop_task event_loop)\<lparr>lp_looping := True, lp_pc := pc\<rparr>"
  have "?r loop_new ?sv" using reach_init [of "ls_step False net" "loop_server_new 5 False"] by (simp add: loop_server_new_def)
  then have "?r (?l Check) ?sv"
  proof (rule reach_step)
    have e: "loop_enter loop_new = Inr (?l Check)" by (simp add: loop_enter_def loop_new_def)
    have "loop_step False loop_new (loop_enter loop_new :: loop_task event_loop res)"
      by (rule loop_step.enter) (simp add: loop_new_def)
    then have "loop_step False loop_new (Inr (?l Check))" unfolding e .
    then have "ls_step False net \<lparr>ls_loop = loop_new, ls_server = ?sv\<rparr>
        (Inr (\<lparr>ls_loop = loop_new, ls_server = ?sv\<rparr>\<lparr>ls_loop := ?l Check\<rparr>))"
      by (intro ls_step.other [where us = "[]"]) simp_all
    then show "ls_step False net \<lparr>ls_loop = loop_new, ls_server = ?sv\<rparr> (Inr \<lparr>ls_loop = ?l Check, ls_server = ?sv\<rparr>)"
      by simp
  qed
  then have "?r (?l Polling) ?sv"
    by (rule ls_reach_thread) (simp_all add: loop_thread_def loop_new_def)
  then have h: "?r (?l (Handling False)) ?sv"
  proof (rule reach_step)
    have "loop_step False (?l Polling) (Inr ((?l Polling)\<lparr>lp_pc := Handling False\<rparr>))"
      by (rule loop_step.io) simp_all
    then have "loop_step False (?l Polling) (Inr (?l (Handling False)))" by simp
    then have "ls_step False net \<lparr>ls_loop = ?l Polling, ls_server = ?sv\<rparr>
        (Inr (\<lparr>ls_loop = ?l Polling, ls_server = ?sv\<rparr>\<lparr>ls_loop := ?l (Handling False)\<rparr>))"
      by (intro ls_step.other [where us = "[]"]) simp_all
    then show "ls_step False net \<lparr>ls_loop = ?l Polling, ls_server = ?sv\<rparr>
        (Inr \<lparr>ls_loop = ?l (Handling False), ls_server = ?sv\<rparr>)" by simp
  qed
  obtain c where c: "conn_up 9 False False 0 = Inr c" "tc_state c = kConnected" "content (tc_out c) = []"
      "tc_sent c = []" "tc_tasks c = []" "tc_calls c = 0"
    using conn_up_spec [of 9 False False 0] by auto
  let ?s = "?sv\<lparr>sv_objects := [0 \<mapsto> c], sv_next := 1, sv_connections := [0], sv_notes := [(0, True)]\<rparr>"
  have acc: "server_step net (Sv_accept (Accepted 9) []) ?sv = Inr ?s"
    using c by (simp add: acceptor_handleRead_def newConnection_def connectionCallback_def object_at_def
        server_new_def Let_def)
  have "?r (?l (Handling False)) ?s"
    using h
  proof (rule reach_step)
    have "ls_event net (Sv_accept (Accepted 9) []) \<lparr>ls_loop = ?l (Handling False), ls_server = ?sv\<rparr> =
        Inr \<lparr>ls_loop = ?l (Handling False), ls_server = ?s\<rparr>"
      using acc c(5) by (simp add: ls_event_def added_def tasks_of_def server_new_def del: server_step.simps)
    moreover have "ls_step False net \<lparr>ls_loop = ?l (Handling False), ls_server = ?sv\<rparr>
        (ls_event net (Sv_accept (Accepted 9) []) \<lparr>ls_loop = ?l (Handling False), ls_server = ?sv\<rparr>)"
      by (rule ls_step.event) simp_all
    ultimately show "ls_step False net \<lparr>ls_loop = ?l (Handling False), ls_server = ?sv\<rparr>
        (Inr \<lparr>ls_loop = ?l (Handling False), ls_server = ?s\<rparr>)" by simp
  qed
  then have "?r ((?l Running)\<lparr>lp_doing := True\<rparr>) ?s"
    by (rule ls_reach_thread) (simp_all add: loop_thread_def loop_new_def swap_tasks_def)
  then have "?r (?l Check) ?s"
    by (rule ls_reach_thread) (simp_all add: loop_thread_def loop_new_def)
  then have "?r (?l Polling) ?s"
    by (rule ls_reach_thread) (simp_all add: loop_thread_def loop_new_def)
  with c(2-4,6) show ?thesis
    by (intro exI [of _ "\<lparr>ls_loop = ?l Polling, ls_server = ?s\<rparr>"] exI [of _ c]) (simp add: loop_new_def)
qed

section \<open>Properties\<close>



text \<open>C16. What another thread sends gets out: when the loop sleeps in \<open>epoll_wait\<close> with nothing pending and
  another thread calls \<open>send\<close> on an open connection, four steps of the loop thread after the
  wake-up, with nobody else doing anything, the data are behind everything accepted before, in the
  socket or in the output buffer, also when the \<open>write\<close> takes only a part or fails with \<open>EAGAIN\<close>. They
  are dropped if nothing was pending and the \<open>write\<close> fails with \<open>EPIPE\<close> or \<open>ECONNRESET\<close>, where the
  peer is gone; then what was accepted before stays as it was. Only memory may run out.\<close>
theorem remote_send_arrives:
  assumes "net_ok net" and "ls_reach net fd wcb (Inr s)"
    and "lp_pc (ls_loop s) = Polling" and "lp_pending (ls_loop s) = []"
    and "sv_objects (ls_server s) i = Some c" and "tc_state c = kConnected" and "length d < 2 ^ 63"
  shows "\<exists>s1. ls_remote net i (R_send d) s = Inr s1 \<and>
    (case ls_run 4 net (ls_wakeup s1) of
       None \<Rightarrow> False
     | Some (Inl e) \<Rightarrow> e = Exception ''length_error''
     | Some (Inr s2) \<Rightarrow> \<exists>c'. sv_objects (ls_server s2) i = Some c' \<and>
         tc_sent c' @ content (tc_out c') = tc_sent c @ content (tc_out c) @
           (if content (tc_out c) = [] \<and>
               net_write net (tc_calls c) (length d) \<in> {Write_failed EPIPE, Write_failed ECONNRESET}
            then [] else d))"
proof -
  let ?l = "ls_loop s" and ?sv = "ls_server s"
  let ?sv1 = "?sv\<lparr>sv_objects := (sv_objects ?sv)(i \<mapsto> queue_task (Send_in_loop d) c)\<rparr>"
  let ?l1 = "(push_task (Of_conn i (Send_in_loop d)) ?l)\<lparr>lp_owed := lp_owed ?l + 1\<rparr>"
  let ?s1 = "\<lparr>ls_loop = ?l1, ls_server = ?sv1\<rparr>"
  have inv: "ls_inv net fd wcb s" using ls_reach_inv [OF assms(1,2)] by simp
  then have p: "fifo ?l" "server_inv ?sv" using ls_inv_parts [OF assms(1)] by blast+
  have b: "lp_batch ?l = []" using p(1) assms(3) by (auto simp: fifo_def)
  have ci: "conn_inv c" using p(2) assms(5) by (auto simp: server_inv_def object_ok_def)
  have t: "tc_tasks c = []"
    using inv assms(4,5) b by (auto simp: ls_inv_def coupled_def queue_def)
  let ?w = "(wakeup ?l1)\<lparr>lp_owed := lp_owed ?l1 - 1\<rparr>"
  have w: "lp_pc ?w = Polling" "0 < lp_wake ?w" "lp_batch ?w = []"
      "lp_pending ?w = [Of_conn i (Send_in_loop d)]"
    using assms(3,4) b by (simp_all add: push_task_def)
  obtain l' where l': "ls_run 4 net \<lparr>ls_loop = ?w, ls_server = ?sv1\<rparr> =
      Some (ls_event net (Sv_conn i Ev_task []) \<lparr>ls_loop = l', ls_server = ?sv1\<rparr>)"
    using ls_run_task [OF w] by blast
  then have run: "ls_run 4 net (ls_wakeup ?s1) =
      Some (ls_event net (Sv_conn i Ev_task []) \<lparr>ls_loop = l', ls_server = ?sv1\<rparr>)"
    by (simp add: ls_wakeup_def)
  have step: "ls_remote net i (R_send d) s = Inr ?s1" by (rule remote_send_queues [OF assms(5,6)])
  show ?thesis
  proof (cases "sendInLoop net d c")
    case (Inl e)
    have "e = Exception ''length_error''" using sendInLoop_spec [OF assms(1) ci assms(7)] Inl by simp
    moreover have "server_step net (Sv_conn i Ev_task []) ?sv1 = Inl e"
      using Inl t by (simp add: object_at_def pop_queued)
    then have "ls_event net (Sv_conn i Ev_task []) \<lparr>ls_loop = l', ls_server = ?sv1\<rparr> = Inl e"
      by (simp add: ls_event_def del: server_step.simps)
    ultimately show ?thesis using step run by simp
  next
    case (Inr c')
    have i1: "sv_objects ?sv1 i = Some (queue_task (Send_in_loop d) c)" by simp
    obtain l2 where e: "ls_event net (Sv_conn i Ev_task []) \<lparr>ls_loop = l', ls_server = ?sv1\<rparr> =
        Inr \<lparr>ls_loop = l2, ls_server = ?sv1\<lparr>sv_objects := (sv_objects ?sv1)(i \<mapsto> c')\<rparr>\<rparr>"
      using send_task [OF assms(1) ci assms(6) t assms(7) Inr i1, of l'] by blast
    have "tc_sent c' @ content (tc_out c') = tc_sent c @ content (tc_out c) @
           (if content (tc_out c) = [] \<and>
               net_write net (tc_calls c) (length d) \<in> {Write_failed EPIPE, Write_failed ECONNRESET}
            then [] else d)"
      by (rule send_stream [OF assms(1) ci assms(6,7) Inr, unfolded send_effect_all])
    with step run e show ?thesis by simp
  qed
qed

theorem remote_send_arrives_witness:
  "\<exists>s s1 c. ls_reach slow_net 5 False (Inr s) \<and> ls_remote slow_net 0 (R_send [1, 2, 3]) s = Inr s1 \<and>
     (case ls_run 4 slow_net (ls_wakeup s1) of
        None \<Rightarrow> False
      | Some (Inl e) \<Rightarrow> e = Exception ''length_error''
      | Some (Inr s2) \<Rightarrow> \<exists>c. sv_objects (ls_server s2) 0 = Some c \<and>
          tc_sent c @ content (tc_out c) = [1, 2, 3])"
proof -
  obtain s c where s: "ls_reach slow_net 5 False (Inr s)" "lp_pc (ls_loop s) = Polling"
      "lp_pending (ls_loop s) = []" "sv_objects (ls_server s) 0 = Some c" "tc_state c = kConnected"
      "content (tc_out c) = []" "tc_sent c = []" "tc_calls c = 0"
    using ls_example by blast
  have l: "length [1 :: byte, 2, 3] < 2 ^ 63" by simp
  note a = remote_send_arrives [OF slow_net_ok(1) s(1-5) l]
  have "net_write slow_net (tc_calls c) (length [1 :: byte, 2, 3]) \<notin> {Write_failed EPIPE, Write_failed ECONNRESET}"
    by (simp add: slow_net_def)
  then have e: "tc_sent c @ content (tc_out c) @ (if content (tc_out c) = [] \<and>
      net_write slow_net (tc_calls c) (length [1 :: byte, 2, 3]) \<in> {Write_failed EPIPE, Write_failed ECONNRESET}
      then [] else [1, 2, 3]) = [1, 2, 3]"
    using s(6,7) by (simp only: simp_thms if_False append_Nil)
  from a [unfolded e] s(1) show ?thesis by blast
qed

end
