(* ===== verification/Loop_Timers.thy ===== *)
theory Loop_Timers
  imports Timer_Queue Event_Loop
begin

text \<open>
  The timers of a loop and the threads that use them: \<open>TimerQueue\<close> composed with \<open>EventLoop\<close>. A
  call of \<open>addTimer\<close> or \<open>cancelTimer\<close> from another thread allocates the timer at once but leaves
  the change of the set to a task of the loop; calls of the loop thread, which include those of
  the timers' callbacks, take effect at once and overtake the tasks. The lemmas show when this is
  safe, that a timer added by another thread is armed and fires, that one it cancels is gone, and
  what happens when the loop thread cancels a timer whose insertion is still a task.
\<close>

section \<open>State\<close>

datatype timer_task = Task_insert int nat | Task_cancel nat | Task_user nat

record timer_loop =
  tl_loop :: "timer_task event_loop"
  tl_timers :: timer_queue

definition timer_loop_new :: timer_loop where
  "timer_loop_new = \<lparr>tl_loop = loop_new, tl_timers = tq_new\<rparr>"

section \<open>Operations\<close>

fun run_timer_task :: "timer_task \<Rightarrow> timer_queue \<Rightarrow> timer_queue res" where
  "run_timer_task (Task_insert when p) q = insertTimer when p q"
| "run_timer_task (Task_cancel p) q = cancelTimer p q"
| "run_timer_task (Task_user u) q = Inr q"

definition run_head :: "timer_task event_loop \<Rightarrow> timer_queue \<Rightarrow> timer_queue res" where
  "run_head l q =
     (if lp_pc l = Running then (case lp_batch l of [] \<Rightarrow> Inr q | t # ts \<Rightarrow> run_timer_task t q) else Inr q)"

definition tl_thread :: "timer_loop \<Rightarrow> timer_loop res option" where
  "tl_thread s =
     map_option (\<lambda>l. bindE (run_head (tl_loop s) (tl_timers s)) (\<lambda>q. Inr \<lparr>tl_loop = l, tl_timers = q\<rparr>))
       (loop_thread (tl_loop s))"

definition on_timers ::
  "(timer_queue \<Rightarrow> timer_queue res) \<Rightarrow> timer_loop \<Rightarrow> timer_loop res" where
  "on_timers f s = bindE (f (tl_timers s)) (\<lambda>q. Inr (s\<lparr>tl_timers := q\<rparr>))"

text \<open>Another thread: the task is pushed, the wake-up follows in a step of its own.\<close>

definition remote_task :: "'t \<Rightarrow> 't event_loop \<Rightarrow> 't event_loop" where
  "remote_task t l = (push_task t l)\<lparr>lp_owed := lp_owed l + 1\<rparr>"

definition remote_addTimer :: "int \<Rightarrow> int \<Rightarrow> timer_loop \<Rightarrow> nat \<times> timer_loop" where
  "remote_addTimer when interval s =
     (case timer_alloc when interval (tl_timers s) of (p, q) \<Rightarrow>
        (p, \<lparr>tl_loop = remote_task (Task_insert when p) (tl_loop s), tl_timers = q\<rparr>))"

definition remote_cancelTimer :: "nat \<Rightarrow> timer_loop \<Rightarrow> timer_loop" where
  "remote_cancelTimer p s = s\<lparr>tl_loop := remote_task (Task_cancel p) (tl_loop s)\<rparr>"

definition tl_wakeup :: "timer_loop \<Rightarrow> timer_loop" where
  "tl_wakeup s = s\<lparr>tl_loop := (wakeup (tl_loop s))\<lparr>lp_owed := lp_owed (tl_loop s) - 1\<rparr>\<rparr>"

text \<open>The loop thread left to itself for \<open>n\<close> steps.\<close>

fun tl_run :: "nat \<Rightarrow> timer_loop \<Rightarrow> timer_loop res option" where
  "tl_run 0 s = Some (Inr s)"
| "tl_run (Suc n) s = (case tl_thread s of Some (Inr s') \<Rightarrow> tl_run n s' | r \<Rightarrow> r)"

section \<open>Disciplined use\<close>

text \<open>
  The loop thread may cancel a timer that is in the set and that nobody else is about to cancel;
  another thread a repeating timer (a one-shot timer may free itself first), once.
\<close>

definition may_cancel :: "nat \<Rightarrow> timer_loop \<Rightarrow> bool" where
  "may_cancel p s \<longleftrightarrow> p \<in> snd ` set (tq_timers (tl_timers s)) \<and> Task_cancel p \<notin> set (queue (tl_loop s))"

definition repeating :: "timer_queue \<Rightarrow> nat \<Rightarrow> bool" where
  "repeating q p \<longleftrightarrow> (case tq_heap q p of None \<Rightarrow> False | Some t \<Rightarrow> tm_repeat t)"

definition may_cancel_remote :: "nat \<Rightarrow> timer_loop \<Rightarrow> bool" where
  "may_cancel_remote p s \<longleftrightarrow>
     repeating (tl_timers s) p \<and> Task_cancel p \<notin> set (queue (tl_loop s))"

text \<open>Callbacks cancel timers that are not due.\<close>

definition due :: "int \<Rightarrow> timer_queue \<Rightarrow> entry list" where
  "due now q = filter (\<lambda>e. fst e \<le> now) (tq_timers q)"

definition acts_ok :: "int \<Rightarrow> (nat \<Rightarrow> timer_act list) \<Rightarrow> timer_loop \<Rightarrow> bool" where
  "acts_ok now acts s \<longleftrightarrow>
     (\<forall>p \<in> set (all_cancels acts (due now (tl_timers s))).
        may_cancel p s \<and> p \<notin> snd ` set (due now (tl_timers s))) \<and>
     distinct (all_cancels acts (due now (tl_timers s)))"

inductive tl_step :: "timer_loop \<Rightarrow> timer_loop res \<Rightarrow> bool" where
  thread: "tl_thread s = Some r \<Longrightarrow> tl_step s r"
| expire: "lp_pc (tl_loop s) = Handling b \<Longrightarrow> acts_ok now acts s \<Longrightarrow>
    tl_step s (on_timers (timer_handleRead now acts) s)"
| local_add: "executing (lp_pc (tl_loop s)) \<Longrightarrow> tl_step s (on_timers (do_act (Act_add when interval)) s)"
| local_cancel: "executing (lp_pc (tl_loop s)) \<Longrightarrow> may_cancel p s \<Longrightarrow>
    tl_step s (on_timers (cancelTimer p) s)"
| remote_add: "tl_step s (Inr (snd (remote_addTimer when interval s)))"
| remote_cancel: "may_cancel_remote p s \<Longrightarrow> tl_step s (Inr (remote_cancelTimer p s))"
| other: "loop_step False (tl_loop s) (Inr l) \<Longrightarrow> queue l = queue (tl_loop s) @ map Task_user us \<Longrightarrow>
    tl_step s (Inr (s\<lparr>tl_loop := l\<rparr>))"

abbreviation tl_reach :: "timer_loop res \<Rightarrow> bool" where
  "tl_reach \<equiv> reach tl_step timer_loop_new"

section \<open>The queue and the set\<close>

text \<open>What the pending tasks of a list will enter into the set and take out of it.\<close>

fun inserts :: "timer_task list \<Rightarrow> entry list" where
  "inserts [] = []"
| "inserts (Task_insert w p # ts) = (w, p) # inserts ts"
| "inserts (_ # ts) = inserts ts"

fun removals :: "timer_task list \<Rightarrow> nat list" where
  "removals [] = []"
| "removals (Task_cancel p # ts) = p # removals ts"
| "removals (_ # ts) = removals ts"

text \<open>No timer is taken out before it is entered.\<close>

fun in_order :: "timer_task list \<Rightarrow> bool" where
  "in_order [] = True"
| "in_order (Task_cancel p # ts) = (p \<notin> snd ` set (inserts ts) \<and> in_order ts)"
| "in_order (_ # ts) = in_order ts"

lemma inserts_append [simp]: "inserts (xs @ ys) = inserts xs @ inserts ys"
  by (induction xs rule: inserts.induct) simp_all

lemma removals_append [simp]: "removals (xs @ ys) = removals xs @ removals ys"
  by (induction xs rule: removals.induct) simp_all

lemma users_simps [simp]: "inserts (map Task_user us) = []" "removals (map Task_user us) = []"
  by (induction us) simp_all

lemma in_removals: "Task_cancel p \<in> set ts \<longleftrightarrow> p \<in> set (removals ts)"
  by (induction ts rule: removals.induct) auto

lemma in_order_append: "in_order (xs @ ys) \<longleftrightarrow>
    in_order xs \<and> in_order ys \<and> set (removals xs) \<inter> snd ` set (inserts ys) = {}"
  by (induction xs rule: in_order.induct) auto

lemma in_order_users [simp]: "in_order (map Task_user us)"
  by (induction us) simp_all

definition tasks_ok :: "timer_task list \<Rightarrow> timer_queue \<Rightarrow> bool" where
  "tasks_ok ts q \<longleftrightarrow>
     tq_inv (inserts ts) q \<and> armed_ok q \<and> in_order ts \<and> distinct (removals ts) \<and>
     (\<forall>p \<in> set (removals ts). repeating q p)"

lemma tasks_okI:
  assumes "tasks_ok ts q" "tq_inv (inserts ts) q'" "armed_ok q'"
    and "\<And>p. p \<in> set (removals ts) \<Longrightarrow> repeating q p \<Longrightarrow> repeating q' p"
  shows "tasks_ok ts q'"
  using assms by (simp add: tasks_ok_def)

lemma repeating_same: "tq_heap q' p = tq_heap q p \<Longrightarrow> repeating q' p = repeating q p"
  by (simp add: repeating_def)

lemma repeating_below: "tq_inv es q \<Longrightarrow> repeating q p \<Longrightarrow> p < tq_next q"
  by (auto simp: tq_inv_def heap_ok_def repeating_def split: option.splits)

lemma repeating_entry:
  assumes "tq_inv es q" "repeating q p"
  shows "p \<in> snd ` (set es \<union> set (tq_timers q))"
  using assms by (force simp: tq_inv_def heap_ok_def repeating_def split: option.splits)

text \<open>The effect of a task, if the tasks are in order: what becomes of the timers that exist.\<close>

definition task_effect :: "timer_task list \<Rightarrow> timer_queue \<Rightarrow> timer_queue \<Rightarrow> bool" where
  "task_effect ts q q' \<longleftrightarrow>
     tq_next q' = tq_next q \<and> tq_ran q' = tq_ran q \<and>
     (\<forall>p. tq_heap q' p = (if p \<in> set (removals ts) then None else tq_heap q p)) \<and>
     set (tq_timers q') = {e \<in> set (tq_timers q) \<union> set (inserts ts). snd e \<notin> set (removals ts)}"

lemma run_timer_task_spec:
  assumes ok: "tasks_ok (t # ts) q"
  shows "\<exists>q'. run_timer_task t q = Inr q' \<and> tasks_ok ts q' \<and> task_effect [t] q q'"
proof (cases t)
  case (Task_insert w p)
  have inv: "tq_inv ((w, p) # inserts ts) q" using ok Task_insert by (simp add: tasks_ok_def)
  obtain q' where q': "insertTimer w p q = Inr q'" "tq_inv (inserts ts) q'" "tq_ran q' = tq_ran q"
      "tq_next q' = tq_next q" "tq_heap q' = tq_heap q"
      "set (tq_timers q') = insert (w, p) (set (tq_timers q))"
    using insertTimer_spec [OF inv] by blast
  have "armed_ok q'" using insertTimer_armed [OF inv _ q'(1)] ok by (simp add: tasks_ok_def)
  then have "tasks_ok ts q'"
    using ok q'(2,5) Task_insert by (simp add: tasks_ok_def repeating_def)
  with q' Task_insert show ?thesis by (auto simp: task_effect_def)
next
  case (Task_cancel p)
  have inv: "tq_inv (inserts ts) q" "repeating q p" "p \<notin> snd ` set (inserts ts)"
    using ok Task_cancel by (simp_all add: tasks_ok_def)
  then have p: "p \<in> snd ` set (tq_timers q)" using repeating_entry [OF inv(1,2)] by (auto simp: image_Un)
  obtain q' where q': "cancelTimer p q = Inr q'" "tq_inv (inserts ts) q'" "tq_ran q' = tq_ran q"
      "tq_next q' = tq_next q" "tq_heap q' = (tq_heap q)(p := None)"
      "set (tq_timers q') = {e \<in> set (tq_timers q). snd e \<noteq> p}"
    using cancelTimer_spec [OF inv(1) p] by blast
  have "armed_ok q'" using cancelTimer_armed [OF inv(1) _ p q'(1)] ok by (simp add: tasks_ok_def)
  then have "tasks_ok ts q'"
    using ok q'(2,5) Task_cancel by (auto simp: tasks_ok_def repeating_def)
  with q' Task_cancel show ?thesis by (auto simp: task_effect_def)
next
  case (Task_user u)
  with ok show ?thesis by (simp add: tasks_ok_def task_effect_def)
qed

section \<open>Every step keeps the tasks in order\<close>

lemma alloc_tasks:
  assumes ok: "tasks_ok ts q"
  shows "tasks_ok (ts @ [Task_insert w (tq_next q)]) (snd (timer_alloc w i q))"
proof -
  let ?q = "snd (timer_alloc w i q)"
  have inv: "tq_inv (inserts ts) q" using ok by (simp add: tasks_ok_def)
  have "tq_inv ((w, tq_next q) # inserts ts) ?q" by (rule timer_alloc_spec [OF inv])
  then have "tq_inv (inserts (ts @ [Task_insert w (tq_next q)])) ?q"
    by (rule tq_inv_perm) (use \<open>tq_inv ((w, tq_next q) # inserts ts) ?q\<close> in \<open>auto simp: tq_inv_def\<close>)
  moreover have "armed_ok ?q" using ok by (simp add: tasks_ok_def armed_ok_def timer_alloc_def)
  moreover have new: "p \<noteq> tq_next q" if "p \<in> set (removals ts)" for p
    using repeating_below [OF inv, of p] ok that by (auto simp: tasks_ok_def)
  moreover have "repeating ?q p" if "p \<in> set (removals ts)" for p
    using ok that new [OF that] by (simp add: tasks_ok_def repeating_def timer_alloc_def)
  ultimately show ?thesis using ok by (auto simp: tasks_ok_def in_order_append)
qed

lemma addTimer_tasks:
  assumes ok: "tasks_ok ts q"
  shows "\<exists>q'. addTimer w i q = Inr (tq_next q, q') \<and> tasks_ok ts q'"
proof -
  have inv: "tq_inv (inserts ts) q" "armed_ok q" using ok by (simp_all add: tasks_ok_def)
  obtain q' where q': "addTimer w i q = Inr (tq_next q, q')" "tq_inv (inserts ts) q'"
      "tq_heap q' = (tq_heap q)(tq_next q \<mapsto> timer_new w i)"
    using addTimer_spec [OF inv(1)] by blast
  have "tasks_ok ts q'"
  proof (rule tasks_okI [OF ok q'(2)])
    show "armed_ok q'" by (rule addTimer_armed [OF inv q'(1)])
    show "repeating q' p" if "repeating q p" for p
      using repeating_below [OF inv(1) that] that by (simp add: repeating_def q'(3))
  qed
  with q'(1) show ?thesis by blast
qed

lemma cancelTimer_tasks:
  assumes ok: "tasks_ok ts q" and p: "p \<in> snd ` set (tq_timers q)" "Task_cancel p \<notin> set ts"
  shows "\<exists>q'. cancelTimer p q = Inr q' \<and> tasks_ok ts q' \<and>
    tq_heap q' = (tq_heap q)(p := None) \<and> tq_next q' = tq_next q \<and> tq_ran q' = tq_ran q"
proof -
  have inv: "tq_inv (inserts ts) q" "armed_ok q" using ok by (simp_all add: tasks_ok_def)
  obtain q' where q': "cancelTimer p q = Inr q'" "tq_inv (inserts ts) q'" "tq_heap q' = (tq_heap q)(p := None)"
      "tq_next q' = tq_next q" "tq_ran q' = tq_ran q"
    using cancelTimer_spec [OF inv(1) p(1)] by blast
  have "tasks_ok ts q'"
  proof (rule tasks_okI [OF ok q'(2)])
    show "armed_ok q'" by (rule cancelTimer_armed [OF inv p(1) q'(1)])
    show "repeating q' r" if "r \<in> set (removals ts)" "repeating q r" for r
      using that p(2) by (auto simp: repeating_def q'(3) in_removals)
  qed
  with q' show ?thesis by blast
qed

lemma handleRead_tasks:
  assumes ok: "tasks_ok (queue (tl_loop s)) (tl_timers s)" and a: "acts_ok now acts s"
  shows "\<exists>q'. timer_handleRead now acts (tl_timers s) = Inr q' \<and> tasks_ok (queue (tl_loop s)) q' \<and>
    tq_ran q' = tq_ran (tl_timers s) @ map snd (due now (tl_timers s)) \<and>
    frame (snd ` set (due now (tl_timers s)) \<union> set (all_cancels acts (due now (tl_timers s)))) (tl_timers s) q'"
proof -
  let ?q = "tl_timers s" and ?ts = "queue (tl_loop s)"
  let ?C = "snd ` set (due now ?q) \<union> set (all_cancels acts (due now ?q))"
  have inv: "tq_inv (inserts ?ts) ?q" using ok by (simp add: tasks_ok_def)
  have c: "set (all_cancels acts (due now ?q)) \<subseteq> {p. \<exists>w. now < w \<and> (w, p) \<in> set (tq_timers ?q)}"
  proof
    fix p assume "p \<in> set (all_cancels acts (due now ?q))"
    then have "p \<in> snd ` set (tq_timers ?q)" "p \<notin> snd ` set (due now ?q)"
      using a by (auto simp: acts_ok_def may_cancel_def)
    then show "p \<in> {p. \<exists>w. now < w \<and> (w, p) \<in> set (tq_timers ?q)}" by (force simp: due_def)
  qed
  have d: "distinct (all_cancels acts (due now ?q))" using a by (simp add: acts_ok_def)
  obtain q' where q': "timer_handleRead now acts ?q = Inr q'" "tq_inv (inserts ?ts) q'"
      "tq_ran q' = tq_ran ?q @ map snd (due now ?q)"
      "\<forall>e \<in> set (tq_timers ?q). fst e \<le> now \<longrightarrow> tq_heap q' (snd e) = after_fire (tq_heap ?q (snd e))"
      "frame ?C ?q q'" "tq_timers q' \<noteq> [] \<longrightarrow> tq_armed q' = Some (fst (hd (tq_timers q')))"
    using timer_handleRead_spec [OF inv c [unfolded due_def] d [unfolded due_def]]
    unfolding due_def by blast
  have "tasks_ok ?ts q'"
  proof (rule tasks_okI [OF ok q'(2)])
    show "armed_ok q'" using q'(6) by (simp add: armed_ok_def)
    show "repeating q' p" if p: "p \<in> set (removals ?ts)" "repeating ?q p" for p
    proof (cases "p \<in> snd ` set (due now ?q)")
      case True
      then have "tq_heap q' p = after_fire (tq_heap ?q p)" using q'(4) by (auto simp: due_def)
      with p(2) show ?thesis by (auto simp: repeating_def after_fire_def split: option.splits)
    next
      case False
      have "p \<notin> set (all_cancels acts (due now ?q))"
        using p(1) a by (auto simp: acts_ok_def may_cancel_def in_removals)
      then have "tq_heap q' p = tq_heap ?q p"
        using q'(5) False repeating_below [OF inv p(2)] unfolding frame_def by blast
      with p(2) show ?thesis by (simp add: repeating_def)
    qed
  qed
  with q'(1,3,5) show ?thesis by blast
qed

definition tl_inv :: "timer_loop \<Rightarrow> bool" where
  "tl_inv s \<longleftrightarrow> loop_reach False (Inr (tl_loop s)) \<and> tasks_ok (queue (tl_loop s)) (tl_timers s)"

lemma timer_loop_new_inv: "tl_inv timer_loop_new"
proof -
  have "loop_reach False (Inr loop_new)" by (rule reach_init)
  then show ?thesis
    by (simp add: tl_inv_def timer_loop_new_def tasks_ok_def queue_def loop_new_def tq_inv_def heap_ok_def
        tq_new_def armed_ok_def)
qed

lemma remote_task_simps [simp]:
  "queue (remote_task t l) = queue l @ [t]" "lp_pc (remote_task t l) = lp_pc l"
  "lp_pending (remote_task t l) = lp_pending l @ [t]" "lp_batch (remote_task t l) = lp_batch l"
  by (simp_all add: remote_task_def push_task_def queue_def)

lemma remote_task_reach: "loop_reach False (Inr l) \<Longrightarrow> loop_reach False (Inr (remote_task t l))"
  unfolding remote_task_def by (erule reach_step) (rule loop_step.remote_push)

lemma tl_inv_timers: "tl_inv s \<Longrightarrow> tasks_ok (queue (tl_loop s)) q \<Longrightarrow> tl_inv (s\<lparr>tl_timers := q\<rparr>)"
  by (simp add: tl_inv_def)

text \<open>A step of the loop thread is one of the loop and, when it begins a task, one of the timers.\<close>

lemma tl_thread_spec:
  assumes inv: "tl_inv s" and l: "loop_thread (tl_loop s) = Some l"
  shows "\<exists>q'. tl_thread s = Some (Inr \<lparr>tl_loop = l, tl_timers = q'\<rparr>) \<and>
    tl_inv \<lparr>tl_loop = l, tl_timers = q'\<rparr> \<and>
    (if lp_pc (tl_loop s) = Running \<and> lp_batch (tl_loop s) \<noteq> []
     then task_effect [hd (lp_batch (tl_loop s))] (tl_timers s) q' else q' = tl_timers s)"
proof -
  let ?l = "tl_loop s" and ?q = "tl_timers s"
  have f: "fifo ?l" "loop_reach False (Inr l)" and ok: "tasks_ok (queue ?l) ?q"
    using inv loop_reach_fifo loop_thread_reach [OF _ l] by (auto simp: tl_inv_def)
  note q = loop_thread_queue [OF f(1) l]
  show ?thesis
  proof (cases "lp_pc ?l = Running \<and> lp_batch ?l \<noteq> []")
    case True
    then obtain t ts where b: "lp_batch ?l = t # ts" by (cases "lp_batch ?l") auto
    have "tasks_ok (t # queue l) ?q" using ok q True b by simp
    then obtain q' where q': "run_timer_task t ?q = Inr q'" "tasks_ok (queue l) q'" "task_effect [t] ?q q'"
      using run_timer_task_spec by blast
    have "run_head ?l ?q = Inr q'" using True b q'(1) by (simp add: run_head_def)
    then show ?thesis using l f(2) q' True b by (simp add: tl_thread_def tl_inv_def)
  next
    case False
    then have "run_head ?l ?q = Inr ?q" by (simp add: run_head_def split: list.split)
    moreover have "tasks_ok (queue l) ?q" using ok q False by (simp only: if_False)
    moreover have "tl_thread s = Some (bindE (run_head ?l ?q) (\<lambda>q. Inr \<lparr>tl_loop = l, tl_timers = q\<rparr>))"
      using l by (simp add: tl_thread_def)
    ultimately show ?thesis using f(2) unfolding if_not_P [OF False] by (simp add: tl_inv_def)
  qed
qed

lemma tl_thread_inv:
  assumes inv: "tl_inv s" and t: "tl_thread s = Some r"
  shows "\<exists>s'. r = Inr s' \<and> tl_inv s' \<and>
    (tl_timers s' = tl_timers s \<or> (\<exists>t. task_effect [t] (tl_timers s) (tl_timers s')))"
proof -
  obtain l where l: "loop_thread (tl_loop s) = Some l" using t by (auto simp: tl_thread_def)
  from tl_thread_spec [OF inv l] t show ?thesis by (auto split: if_splits)
qed

text \<open>What a step leaves of a timer that is gone.\<close>

definition gone :: "nat \<Rightarrow> nat \<Rightarrow> timer_queue \<Rightarrow> bool" where
  "gone p n q \<longleftrightarrow> p < tq_next q \<and> tq_heap q p = None \<and> count_list (tq_ran q) p = n"

lemma task_effect_gone: "task_effect [t] q q' \<Longrightarrow> gone p n q \<Longrightarrow> gone p n q'"
  by (simp add: task_effect_def gone_def)

lemma gone_entry: "tq_inv es q \<Longrightarrow> gone p n q \<Longrightarrow> p \<notin> snd ` set (tq_timers q)"
  by (force simp: tq_inv_def live_def gone_def)

lemma tl_step_spec:
  assumes inv: "tl_inv s" and step: "tl_step s r"
  shows "\<exists>s'. r = Inr s' \<and> tl_inv s' \<and> (\<forall>p n. gone p n (tl_timers s) \<longrightarrow> gone p n (tl_timers s'))"
  using step
proof cases
  case thread
  from tl_thread_inv [OF inv thread] task_effect_gone show ?thesis by metis
next
  case (expire b now acts)
  have ok: "tasks_ok (queue (tl_loop s)) (tl_timers s)" using inv by (simp add: tl_inv_def)
  let ?C = "snd ` set (due now (tl_timers s)) \<union> set (all_cancels acts (due now (tl_timers s)))"
  obtain q' where q': "timer_handleRead now acts (tl_timers s) = Inr q'" "tasks_ok (queue (tl_loop s)) q'"
      "tq_ran q' = tq_ran (tl_timers s) @ map snd (due now (tl_timers s))" "frame ?C (tl_timers s) q'"
    using handleRead_tasks [OF ok expire(3)] by blast
  have "gone p n q'" if g: "gone p n (tl_timers s)" for p n
  proof -
    have "p \<notin> snd ` set (tq_timers (tl_timers s))" using gone_entry [OF _ g] ok by (auto simp: tasks_ok_def)
    moreover have "?C \<subseteq> snd ` set (tq_timers (tl_timers s))"
      using expire(3) by (auto simp: acts_ok_def may_cancel_def due_def)
    ultimately have c: "p \<notin> ?C" by blast
    then have "p \<notin> set (map snd (due now (tl_timers s)))" by simp
    then have "count_list (tq_ran q') p = n" using g unfolding q'(3) gone_def count_list_append
      by (simp only: count_notin) simp
    moreover have "p < tq_next q'" "tq_heap q' p = None" using q'(4) g c unfolding frame_def gone_def by force+
    ultimately show ?thesis by (simp add: gone_def)
  qed
  moreover have "r = Inr (s\<lparr>tl_timers := q'\<rparr>)" using expire(1) q'(1) by (simp add: on_timers_def)
  ultimately show ?thesis using tl_inv_timers [OF inv q'(2)] by auto
next
  case (local_add w i)
  have ok: "tasks_ok (queue (tl_loop s)) (tl_timers s)" using inv by (simp add: tl_inv_def)
  obtain q' where q': "addTimer w i (tl_timers s) = Inr (tq_next (tl_timers s), q')"
      "tasks_ok (queue (tl_loop s)) q'"
    using addTimer_tasks [OF ok] by blast
  have "do_act (Act_add w i) (tl_timers s) = Inr q'" using q'(1) by simp
  moreover have "gone p n q'" if "gone p n (tl_timers s)" for p n
    using addTimer_spec [of "inserts (queue (tl_loop s))" "tl_timers s" w i] ok q'(1) that
    by (auto simp: tasks_ok_def gone_def)
  moreover have "r = Inr (s\<lparr>tl_timers := q'\<rparr>)" using local_add(1) q'(1) by (simp add: on_timers_def)
  ultimately show ?thesis using tl_inv_timers [OF inv q'(2)] by auto
next
  case (local_cancel p)
  have ok: "tasks_ok (queue (tl_loop s)) (tl_timers s)" using inv by (simp add: tl_inv_def)
  obtain q' where q': "cancelTimer p (tl_timers s) = Inr q'" "tasks_ok (queue (tl_loop s)) q'"
      "tq_heap q' = (tq_heap (tl_timers s))(p := None)" "tq_next q' = tq_next (tl_timers s)"
      "tq_ran q' = tq_ran (tl_timers s)"
    using cancelTimer_tasks [OF ok] local_cancel(3) by (auto simp: may_cancel_def)
  then have "gone r n q'" if "gone r n (tl_timers s)" for r n using that by (simp add: gone_def)
  moreover have "r = Inr (s\<lparr>tl_timers := q'\<rparr>)" using local_cancel(1) q'(1) by (simp add: on_timers_def)
  ultimately show ?thesis using tl_inv_timers [OF inv q'(2)] by auto
next
  case (remote_add w i)
  let ?s = "snd (remote_addTimer w i s)"
  have "tasks_ok (queue (tl_loop s) @ [Task_insert w (tq_next (tl_timers s))]) (snd (timer_alloc w i (tl_timers s)))"
    by (rule alloc_tasks) (use inv in \<open>simp add: tl_inv_def\<close>)
  moreover have "loop_reach False (Inr (remote_task t (tl_loop s)))" for t
    using inv remote_task_reach [of "tl_loop s"] by (simp add: tl_inv_def)
  ultimately have "tl_inv ?s" by (simp add: tl_inv_def remote_addTimer_def timer_alloc_def)
  moreover have "gone p n (tl_timers ?s)" if "gone p n (tl_timers s)" for p n
    using that by (simp add: gone_def remote_addTimer_def timer_alloc_def)
  ultimately show ?thesis using remote_add by blast
next
  case (remote_cancel p)
  have ok: "tasks_ok (queue (tl_loop s)) (tl_timers s)" using inv by (simp add: tl_inv_def)
  have "tasks_ok (queue (tl_loop s) @ [Task_cancel p]) (tl_timers s)"
    using ok remote_cancel(2) by (auto simp: tasks_ok_def in_order_append may_cancel_remote_def in_removals)
  moreover have "loop_reach False (Inr (remote_task t (tl_loop s)))" for t
    using inv remote_task_reach [of "tl_loop s"] by (simp add: tl_inv_def)
  ultimately have "tl_inv (remote_cancelTimer p s)" by (simp add: tl_inv_def remote_cancelTimer_def)
  with remote_cancel(1) show ?thesis by (simp add: remote_cancelTimer_def)
next
  case (other l us)
  have "loop_reach False (Inr l)" using inv other(2) by (auto simp: tl_inv_def intro: reach_step)
  moreover have "tasks_ok (queue l) (tl_timers s)"
    using inv other(3) by (simp add: tl_inv_def tasks_ok_def in_order_append)
  ultimately show ?thesis using other(1) by (simp add: tl_inv_def)
qed

lemma tl_reach_inv:
  assumes "reach tl_step s0 r" "tl_inv s0"
  shows "\<exists>s. r = Inr s \<and> tl_inv s \<and> (\<forall>p n. gone p n (tl_timers s0) \<longrightarrow> gone p n (tl_timers s))"
  using assms(1)
proof (induction rule: reach.induct)
  case reach_init
  then show ?case using assms(2) by simp
next
  case (reach_step s r)
  then obtain s1 where s1: "s = s1" "tl_inv s1" "\<forall>p n. gone p n (tl_timers s0) \<longrightarrow> gone p n (tl_timers s1)"
    by auto
  from tl_step_spec [OF s1(2)] reach_step(2) s1 show ?case by fastforce
qed

section \<open>A round of the loop thread\<close>

lemma tl_run_add:
  "tl_run m s = Some (Inr s1) \<Longrightarrow> tl_run (m + n) s = tl_run n s1"
  by (induction m arbitrary: s) (simp_all split: option.splits sum.splits)

lemma task_effect_trans:
  assumes "task_effect [t] q q1" "task_effect ts q1 q2" "in_order (t # ts)"
  shows "task_effect (t # ts) q q2"
proof -
  have no: "x \<notin> snd ` set (inserts ts)" if "x \<in> set (removals [t])" for x
    using assms(3) that by (cases t) auto
  have app: "set (inserts (t # ts)) = set (inserts [t]) \<union> set (inserts ts)"
      "set (removals (t # ts)) = set (removals [t]) \<union> set (removals ts)"
    by (cases t; simp)+
  have "set (tq_timers q2) = {e \<in> set (tq_timers q1) \<union> set (inserts ts). snd e \<notin> set (removals ts)}"
    using assms(2) by (simp add: task_effect_def)
  also have "\<dots> = {e \<in> set (tq_timers q) \<union> set (inserts (t # ts)). snd e \<notin> set (removals (t # ts))}"
    using assms(1) no unfolding task_effect_def app by blast
  finally show ?thesis using assms(1,2) unfolding task_effect_def app by simp
qed

lemma run_tasks:
  assumes "tl_inv s" "lp_pc (tl_loop s) = Running"
  shows "\<exists>s'. tl_run (length (lp_batch (tl_loop s))) s = Some (Inr s') \<and> tl_inv s' \<and>
    task_effect (lp_batch (tl_loop s)) (tl_timers s) (tl_timers s')"
  using assms
proof (induction "lp_batch (tl_loop s)" arbitrary: s)
  case Nil
  then show ?case by (auto simp: task_effect_def)
next
  case (Cons t ts)
  let ?l = "(tl_loop s)\<lparr>lp_batch := ts, lp_done := lp_done (tl_loop s) @ [t]\<rparr>"
  have b: "lp_batch (tl_loop s) = t # ts" using Cons.hyps(2) by simp
  have l: "loop_thread (tl_loop s) = Some ?l" using Cons.prems(2) b by (simp add: loop_thread_def)
  obtain q1 where q1: "tl_thread s = Some (Inr \<lparr>tl_loop = ?l, tl_timers = q1\<rparr>)"
      "tl_inv \<lparr>tl_loop = ?l, tl_timers = q1\<rparr>" "task_effect [t] (tl_timers s) q1"
    using tl_thread_spec [OF Cons.prems(1) l] Cons.prems(2) b by auto
  obtain s' where s': "tl_run (length ts) \<lparr>tl_loop = ?l, tl_timers = q1\<rparr> = Some (Inr s')" "tl_inv s'"
      "task_effect ts q1 (tl_timers s')"
    using Cons.hyps(1) [of "\<lparr>tl_loop = ?l, tl_timers = q1\<rparr>"] q1(2) Cons.prems(2) by auto
  have "in_order (queue (tl_loop s))" using Cons.prems(1) by (simp add: tl_inv_def tasks_ok_def)
  then have "in_order (t # ts)" unfolding queue_def b in_order_append by blast
  from task_effect_trans [OF q1(3) s'(3) this] s'(1,2) q1(1) show ?case unfolding b by auto
qed

text \<open>A loop that sleeps and is woken runs everything that is pending.\<close>

lemma wake_and_run:
  assumes inv: "tl_inv s" and l: "lp_pc (tl_loop s) = Polling" "0 < lp_wake (tl_loop s)"
  shows "\<exists>s'. tl_run (3 + length (lp_pending (tl_loop s))) s = Some (Inr s') \<and> tl_inv s' \<and>
    task_effect (lp_pending (tl_loop s)) (tl_timers s) (tl_timers s')"
proof -
  let ?l = "tl_loop s" and ?q = "tl_timers s"
  let ?l1 = "?l\<lparr>lp_pc := Handling True\<rparr>"
  let ?l2 = "?l1\<lparr>lp_wake := 0, lp_pc := Handling False\<rparr>"
  let ?l3 = "?l2\<lparr>lp_batch := lp_pending ?l, lp_pending := [], lp_doing := True, lp_pc := Running\<rparr>"
  have t: "loop_thread ?l = Some ?l1" "loop_thread ?l1 = Some ?l2" "loop_thread ?l2 = Some ?l3"
    using l by (simp_all add: loop_thread_def loop_handleRead_def swap_tasks_def)
  have s1: "tl_thread s = Some (Inr \<lparr>tl_loop = ?l1, tl_timers = ?q\<rparr>)" "tl_inv \<lparr>tl_loop = ?l1, tl_timers = ?q\<rparr>"
    using tl_thread_spec [OF inv t(1)] l(1) by auto
  have s2: "tl_thread \<lparr>tl_loop = ?l1, tl_timers = ?q\<rparr> = Some (Inr \<lparr>tl_loop = ?l2, tl_timers = ?q\<rparr>)"
      "tl_inv \<lparr>tl_loop = ?l2, tl_timers = ?q\<rparr>"
    using tl_thread_spec [OF s1(2), of ?l2] t(2) by auto
  have s3: "tl_thread \<lparr>tl_loop = ?l2, tl_timers = ?q\<rparr> = Some (Inr \<lparr>tl_loop = ?l3, tl_timers = ?q\<rparr>)"
      "tl_inv \<lparr>tl_loop = ?l3, tl_timers = ?q\<rparr>"
    using tl_thread_spec [OF s2(2), of ?l3] t(3) by auto
  obtain s' where s': "tl_run (length (lp_pending ?l)) \<lparr>tl_loop = ?l3, tl_timers = ?q\<rparr> = Some (Inr s')"
      "tl_inv s'" "task_effect (lp_pending ?l) ?q (tl_timers s')"
    using run_tasks [OF s3(2)] by auto
  have "tl_run 3 s = Some (Inr \<lparr>tl_loop = ?l3, tl_timers = ?q\<rparr>)"
    using s1(1) s2(1) s3(1) by (simp add: numeral_3_eq_3)
  from tl_run_add [OF this] s' show ?thesis by auto
qed

lemma wakeup_inv:
  assumes "tl_inv s" "0 < lp_owed (tl_loop s)"
  shows "tl_inv (tl_wakeup s)"
proof -
  have step: "loop_step False (tl_loop s) (Inr ((wakeup (tl_loop s))\<lparr>lp_owed := lp_owed (tl_loop s) - 1\<rparr>))"
    by (rule loop_step.remote_wakeup) (rule assms(2))
  have "loop_reach False (Inr ((wakeup (tl_loop s))\<lparr>lp_owed := lp_owed (tl_loop s) - 1\<rparr>))"
  proof (rule reach_step)
    show "loop_reach False (Inr (tl_loop s))" using assms(1) by (simp add: tl_inv_def)
  qed (rule step)
  moreover have "queue ((wakeup (tl_loop s))\<lparr>lp_owed := lp_owed (tl_loop s) - 1\<rparr>) = queue (tl_loop s)"
    by (simp add: queue_def)
  ultimately show ?thesis using assms(1) by (simp add: tl_inv_def tl_wakeup_def)
qed

text \<open>What another thread asks for is done when the loop has been woken.\<close>

lemma remote_runs:
  assumes inv: "tl_inv s1" and l: "tl_loop s1 = remote_task t l0" "lp_pc l0 = Polling"
  shows "\<exists>s2. tl_run (4 + length (lp_pending l0)) (tl_wakeup s1) = Some (Inr s2) \<and> tl_inv s2 \<and>
    task_effect (lp_pending l0 @ [t]) (tl_timers s1) (tl_timers s2)"
proof -
  have "tl_inv (tl_wakeup s1)" by (rule wakeup_inv [OF inv]) (simp add: l(1) remote_task_def)
  moreover have "lp_pc (tl_loop (tl_wakeup s1)) = Polling" "0 < lp_wake (tl_loop (tl_wakeup s1))"
      "lp_pending (tl_loop (tl_wakeup s1)) = lp_pending l0 @ [t]"
    using l by (simp_all add: tl_wakeup_def)
  moreover have "tl_timers (tl_wakeup s1) = tl_timers s1" by (simp add: tl_wakeup_def)
  ultimately show ?thesis using wake_and_run [of "tl_wakeup s1"] by (simp del: tl_run.simps)
qed

section \<open>An entry without a timer\<close>

text \<open>The tasks of a list, one after the other, and the loop thread that runs them.\<close>

fun run_timer_tasks :: "timer_task list \<Rightarrow> timer_queue \<Rightarrow> timer_queue res" where
  "run_timer_tasks [] q = Inr q"
| "run_timer_tasks (t # ts) q = bindE (run_timer_task t q) (run_timer_tasks ts)"

lemma run_timer_tasks_append: "run_timer_tasks (ts @ us) q = bindE (run_timer_tasks ts q) (run_timer_tasks us)"
  by (induction ts arbitrary: q) (auto simp: bindE_assoc intro!: bindE_cong)

lemma tl_run_batch:
  assumes "lp_pc l = Running" "lp_batch l = ts" "run_timer_tasks ts q = Inr q'"
  shows "tl_run (length ts) \<lparr>tl_loop = l, tl_timers = q\<rparr> =
    Some (Inr \<lparr>tl_loop = l\<lparr>lp_batch := [], lp_done := lp_done l @ ts\<rparr>, tl_timers = q'\<rparr>)"
  using assms
proof (induction ts arbitrary: l q)
  case (Cons t ts)
  then obtain q1 where q1: "run_timer_task t q = Inr q1" "run_timer_tasks ts q1 = Inr q'"
    by (auto simp: bindE_Inr_iff)
  let ?l = "l\<lparr>lp_batch := ts, lp_done := lp_done l @ [t]\<rparr>"
  have "tl_thread \<lparr>tl_loop = l, tl_timers = q\<rparr> = Some (Inr \<lparr>tl_loop = ?l, tl_timers = q1\<rparr>)"
    using Cons.prems q1(1) by (simp add: tl_thread_def run_head_def loop_thread_def)
  with Cons.IH [of ?l q1] Cons.prems q1(2) show ?case by simp
qed simp

lemma run_ok_tasks:
  assumes "tasks_ok (ts @ us) q" "tq_heap q p = None" "(w, p) \<notin> set (tq_timers q) \<union> set (inserts ts)"
  shows "\<exists>q'. run_timer_tasks ts q = Inr q' \<and> tasks_ok us q' \<and> tq_heap q' p = None \<and> (w, p) \<notin> set (tq_timers q')"
  using assms
proof (induction ts arbitrary: q)
  case (Cons t ts)
  obtain q1 where q1: "run_timer_task t q = Inr q1" "tasks_ok (ts @ us) q1" "task_effect [t] q q1"
    using run_timer_task_spec Cons.prems(1) by fastforce
  have "inserts (t # ts) = inserts [t] @ inserts ts" using inserts_append [of "[t]" ts] by simp
  then have "tq_heap q1 p = None" "(w, p) \<notin> set (tq_timers q1) \<union> set (inserts ts)"
    using q1(3) Cons.prems(2,3) by (auto simp: task_effect_def)
  from Cons.IH [OF q1(2) this] q1(1) show ?case by simp
qed simp

text \<open>
  Cancelling a timer whose insertion is still a task frees it. The other tasks are in order
  without that insertion, which enters the address of the freed timer: \<open>dangling\<close>.
\<close>

definition dangling :: "int \<Rightarrow> nat \<Rightarrow> timer_queue \<Rightarrow> timer_queue \<Rightarrow> bool" where
  "dangling w p q q' \<longleftrightarrow>
     tq_timers q = insort (w, p) (tq_timers q') \<and> (w, p) \<notin> set (tq_timers q') \<and>
     tq_heap q = tq_heap q' \<and> tq_heap q' p = None"

lemma cancel_pending:
  assumes ok: "tasks_ok (ts @ Task_insert w p # us) q" and nc: "p \<notin> set (removals (ts @ us))"
  shows "\<exists>q1. cancelTimer p q = Inr q1 \<and> tasks_ok (ts @ us) q1 \<and> tq_heap q1 p = None \<and>
    (w, p) \<notin> set (tq_timers q1) \<union> set (inserts (ts @ us))"
proof -
  let ?es = "inserts (ts @ us)" and ?q1 = "q\<lparr>tq_heap := (tq_heap q)(p := None)\<rparr>"
  have inv: "tq_inv ((w, p) # ?es) q"
    by (rule tq_inv_perm [of "inserts (ts @ Task_insert w p # us)"])
      (use ok in \<open>auto simp: tasks_ok_def tq_inv_def\<close>)
  then have new: "(w, p) \<notin> set (tq_timers q) \<union> set ?es" by (auto simp: tq_inv_def)
  have lv: "live q (w, p)" using tq_inv_live [OF inv] by simp
  then obtain t where t: "tq_heap q p = Some t" "tm_when t = w" "\<not> tm_canceled t" by (auto simp: live_def)
  have "set_erase (w, p) (tq_timers q) = tq_timers q" using new by (auto simp: set_erase_def filter_id_conv)
  then have c: "cancelTimer p q = Inr ?q1" using t by (simp add: cancelTimer_def timer_at_def timer_cancel_def)
  have other: "snd e \<noteq> p" if "e \<in> set ?es \<union> set (tq_timers q)" for e
    using live_unique [OF _ lv, of e] tq_inv_live [OF inv, of e] that new by auto
  have "tq_inv ?es ?q1"
  proof (rule tq_invI)
    show "live ?q1 e" if "e \<in> set ?es \<union> set (tq_timers ?q1)" for e
      by (rule live_frame [where q = q]) (use that tq_inv_live [OF inv, of e] other [of e] in auto)
    show "heap_ok ?es ?q1" using inv by (auto simp: tq_inv_def heap_ok_def)
  qed (use inv in \<open>auto simp: tq_inv_def\<close>)
  moreover have "armed_ok ?q1" using ok by (simp add: tasks_ok_def armed_ok_def)
  moreover have "in_order (ts @ us)" using ok by (auto simp: tasks_ok_def in_order_append)
  ultimately have "tasks_ok (ts @ us) ?q1"
    using ok nc by (auto simp: tasks_ok_def repeating_def)
  with c new show ?thesis by simp
qed

lemma insert_dangling:
  assumes "tasks_ok us q'" "tq_heap q' p = None" "(w, p) \<notin> set (tq_timers q')"
  shows "\<exists>q. insertTimer w p q' = Inr q \<and> dangling w p q q'"
  using assms by (simp add: insertTimer_def set_insert_def dangling_def timerfdSet_def Let_def)

lemma dangling_task:
  assumes d: "dangling w p q q'" and ok: "tasks_ok (t # ts) q'" and t: "t \<noteq> Task_cancel p" "(w, p) \<notin> set (inserts [t])"
  shows "\<exists>q1 q1'. run_timer_task t q = Inr q1 \<and> dangling w p q1 q1' \<and> tasks_ok ts q1'"
proof -
  obtain q1' where q1': "run_timer_task t q' = Inr q1'" "tasks_ok ts q1'"
    using run_timer_task_spec [OF ok] by blast
  have srt: "sorted (tq_timers q')" using ok by (simp add: tasks_ok_def tq_inv_def)
  have "\<exists>q1. run_timer_task t q = Inr q1 \<and> dangling w p q1 q1'"
  proof (cases t)
    case (Task_insert v r)
    then have n: "(v, r) \<notin> set (tq_timers q')" "(v, r) \<noteq> (w, p)"
      using q1'(1) t(2) by (auto simp: insertTimer_def set_insert_def Let_def assertE_def split: if_splits)
    with Task_insert q1'(1) d t(2) show ?thesis
      by (auto simp: insertTimer_def set_insert_def Let_def dangling_def timerfdSet_def set_insort_key
          insort_left_comm split: if_splits)
  next
    case (Task_cancel r)
    with q1'(1) d t(1) srt show ?thesis
      by (auto simp: cancelTimer_def timer_at_def timer_cancel_def dangling_def set_erase_def res_simps
          filter_insort split: option.splits if_splits)
  next
    case (Task_user u)
    with q1'(1) d show ?thesis by simp
  qed
  with q1'(2) show ?thesis by blast
qed

lemma dangling_tasks:
  assumes "dangling w p q q'" "tasks_ok ts q'" "p \<notin> set (removals ts)" "(w, p) \<notin> set (inserts ts)"
  shows "\<exists>q1 q1'. run_timer_tasks ts q = Inr q1 \<and> dangling w p q1 q1' \<and> tasks_ok [] q1'"
  using assms
proof (induction ts arbitrary: q q')
  case (Cons t ts)
  have a: "inserts (t # ts) = inserts [t] @ inserts ts" "removals (t # ts) = removals [t] @ removals ts"
    using inserts_append [of "[t]" ts] removals_append [of "[t]" ts] by simp_all
  have "t \<noteq> Task_cancel p" "(w, p) \<notin> set (inserts [t])" using Cons.prems(3,4) unfolding a by auto
  from dangling_task [OF Cons.prems(1,2) this] obtain q1 q1' where
    q1: "run_timer_task t q = Inr q1" "dangling w p q1 q1'" "tasks_ok ts q1'" by blast
  with Cons.IH [OF q1(2,3)] Cons.prems(3,4) a show ?case by simp
qed auto

text \<open>The handler of the timer descriptor comes to the entry and looks at the freed timer.\<close>

lemma fire_live:
  assumes "live q e" "fst e \<le> now"
  shows "\<exists>q'. fire now (\<lambda>_. []) e q = Inr q' \<and> (\<forall>r. r \<noteq> snd e \<longrightarrow> tq_heap q' r = tq_heap q r)"
proof -
  obtain t where t: "tq_heap q (snd e) = Some t" "tm_when t = fst e" "\<not> tm_canceled t"
    using assms(1) by (auto simp: live_def)
  with assms(2) show ?thesis
    by (cases "tm_repeat t")
      (simp_all add: fire_def timer_at_def timer_expired_def timer_run_def timer_restart_def Let_def)
qed

lemma fire_all_dead:
  assumes "tq_heap q p = None" "(w, p) \<in> set es" "distinct (map snd es)"
    and "\<And>e. e \<in> set es \<Longrightarrow> fst e \<le> now \<and> (snd e = p \<or> live q e)"
  shows "fire_all now (\<lambda>_. []) es q = Inl Use_after_free"
  using assms
proof (induction es arbitrary: q)
  case (Cons e es)
  show ?case
  proof (cases "snd e = p")
    case True
    with Cons.prems(1) show ?thesis by (simp add: fire_def timer_at_def)
  next
    case False
    have "live q e" "fst e \<le> now" using Cons.prems(4) [of e] False by simp_all
    from fire_live [OF this] obtain q' where
      q': "fire now (\<lambda>_. []) e q = Inr q'" "\<forall>r. r \<noteq> snd e \<longrightarrow> tq_heap q' r = tq_heap q r" by blast
    have "fire_all now (\<lambda>_. []) es q' = Inl Use_after_free"
    proof (rule Cons.IH)
      show "tq_heap q' p = None" using q'(2) Cons.prems(1) False by simp
      show "(w, p) \<in> set es" using Cons.prems(2) False by auto
      show "fst x \<le> now \<and> (snd x = p \<or> live q' x)" if x: "x \<in> set es" for x
      proof -
        have "snd x \<noteq> snd e" using Cons.prems(3) x by (metis distinct.simps(2) image_eqI list.map(2) list.set_map)
        with q'(2) Cons.prems(4) [of x] x show ?thesis by (simp add: live_def)
      qed
    qed (use Cons.prems(3) in simp)
    with q'(1) show ?thesis by simp
  qed
qed simp

lemma dangling_handleRead:
  assumes d: "dangling w p q q'" and ok: "tasks_ok [] q'" and now: "w \<le> now"
  shows "timer_handleRead now (\<lambda>_. []) q = Inl Use_after_free"
proof -
  have inv: "tq_inv [] q'" using ok by (simp add: tasks_ok_def)
  then have q': "sorted (tq_timers q')" "distinct (tq_timers q')" "\<forall>e \<in> set (tq_timers q'). live q' e"
    by (simp_all add: tq_inv_def)
  have s: "sorted (tq_timers q)" "set (tq_timers q) = insert (w, p) (set (tq_timers q'))" "distinct (tq_timers q)"
    using d q'(1,2) by (auto simp: dangling_def sorted_insort set_insort_key distinct_insort)
  have np: "snd e \<noteq> p" if "e \<in> set (tq_timers q')" for e
    using q'(3) that d by (force simp: live_def dangling_def)
  have inj: "inj_on snd (set (tq_timers q))"
    using live_unique q'(3) np by (intro inj_onI) (metis insert_iff s(2) snd_conv)
  let ?es = "filter (\<lambda>e. fst e \<le> now) (tq_timers q)"
  let ?q = "(timerfdRead q)\<lparr>tq_timers := filter (\<lambda>e. now < fst e) (tq_timers q)\<rparr>"
  have ge: "getExpired now (timerfdRead q) = (?es, ?q)"
    using getExpired_split [of "timerfdRead q" now] s(1) by (simp add: timerfdRead_def)
  have "fire_all now (\<lambda>_. []) ?es ?q = Inl Use_after_free"
  proof (rule fire_all_dead)
    show "tq_heap ?q p = None" using d by (simp add: dangling_def timerfdRead_def)
    show "(w, p) \<in> set ?es" using s(2) now by simp
    show "distinct (map snd ?es)"
      using s(3) inj by (auto simp: distinct_map intro: inj_on_subset)
    show "fst e \<le> now \<and> (snd e = p \<or> live ?q e)" if "e \<in> set ?es" for e
      using that s(2) q'(3) d by (auto simp: live_def dangling_def timerfdRead_def)
  qed
  then show ?thesis by (simp add: timer_handleRead_def ge)
qed

section \<open>An example\<close>

text \<open>A loop that has gone to sleep, and one to which another thread then gave a timer.\<close>

lemma sleeping_loop:
  "\<exists>s. tl_reach (Inr s) \<and> lp_pc (tl_loop s) = Polling \<and> lp_pending (tl_loop s) = [] \<and> tl_timers s = tq_new \<and>
     \<not> lp_quit (tl_loop s)"
proof -
  let ?l1 = "(loop_new :: timer_task event_loop)\<lparr>lp_looping := True, lp_quit := False, lp_pc := Check\<rparr>"
  let ?l2 = "?l1\<lparr>lp_pc := Polling\<rparr>"
  have "loop_step False loop_new (loop_enter (loop_new :: timer_task event_loop))"
    by (rule loop_step.enter) (simp add: loop_new_def)
  moreover have "loop_enter loop_new = Inr ?l1" by (simp add: loop_enter_def loop_new_def)
  ultimately have e: "loop_step False loop_new (Inr ?l1)" by (simp only:)
  have "tl_step timer_loop_new (Inr (timer_loop_new\<lparr>tl_loop := ?l1\<rparr>))"
    by (rule tl_step.other [where us = "[]"]) (simp_all add: timer_loop_new_def e queue_def)
  then have r1: "tl_reach (Inr (timer_loop_new\<lparr>tl_loop := ?l1\<rparr>))" by (rule reach_first)
  have "loop_thread ?l1 = Some ?l2" by (simp add: loop_thread_def loop_new_def)
  then have "loop_step False ?l1 (Inr ?l2)" by (rule loop_step.thread)
  then have "tl_step (timer_loop_new\<lparr>tl_loop := ?l1\<rparr>) (Inr (timer_loop_new\<lparr>tl_loop := ?l1\<rparr>\<lparr>tl_loop := ?l2\<rparr>))"
    by (intro tl_step.other [where us = "[]"]) (simp_all add: queue_def)
  from reach_step [OF r1 this] show ?thesis
    by (intro exI [of _ "timer_loop_new\<lparr>tl_loop := ?l2\<rparr>"]) (simp add: loop_new_def timer_loop_new_def)
qed

lemma sleeping_with_timer:
  "\<exists>s. tl_reach (Inr s) \<and> lp_pc (tl_loop s) = Polling \<and> lp_pending (tl_loop s) = [Task_insert 5 1] \<and>
     may_cancel_remote 1 s \<and> \<not> lp_quit (tl_loop s)"
proof -
  obtain s where s: "tl_reach (Inr s)" "lp_pc (tl_loop s) = Polling" "lp_pending (tl_loop s) = []"
      "tl_timers s = tq_new" "\<not> lp_quit (tl_loop s)"
    using sleeping_loop by blast
  let ?s = "snd (remote_addTimer 5 100 s)"
  have f: "fifo (tl_loop s)"
    using tl_reach_inv [OF s(1) timer_loop_new_inv] by (auto simp: tl_inv_def intro: loop_reach_fifo)
  then have "lp_batch (tl_loop s) = []" using s(2) by (auto simp: fifo_def)
  then have "lp_pc (tl_loop ?s) = Polling" "lp_pending (tl_loop ?s) = [Task_insert 5 1]" "may_cancel_remote 1 ?s"
      "\<not> lp_quit (tl_loop ?s)"
    using s(2-5)
    by (simp_all add: remote_task_def push_task_def remote_addTimer_def timer_alloc_def tq_new_def may_cancel_remote_def repeating_def
        timer_new_def queue_def)
  moreover have "tl_reach (Inr ?s)" by (rule reach_step [OF s(1)]) (rule tl_step.remote_add)
  ultimately show ?thesis by blast
qed

section \<open>Properties\<close>

text \<open>C21. 
  Timers may be used from all threads: whatever threads add timers, whatever timers the loop
  thread and the callbacks cancel that are in the set and not due, and whatever repeating
  timers other threads cancel, nothing fails: no timer is used after it was freed, no assertion
  fails. Every timer is in the set with its deadline or its insertion is a task of the loop;
  every entry of the set is a timer; the descriptor is set for the earliest deadline or before.
\<close>
theorem loop_timers_safe:
  assumes "tl_reach r"
  shows "\<exists>s. r = Inr s \<and> loop_reach False (Inr (tl_loop s)) \<and>
    (\<forall>p t. tq_heap (tl_timers s) p = Some t \<longrightarrow>
       (tm_when t, p) \<in> set (tq_timers (tl_timers s)) \<or> Task_insert (tm_when t) p \<in> set (queue (tl_loop s))) \<and>
    (\<forall>e \<in> set (tq_timers (tl_timers s)). live (tl_timers s) e) \<and> armed_ok (tl_timers s)"
proof -
  obtain s where s: "r = Inr s" "tl_inv s" using tl_reach_inv [OF assms timer_loop_new_inv] by blast
  have "Task_insert w p \<in> set ts \<longleftrightarrow> (w, p) \<in> set (inserts ts)" for w p ts
    by (induction ts rule: inserts.induct) auto
  with s show ?thesis by (auto simp: tl_inv_def tasks_ok_def tq_inv_def heap_ok_def)
qed

theorem loop_timers_safe_witness:
  "\<exists>s. tl_reach (Inr s) \<and> may_cancel_remote 1 s \<and> Task_insert 5 1 \<in> set (queue (tl_loop s)) \<and>
     armed_ok (tl_timers s)"
proof -
  obtain s where s: "tl_reach (Inr s)" "lp_pending (tl_loop s) = [Task_insert 5 1]" "may_cancel_remote 1 s"
    using sleeping_with_timer by blast
  from loop_timers_safe [OF s(1)] s show ?thesis by (auto simp: queue_def)
qed

text \<open>C22. 
  A timer added by another thread fires: when the loop sleeps, whatever is pending, and another
  thread calls \<open>addTimer\<close>, then after the wake-up and as many steps of the loop thread as there
  are tasks, and four, the timer is in the set, the descriptor is set for its deadline or an
  earlier one, and \<open>handleRead\<close> at any time from the deadline on runs its callback.
\<close>
theorem remote_timer_fires:
  assumes "tl_reach (Inr s)" and "lp_pc (tl_loop s) = Polling" and "remote_addTimer w i s = (p, s1)"
  shows "\<exists>s2 a. tl_run (4 + length (lp_pending (tl_loop s))) (tl_wakeup s1) = Some (Inr s2) \<and>
    (w, p) \<in> set (tq_timers (tl_timers s2)) \<and> tq_armed (tl_timers s2) = Some a \<and> a \<le> w \<and>
    (\<forall>now. w \<le> now \<longrightarrow> (\<exists>q. timer_handleRead now (\<lambda>_. []) (tl_timers s2) = Inr q \<and> p \<in> set (tq_ran q)))"
proof -
  have inv: "tl_inv s" using tl_reach_inv [OF assms(1) timer_loop_new_inv] by blast
  have p: "p = tq_next (tl_timers s)" and s1: "s1 = snd (remote_addTimer w i s)"
    using assms(3) by (auto simp: remote_addTimer_def timer_alloc_def)
  have inv1: "tl_inv s1" using tl_step_spec [OF inv tl_step.remote_add [of s w i]] s1 by simp
  have l: "tl_loop s1 = remote_task (Task_insert w p) (tl_loop s)"
    using assms(3) by (auto simp: remote_addTimer_def split: prod.splits)
  obtain s2 where s2: "tl_run (4 + length (lp_pending (tl_loop s))) (tl_wakeup s1) = Some (Inr s2)" "tl_inv s2"
      "task_effect (lp_pending (tl_loop s) @ [Task_insert w p]) (tl_timers s1) (tl_timers s2)"
    using remote_runs [OF inv1 l assms(2)] by blast
  have ok: "tasks_ok (queue (tl_loop s)) (tl_timers s)" "tasks_ok (queue (tl_loop s2)) (tl_timers s2)"
    using inv s2(2) by (simp_all add: tl_inv_def)
  have "p \<notin> set (removals (queue (tl_loop s)))"
    using ok(1) repeating_below [of _ "tl_timers s" p] by (auto simp: tasks_ok_def p)
  then have "p \<notin> set (removals (lp_pending (tl_loop s)))" by (simp add: queue_def)
  then have e: "(w, p) \<in> set (tq_timers (tl_timers s2))" using s2(3) by (simp add: task_effect_def)
  have srt: "sorted (tq_timers (tl_timers s2))" "armed_ok (tl_timers s2)"
    using ok(2) by (simp_all add: tasks_ok_def tq_inv_def)
  then obtain a where a: "tq_armed (tl_timers s2) = Some a" "a \<le> fst (hd (tq_timers (tl_timers s2)))"
    using e by (auto simp: armed_ok_def)
  have "\<exists>q. timer_handleRead now (\<lambda>_. []) (tl_timers s2) = Inr q \<and> p \<in> set (tq_ran q)" if "w \<le> now" for now
  proof -
    have "acts_ok now (\<lambda>_. []) s2" by (simp add: acts_ok_def no_cancels)
    from handleRead_tasks [OF ok(2) this] obtain q where
      "timer_handleRead now (\<lambda>_. []) (tl_timers s2) = Inr q"
      "tq_ran q = tq_ran (tl_timers s2) @ map snd (due now (tl_timers s2))" by blast
    moreover have "(w, p) \<in> set (due now (tl_timers s2))" using e that by (simp add: due_def)
    ultimately show ?thesis by force
  qed
  then show ?thesis using s2(1) e a hd_sorted_le [OF srt(1) e] by fastforce
qed

theorem remote_timer_fires_witness:
  "\<exists>s p s1 s2. tl_reach (Inr s) \<and> remote_addTimer 9 0 s = (p, s1) \<and>
     tl_run 4 (tl_wakeup s1) = Some (Inr s2) \<and> (9, p) \<in> set (tq_timers (tl_timers s2))"
proof -
  obtain s where s: "tl_reach (Inr s)" "lp_pc (tl_loop s) = Polling" "lp_pending (tl_loop s) = []"
    using sleeping_loop by blast
  obtain p s1 where a: "remote_addTimer 9 0 s = (p, s1)" by (cases "remote_addTimer 9 0 s")
  from remote_timer_fires [OF s(1,2) a] s a show ?thesis by auto
qed

text \<open>
  A repeating timer that another thread cancels is over: after the wake-up and the steps of the
  loop thread that run the pending tasks it is freed and not in the set, and whatever the
  program does then, its callback never runs again and its address is not used.
\<close>
theorem remote_cancel_ends:
  assumes "tl_reach (Inr s)" and "lp_pc (tl_loop s) = Polling" and "may_cancel_remote p s"
  shows "\<exists>s2. tl_run (4 + length (lp_pending (tl_loop s))) (tl_wakeup (remote_cancelTimer p s)) = Some (Inr s2) \<and>
    tq_heap (tl_timers s2) p = None \<and> p \<notin> snd ` set (tq_timers (tl_timers s2)) \<and>
    (\<forall>r. reach tl_step s2 r \<longrightarrow> (\<exists>s3. r = Inr s3 \<and> tq_heap (tl_timers s3) p = None \<and>
       count_list (tq_ran (tl_timers s3)) p = count_list (tq_ran (tl_timers s2)) p))"
proof -
  have inv: "tl_inv s" using tl_reach_inv [OF assms(1) timer_loop_new_inv] by blast
  have inv1: "tl_inv (remote_cancelTimer p s)" using tl_step_spec [OF inv tl_step.remote_cancel [OF assms(3)]] by blast
  have l: "tl_loop (remote_cancelTimer p s) = remote_task (Task_cancel p) (tl_loop s)"
    by (simp add: remote_cancelTimer_def)
  obtain s2 where s2: "tl_run (4 + length (lp_pending (tl_loop s))) (tl_wakeup (remote_cancelTimer p s)) = Some (Inr s2)"
      "tl_inv s2" "task_effect (lp_pending (tl_loop s) @ [Task_cancel p]) (tl_timers (remote_cancelTimer p s)) (tl_timers s2)"
    using remote_runs [OF inv1 l assms(2)] by blast
  have "p < tq_next (tl_timers s)"
    using repeating_below [of _ "tl_timers s" p] assms(3) inv
    by (auto simp: may_cancel_remote_def tl_inv_def tasks_ok_def)
  then have g: "gone p (count_list (tq_ran (tl_timers s2)) p) (tl_timers s2)"
    using s2(3) by (simp add: gone_def task_effect_def remote_cancelTimer_def)
  have "p \<notin> snd ` set (tq_timers (tl_timers s2))"
    using gone_entry [OF _ g] s2(2) by (auto simp: tl_inv_def tasks_ok_def)
  moreover have "\<exists>s3. r = Inr s3 \<and> tq_heap (tl_timers s3) p = None \<and>
       count_list (tq_ran (tl_timers s3)) p = count_list (tq_ran (tl_timers s2)) p"
    if "reach tl_step s2 r" for r
    using tl_reach_inv [OF that s2(2)] g by (auto simp: gone_def)
  ultimately show ?thesis using s2(1) g by (auto simp: gone_def)
qed

theorem remote_cancel_ends_witness:
  "\<exists>s s2. tl_reach (Inr s) \<and> lp_pending (tl_loop s) = [Task_insert 5 1] \<and>
     tl_run 5 (tl_wakeup (remote_cancelTimer 1 s)) = Some (Inr s2) \<and> tq_heap (tl_timers s2) 1 = None"
proof -
  obtain s where s: "tl_reach (Inr s)" "lp_pc (tl_loop s) = Polling"
      "lp_pending (tl_loop s) = [Task_insert 5 1]" "may_cancel_remote 1 s"
    using sleeping_with_timer by blast
  from remote_cancel_ends [OF s(1,2,4)] s show ?thesis by auto
qed

text \<open>C39. 
  Cancelling before the insertion: from every state that the system can come to, if another thread's
  \<open>addTimer\<close> still waits as a task, no other cancellation of that timer waits, nobody has called \<open>quit\<close>,
  and a handler or callback of the loop thread cancels the timer, the
  cancellation succeeds and frees the timer; the loop thread, left to itself, then runs the tasks that
  wait, one of which enters the address of the freed timer into the set without noticing, and goes back to
  \<open>epoll_wait\<close>; and \<open>handleRead\<close> at any time from the deadline on, among whatever other timers, uses it.
\<close>
theorem cancel_overtakes_insert:
  assumes "tl_reach (Inr s)" and "lp_pc (tl_loop s) = Handling b" and "\<not> lp_quit (tl_loop s)"
    and "Task_insert w p \<in> set (lp_pending (tl_loop s))" and "Task_cancel p \<notin> set (lp_pending (tl_loop s))"
    and "w \<le> now"
  shows "\<exists>s1 s2. on_timers (cancelTimer p) s = Inr s1 \<and>
    tl_run ((if b then 4 else 3) + length (lp_pending (tl_loop s))) s1 = Some (Inr s2) \<and>
    lp_pc (tl_loop s2) = Polling \<and> tq_heap (tl_timers s2) p = None \<and> (w, p) \<in> set (tq_timers (tl_timers s2)) \<and>
    timer_handleRead now (\<lambda>_. []) (tl_timers s2) = Inl Use_after_free"
proof -
  let ?l = "tl_loop s" and ?q = "tl_timers s"
  obtain ts us where p: "lp_pending ?l = ts @ Task_insert w p # us" using assms(4) by (meson split_list)
  have inv: "tl_inv s" using tl_reach_inv [OF assms(1) timer_loop_new_inv] by blast
  then have "fifo ?l" using loop_reach_fifo by (auto simp: tl_inv_def)
  then have b: "lp_batch ?l = []" using assms(2) by (auto simp: fifo_def)
  have ok: "tasks_ok (ts @ Task_insert w p # us) ?q" using inv b p by (simp add: tl_inv_def queue_def)
  have nc: "p \<notin> set (removals (ts @ us))" using assms(5) p by (auto simp: in_removals)
  obtain q1 where q1: "cancelTimer p ?q = Inr q1" "tasks_ok (ts @ us) q1" "tq_heap q1 p = None"
      "(w, p) \<notin> set (tq_timers q1) \<union> set (inserts (ts @ us))"
    using cancel_pending [OF ok nc] by blast
  then have n: "(w, p) \<notin> set (tq_timers q1) \<union> set (inserts ts)" "(w, p) \<notin> set (inserts us)" "p \<notin> set (removals us)"
    using nc by auto
  obtain q2 where q2: "run_timer_tasks ts q1 = Inr q2" "tasks_ok us q2" "tq_heap q2 p = None" "(w, p) \<notin> set (tq_timers q2)"
    using run_ok_tasks [OF q1(2,3) n(1)] by blast
  obtain q3 where q3: "insertTimer w p q2 = Inr q3" "dangling w p q3 q2" using insert_dangling [OF q2(2-4)] by blast
  obtain q4 q4' where q4: "run_timer_tasks us q3 = Inr q4" "dangling w p q4 q4'" "tasks_ok [] q4'"
    using dangling_tasks [OF q3(2) q2(2) n(3,2)] by blast
  have run: "run_timer_tasks (lp_pending ?l) q1 = Inr q4"
    using q2(1) q3(1) q4(1) by (simp add: p run_timer_tasks_append)
  define l0 where "l0 = (if b then (loop_handleRead ?l)\<lparr>lp_pc := Handling False\<rparr> else ?l)"
  let ?s = "\<lambda>l q. \<lparr>tl_loop = l, tl_timers = q\<rparr>"
  let ?l1 = "swap_tasks l0"
  let ?l2 = "?l1\<lparr>lp_batch := [], lp_done := lp_done ?l1 @ lp_pending ?l\<rparr>"
  let ?l3 = "?l2\<lparr>lp_doing := False, lp_pc := Check\<rparr>" and ?l4 = "?l2\<lparr>lp_doing := False, lp_pc := Polling\<rparr>"
  have l0: "lp_pc l0 = Handling False" "lp_pending l0 = lp_pending ?l" "lp_quit l0 = lp_quit ?l"
    using assms(2) by (simp_all add: l0_def loop_handleRead_def)
  have h: "tl_run (if b then 1 else 0) (?s ?l q1) = Some (Inr (?s l0 q1))"
    using assms(2) by (simp add: tl_thread_def run_head_def loop_thread_def l0_def)
  have t1: "tl_run 1 (?s l0 q1) = Some (Inr (?s ?l1 q1))"
    using l0 by (simp add: tl_thread_def run_head_def loop_thread_def)
  have l1: "lp_pc ?l1 = Running" "lp_batch ?l1 = lp_pending ?l" using l0 by (simp_all add: swap_tasks_def)
  note t2 = tl_run_batch [OF l1 run]
  have t3: "tl_run 2 (?s ?l2 q4) = Some (Inr (?s ?l4 q4))"
    using l1 l0(3) assms(3) by (simp add: tl_thread_def run_head_def loop_thread_def numeral_2_eq_2) (simp add: swap_tasks_def)
  have "(if b then 4 else 3) + length (lp_pending ?l) = (if b then 1 else 0) + (1 + (length (lp_pending ?l) + 2))"
    by simp
  then have "tl_run ((if b then 4 else 3) + length (lp_pending ?l)) (?s ?l q1) = Some (Inr (?s ?l4 q4))"
    by (simp only: tl_run_add [OF h] tl_run_add [OF t1] tl_run_add [OF t2] t3)
  moreover have "on_timers (cancelTimer p) s = Inr (?s ?l q1)" using q1(1) by (cases s) (simp add: on_timers_def)
  moreover have "tq_heap q4 p = None" "(w, p) \<in> set (tq_timers q4)"
    using q4(2) by (auto simp: dangling_def set_insort_key)
  moreover have "timer_handleRead now (\<lambda>_. []) q4 = Inl Use_after_free"
    by (rule dangling_handleRead [OF q4(2,3) assms(6)])
  ultimately show ?thesis by (intro exI [of _ "?s ?l q1"] exI [of _ "?s ?l4 q4"] conjI) simp_all
qed

theorem cancel_overtakes_insert_witness:
  "\<exists>s s1 s2. tl_reach (Inr s) \<and> lp_pending (tl_loop s) = [Task_insert 5 1] \<and> on_timers (cancelTimer 1) s = Inr s1 \<and>
     tl_run 4 s1 = Some (Inr s2) \<and> timer_handleRead 7 (\<lambda>_. []) (tl_timers s2) = Inl Use_after_free"
proof -
  obtain s where s: "tl_reach (Inr s)" "lp_pc (tl_loop s) = Polling" "lp_pending (tl_loop s) = [Task_insert 5 1]"
      "\<not> lp_quit (tl_loop s)"
    using sleeping_with_timer by blast
  define s' where "s' = s\<lparr>tl_loop := (tl_loop s)\<lparr>lp_pc := Handling False\<rparr>\<rparr>"
  have "tl_step s (Inr s')"
    unfolding s'_def
    by (rule tl_step.other [where us = "[]"]) (use s(2) in \<open>auto simp: queue_def intro!: loop_step.io\<close>)
  with s(1) have r: "tl_reach (Inr s')" by (rule reach_step)
  have l: "lp_pc (tl_loop s') = Handling False" "\<not> lp_quit (tl_loop s')" "lp_pending (tl_loop s') = [Task_insert 5 1]"
    using s by (simp_all add: s'_def)
  have t: "Task_insert 5 1 \<in> set (lp_pending (tl_loop s'))" "Task_cancel 1 \<notin> set (lp_pending (tl_loop s'))" "(5 :: int) \<le> 7"
    using l(3) by simp_all
  have n: "(if False then 4 else 3) + length (lp_pending (tl_loop s')) = 4" using l(3) by simp
  from cancel_overtakes_insert [OF r l(1,2) t, unfolded n] r l(3) show ?thesis by blast
qed

end
