(* ===== verification/Poll_Round.thy ===== *)
theory Poll_Round
  imports Tcp_Server
begin

text \<open>
  One round of \<open>EventLoop::loop\<close>: \<open>poll\<close> fills \<open>activeChannels_\<close> with pointers to the ready
  channels, and \<open>handleEvent\<close> is called on one after the other. The list is made once, but every
  handler runs user code, which may act on any connection of the loop before its turn comes; and
  other threads act on them too. The lemmas show that the list stays valid: a channel that was
  reported is alive and registered when its turn comes, its handler fails no assertion, and only
  connections that were reported are closed.
\<close>

section \<open>The round\<close>

text \<open>
  What \<open>poll\<close> reports: the listening descriptor, and connections with the events that are ready;
  the lists are what the connection and message callbacks do to the connection itself.
\<close>

datatype ready =
    Ready_accept accept_result "user_op list"
  | Ready_conn nat events "user_op list" "user_op list"

fun handler :: "ready \<Rightarrow> server_event" where
  "handler (Ready_accept r ops) = Sv_accept r ops"
| "handler (Ready_conn i rv ops closing) = Sv_conn i (Ev_ready rv ops) closing"

text \<open>A channel of the list, and the calls on any connections while or after it is handled.\<close>

type_synonym turn = "ready \<times> server_event list"

fun handle_active :: "net \<Rightarrow> turn list \<Rightarrow> single_server \<Rightarrow> single_server res" where
  "handle_active net [] s = Inr s"
| "handle_active net ((rd, calls) # ts) s =
     bindE (server_step net (handler rd) s) (\<lambda>s1.
     bindE (server_run net calls s1) (handle_active net ts))"

section \<open>What may happen in a round\<close>

definition reported :: "turn list \<Rightarrow> nat list" where
  "reported ts = concat (map (\<lambda>t. case fst t of Ready_conn i rv ops closing \<Rightarrow> [i] | _ \<Rightarrow> []) ts)"

text \<open>\<open>epoll_wait\<close> reports a descriptor once, and only what is registered; \<open>sv_ok\<close> says it for the
  state in which it is called.\<close>

definition poll_ok :: "turn list \<Rightarrow> single_server \<Rightarrow> bool" where
  "poll_ok ts s \<longleftrightarrow> distinct (reported ts) \<and> (\<forall>t \<in> set ts. sv_ok (handler (fst t)) s)"

text \<open>The calls are those of users, in this thread or others, each allowed when it is made.\<close>

fun is_call :: "server_event \<Rightarrow> bool" where
  "is_call (Sv_conn i ev ops) = (case ev of Ev_user op \<Rightarrow> True | Ev_remote op \<Rightarrow> True | _ \<Rightarrow> False)"
| "is_call _ = False"

fun calls_ok :: "net \<Rightarrow> server_event list \<Rightarrow> single_server \<Rightarrow> bool" where
  "calls_ok net [] s = True"
| "calls_ok net (ev # evs) s =
     (is_call ev \<and> sv_ok ev s \<and>
      (case server_step net ev s of Inl e \<Rightarrow> True | Inr s' \<Rightarrow> calls_ok net evs s'))"

fun round_ok :: "net \<Rightarrow> turn list \<Rightarrow> single_server \<Rightarrow> bool" where
  "round_ok net [] s = True"
| "round_ok net ((rd, calls) # ts) s =
     (case server_step net (handler rd) s of
        Inl e \<Rightarrow> True
      | Inr s1 \<Rightarrow> calls_ok net calls s1 \<and>
          (case server_run net calls s1 of Inl e \<Rightarrow> True | Inr s2 \<Rightarrow> round_ok net ts s2))"

section \<open>Calls keep what was reported\<close>

lemma remote_do_open:
  "remote_do net op c = Inr c' \<Longrightarrow> tc_state c \<noteq> kDisconnected \<Longrightarrow> tc_state c' \<noteq> kDisconnected"
  by (cases op)
    (auto simp: conn_send_def closing_defs res_simps
      split: if_splits)

lemma polling_open: "conn_inv c \<Longrightarrow> ch_polling (tc_channel c) \<longleftrightarrow> tc_state c \<noteq> kDisconnected"
  by (simp add: inv_defs split: if_splits)

lemma writing_output:
  "conn_inv c \<Longrightarrow> tc_state c \<noteq> kDisconnected \<Longrightarrow> isWriting (tc_channel c) \<longleftrightarrow> content (tc_out c) \<noteq> []"
  by (simp add: inv_defs)

text \<open>What an operation of a user leaves: the connection is open, registered, and if it had output
  to write it still has.\<close>

lemma call_keeps:
  assumes net: "net_ok net" and inv: "conn_inv c" and ok: "ev_ok ev c" and up: "tc_state c \<noteq> kDisconnected"
    and ev: "ev = Ev_user op \<or> ev = Ev_remote rop" and step: "conn_step net ev c = Inr c'"
  shows "conn_inv c' \<and> tc_state c' \<noteq> kDisconnected \<and> keeps_output c c'"
  using ev
proof
  assume e: "ev = Ev_user op"
  then have "good_step c (user_do net op c)" using user_do_step [OF net inv] ok by simp
  with e step user_do_open [OF net inv up, of op c'] ok show ?thesis by (simp add: good_step_def)
next
  assume e: "ev = Ev_remote rop"
  then have "good_step c (remote_do net rop c)" using remote_do_step [OF net inv] ok by simp
  with e step remote_do_open [of net rop c c'] up show ?thesis by (simp add: good_step_def)
qed

lemma ready_kept:
  assumes "conn_inv c" "ev_ok (Ev_ready rv ops) c" "conn_inv c'" "tc_state c' \<noteq> kDisconnected" "keeps_output c c'"
  shows "ev_ok (Ev_ready rv ops) c'"
proof -
  have o: "tc_state c \<noteq> kDisconnected" using assms(1,2) polling_open by simp
  have "isWriting (tc_channel c')" if "isWriting (tc_channel c)"
    using that assms(4,5) writing_output [OF assms(1) o] writing_output [OF assms(3,4)]
    by (simp add: keeps_output_def)
  with assms(2,4) polling_open [OF assms(3)] show ?thesis by auto
qed

text \<open>An event does not touch the objects of other connections.\<close>

lemma callback_frame:
  "connectionCallback net ops i s = Inr s' \<Longrightarrow>
     sv_objects s' = (sv_objects s)(i := sv_objects s' i) \<and> sv_next s' = sv_next s"
  by (auto simp: connectionCallback_def object_at_def res_simps split: option.splits)

lemma conn_event_frame:
  assumes "server_step net (Sv_conn i ev ops) s = Inr s'"
  shows "sv_objects s' = (sv_objects s)(i := sv_objects s' i) \<and> sv_next s' = sv_next s"
proof -
  obtain c c' where c: "sv_objects s i = Some c" "conn_step net ev c = Inr c'"
      "(if tc_closed c < tc_closed c' then closeConnection net ops i (s\<lparr>sv_objects := (sv_objects s)(i \<mapsto> c')\<rparr>)
        else Inr (s\<lparr>sv_objects := (sv_objects s)(i \<mapsto> c')\<rparr>)) = Inr s'"
    using assms by (auto simp: object_at_def res_simps Let_def split: option.splits)
  show ?thesis
  proof (cases "tc_closed c < tc_closed c'")
    case True
    then obtain s1 where s1: "connectionCallback net ops i s1 = Inr s'"
        "sv_objects s1 = (sv_objects s)(i \<mapsto> c')" "sv_next s1 = sv_next s"
      using c(3) by (auto simp: closeConnection_def res_simps)
    from callback_frame [OF s1(1)] s1(2,3) show ?thesis by simp
  next
    case False
    with c(3) show ?thesis by auto
  qed
qed

lemma accept_frame:
  assumes "server_step net (Sv_accept r ops) s = Inr s'"
  shows "\<exists>x. sv_objects s' = (sv_objects s)(sv_next s := x) \<and> sv_next s \<le> sv_next s' \<or> sv_objects s' = sv_objects s"
proof -
  consider "s' = s" | fd where "newConnection net ops fd s = Inr s'"
    using assms by (auto simp: acceptor_handleRead_def Let_def res_simps split: accept_result.splits if_splits)
  then show ?thesis
  proof cases
    case 2
    then obtain conn s1 where "connectionCallback net ops (sv_next s) s1 = Inr s'"
        "sv_objects s1 = (sv_objects s)(sv_next s \<mapsto> conn)" "sv_next s1 = sv_next s + 1"
      by (auto simp: newConnection_def res_simps Let_def)
    from callback_frame [OF this(1)] this(2,3) show ?thesis
      by (intro exI [of _ "sv_objects s' (sv_next s)"]) simp
  qed auto
qed

text \<open>Open connections stay open, apart from those of \<open>X\<close>, and keep having output if they had some.\<close>

definition keeps_conns :: "nat set \<Rightarrow> single_server \<Rightarrow> single_server \<Rightarrow> bool" where
  "keeps_conns X s s' \<longleftrightarrow>
     (\<forall>i c. i \<notin> X \<longrightarrow> sv_objects s i = Some c \<longrightarrow> tc_state c \<noteq> kDisconnected \<longrightarrow>
        (\<exists>c'. sv_objects s' i = Some c' \<and> tc_state c' \<noteq> kDisconnected \<and> keeps_output c c'))"

lemma keeps_conns_same: "(\<And>i. i \<notin> X \<Longrightarrow> sv_objects s i \<noteq> None \<Longrightarrow> sv_objects s' i = sv_objects s i) \<Longrightarrow> keeps_conns X s s'"
  by (fastforce simp: keeps_conns_def)

lemma keeps_conns_trans:
  assumes "keeps_conns X s s1" "keeps_conns Y s1 s2"
  shows "keeps_conns (X \<union> Y) s s2"
  unfolding keeps_conns_def
proof (intro allI impI)
  fix i c assume a: "i \<notin> X \<union> Y" "sv_objects s i = Some c" "tc_state c \<noteq> kDisconnected"
  then obtain c1 where c1: "sv_objects s1 i = Some c1" "tc_state c1 \<noteq> kDisconnected" "keeps_output c c1"
    using assms(1) unfolding keeps_conns_def by blast
  then obtain c2 where "sv_objects s2 i = Some c2" "tc_state c2 \<noteq> kDisconnected" "keeps_output c1 c2"
    using assms(2) a(1) unfolding keeps_conns_def by blast
  with c1(3) keeps_output_trans show "\<exists>c'. sv_objects s2 i = Some c' \<and> tc_state c' \<noteq> kDisconnected \<and> keeps_output c c'"
    by blast
qed

lemma object_inv: "server_inv s \<Longrightarrow> sv_objects s i = Some c \<Longrightarrow> conn_inv c"
  by (simp add: server_inv_def object_ok_def)

lemma poll_ok_kept:
  assumes inv: "server_inv s" "server_inv s'" and keeps: "keeps_conns X s s'" and ok: "poll_ok ts s"
    and X: "X \<inter> set (reported ts) = {}"
  shows "poll_ok ts s'"
  unfolding poll_ok_def
proof (intro conjI ballI)
  fix t assume t: "t \<in> set ts"
  have s: "sv_ok (handler (fst t)) s" using ok t by (simp add: poll_ok_def)
  show "sv_ok (handler (fst t)) s'"
  proof (cases "fst t")
    case (Ready_conn i rv ops closing)
    then have i: "i \<notin> X" using X t by (force simp: reported_def)
    obtain c where c: "sv_objects s i = Some c" "ev_ok (Ev_ready rv ops) c"
      using s Ready_conn by (auto split: option.splits)
    have ic: "conn_inv c" by (rule object_inv [OF inv(1) c(1)])
    then have "tc_state c \<noteq> kDisconnected" using polling_open c(2) by simp
    then obtain c' where c': "sv_objects s' i = Some c'" "tc_state c' \<noteq> kDisconnected" "keeps_output c c'"
      using keeps i c(1) unfolding keeps_conns_def by blast
    from ready_kept [OF ic c(2) object_inv [OF inv(2) c'(1)] c'(2,3)] c'(1) s Ready_conn show ?thesis
      by (simp del: ev_ok.simps)
  qed (use s in simp)
qed (use ok in \<open>simp add: poll_ok_def\<close>)

lemma handler_keeps:
  assumes inv: "server_inv s" and step: "server_step net (handler rd) s = Inr s'"
  shows "keeps_conns (set (reported [(rd, calls)])) s s'"
proof (cases rd)
  case (Ready_accept r ops)
  have "sv_objects s (sv_next s) = None" using inv by (auto simp: server_inv_def)
  with accept_frame [of net r ops s s'] step Ready_accept show ?thesis
    by (intro keeps_conns_same) (auto split: if_splits)
next
  case (Ready_conn i rv ops closing)
  with conn_event_frame [of net i "Ev_ready rv ops" closing s s'] step show ?thesis
    by (intro keeps_conns_same) (auto simp: reported_def fun_upd_def dest!: fun_cong split: if_splits)
qed

lemma call_keeps_conns:
  assumes net: "net_ok net" and inv: "server_inv s" and call: "is_call ev" "sv_ok ev s"
    and step: "server_step net ev s = Inr s'"
  shows "keeps_conns {} s s'"
proof -
  obtain i cev ops where ev: "ev = Sv_conn i cev ops" using call(1) by (cases ev) auto
  then obtain op rop where op: "cev = Ev_user op \<or> cev = Ev_remote rop"
    using call(1) by (cases cev) auto
  obtain c where c: "sv_objects s i = Some c" "ev_ok cev c" using call(2) ev by (auto split: option.splits)
  then obtain c' where c': "conn_step net cev c = Inr c'"
    using step ev by (auto simp: object_at_def res_simps)
  have fr: "sv_objects s' = (sv_objects s)(i := sv_objects s' i)"
    using conn_event_frame step ev by blast
  show ?thesis
    unfolding keeps_conns_def
  proof (intro allI impI)
    fix j d assume d: "sv_objects s j = Some d" "tc_state d \<noteq> kDisconnected"
    show "\<exists>d'. sv_objects s' j = Some d' \<and> tc_state d' \<noteq> kDisconnected \<and> keeps_output d d'"
    proof (cases "j = i")
      case True
      then have k: "conn_inv c'" "tc_state c' \<noteq> kDisconnected" "keeps_output c c'"
        using call_keeps [OF net object_inv [OF inv c(1)] c(2) _ op c'] d c(1) by simp_all
      then have "tc_closed c' = 0" by (simp add: inv_defs)
      then have "s' = s\<lparr>sv_objects := (sv_objects s)(i \<mapsto> c')\<rparr>"
        using step ev c(1) c' by (simp add: object_at_def Let_def)
      with k True c(1) d show ?thesis by simp
    next
      case False
      then have "sv_objects s' j = sv_objects s j" using fun_cong [OF fr, of j] by simp
      with d show ?thesis by simp
    qed
  qed
qed

lemma calls_run:
  assumes net: "net_ok net"
  shows "server_reach net fd wcb (Inr s) \<Longrightarrow> calls_ok net evs s \<Longrightarrow>
    server_reach net fd wcb (server_run net evs s) \<and> (\<forall>s'. server_run net evs s = Inr s' \<longrightarrow> keeps_conns {} s s')"
proof (induction evs arbitrary: s)
  case Nil
  then show ?case by (simp add: keeps_conns_same)
next
  case (Cons ev evs)
  have inv: "server_inv s" using server_reach_inv [OF net Cons.prems(1)] by simp
  have ok: "is_call ev" "sv_ok ev s" using Cons.prems(2) by simp_all
  have r: "server_reach net fd wcb (server_step net ev s)" by (rule server_reach_step [OF Cons.prems(1) ok(2)])
  show ?case
  proof (cases "server_step net ev s")
    case (Inl e)
    with r show ?thesis by simp
  next
    case (Inr s1)
    have k: "keeps_conns {} s s1" by (rule call_keeps_conns [OF net inv ok Inr])
    have "server_reach net fd wcb (server_run net evs s1) \<and>
        (\<forall>s'. server_run net evs s1 = Inr s' \<longrightarrow> keeps_conns {} s1 s')"
      using Cons.IH [of s1] r Cons.prems(2) Inr by simp
    with Inr keeps_conns_trans [OF k] show ?thesis by fastforce
  qed
qed

lemma handle_active_spec:
  assumes net: "net_ok net"
  shows "server_reach net fd wcb (Inr s) \<Longrightarrow> poll_ok ts s \<Longrightarrow> round_ok net ts s \<Longrightarrow>
    server_reach net fd wcb (handle_active net ts s) \<and>
    (\<forall>s'. handle_active net ts s = Inr s' \<longrightarrow> keeps_conns (set (reported ts)) s s')"
proof (induction ts arbitrary: s)
  case Nil
  then show ?case by (simp add: keeps_conns_same)
next
  case (Cons t ts)
  obtain rd calls where t: "t = (rd, calls)" by (cases t)
  have inv: "server_inv s" using server_reach_inv [OF net Cons.prems(1)] by simp
  have ok: "sv_ok (handler rd) s" "poll_ok ts s" using Cons.prems(2) by (simp_all add: poll_ok_def reported_def t)
  have dj: "set (reported [(rd, calls)]) \<inter> set (reported ts) = {}"
    using Cons.prems(2) by (simp add: poll_ok_def reported_def t)
  have un: "set (reported (t # ts)) = set (reported [(rd, calls)]) \<union> set (reported ts)"
    by (simp add: reported_def t)
  have r: "server_reach net fd wcb (server_step net (handler rd) s)" by (rule server_reach_step [OF Cons.prems(1) ok(1)])
  show ?case
  proof (cases "server_step net (handler rd) s")
    case (Inl e)
    with r t show ?thesis by simp
  next
    case (Inr s1)
    have k1: "keeps_conns (set (reported [(rd, calls)])) s s1" by (rule handler_keeps [OF inv Inr])
    have i1: "server_inv s1" using server_reach_inv [OF net r] Inr by simp
    have ok1: "poll_ok ts s1" by (rule poll_ok_kept [OF inv i1 k1 ok(2) dj])
    have c: "calls_ok net calls s1" using Cons.prems(3) Inr t by simp
    have run: "server_reach net fd wcb (server_run net calls s1)"
        "\<forall>s'. server_run net calls s1 = Inr s' \<longrightarrow> keeps_conns {} s1 s'"
      using calls_run [OF net _ c] r Inr by simp_all
    show ?thesis
    proof (cases "server_run net calls s1")
      case e: (Inl e)
      with run(1) Inr t show ?thesis by simp
    next
      case s2: (Inr s2)
      have k2: "keeps_conns {} s1 s2" using run(2) s2 by simp
      have r2: "server_reach net fd wcb (Inr s2)" using run(1) s2 by simp
      then have i2: "server_inv s2" using server_reach_inv [OF net] by fastforce
      have ok2: "poll_ok ts s2" by (rule poll_ok_kept [OF i1 i2 k2 ok1]) simp
      have rok: "round_ok net ts s2" using Cons.prems(3) Inr s2 t by simp
      have "server_reach net fd wcb (handle_active net ts s2) \<and>
          (\<forall>s'. handle_active net ts s2 = Inr s' \<longrightarrow> keeps_conns (set (reported ts)) s2 s')"
        by (rule Cons.IH [OF r2 ok2 rok])
      moreover have "handle_active net (t # ts) s = handle_active net ts s2" using Inr s2 t by simp
      ultimately show ?thesis
        using keeps_conns_trans [OF keeps_conns_trans [OF k1 k2]] unfolding un by (simp add: Un_assoc)
    qed
  qed
qed

section \<open>An example\<close>

text \<open>A server with two open connections.\<close>

lemma two_connections:
  "\<exists>s c0 c1. server_reach slow_net 5 False (Inr s) \<and> sv_connections s = [0, 1] \<and>
     sv_objects s 0 = Some c0 \<and> sv_objects s 1 = Some c1 \<and>
     tc_state c0 = kConnected \<and> tc_state c1 = kConnected"
proof -
  let ?s0 = "server_new 5 False"
  obtain c0 where c0: "newConnection slow_net [] 9 ?s0 =
      Inr (?s0\<lparr>sv_objects := (sv_objects ?s0)(sv_next ?s0 \<mapsto> c0), sv_next := sv_next ?s0 + 1,
             sv_connections := sv_connections ?s0 @ [sv_next ?s0],
             sv_notes := sv_notes ?s0 @ [(sv_next ?s0, True)]\<rparr>)" "tc_state c0 = kConnected"
    by (rule accept_plain)
  define s1 where "s1 = ?s0\<lparr>sv_objects := (sv_objects ?s0)(sv_next ?s0 \<mapsto> c0), sv_next := sv_next ?s0 + 1,
             sv_connections := sv_connections ?s0 @ [sv_next ?s0],
             sv_notes := sv_notes ?s0 @ [(sv_next ?s0, True)]\<rparr>"
  have s1: "sv_connections s1 = [0]" "sv_objects s1 0 = Some c0" "sv_next s1 = 1" "ac_callback (sv_acceptor s1)"
    by (simp_all add: s1_def server_new_def acceptor_new_def)
  have "server_step slow_net (Sv_accept (Accepted 9) []) ?s0 = Inr s1"
    using c0(1) by (simp add: acceptor_handleRead_def Let_def s1_def server_new_def)
  then have r1: "server_reach slow_net 5 False (Inr s1)"
    using server_reach_step [OF server_reach_new, of "Sv_accept (Accepted 9) []" 5 False slow_net] by simp
  obtain c1 where c1: "newConnection slow_net [] 10 s1 =
      Inr (s1\<lparr>sv_objects := (sv_objects s1)(sv_next s1 \<mapsto> c1), sv_next := sv_next s1 + 1,
             sv_connections := sv_connections s1 @ [sv_next s1],
             sv_notes := sv_notes s1 @ [(sv_next s1, True)]\<rparr>)" "tc_state c1 = kConnected"
    by (rule accept_plain)
  define s2 where "s2 = s1\<lparr>sv_objects := (sv_objects s1)(sv_next s1 \<mapsto> c1), sv_next := sv_next s1 + 1,
             sv_connections := sv_connections s1 @ [sv_next s1],
             sv_notes := sv_notes s1 @ [(sv_next s1, True)]\<rparr>"
  have "server_step slow_net (Sv_accept (Accepted 10) []) s1 = Inr s2"
    using c1(1) s1(4) by (simp add: acceptor_handleRead_def Let_def s2_def)
  then have r2: "server_reach slow_net 5 False (Inr s2)"
    using server_reach_step [OF r1, of "Sv_accept (Accepted 10) []"] by simp
  have "sv_connections s2 = [0, 1]" "sv_objects s2 0 = Some c0" "sv_objects s2 1 = Some c1"
    using s1 by (simp_all add: s2_def)
  with r2 c0(2) c1(2) show ?thesis by blast
qed

section \<open>Properties\<close>

text \<open>
  A round of the loop is safe: whatever the poller reports about the listening descriptor and about
  registered connections, each once, and whatever users of any thread do to any connections between
  the handlers of the round (send, shut down, force to close, stop reading), every channel of the
  list is alive when its turn comes, no assertion of its handler fails, and only memory for a
  buffer may run out. The round is a run of the server; and a connection that was open and not
  reported is still open after it.
\<close>
theorem poll_round_safe:
  assumes "net_ok net" and "server_reach net fd wcb (Inr s)" and "poll_ok ts s" and "round_ok net ts s"
  shows "case handle_active net ts s of
      Inl e \<Rightarrow> e = Exception ''length_error''
    | Inr s' \<Rightarrow> server_reach net fd wcb (Inr s') \<and>
        (\<forall>i c. sv_objects s i = Some c \<longrightarrow> tc_state c \<noteq> kDisconnected \<longrightarrow> i \<notin> set (reported ts) \<longrightarrow>
           (\<exists>c'. sv_objects s' i = Some c' \<and> tc_state c' \<noteq> kDisconnected))"
proof -
  have h: "server_reach net fd wcb (handle_active net ts s)"
      "\<forall>s'. handle_active net ts s = Inr s' \<longrightarrow> keeps_conns (set (reported ts)) s s'"
    using handle_active_spec [OF assms] by blast+
  show ?thesis
  proof (cases "handle_active net ts s")
    case (Inl e)
    with server_reach_inv [OF assms(1) h(1)] show ?thesis by simp
  next
    case (Inr s')
    with h show ?thesis unfolding keeps_conns_def by fastforce
  qed
qed

text \<open>The first of two connections hangs up, and its callback forces the second one to close.\<close>
theorem poll_round_safe_witness:
  "\<exists>s s' c'. server_reach slow_net 5 False (Inr s) \<and>
     handle_active slow_net [(Ready_conn 0 EPOLLHUP [] [], [Sv_conn 1 (Ev_user U_force_close) []])] s = Inr s' \<and>
     server_reach slow_net 5 False (Inr s') \<and> sv_connections s' = [1] \<and>
     sv_objects s' 1 = Some c' \<and> tc_state c' \<noteq> kDisconnected"
proof -
  obtain s c0 c1 where s: "server_reach slow_net 5 False (Inr s)" "sv_connections s = [0, 1]"
      "sv_objects s 0 = Some c0" "sv_objects s 1 = Some c1" "tc_state c0 = kConnected" "tc_state c1 = kConnected"
    using two_connections by blast
  have inv: "server_inv s" using server_reach_inv [OF slow_net_ok(1) s(1)] by simp
  obtain c0' where c0': "ev_ok (Ev_ready EPOLLHUP []) c0"
      "conn_step slow_net (Ev_ready EPOLLHUP []) c0 = Inr c0'" "tc_closed c0 < tc_closed c0'"
    using hangup_closes [of c0 slow_net] object_inv [OF inv s(3)] s(5) by auto
  let ?t = "(Ready_conn 0 EPOLLHUP [] [], [Sv_conn 1 (Ev_user U_force_close) []])"
  obtain s1 where s1: "server_step slow_net (Sv_conn 0 (Ev_ready EPOLLHUP []) []) s = Inr s1"
      "sv_objects s1 1 = Some c1" "sv_connections s1 = [1]"
    using c0'(2,3) s(2-4)
    by (auto simp del: conn_step.simps
        simp: object_at_def closeConnection_def connectionCallback_def Let_def intro: that)
  have p: "poll_ok [?t] s" using s(3) c0'(1) by (simp add: poll_ok_def reported_def del: ev_ok.simps)
  have f: "tc_closed (conn_forceClose c1) = tc_closed c1"
    by (simp add: closing_defs queue_task_def)
  obtain s2 where s2: "server_run slow_net [Sv_conn 1 (Ev_user U_force_close) []] s1 = Inr s2"
      "sv_connections s2 = [1]"
    using s1(2,3) f by (simp add: object_at_def)
  have k: "round_ok slow_net [?t] s"
    using s1 s2(1) by (simp add: s1(1) del: server_step.simps server_run.simps split: sum.split)
  have h: "handle_active slow_net [?t] s = Inr s2" using s1(1) s2(1) by (simp del: server_step.simps server_run.simps)
  have "1 \<notin> set (reported [?t])" by (simp add: reported_def)
  with poll_round_safe [OF slow_net_ok(1) s(1) p k] h s s2(2) show ?thesis by fastforce
qed

end
