(* ===== verification/Reactor.thy ===== *)
theory Reactor
  imports Loop_Server Loop_Timers Poll_Round
begin

text \<open>
  The whole loop: \<open>EventLoop\<close> with its timers, a server with its connections, and the list
  \<open>activeChannels_\<close> that \<open>poll\<close> fills and \<open>loop()\<close> goes through. One vector of pending tasks holds
  what the connections, the timer queue and the users leave there. Other theories take the parts
  two at a time, each with a queue of its own type; here a state has one loop, and the projections
  that forget the other parts' tasks turn every run into a run of the loop with the server and a
  run of the loop with the timers, so that what is proved there holds of the whole.
\<close>

section \<open>State\<close>

datatype reactor_task = R_conn nat conn_task | R_insert int nat | R_cancel nat | R_user nat

text \<open>What \<open>activeChannels_\<close> points to: the channel of the eventfd, of the timer descriptor, the
  acceptor's or a connection's.\<close>

datatype active = A_wakeup | A_timer | A_ready ready

record reactor =
  rc_loop :: "reactor_task event_loop"
  rc_server :: single_server
  rc_timers :: timer_queue
  rc_active :: "active list"

definition reactor_new :: "int \<Rightarrow> bool \<Rightarrow> reactor" where
  "reactor_new fd wcb =
     \<lparr>rc_loop = loop_new, rc_server = server_new fd wcb, rc_timers = tq_new, rc_active = []\<rparr>"

section \<open>Operations\<close>

text \<open>An event of the server in the loop thread, and a call of another thread; the tasks they leave
  go into the loop's vector.\<close>

definition rc_event :: "net \<Rightarrow> server_event \<Rightarrow> reactor \<Rightarrow> reactor res" where
  "rc_event net ev s =
     bindE (server_step net ev (rc_server s)) (\<lambda>sv.
       Inr (s\<lparr>rc_loop := fold (\<lambda>t. queueInLoop True (R_conn (subject ev (rc_server s)) t))
                 (added ev (rc_server s) sv) (rc_loop s),
              rc_server := sv\<rparr>))"

definition rc_remote :: "net \<Rightarrow> nat \<Rightarrow> remote_op \<Rightarrow> reactor \<Rightarrow> reactor res" where
  "rc_remote net i op s =
     (let ev = Sv_conn i (Ev_remote op) [] in
      bindE (server_step net ev (rc_server s)) (\<lambda>sv.
        Inr (s\<lparr>rc_loop := fold (\<lambda>t. remote_task (R_conn i t)) (added ev (rc_server s) sv) (rc_loop s),
               rc_server := sv\<rparr>)))"

definition rc_timer :: "(timer_queue \<Rightarrow> timer_queue res) \<Rightarrow> reactor \<Rightarrow> reactor res" where
  "rc_timer f s = bindE (f (rc_timers s)) (\<lambda>q. Inr (s\<lparr>rc_timers := q\<rparr>))"

definition rc_remote_addTimer :: "int \<Rightarrow> int \<Rightarrow> reactor \<Rightarrow> nat \<times> reactor" where
  "rc_remote_addTimer w i s =
     (case timer_alloc w i (rc_timers s) of (p, q) \<Rightarrow>
        (p, s\<lparr>rc_loop := remote_task (R_insert w p) (rc_loop s), rc_timers := q\<rparr>))"

definition rc_remote_cancelTimer :: "nat \<Rightarrow> reactor \<Rightarrow> reactor" where
  "rc_remote_cancelTimer p s = s\<lparr>rc_loop := remote_task (R_cancel p) (rc_loop s)\<rparr>"

text \<open>\<open>handleEvent\<close> of an active channel; \<open>now\<close> is the time at which the timer queue looks, \<open>acts\<close>
  what the callbacks of timers do to the timers.\<close>

fun handle_channel ::
  "net \<Rightarrow> int \<Rightarrow> (nat \<Rightarrow> timer_act list) \<Rightarrow> active \<Rightarrow> reactor \<Rightarrow> reactor res" where
  "handle_channel net now acts A_wakeup s =
     Inr (s\<lparr>rc_loop := (loop_handleRead (rc_loop s))\<lparr>lp_pc := Handling False\<rparr>\<rparr>)"
| "handle_channel net now acts A_timer s = rc_timer (timer_handleRead now acts) s"
| "handle_channel net now acts (A_ready rd) s = rc_event net (handler rd) s"

text \<open>A task; \<open>ops\<close> is what the connection callback does if the task closes the connection.\<close>

fun run_reactor_task :: "net \<Rightarrow> user_op list \<Rightarrow> reactor_task \<Rightarrow> reactor \<Rightarrow> reactor res" where
  "run_reactor_task net ops (R_conn i t) s = rc_event net (Sv_conn i Ev_task ops) s"
| "run_reactor_task net ops (R_insert w p) s = rc_timer (insertTimer w p) s"
| "run_reactor_task net ops (R_cancel p) s = rc_timer (cancelTimer p) s"
| "run_reactor_task net ops (R_user u) s = Inr s"

text \<open>The task that the next step of the loop thread runs.\<close>

definition next_task :: "'t event_loop \<Rightarrow> 't option" where
  "next_task l = (if lp_pc l = Running then (case lp_batch l of [] \<Rightarrow> None | t # ts \<Rightarrow> Some t) else None)"

text \<open>The loop thread: one channel, one task or one move between the phases of \<open>loop()\<close>; \<open>None\<close> when
  it is in \<open>epoll_wait\<close> or out of the loop. The pending tasks are taken when the list is done.\<close>

definition rc_thread ::
  "net \<Rightarrow> user_op list \<Rightarrow> int \<Rightarrow> (nat \<Rightarrow> timer_act list) \<Rightarrow> reactor \<Rightarrow> reactor res option" where
  "rc_thread net ops now acts s =
     (case lp_pc (rc_loop s) of
        Handling b \<Rightarrow> Some (case rc_active s of
            [] \<Rightarrow> Inr (s\<lparr>rc_loop := swap_tasks (rc_loop s)\<rparr>)
          | a # as \<Rightarrow> handle_channel net now acts a (s\<lparr>rc_active := as\<rparr>))
      | Polling \<Rightarrow> None
      | _ \<Rightarrow> map_option (\<lambda>l. case next_task (rc_loop s) of
                None \<Rightarrow> Inr (s\<lparr>rc_loop := l\<rparr>)
              | Some t \<Rightarrow> run_reactor_task net ops t (s\<lparr>rc_loop := l\<rparr>)) (loop_thread (rc_loop s)))"

text \<open>\<open>poll\<close> returns with a list of active channels.\<close>

definition rc_poll :: "active list \<Rightarrow> reactor \<Rightarrow> reactor" where
  "rc_poll as s = s\<lparr>rc_loop := (rc_loop s)\<lparr>lp_pc := Handling (A_wakeup \<in> set as)\<rparr>, rc_active := as\<rparr>"

text \<open>The loop thread left to itself for \<open>n\<close> steps, with callbacks that leave the timers alone.\<close>

fun rc_run :: "nat \<Rightarrow> net \<Rightarrow> int \<Rightarrow> reactor \<Rightarrow> reactor res option" where
  "rc_run 0 net now s = Some (Inr s)"
| "rc_run (Suc n) net now s =
     (case rc_thread net [] now (\<lambda>_. []) s of Some (Inr s') \<Rightarrow> rc_run n net now s' | r \<Rightarrow> r)"

section \<open>The parts\<close>

fun to_server :: "reactor_task \<Rightarrow> loop_task" where
  "to_server (R_conn i t) = Of_conn i t"
| "to_server _ = Of_user 0"

fun to_timer :: "reactor_task \<Rightarrow> timer_task" where
  "to_timer (R_insert w p) = Task_insert w p"
| "to_timer (R_cancel p) = Task_cancel p"
| "to_timer _ = Task_user 0"

definition map_loop :: "('a \<Rightarrow> 'b) \<Rightarrow> 'a event_loop \<Rightarrow> 'b event_loop" where
  "map_loop f l =
     \<lparr>lp_looping = lp_looping l, lp_quit = lp_quit l, lp_doing = lp_doing l,
      lp_pending = map f (lp_pending l), lp_wake = lp_wake l, lp_pc = lp_pc l,
      lp_batch = map f (lp_batch l), lp_owed = lp_owed l, lp_queued = map f (lp_queued l),
      lp_done = map f (lp_done l)\<rparr>"

definition server_part :: "reactor \<Rightarrow> loop_server" where
  "server_part s = \<lparr>ls_loop = map_loop to_server (rc_loop s), ls_server = rc_server s\<rparr>"

definition timer_part :: "reactor \<Rightarrow> timer_loop" where
  "timer_part s = \<lparr>tl_loop = map_loop to_timer (rc_loop s), tl_timers = rc_timers s\<rparr>"

text \<open>The connections and the acceptor among the channels still to be handled.\<close>

fun turns :: "active list \<Rightarrow> turn list" where
  "turns [] = []"
| "turns (A_ready rd # as) = (rd, []) # turns as"
| "turns (_ # as) = turns as"

section \<open>The system\<close>

text \<open>
  \<open>thread\<close>: the loop thread goes on, its timers' callbacks cancelling only timers that are not due (a
  timer that cancels itself there is freed under its own callback, as \<open>Timer_Queue\<close> shows), with
  \<open>stale\<close> whatever its next task finds; \<open>poll\<close>: what \<open>epoll_wait\<close> may report, which is, for a
  connection, what \<open>ev_ok\<close> says (no hang-up without input together with urgent data);
  \<open>call\<close>: what handlers, callbacks and tasks do to connections other than their own, and the
  release of a closed connection; \<open>local_add\<close>, \<open>local_cancel\<close>: what they do to timers;
  \<open>remote\<close>, \<open>remote_add\<close>, \<open>remote_cancel\<close>: other threads; \<open>other\<close>: entering, wake-ups, quitting,
  tasks of the users. Timers are cancelled as \<open>may_cancel\<close> and \<open>may_cancel_remote\<close> say, connections
  used as \<open>sv_ok\<close> says.
\<close>

definition thread_ok :: "user_op list \<Rightarrow> int \<Rightarrow> (nat \<Rightarrow> timer_act list) \<Rightarrow> reactor \<Rightarrow> bool" where
  "thread_ok ops now acts s \<longleftrightarrow> callback_ok ops False \<and>
     (rc_active s \<noteq> [] \<and> hd (rc_active s) = A_timer \<longrightarrow> acts_ok now acts (timer_part s))"

text \<open>The next task finds its connection, and open if it is a \<open>startRead\<close>.\<close>

definition rc_fresh :: "reactor \<Rightarrow> bool" where
  "rc_fresh s \<longleftrightarrow>
     (case next_task (rc_loop s) of
        Some (R_conn i t) \<Rightarrow> (case sv_objects (rc_server s) i of None \<Rightarrow> False | Some c \<Rightarrow> ev_ok Ev_task c)
      | _ \<Rightarrow> True)"

inductive rc_step :: "bool \<Rightarrow> net \<Rightarrow> reactor \<Rightarrow> reactor res \<Rightarrow> bool" for stale net where
  thread: "rc_thread net ops now acts s = Some r \<Longrightarrow> thread_ok ops now acts s \<Longrightarrow>
    (\<not> stale \<Longrightarrow> rc_fresh s) \<Longrightarrow> rc_step stale net s r"
| poll: "lp_pc (rc_loop s) = Polling \<Longrightarrow> distinct as \<Longrightarrow>
    (A_wakeup \<in> set as \<Longrightarrow> 0 < lp_wake (rc_loop s)) \<Longrightarrow> poll_ok (turns as) (rc_server s) \<Longrightarrow>
    rc_step stale net s (Inr (rc_poll as s))"
| call: "executing (lp_pc (rc_loop s)) \<Longrightarrow> ev = Sv_conn i (Ev_user op) [] \<or> ev = Sv_drop i \<Longrightarrow>
    sv_ok ev (rc_server s) \<Longrightarrow> rc_step stale net s (rc_event net ev s)"
| remote: "sv_ok (Sv_conn i (Ev_remote op) []) (rc_server s) \<Longrightarrow> rc_step stale net s (rc_remote net i op s)"
| local_add: "executing (lp_pc (rc_loop s)) \<Longrightarrow> rc_step stale net s (rc_timer (do_act (Act_add w i)) s)"
| local_cancel: "executing (lp_pc (rc_loop s)) \<Longrightarrow> may_cancel p (timer_part s) \<Longrightarrow>
    rc_step stale net s (rc_timer (cancelTimer p) s)"
| remote_add: "rc_step stale net s (Inr (snd (rc_remote_addTimer w i s)))"
| remote_cancel: "may_cancel_remote p (timer_part s) \<Longrightarrow> rc_step stale net s (Inr (rc_remote_cancelTimer p s))"
| other: "loop_step False (rc_loop s) (Inr l) \<Longrightarrow> lp_pc l = lp_pc (rc_loop s) \<or> lp_pc (rc_loop s) = Before \<Longrightarrow>
    lp_done l = lp_done (rc_loop s) \<Longrightarrow> lp_queued l = lp_queued (rc_loop s) @ map R_user us \<Longrightarrow>
    rc_step stale net s (Inr (s\<lparr>rc_loop := l\<rparr>))"

text \<open>The states that are reached as long as no task has come too late.\<close>

abbreviation rc_reach :: "net \<Rightarrow> int \<Rightarrow> bool \<Rightarrow> reactor res \<Rightarrow> bool" where
  "rc_reach net fd wcb \<equiv> reach (rc_step False net) (reactor_new fd wcb)"


lemma rc_fresh_ok:
  "rc_fresh s \<Longrightarrow> next_task (rc_loop s) = Some (R_conn i t) \<Longrightarrow> callback_ok ops False \<Longrightarrow>
     sv_ok (Sv_conn i Ev_task ops) (rc_server s)"
  by (auto simp: rc_fresh_def callback_ok_def list_all_iff split: option.splits)

section \<open>A loop whose tasks are renamed\<close>

lemma map_loop_simps [simp]:
  "lp_looping (map_loop f l) = lp_looping l" "lp_quit (map_loop f l) = lp_quit l"
  "lp_doing (map_loop f l) = lp_doing l" "lp_pending (map_loop f l) = map f (lp_pending l)"
  "lp_wake (map_loop f l) = lp_wake l" "lp_pc (map_loop f l) = lp_pc l"
  "lp_batch (map_loop f l) = map f (lp_batch l)" "lp_owed (map_loop f l) = lp_owed l"
  "lp_queued (map_loop f l) = map f (lp_queued l)" "lp_done (map_loop f l) = map f (lp_done l)"
  "queue (map_loop f l) = map f (queue l)"
  by (simp_all add: map_loop_def queue_def)

lemma map_loop_ops:
  "map_loop f (wakeup l) = wakeup (map_loop f l)"
  "map_loop f (queueInLoop b t l) = queueInLoop b (f t) (map_loop f l)"
  "map_loop f (push_task t l) = push_task (f t) (map_loop f l)"
  "map_loop f (remote_task t l) = remote_task (f t) (map_loop f l)"
  "map_loop f (swap_tasks l) = swap_tasks (map_loop f l)"
  "map_loop f (l\<lparr>lp_pc := pc\<rparr>) = (map_loop f l)\<lparr>lp_pc := pc\<rparr>"
  "map_loop f (loop_handleRead l) = loop_handleRead (map_loop f l)"
  "map_loop f loop_new = loop_new"
  by (simp_all add: map_loop_def wakeup_def queueInLoop_def push_task_def remote_task_def swap_tasks_def
      loop_handleRead_def loop_new_def Let_def)

lemma map_loop_thread: "loop_thread (map_loop f l) = map_option (map_loop f) (loop_thread l)"
  by (cases "lp_pc l"; cases "lp_batch l")
    (simp_all add: loop_thread_def map_loop_def swap_tasks_def loop_handleRead_def)

lemma map_loop_step:
  assumes "loop_step early l (Inr l')"
  shows "loop_step early (map_loop f l) (Inr (map_loop f l'))"
  using assms
proof (cases rule: loop_step_cases)
  case enter
  then have "loop_enter (map_loop f l) = Inr (map_loop f l')"
    by (simp add: loop_enter_def map_loop_def)
  with loop_step.enter [of "map_loop f l" early] enter(1) show ?thesis by simp
next
  case thread
  then show ?thesis by (intro loop_step.thread) (simp add: map_loop_thread)
next
  case (io b)
  with loop_step.io [of "map_loop f l" b early] show ?thesis by (simp add: map_loop_ops)
next
  case (local_queue t)
  with loop_step.local_queue [of "map_loop f l" early "f t"] show ?thesis by (simp add: map_loop_ops)
next
  case local_quit
  then have "loop_quit True (map_loop f l) = Inr (map_loop f l')"
    by (simp add: loop_quit_True map_loop_def)
  with loop_step.local_quit [of "map_loop f l" early] local_quit(1) show ?thesis by simp
next
  case (remote_push t)
  then have "map_loop f l' = (push_task (f t) (map_loop f l))\<lparr>lp_owed := lp_owed (map_loop f l) + 1\<rparr>"
    by (simp add: map_loop_def push_task_def)
  with loop_step.remote_push [of early "map_loop f l" "f t"] show ?thesis by simp
next
  case remote_quit
  then have "bindE (set_quit (map_loop f l)) (\<lambda>s1. Inr (s1\<lparr>lp_owed := lp_owed (map_loop f l) + 1\<rparr>)) =
      Inr (map_loop f l')"
    by (simp add: set_quit_def map_loop_def)
  with loop_step.remote_quit [of "map_loop f l" early] remote_quit(1) show ?thesis by simp
next
  case remote_wakeup
  then have "map_loop f l' = (wakeup (map_loop f l))\<lparr>lp_owed := lp_owed (map_loop f l) - 1\<rparr>"
    by (simp add: map_loop_def wakeup_def)
  with loop_step.remote_wakeup [of "map_loop f l" early] remote_wakeup(1) show ?thesis by simp
qed

text \<open>What the rest of the system sees of tasks that are not its own.\<close>

lemma fold_queue_simps [simp]:
  "lp_pc (fold (\<lambda>t. queueInLoop True (g t)) ts l) = lp_pc l"
  "lp_batch (fold (\<lambda>t. queueInLoop True (g t)) ts l) = lp_batch l"
  "lp_done (fold (\<lambda>t. queueInLoop True (g t)) ts l) = lp_done l"
  "lp_pending (fold (\<lambda>t. queueInLoop True (g t)) ts l) = lp_pending l @ map g ts"
  by (induction ts arbitrary: l) simp_all

lemma map_fold_queue:
  "map_loop f (fold (\<lambda>t. queueInLoop True (g t)) ts l) = fold (\<lambda>t. queueInLoop True (f (g t))) ts (map_loop f l)"
  by (induction ts arbitrary: l) (simp_all add: map_loop_ops)

lemma map_fold_remote:
  "map_loop f (fold (\<lambda>t. remote_task (g t)) ts l) = fold (\<lambda>t. remote_task (f (g t))) ts (map_loop f l)"
  by (induction ts arbitrary: l) (simp_all add: map_loop_ops)

lemma fold_remote_simps [simp]:
  "lp_pc (fold (\<lambda>t. remote_task (g t)) ts l) = lp_pc l"
  "lp_batch (fold (\<lambda>t. remote_task (g t)) ts l) = lp_batch l"
  by (induction ts arbitrary: l) simp_all

lemma timers_see_queue:
  "tl_reach (Inr \<lparr>tl_loop = l, tl_timers = q\<rparr>) \<Longrightarrow> executing (lp_pc l) \<Longrightarrow>
     tl_reach (Inr \<lparr>tl_loop = fold (\<lambda>t. queueInLoop True (Task_user 0)) ts l, tl_timers = q\<rparr>)"
proof (induction ts arbitrary: l)
  case (Cons t ts)
  let ?s = "\<lparr>tl_loop = l, tl_timers = q\<rparr>" and ?l = "queueInLoop True (Task_user 0) l"
  have "loop_step False l (Inr ?l)" by (rule loop_step.local_queue) (simp add: Cons.prems(2))
  then have "tl_step ?s (Inr (?s\<lparr>tl_loop := ?l\<rparr>))"
    by (intro tl_step.other [where us = "[0]"]) (simp_all add: queue_def)
  from Cons.IH [of ?l] reach_step [OF Cons.prems(1) this] Cons.prems(2) show ?case by simp
qed simp

lemma timers_see_remote:
  "tl_reach (Inr \<lparr>tl_loop = l, tl_timers = q\<rparr>) \<Longrightarrow>
     tl_reach (Inr \<lparr>tl_loop = fold (\<lambda>t. remote_task (Task_user 0)) ts l, tl_timers = q\<rparr>)"
proof (induction ts arbitrary: l)
  case (Cons t ts)
  let ?s = "\<lparr>tl_loop = l, tl_timers = q\<rparr>" and ?l = "remote_task (Task_user 0) l"
  have "loop_step False l (Inr ?l)" unfolding remote_task_def by (rule loop_step.remote_push)
  then have "tl_step ?s (Inr (?s\<lparr>tl_loop := ?l\<rparr>))"
    by (intro tl_step.other [where us = "[0]"]) simp_all
  from Cons.IH [of ?l] reach_step [OF Cons.prems this] show ?case by simp
qed simp

section \<open>Every step is one of the parts\<close>

definition active_ok :: "reactor \<Rightarrow> bool" where
  "active_ok s \<longleftrightarrow> distinct (rc_active s) \<and>
     (case lp_pc (rc_loop s) of Handling b \<Rightarrow> b \<longleftrightarrow> A_wakeup \<in> set (rc_active s) | _ \<Rightarrow> rc_active s = [])"

lemma active_ok_same:
  "active_ok s \<Longrightarrow> lp_pc (rc_loop s') = lp_pc (rc_loop s) \<Longrightarrow> rc_active s' = rc_active s \<Longrightarrow> active_ok s'"
  by (auto simp: active_ok_def split: loop_pc.splits)

definition rc_inv :: "net \<Rightarrow> int \<Rightarrow> bool \<Rightarrow> reactor \<Rightarrow> bool" where
  "rc_inv net fd wcb s \<longleftrightarrow>
     ls_reach net fd wcb (Inr (server_part s)) \<and> tl_reach (Inr (timer_part s)) \<and>
     poll_ok (turns (rc_active s)) (rc_server s) \<and> active_ok s"

lemma server_part_simps [simp]:
  "ls_server (server_part s) = rc_server s" "ls_loop (server_part s) = map_loop to_server (rc_loop s)"
  by (simp_all add: server_part_def)

lemma timer_part_simps [simp]:
  "tl_timers (timer_part s) = rc_timers s" "tl_loop (timer_part s) = map_loop to_timer (rc_loop s)"
  by (simp_all add: timer_part_def)

lemma event_parts:
  "ls_event net ev (server_part s) = (case rc_event net ev s of Inl e \<Rightarrow> Inl e | Inr s' \<Rightarrow> Inr (server_part s'))"
  by (cases "server_step net ev (rc_server s)")
    (simp_all add: ls_event_def rc_event_def server_part_def map_fold_queue queue_tasks_def)

lemma event_frame:
  assumes "rc_event net ev s = Inr s'"
  shows "lp_pc (rc_loop s') = lp_pc (rc_loop s)" "rc_active s' = rc_active s"
    "server_step net ev (rc_server s) = Inr (rc_server s')" "lp_batch (rc_loop s') = lp_batch (rc_loop s)"
    "lp_done (rc_loop s') = lp_done (rc_loop s)" "prefix (lp_pending (rc_loop s)) (lp_pending (rc_loop s'))"
  using assms by (auto simp: rc_event_def res_simps)

lemma event_timers:
  assumes "rc_event net ev s = Inr s'" "tl_reach (Inr (timer_part s))" "executing (lp_pc (rc_loop s))"
  shows "tl_reach (Inr (timer_part s'))"
proof -
  obtain sv where "s' = s\<lparr>rc_loop := fold (\<lambda>t. queueInLoop True (R_conn (subject ev (rc_server s)) t))
      (added ev (rc_server s) sv) (rc_loop s), rc_server := sv\<rparr>"
    using assms(1) by (auto simp: rc_event_def res_simps)
  then show ?thesis
    using timers_see_queue [of "map_loop to_timer (rc_loop s)" "rc_timers s"] assms(2,3)
    by (simp add: timer_part_def map_fold_queue)
qed

text \<open>An event that the server allows is one of the composition of loop and server, and the list
  of active channels stays valid if the event keeps the open connections it reports.\<close>

lemma ls_reach_server:
  "net_ok net \<Longrightarrow> ls_reach net fd wcb (Inr s) \<Longrightarrow> server_inv (ls_server s) \<and> fifo (ls_loop s)"
  using ls_reach_inv ls_inv_parts by fastforce

lemma event_safe:
  assumes net: "net_ok net" and r: "ls_reach net fd wcb (ls_event net ev (server_part s))"
  shows "safe (\<lambda>s'. ls_reach net fd wcb (Inr (server_part s')) \<and> server_inv (rc_server s')) (rc_event net ev s)"
proof (cases "rc_event net ev s")
  case (Inl e)
  with ls_reach_inv [OF net r] show ?thesis by (simp add: event_parts)
next
  case (Inr s')
  with r have "ls_reach net fd wcb (Inr (server_part s'))" by (simp add: event_parts)
  with ls_reach_server [OF net this] Inr show ?thesis by simp
qed

lemma event_inv:
  assumes net: "net_ok net" and inv: "server_inv (rc_server s)"
    and tl: "tl_reach (Inr (timer_part s))" and a: "active_ok s" and pc: "executing (lp_pc (rc_loop s))"
    and r: "ls_reach net fd wcb (ls_event net ev (server_part s))"
    and ok: "poll_ok ts (rc_server s)" "turns (rc_active s) = ts" "X \<inter> set (reported ts) = {}"
    and keeps: "\<And>sv. server_step net ev (rc_server s) = Inr sv \<Longrightarrow> keeps_conns X (rc_server s) sv"
  shows "safe (rc_inv net fd wcb) (rc_event net ev s)"
proof (cases "rc_event net ev s")
  case (Inl e)
  with event_safe [OF net r] show ?thesis by simp
next
  case (Inr s')
  note f = event_frame [OF Inr]
  have s': "ls_reach net fd wcb (Inr (server_part s'))" "server_inv (rc_server s')"
    using event_safe [OF net r] Inr by simp_all
  have "poll_ok ts (rc_server s')" by (rule poll_ok_kept [OF inv s'(2) keeps [OF f(3)] ok(1,3)])
  with s'(1) event_timers [OF Inr tl pc] active_ok_same [OF a f(1,2)] ok(2) show ?thesis
    by (simp add: Inr rc_inv_def f(2))
qed

lemma drop_keeps:
  assumes "server_inv s" "sv_ok (Sv_drop i) s" "server_step net (Sv_drop i) s = Inr s'"
  shows "keeps_conns {} s s'"
proof -
  have "\<forall>c. sv_objects s i = Some c \<longrightarrow> tc_state c = kDisconnected"
    using assms(1,2) by (auto simp: server_inv_def object_ok_def)
  moreover have "sv_objects s' = (sv_objects s)(i := None)" using assms(3) by (auto simp: res_simps)
  ultimately show ?thesis by (auto simp: keeps_conns_def keeps_output_def)
qed

text \<open>The timers' side: an operation on the queue alone.\<close>

lemma timer_step_inv:
  assumes inv: "rc_inv net fd wcb s"
    and step: "tl_step (timer_part s) (on_timers f (timer_part s))"
  shows "safe (rc_inv net fd wcb) (rc_timer f s)"
proof -
  have "tl_reach (Inr (timer_part s))" using inv by (simp add: rc_inv_def)
  then have r: "tl_reach (on_timers f (timer_part s))" by (rule reach_step) (rule step)
  then obtain q where q: "f (rc_timers s) = Inr q"
    using tl_reach_inv [OF r timer_loop_new_inv] by (auto simp: on_timers_def res_simps)
  then have "tl_reach (Inr (timer_part (s\<lparr>rc_timers := q\<rparr>)))"
    using r by (simp add: on_timers_def timer_part_def)
  with inv q show ?thesis
    by (auto simp: rc_timer_def rc_inv_def server_part_def elim: active_ok_same)
qed

text \<open>A step of the loop that neither begins a task nor brings new ones for the parts.\<close>

lemma plain_step_parts:
  assumes net: "net_ok net" and ls: "ls_reach net fd wcb (Inr (server_part s))" and tl: "tl_reach (Inr (timer_part s))"
    and step: "loop_step False (rc_loop s) (Inr l)" and d: "lp_done l = lp_done (rc_loop s)"
    and q: "lp_queued l = lp_queued (rc_loop s) @ map R_user us"
  shows "ls_reach net fd wcb (Inr (server_part (s\<lparr>rc_loop := l\<rparr>))) \<and> tl_reach (Inr (timer_part (s\<lparr>rc_loop := l\<rparr>)))"
proof
  have u: "map (f \<circ> R_user) us = map g (map (\<lambda>_. 0) us)" if "\<And>u. f (R_user u) = g (0 :: nat)" for f :: "reactor_task \<Rightarrow> 'a" and g
    using that by simp
  have "ls_step False net (server_part s) (Inr ((server_part s)\<lparr>ls_loop := map_loop to_server l\<rparr>))"
    by (rule ls_step.other [where us = "map (\<lambda>_. 0) us"])
      (use map_loop_step [OF step] d q u [of to_server Of_user] in simp_all)
  from reach_step [OF ls this] show "ls_reach net fd wcb (Inr (server_part (s\<lparr>rc_loop := l\<rparr>)))"
    by (simp add: server_part_def)
  have tstep: "loop_step False (map_loop to_timer (rc_loop s)) (Inr (map_loop to_timer l))" by (rule map_loop_step [OF step])
  have r: "loop_reach False (Inr (map_loop to_timer (rc_loop s)))"
    using tl_reach_inv [OF tl timer_loop_new_inv] by (auto simp: tl_inv_def)
  then have f: "fifo (map_loop to_timer (rc_loop s))" "fifo (map_loop to_timer l)"
    using loop_reach_fifo loop_step_fifo [OF _ tstep] by blast+
  have "map to_timer (queue l) = map to_timer (queue (rc_loop s)) @ map Task_user (map (\<lambda>_. 0) us)"
    using queue_record [OF f(1)] queue_record [OF f(2)] d q u [of to_timer Task_user] by (simp, metis append_assoc same_append_eq)
  then have "tl_step (timer_part s) (Inr ((timer_part s)\<lparr>tl_loop := map_loop to_timer l\<rparr>))"
    by (intro tl_step.other [where us = "map (\<lambda>_. 0) us"]) (simp_all add: tstep)
  from reach_step [OF tl this] show "tl_reach (Inr (timer_part (s\<lparr>rc_loop := l\<rparr>)))"
    by (simp add: timer_part_def)
qed

lemma rc_inv_server: "net_ok net \<Longrightarrow> rc_inv net fd wcb s \<Longrightarrow> server_inv (rc_server s)"
  using ls_reach_server by (fastforce simp: rc_inv_def)

section \<open>The loop thread\<close>

lemma turns_append [simp]: "turns (as @ bs) = turns as @ turns bs"
  by (induction as rule: turns.induct) simp_all

lemma active_tail:
  assumes "rc_inv net fd wcb s" "rc_active s = a # as" "a \<noteq> A_wakeup" "lp_pc (rc_loop s) = Handling b"
  shows "rc_inv net fd wcb (s\<lparr>rc_active := as\<rparr>)"
proof -
  have "poll_ok (turns as) (rc_server s)"
    using assms(1,2) by (cases a) (auto simp: rc_inv_def poll_ok_def reported_def)
  then show ?thesis
    using assms by (auto simp: rc_inv_def active_ok_def server_part_def timer_part_def)
qed

lemma handle_inv:
  assumes net: "net_ok net" and inv: "rc_inv net fd wcb s" and pc: "lp_pc (rc_loop s) = Handling b"
    and a: "rc_active s = a # as" and ok: "a = A_timer \<Longrightarrow> acts_ok now acts (timer_part s)"
  shows "safe (rc_inv net fd wcb) (handle_channel net now acts a (s\<lparr>rc_active := as\<rparr>))"
proof (cases a)
  case A_wakeup
  let ?l = "(loop_handleRead (rc_loop s))\<lparr>lp_pc := Handling False\<rparr>"
  have b: b "A_wakeup \<notin> set as" "distinct as" using inv a pc A_wakeup by (auto simp: rc_inv_def active_ok_def)
  then have "loop_thread (rc_loop s) = Some ?l" using pc by (simp add: loop_thread_def)
  then have step: "loop_step False (rc_loop s) (Inr ?l)" by (rule loop_step.thread)
  have "ls_reach net fd wcb (Inr (server_part (s\<lparr>rc_loop := ?l\<rparr>))) \<and> tl_reach (Inr (timer_part (s\<lparr>rc_loop := ?l\<rparr>)))"
    by (rule plain_step_parts [OF net _ _ step, where us = "[]"])
      (use inv in \<open>simp_all add: rc_inv_def loop_handleRead_def\<close>)
  with inv a b A_wakeup show ?thesis
    by (simp add: rc_inv_def active_ok_def server_part_def timer_part_def)
next
  case A_timer
  have "tl_step (timer_part (s\<lparr>rc_active := as\<rparr>))
      (on_timers (timer_handleRead now acts) (timer_part (s\<lparr>rc_active := as\<rparr>)))"
    by (rule tl_step.expire [where b = b]) (use pc ok A_timer in \<open>simp_all add: timer_part_def\<close>)
  then show ?thesis
    using timer_step_inv [OF active_tail [OF inv a _ pc]] A_timer by simp
next
  case (A_ready rd)
  let ?s = "s\<lparr>rc_active := as\<rparr>"
  have i: "rc_inv net fd wcb ?s" using active_tail [OF inv a _ pc] A_ready by simp
  have p: "poll_ok ((rd, []) # turns as) (rc_server s)" using inv a A_ready by (simp add: rc_inv_def)
  then have sv: "sv_ok (handler rd) (rc_server s)" by (simp add: poll_ok_def)
  have X: "set (reported [(rd, [])]) \<inter> set (reported (turns as)) = {}"
    using p by (auto simp: poll_ok_def reported_def)
  have "local_event (handler rd)" by (cases rd) simp_all
  then have "ls_step False net (server_part ?s) (ls_event net (handler rd) (server_part ?s))"
    by (intro ls_step.event) (use pc sv in simp_all)
  then have r: "ls_reach net fd wcb (ls_event net (handler rd) (server_part ?s))"
    using i by (auto simp: rc_inv_def intro: reach_step)
  have "safe (rc_inv net fd wcb) (rc_event net (handler rd) ?s)"
    by (rule event_inv [OF net _ _ _ _ r, where ts = "turns as" and X = "set (reported [(rd, [])])"])
      (use i pc X rc_inv_server [OF net i] handler_keeps [OF rc_inv_server [OF net i]] in \<open>simp_all add: rc_inv_def\<close>)
  with A_ready show ?thesis by simp
qed

lemma next_task_Some:
  "next_task l = Some t \<longleftrightarrow> lp_pc l = Running \<and> (\<exists>ts. lp_batch l = t # ts)"
  by (auto simp: next_task_def split: list.split)

lemma next_task_thread:
  "next_task l = Some t \<Longrightarrow>
     loop_thread l = Some (l\<lparr>lp_batch := tl (lp_batch l), lp_done := lp_done l @ [t]\<rparr>)"
  by (auto simp: next_task_Some loop_thread_def)

lemma run_inv:
  assumes net: "net_ok net" and inv: "rc_inv net fd wcb s" and n: "next_task (rc_loop s) = Some t"
    and cb: "callback_ok ops False" and fresh: "rc_fresh s" and l: "loop_thread (rc_loop s) = Some l"
  shows "safe (rc_inv net fd wcb) (run_reactor_task net ops t (s\<lparr>rc_loop := l\<rparr>))"
proof -
  let ?s = "s\<lparr>rc_loop := l\<rparr>"
  obtain ts where b: "lp_pc (rc_loop s) = Running" "lp_batch (rc_loop s) = t # ts"
    using n by (auto simp: next_task_Some)
  have pc: "lp_pc l = Running" using l b by (auto simp: loop_thread_def)
  have a: "rc_active s = []" "active_ok ?s" using inv b pc by (simp_all add: rc_inv_def active_ok_def)
  have ls: "ls_reach net fd wcb (Inr (server_part s))" and tl: "tl_reach (Inr (timer_part s))"
    using inv by (simp_all add: rc_inv_def)
  have lt: "loop_thread (map_loop f (rc_loop s)) = Some (map_loop f l)" for f :: "reactor_task \<Rightarrow> 'z"
    by (simp add: map_loop_thread l)
  have "tl_thread (timer_part s) = Some (bindE (run_timer_task (to_timer t) (rc_timers s))
      (\<lambda>q. Inr \<lparr>tl_loop = map_loop to_timer l, tl_timers = q\<rparr>))"
    using b by (simp add: tl_thread_def run_head_def lt)
  then have "tl_step (timer_part s) (bindE (run_timer_task (to_timer t) (rc_timers s))
      (\<lambda>q. Inr \<lparr>tl_loop = map_loop to_timer l, tl_timers = q\<rparr>))" by (rule tl_step.thread)
  then have tr: "tl_reach (bindE (run_timer_task (to_timer t) (rc_timers s))
      (\<lambda>q. Inr \<lparr>tl_loop = map_loop to_timer l, tl_timers = q\<rparr>))" by (rule reach_step [OF tl])
  then obtain q where q: "run_timer_task (to_timer t) (rc_timers s) = Inr q"
    using tl_reach_inv [OF tr timer_loop_new_inv] by (auto simp: res_simps)
  then have tq: "tl_reach (Inr (timer_part (?s\<lparr>rc_timers := q\<rparr>)))" using tr by (simp add: timer_part_def)
  show ?thesis
  proof (cases "\<exists>i u. t = R_conn i u")
    case True
    then obtain i u where t: "t = R_conn i u" by blast
    have h: "head_conn (ls_loop (server_part s)) = Some i" using b t by (simp add: head_conn_def)
    have e: "(server_part s)\<lparr>ls_loop := map_loop to_server l\<rparr> = server_part ?s" by (simp add: server_part_def)
    have "ls_thread net ops (server_part s) = Some (ls_event net (Sv_conn i Ev_task ops) (server_part ?s))"
      unfolding ls_thread_def h option.case e [symmetric] by (simp add: lt)
    then have "ls_step False net (server_part s) (ls_event net (Sv_conn i Ev_task ops) (server_part ?s))"
      by (rule ls_step.thread [OF _ cb])
        (use h fresh n t in \<open>simp add: fresh_task_def rc_fresh_def\<close>)
    then have r: "ls_reach net fd wcb (ls_event net (Sv_conn i Ev_task ops) (server_part ?s))"
      by (rule reach_step [OF ls])
    have k: "keeps_conns (- {}) (rc_server ?s) sv" for sv by (simp add: keeps_conns_def)
    have tp: "tl_reach (Inr (timer_part ?s))" using tq q t by (auto simp: timer_part_def)
    have "safe (rc_inv net fd wcb) (rc_event net (Sv_conn i Ev_task ops) ?s)"
      by (rule event_inv [OF net _ tp a(2) _ r, where ts = "[]" and X = "- {}"])
        (use pc a(1) rc_inv_server [OF net inv] k in \<open>simp_all add: poll_ok_def reported_def\<close>)
    with t show ?thesis by simp
  next
    case False
    have h: "head_conn (ls_loop (server_part s)) = None"
      using b False by (cases t) (simp_all add: head_conn_def)
    have e: "(server_part s)\<lparr>ls_loop := map_loop to_server l\<rparr> = server_part ?s" by (simp add: server_part_def)
    have "ls_thread net ops (server_part s) = Some (Inr (server_part ?s))"
      unfolding ls_thread_def h option.case e [symmetric] by (simp add: lt)
    then have "ls_step False net (server_part s) (Inr (server_part ?s))" by (rule ls_step.thread [OF _ cb]) (use h in \<open>simp add: fresh_task_def\<close>)
    then have "ls_reach net fd wcb (Inr (server_part ?s))" by (rule reach_step [OF ls])
    then have lq: "ls_reach net fd wcb (Inr (server_part (?s\<lparr>rc_timers := q\<rparr>)))" by (simp add: server_part_def)
    have "run_reactor_task net ops t ?s = Inr (?s\<lparr>rc_timers := q\<rparr>)"
      using q False by (cases t) (simp_all add: rc_timer_def)
    with tq lq a show ?thesis
      by (simp add: rc_inv_def active_ok_def poll_ok_def reported_def pc)
  qed
qed

lemma move_inv:
  assumes net: "net_ok net" and inv: "rc_inv net fd wcb s" and n: "next_task (rc_loop s) = None"
    and a: "rc_active s = []" and pc: "lp_pc (rc_loop s) \<noteq> Polling" and l: "loop_thread (rc_loop s) = Some l"
  shows "rc_inv net fd wcb (s\<lparr>rc_loop := l\<rparr>)"
proof -
  have e: "lp_done l = lp_done (rc_loop s)" "lp_queued l = lp_queued (rc_loop s) @ map R_user []"
      "\<forall>b. lp_pc l \<noteq> Handling b"
    using l n a pc inv
    by (auto simp: loop_thread_def next_task_def swap_tasks_def loop_handleRead_def rc_inv_def active_ok_def
        split: loop_pc.splits list.splits if_splits)
  have step: "loop_step False (rc_loop s) (Inr l)" using l by (rule loop_step.thread)
  have "ls_reach net fd wcb (Inr (server_part (s\<lparr>rc_loop := l\<rparr>))) \<and> tl_reach (Inr (timer_part (s\<lparr>rc_loop := l\<rparr>)))"
    by (rule plain_step_parts [OF net _ _ step e(1,2)]) (use inv in \<open>simp_all add: rc_inv_def\<close>)
  with inv a e(3) show ?thesis by (auto simp: rc_inv_def active_ok_def split: loop_pc.split)
qed

lemma reactor_thread_inv:
  assumes net: "net_ok net" and inv: "rc_inv net fd wcb s" and r: "rc_thread net ops now acts s = Some r"
    and ok: "thread_ok ops now acts s" and fresh: "rc_fresh s"
  shows "safe (rc_inv net fd wcb) r"
proof -
  have act: "rc_active s = []" if "\<forall>b. lp_pc (rc_loop s) \<noteq> Handling b"
    using inv that by (auto simp: rc_inv_def active_ok_def split: loop_pc.splits)
  consider (handle) b a as where "lp_pc (rc_loop s) = Handling b" "rc_active s = a # as"
      "r = handle_channel net now acts a (s\<lparr>rc_active := as\<rparr>)"
    | (swap) b where "lp_pc (rc_loop s) = Handling b" "rc_active s = []" "r = Inr (s\<lparr>rc_loop := swap_tasks (rc_loop s)\<rparr>)"
    | (task) l t where "loop_thread (rc_loop s) = Some l" "next_task (rc_loop s) = Some t"
        "r = run_reactor_task net ops t (s\<lparr>rc_loop := l\<rparr>)"
    | (move) l where "loop_thread (rc_loop s) = Some l" "next_task (rc_loop s) = None" "rc_active s = []"
        "lp_pc (rc_loop s) \<noteq> Polling" "r = Inr (s\<lparr>rc_loop := l\<rparr>)"
    using r act
    by (auto simp: rc_thread_def split: loop_pc.splits list.splits option.splits; fastforce)
  then show ?thesis
  proof cases
    case handle
    then show ?thesis using handle_inv [OF net inv handle(1,2)] ok by (auto simp: thread_ok_def)
  next
    case (swap b)
    then have "\<not> b" using inv by (simp add: rc_inv_def active_ok_def)
    then have "loop_thread (rc_loop s) = Some (swap_tasks (rc_loop s))" using swap by (simp add: loop_thread_def)
    then show ?thesis using move_inv [OF net inv _ swap(2)] swap by (simp add: next_task_def)
  next
    case (task l t)
    have "callback_ok ops False" using ok by (simp add: thread_ok_def)
    from run_inv [OF net inv task(2) this fresh task(1)]
    have "safe (rc_inv net fd wcb) (run_reactor_task net ops t (s\<lparr>rc_loop := l\<rparr>))" .
    with task(3) show ?thesis by simp
  next
    case move
    then show ?thesis using move_inv [OF net inv move(2-4,1)] by simp
  qed
qed

section \<open>The system keeps the invariant\<close>

lemma push_tasks_remote: "push_tasks i ts l = fold (\<lambda>t. remote_task (Of_conn i t)) ts l"
  by (simp add: push_tasks_def remote_task_def [abs_def])

lemma remote_inv:
  assumes net: "net_ok net" and inv: "rc_inv net fd wcb s"
    and ok: "sv_ok (Sv_conn i (Ev_remote op) []) (rc_server s)"
  shows "safe (rc_inv net fd wcb) (rc_remote net i op s)"
proof -
  let ?ev = "Sv_conn i (Ev_remote op) []"
  have ls: "ls_reach net fd wcb (Inr (server_part s))" and tl: "tl_reach (Inr (timer_part s))"
    using inv by (simp_all add: rc_inv_def)
  have "ls_step False net (server_part s) (ls_remote net i op (server_part s))"
    by (rule ls_step.remote) (use ok in simp)
  then have r: "ls_reach net fd wcb (ls_remote net i op (server_part s))" by (rule reach_step [OF ls])
  show ?thesis
  proof (cases "server_step net ?ev (rc_server s)")
    case (Inl e)
    then have "ls_remote net i op (server_part s) = Inl e" "rc_remote net i op s = Inl e"
      by (simp_all add: ls_remote_def rc_remote_def del: server_step.simps)
    with ls_reach_inv [OF net r] show ?thesis by simp
  next
    case (Inr sv)
    define s' where "s' = s\<lparr>rc_loop := fold (\<lambda>t. remote_task (R_conn i t)) (added ?ev (rc_server s) sv) (rc_loop s),
               rc_server := sv\<rparr>"
    have e: "rc_remote net i op s = Inr s'" using Inr by (simp add: rc_remote_def s'_def del: server_step.simps)
    have "ls_remote net i op (server_part s) = Inr (server_part s')"
      using Inr by (simp add: ls_remote_def s'_def server_part_def map_fold_remote push_tasks_remote del: server_step.simps)
    with r have ls': "ls_reach net fd wcb (Inr (server_part s'))" by simp
    have tl': "tl_reach (Inr (timer_part s'))"
      using timers_see_remote [of "map_loop to_timer (rc_loop s)" "rc_timers s"] tl
      by (simp add: s'_def timer_part_def map_fold_remote)
    have i: "server_inv (rc_server s)" "server_inv sv"
      using ls_reach_server [OF net ls] ls_reach_server [OF net ls'] by (simp_all add: s'_def)
    have "is_call ?ev" by simp
    then have "poll_ok (turns (rc_active s)) sv"
      using poll_ok_kept [OF i call_keeps_conns [OF net i(1) _ ok Inr]] inv by (simp add: rc_inv_def)
    moreover have "active_ok s'"
      by (rule active_ok_same [of s]) (use inv in \<open>simp_all add: rc_inv_def s'_def\<close>)
    ultimately show ?thesis using ls' tl' by (simp add: e rc_inv_def) (simp add: s'_def)
  qed
qed

lemma call_inv:
  assumes net: "net_ok net" and inv: "rc_inv net fd wcb s" and pc: "executing (lp_pc (rc_loop s))"
    and ev: "ev = Sv_conn i (Ev_user op) [] \<or> ev = Sv_drop i" and ok: "sv_ok ev (rc_server s)"
  shows "safe (rc_inv net fd wcb) (rc_event net ev s)"
proof -
  have ls: "ls_reach net fd wcb (Inr (server_part s))" and tl: "tl_reach (Inr (timer_part s))"
      and a: "active_ok s" and p: "poll_ok (turns (rc_active s)) (rc_server s)"
    using inv by (simp_all add: rc_inv_def)
  have s: "server_inv (rc_server s)" by (rule rc_inv_server [OF net inv])
  have "ls_step False net (server_part s) (ls_event net ev (server_part s))"
    by (rule ls_step.event) (use pc ev ok in auto)
  then have r: "ls_reach net fd wcb (ls_event net ev (server_part s))" by (rule reach_step [OF ls])
  have k: "keeps_conns {} (rc_server s) sv" if st: "server_step net ev (rc_server s) = Inr sv" for sv
    using ev
  proof
    assume e: "ev = Sv_conn i (Ev_user op) []"
    show ?thesis by (rule call_keeps_conns [OF net s _ ok st]) (simp add: e)
  next
    assume e: "ev = Sv_drop i"
    show ?thesis by (rule drop_keeps [OF s ok [unfolded e] st [unfolded e]])
  qed
  show ?thesis by (rule event_inv [OF net s tl a pc r p refl _ k]) auto
qed

text \<open>A task that another thread leaves for the timers is to the server one of a user.\<close>

lemma server_sees_remote:
  assumes ls: "ls_reach net fd wcb (Inr (server_part s))"
  shows "ls_reach net fd wcb (Inr ((server_part s)\<lparr>ls_loop := remote_task (Of_user 0) (map_loop to_server (rc_loop s))\<rparr>))"
proof -
  let ?l = "map_loop to_server (rc_loop s)"
  have "loop_step False ?l (Inr (remote_task (Of_user 0) ?l))"
    unfolding remote_task_def by (rule loop_step.remote_push)
  moreover have "lp_done (remote_task (Of_user 0) ?l) = lp_done ?l"
      "lp_queued (remote_task (Of_user 0) ?l) = lp_queued ?l @ map Of_user [0]"
    by (simp_all add: remote_task_def push_task_def)
  ultimately have "ls_step False net (server_part s) (Inr ((server_part s)\<lparr>ls_loop := remote_task (Of_user 0) ?l\<rparr>))"
    by (intro ls_step.other [where us = "[0]"]) simp_all
  with ls show ?thesis by (rule reach_step)
qed

lemma rc_step_inv:
  assumes net: "net_ok net" and inv: "rc_inv net fd wcb s" and step: "rc_step False net s r"
  shows "safe (rc_inv net fd wcb) r"
  using step
proof cases
  case (thread ops now acts)
  then show ?thesis using reactor_thread_inv [OF net inv] by blast
next
  case (poll as)
  let ?b = "A_wakeup \<in> set as" and ?l = "(rc_loop s)\<lparr>lp_pc := Handling (A_wakeup \<in> set as)\<rparr>"
  have step: "loop_step False (rc_loop s) (Inr ?l)"
    by (rule loop_step.io) (use poll in auto)
  have "ls_reach net fd wcb (Inr (server_part (s\<lparr>rc_loop := ?l\<rparr>))) \<and> tl_reach (Inr (timer_part (s\<lparr>rc_loop := ?l\<rparr>)))"
    by (rule plain_step_parts [OF net _ _ step, where us = "[]"]) (use inv in \<open>simp_all add: rc_inv_def\<close>)
  with poll show ?thesis by (simp add: rc_inv_def rc_poll_def active_ok_def server_part_def timer_part_def)
next
  case (call ev i)
  then show ?thesis using call_inv [OF net inv] by blast
next
  case (remote i op)
  then show ?thesis using remote_inv [OF net inv] by blast
next
  case (local_add w i)
  have "tl_step (timer_part s) (on_timers (do_act (Act_add w i)) (timer_part s))"
    by (rule tl_step.local_add) (use local_add in simp)
  with timer_step_inv [OF inv] local_add show ?thesis by blast
next
  case (local_cancel p)
  have "tl_step (timer_part s) (on_timers (cancelTimer p) (timer_part s))"
    by (rule tl_step.local_cancel) (use local_cancel in simp_all)
  with timer_step_inv [OF inv] local_cancel show ?thesis by blast
next
  case (remote_add w i)
  let ?s = "snd (rc_remote_addTimer w i s)"
  have ls: "ls_reach net fd wcb (Inr (server_part s))" and tl: "tl_reach (Inr (timer_part s))"
    using inv by (simp_all add: rc_inv_def)
  have l: "rc_loop ?s = remote_task (R_insert w (tq_next (rc_timers s))) (rc_loop s)"
    by (simp add: rc_remote_addTimer_def timer_alloc_def)
  from server_sees_remote [OF ls] have ls': "ls_reach net fd wcb (Inr (server_part ?s))"
    by (simp add: server_part_def rc_remote_addTimer_def timer_alloc_def map_loop_ops)
  have "tl_step (timer_part s) (Inr (snd (remote_addTimer w i (timer_part s))))" by (rule tl_step.remote_add)
  from reach_step [OF tl this] have "tl_reach (Inr (timer_part ?s))"
    by (simp add: timer_part_def rc_remote_addTimer_def remote_addTimer_def timer_alloc_def map_loop_ops)
  moreover have "active_ok ?s"
    by (rule active_ok_same [of s]) (use inv in \<open>simp_all add: rc_inv_def rc_remote_addTimer_def timer_alloc_def\<close>)
  ultimately show ?thesis
    using inv ls' remote_add by (simp add: rc_inv_def) (simp add: rc_remote_addTimer_def timer_alloc_def)
next
  case (remote_cancel p)
  let ?s = "rc_remote_cancelTimer p s"
  have ls: "ls_reach net fd wcb (Inr (server_part s))" and tl: "tl_reach (Inr (timer_part s))"
    using inv by (simp_all add: rc_inv_def)
  from server_sees_remote [OF ls] have ls': "ls_reach net fd wcb (Inr (server_part ?s))"
    by (simp add: server_part_def rc_remote_cancelTimer_def map_loop_ops)
  have "tl_step (timer_part s) (Inr (remote_cancelTimer p (timer_part s)))"
    by (rule tl_step.remote_cancel) (rule remote_cancel)
  from reach_step [OF tl this] have "tl_reach (Inr (timer_part ?s))"
    by (simp add: timer_part_def rc_remote_cancelTimer_def remote_cancelTimer_def map_loop_ops)
  moreover have "active_ok ?s"
    by (rule active_ok_same [of s]) (use inv in \<open>simp_all add: rc_inv_def rc_remote_cancelTimer_def\<close>)
  ultimately show ?thesis
    using inv ls' remote_cancel by (simp add: rc_inv_def) (simp add: rc_remote_cancelTimer_def)
next
  case (other l us)
  have "ls_reach net fd wcb (Inr (server_part (s\<lparr>rc_loop := l\<rparr>))) \<and> tl_reach (Inr (timer_part (s\<lparr>rc_loop := l\<rparr>)))"
    by (rule plain_step_parts [OF net _ _ other(2,4,5)]) (use inv in \<open>simp_all add: rc_inv_def\<close>)
  moreover have "active_ok (s\<lparr>rc_loop := l\<rparr>)"
  proof (cases "lp_pc l = lp_pc (rc_loop s)")
    case True
    show ?thesis by (rule active_ok_same [of s]) (use inv True in \<open>simp_all add: rc_inv_def\<close>)
  next
    case False
    then have b: "lp_pc (rc_loop s) = Before" using other(3) by simp
    from other(2) False b have "lp_pc l = Check"
      by (cases rule: loop_step_cases) (auto simp: loop_thread_def)
    with b inv show ?thesis by (simp add: rc_inv_def active_ok_def)
  qed
  ultimately show ?thesis using inv other by (simp add: rc_inv_def)
qed

lemma rc_reach_inv:
  assumes net: "net_ok net" and r: "rc_reach net fd wcb r"
  shows "safe (rc_inv net fd wcb) r"
  using r
proof (induction rule: reach.induct)
  case reach_init
  have "server_part (reactor_new fd wcb) = loop_server_new fd wcb" "timer_part (reactor_new fd wcb) = timer_loop_new"
    by (simp_all add: reactor_new_def server_part_def timer_part_def loop_server_new_def timer_loop_new_def map_loop_ops)
  moreover have "ls_reach net fd wcb (Inr (loop_server_new fd wcb))" "tl_reach (Inr timer_loop_new)"
    by (rule reach.reach_init)+
  ultimately show ?case
    by (simp add: rc_inv_def active_ok_def) (simp add: reactor_new_def poll_ok_def reported_def loop_new_def)
next
  case (reach_step s r)
  then show ?case using rc_step_inv [OF net] by simp
qed

section \<open>A round of the loop\<close>

text \<open>
  What the two phases of a round come to. The list: every handler ran, the vector was taken, with
  the tasks the handlers added behind those that waited. The tasks: each was run, and what was
  queued meanwhile waits for the next round.
\<close>

definition list_done :: "reactor \<Rightarrow> reactor \<Rightarrow> bool" where
  "list_done s s' \<longleftrightarrow>
     lp_pc (rc_loop s') = Running \<and> rc_active s' = [] \<and> lp_pending (rc_loop s') = [] \<and>
     prefix (lp_pending (rc_loop s)) (lp_batch (rc_loop s')) \<and> lp_done (rc_loop s') = lp_done (rc_loop s)"

definition batch_done :: "reactor \<Rightarrow> reactor \<Rightarrow> bool" where
  "batch_done s s' \<longleftrightarrow>
     lp_pc (rc_loop s') = Check \<and> lp_done (rc_loop s') = lp_done (rc_loop s) @ lp_batch (rc_loop s) \<and>
     prefix (lp_pending (rc_loop s)) (lp_pending (rc_loop s'))"

text \<open>If a step of the loop thread is safe and the rest of the run too, then the run is.\<close>

lemma rc_run_Suc:
  assumes "rc_thread net [] now (\<lambda>_. []) s = Some r" "safe P r"
    and "\<And>s'. r = Inr s' \<Longrightarrow> P s' \<Longrightarrow> \<exists>r'. rc_run n net now s' = Some r' \<and> safe Q r'"
  shows "\<exists>r'. rc_run (Suc n) net now s = Some r' \<and> safe Q r'"
  using assms by (cases r) auto

lemma no_acts_ok: "acts_ok now (\<lambda>_. []) s"
  by (simp add: acts_ok_def no_cancels)

lemma handle_frame:
  assumes "handle_channel net now acts a s = Inr s'" "lp_pc (rc_loop s) = Handling b"
  shows "(\<exists>b'. lp_pc (rc_loop s') = Handling b') \<and> rc_active s' = rc_active s \<and>
    lp_done (rc_loop s') = lp_done (rc_loop s) \<and> prefix (lp_pending (rc_loop s)) (lp_pending (rc_loop s'))"
proof (cases a)
  case A_wakeup
  with assms show ?thesis by (auto simp: loop_handleRead_def)
next
  case A_timer
  with assms show ?thesis by (auto simp: rc_timer_def res_simps)
next
  case (A_ready rd)
  with assms event_frame [of net "handler rd" s s'] show ?thesis by simp
qed

lemma handlers_run:
  assumes net: "net_ok net" and inv: "rc_inv net fd wcb s" and pc: "lp_pc (rc_loop s) = Handling b"
  shows "\<exists>r. rc_run (Suc (length (rc_active s))) net now s = Some r \<and>
    safe (\<lambda>s'. rc_inv net fd wcb s' \<and> list_done s s') r"
  using inv pc
proof (induction "rc_active s" arbitrary: s b)
  case Nil
  let ?s = "s\<lparr>rc_loop := swap_tasks (rc_loop s)\<rparr>"
  have t: "rc_thread net [] now (\<lambda>_. []) s = Some (Inr ?s)" using Nil by (simp add: rc_thread_def split: list.split)
  have "thread_ok [] now (\<lambda>_. []) s" "rc_fresh s" using Nil by (simp_all add: thread_ok_def rc_fresh_def next_task_def)
  with reactor_thread_inv [OF net Nil.prems(1) t] have "rc_inv net fd wcb ?s" by simp
  with t Nil show ?case by (auto simp: swap_tasks_def list_done_def)
next
  case (Cons a as)
  let ?r = "handle_channel net now (\<lambda>_. []) a (s\<lparr>rc_active := as\<rparr>)"
  have t: "rc_thread net [] now (\<lambda>_. []) s = Some ?r"
    using Cons.prems(2) by (simp add: rc_thread_def Cons.hyps(2) [symmetric])
  have "thread_ok [] now (\<lambda>_. []) s" "rc_fresh s"
    using Cons.prems by (simp_all add: thread_ok_def rc_fresh_def no_acts_ok next_task_def)
  with reactor_thread_inv [OF net Cons.prems(1) t] have i: "safe (rc_inv net fd wcb) ?r" by simp
  have "\<exists>r'. rc_run (Suc (Suc (length as))) net now s = Some r' \<and>
    safe (\<lambda>s'. rc_inv net fd wcb s' \<and> list_done s s') r'"
  proof (rule rc_run_Suc [OF t i])
    fix s1 assume s1: "?r = Inr s1" "rc_inv net fd wcb s1"
    obtain b1 where f: "lp_pc (rc_loop s1) = Handling b1" "rc_active s1 = as"
        "lp_done (rc_loop s1) = lp_done (rc_loop s)" "prefix (lp_pending (rc_loop s)) (lp_pending (rc_loop s1))"
      using handle_frame [OF s1(1), of b] Cons.prems(2) by auto
    obtain r where r: "rc_run (Suc (length as)) net now s1 = Some r"
        "safe (\<lambda>s'. rc_inv net fd wcb s' \<and> list_done s1 s') r"
      using Cons.hyps(1) [OF f(2) [symmetric] s1(2) f(1)] f(2) by blast
    from r(2) have "safe (\<lambda>s'. rc_inv net fd wcb s' \<and> list_done s s') r"
      by (rule safe_mono) (use f(3,4) prefix_order.trans in \<open>auto simp: list_done_def\<close>)
    with r(1) show "\<exists>r'. rc_run (Suc (length as)) net now s1 = Some r' \<and>
      safe (\<lambda>s'. rc_inv net fd wcb s' \<and> list_done s s') r'"
      by blast
  qed
  then show ?case by (simp only: Cons.hyps(2) [symmetric] length_Cons)
qed

text \<open>A task that holds its connection finds it, and is the one that the connection expects.\<close>

lemma held_task_ok:
  assumes net: "net_ok net" and inv: "rc_inv net fd wcb s" and n: "next_task (rc_loop s) = Some (R_conn i t)"
    and raw: "\<not> raw_task t"
  shows "rc_fresh s"
proof -
  have "coupled (map to_server (queue (rc_loop s))) (rc_server s)"
    using inv ls_reach_inv [OF net, of fd wcb "Inr (server_part s)"] by (simp add: rc_inv_def ls_inv_def)
  moreover obtain ts where "lp_batch (rc_loop s) = R_conn i t # ts" using n by (auto simp: next_task_Some)
  ultimately have c: "coupled (Of_conn i t # map to_server (ts @ lp_pending (rc_loop s))) (rc_server s)"
    by (simp add: queue_def)
  then obtain c where "sv_objects (rc_server s) i = Some c"
    using raw unfolding coupled_def by fastforce
  moreover from this c have "hd (tc_tasks c) = t" by (simp add: coupled_def)
  ultimately show ?thesis using raw n by (auto simp: raw_task_def rc_fresh_def)
qed

lemma run_frame:
  assumes "run_reactor_task net ops t s = Inr s'"
  shows "lp_pc (rc_loop s') = lp_pc (rc_loop s) \<and> lp_batch (rc_loop s') = lp_batch (rc_loop s) \<and>
    lp_done (rc_loop s') = lp_done (rc_loop s) \<and> prefix (lp_pending (rc_loop s)) (lp_pending (rc_loop s'))"
  using assms event_frame [of net _ s s'] by (cases t) (auto simp: rc_timer_def res_simps)

lemma tasks_run:
  assumes net: "net_ok net" and inv: "rc_inv net fd wcb s" and pc: "lp_pc (rc_loop s) = Running"
    and raw: "\<And>i t. R_conn i t \<in> set (lp_batch (rc_loop s)) \<Longrightarrow> \<not> raw_task t"
  shows "\<exists>r. rc_run (Suc (length (lp_batch (rc_loop s)))) net now s = Some r \<and>
    safe (\<lambda>s'. rc_inv net fd wcb s' \<and> batch_done s s') r"
  using inv pc raw
proof (induction "lp_batch (rc_loop s)" arbitrary: s)
  case Nil
  let ?s = "s\<lparr>rc_loop := (rc_loop s)\<lparr>lp_doing := False, lp_pc := Check\<rparr>\<rparr>"
  have t: "rc_thread net [] now (\<lambda>_. []) s = Some (Inr ?s)"
    using Nil.hyps Nil.prems(2) by (simp add: rc_thread_def loop_thread_def next_task_def)
  have "thread_ok [] now (\<lambda>_. []) s" "rc_fresh s"
    using Nil.hyps Nil.prems by (simp_all add: thread_ok_def rc_fresh_def next_task_def no_acts_ok)
  with reactor_thread_inv [OF net Nil.prems(1) t] have "rc_inv net fd wcb ?s" by simp
  with t Nil.hyps show ?case by (simp add: batch_done_def)
next
  case (Cons a ts)
  let ?l = "(rc_loop s)\<lparr>lp_batch := ts, lp_done := lp_done (rc_loop s) @ [a]\<rparr>"
  let ?r = "run_reactor_task net [] a (s\<lparr>rc_loop := ?l\<rparr>)"
  have n: "next_task (rc_loop s) = Some a" using Cons.prems(2) by (simp add: next_task_Some Cons.hyps(2) [symmetric])
  have t: "rc_thread net [] now (\<lambda>_. []) s = Some ?r"
    using Cons.prems(2) n by (simp add: rc_thread_def loop_thread_def Cons.hyps(2) [symmetric])
  have "thread_ok [] now (\<lambda>_. []) s" by (simp add: thread_ok_def no_acts_ok)
  moreover have "rc_fresh s"
  proof (cases a)
    case (R_conn i u)
    with n Cons.prems(3) [of i u] Cons.hyps(2) [symmetric] show ?thesis
      by (intro held_task_ok [OF net Cons.prems(1)]) simp_all
  qed (use n in \<open>simp_all add: rc_fresh_def\<close>)
  ultimately have i: "safe (rc_inv net fd wcb) ?r" using reactor_thread_inv [OF net Cons.prems(1) t] by simp
  have "\<exists>r'. rc_run (Suc (Suc (length ts))) net now s = Some r' \<and>
    safe (\<lambda>s'. rc_inv net fd wcb s' \<and> batch_done s s') r'"
  proof (rule rc_run_Suc [OF t i])
    fix s1 assume s1: "?r = Inr s1" "rc_inv net fd wcb s1"
    then have f: "lp_pc (rc_loop s1) = Running" "ts = lp_batch (rc_loop s1)"
        "lp_done (rc_loop s1) = lp_done (rc_loop s) @ [a]" "prefix (lp_pending (rc_loop s)) (lp_pending (rc_loop s1))"
      using run_frame [OF s1(1)] Cons.prems(2) by simp_all
    have "\<not> raw_task t" if "R_conn i t \<in> set (lp_batch (rc_loop s1))" for i t
      using Cons.prems(3) [of i t] Cons.hyps(2) [symmetric] that f(2) by simp
    then obtain r where r: "rc_run (Suc (length ts)) net now s1 = Some r"
        "safe (\<lambda>s'. rc_inv net fd wcb s' \<and> batch_done s1 s') r"
      using Cons.hyps(1) [OF f(2) s1(2) f(1)] f(2) by blast
    from r(2) have "safe (\<lambda>s'. rc_inv net fd wcb s' \<and> batch_done s s') r"
      by (rule safe_mono)
        (use f(2-4) Cons.hyps(2) [symmetric] prefix_order.trans in \<open>auto simp: batch_done_def\<close>)
    with r(1) show "\<exists>r'. rc_run (Suc (length ts)) net now s1 = Some r' \<and>
      safe (\<lambda>s'. rc_inv net fd wcb s' \<and> batch_done s s') r'"
      by blast
  qed
  then show ?case by (simp only: Cons.hyps(2) [symmetric] length_Cons)
qed

section \<open>An example\<close>

lemma rc_start: "rc_step False net (reactor_new fd wcb)
    (Inr ((reactor_new fd wcb)\<lparr>rc_loop := loop_new\<lparr>lp_looping := True, lp_quit := False, lp_pc := Check\<rparr>\<rparr>))"
  (is "rc_step _ _ _ (Inr (_\<lparr>rc_loop := ?l\<rparr>))")
proof (rule rc_step.other [where us = "[]"])
  have "loop_step False (loop_new :: reactor_task event_loop) (loop_enter loop_new)"
    by (rule loop_step.enter) (simp add: loop_new_def)
  then show "loop_step False (rc_loop (reactor_new fd wcb)) (Inr ?l)"
    by (simp add: reactor_new_def loop_enter_def loop_new_def)
qed (simp_all add: reactor_new_def loop_new_def)

text \<open>Another thread gave the sleeping loop a timer and woke it.\<close>

lemma waiting_reactor:
  "\<exists>s. rc_reach net 5 False (Inr s) \<and> lp_pc (rc_loop s) = Polling \<and> 0 < lp_wake (rc_loop s) \<and> lp_owed (rc_loop s) = 0 \<and>
     lp_pending (rc_loop s) = [R_insert 5 1] \<and> rc_server s = server_new 5 False"
proof -
  define s1 where "s1 = (reactor_new 5 False)\<lparr>rc_loop := loop_new\<lparr>lp_looping := True, lp_quit := False, lp_pc := Check\<rparr>\<rparr>"
  define s2 where "s2 = s1\<lparr>rc_loop := (rc_loop s1)\<lparr>lp_pc := Polling\<rparr>\<rparr>"
  define s3 where "s3 = snd (rc_remote_addTimer 5 100 s2)"
  define s4 where "s4 = s3\<lparr>rc_loop := (wakeup (rc_loop s3))\<lparr>lp_owed := lp_owed (rc_loop s3) - 1\<rparr>\<rparr>"
  have s3: "rc_loop s3 = remote_task (R_insert 5 1) (rc_loop s2)" "lp_pc (rc_loop s3) = Polling"
      "rc_server s3 = server_new 5 False" "lp_owed (rc_loop s3) = 1" "lp_pending (rc_loop s3) = [R_insert 5 1]"
    by (simp_all add: s3_def s2_def s1_def reactor_new_def rc_remote_addTimer_def timer_alloc_def tq_new_def
        remote_task_def push_task_def loop_new_def)
  have s4: "lp_pc (rc_loop s4) = Polling" "0 < lp_wake (rc_loop s4)" "rc_server s4 = server_new 5 False"
      "lp_pending (rc_loop s4) = [R_insert 5 1]" "lp_owed (rc_loop s4) = 0"
    using s3 by (simp_all add: s4_def)
  have r1: "rc_reach net 5 False (Inr s1)" unfolding s1_def by (rule reach_first) (rule rc_start)
  have t2: "rc_thread net [] 0 (\<lambda>_. []) s1 = Some (Inr s2)" "thread_ok [] 0 (\<lambda>_. []) s1" "rc_fresh s1"
    by (simp_all add: rc_thread_def thread_ok_def rc_fresh_def loop_thread_def next_task_def s1_def s2_def reactor_new_def loop_new_def)
  have r2: "rc_reach net 5 False (Inr s2)" by (rule reach_step [OF r1]) (rule rc_step.thread [OF t2])
  have r3: "rc_reach net 5 False (Inr s3)" unfolding s3_def by (rule reach_step [OF r2]) (rule rc_step.remote_add)
  have "loop_step False (rc_loop s3) (Inr (rc_loop s4))"
    unfolding s4_def using loop_step.remote_wakeup [of "rc_loop s3" False] s3(4) by simp
  then have "rc_step False net s3 (Inr (s3\<lparr>rc_loop := rc_loop s4\<rparr>))"
    by (rule rc_step.other [where us = "[]"]) (simp_all add: s4_def)
  then have "rc_step False net s3 (Inr s4)" by (simp add: s4_def)
  with r3 have r4: "rc_reach net 5 False (Inr s4)" by (rule reach_step)
  with s4 show ?thesis by blast
qed

text \<open>Then a client came.\<close>

lemma woken_reactor:
  "\<exists>s. rc_reach net 5 False (Inr s) \<and> lp_pc (rc_loop s) = Handling True \<and>
     rc_active s = [A_ready (Ready_accept (Accepted 9) []), A_wakeup] \<and>
     lp_pending (rc_loop s) = [R_insert 5 1] \<and> rc_server s = server_new 5 False"
proof -
  obtain s where s: "rc_reach net 5 False (Inr s)" "lp_pc (rc_loop s) = Polling" "0 < lp_wake (rc_loop s)"
      "lp_pending (rc_loop s) = [R_insert 5 1]" "rc_server s = server_new 5 False"
    using waiting_reactor by blast
  define as where "as = [A_ready (Ready_accept (Accepted 9) []), A_wakeup]"
  have "rc_step False net s (Inr (rc_poll as s))"
    by (rule rc_step.poll) (simp_all add: s as_def poll_ok_def reported_def)
  with s(1) have "rc_reach net 5 False (Inr (rc_poll as s))" by (rule reach_step)
  then show ?thesis using s by (intro exI [of _ "rc_poll as s"]) (simp add: rc_poll_def as_def)
qed

section \<open>Properties\<close>






text \<open>C5. 
  A round ends: when \<open>poll\<close> has returned, the loop thread left to itself handles every active
  channel, one step each, and takes the pending tasks only then, so with those that waited it takes
  those that the handlers queued. If no task of them is one that does not hold its connection, it
  runs each of them, timers and connections in the order in which they were queued, and comes back
  to the test of \<open>quit_\<close>; what the tasks queue stays for the next round.
\<close>
theorem reactor_round_ends:
  assumes "net_ok net" and "rc_reach net fd wcb (Inr s)" and "lp_pc (rc_loop s) = Handling b"
  shows "\<exists>r. rc_run (length (rc_active s) + 1) net now s = Some r \<and>
    safe (\<lambda>s1. list_done s s1 \<and>
      ((\<forall>i t. R_conn i t \<in> set (lp_batch (rc_loop s1)) \<longrightarrow> \<not> raw_task t) \<longrightarrow>
       (\<exists>r2. rc_run (length (lp_batch (rc_loop s1)) + 1) net now s1 = Some r2 \<and> safe (batch_done s1) r2))) r"
proof -
  have inv: "rc_inv net fd wcb s" using rc_reach_inv [OF assms(1,2)] by simp
  obtain r where r: "rc_run (Suc (length (rc_active s))) net now s = Some r"
      "safe (\<lambda>s'. rc_inv net fd wcb s' \<and> list_done s s') r"
    using handlers_run [OF assms(1) inv assms(3)] by blast
  have "\<exists>r2. rc_run (Suc (length (lp_batch (rc_loop s1)))) net now s1 = Some r2 \<and> safe (batch_done s1) r2"
    if s1: "rc_inv net fd wcb s1" "list_done s s1"
      "\<forall>i t. R_conn i t \<in> set (lp_batch (rc_loop s1)) \<longrightarrow> \<not> raw_task t" for s1
  proof -
    have "lp_pc (rc_loop s1) = Running" using s1(2) by (simp add: list_done_def)
    from tasks_run [OF assms(1) s1(1) this] s1(3) obtain r2 where
      "rc_run (Suc (length (lp_batch (rc_loop s1)))) net now s1 = Some r2"
      "safe (\<lambda>s'. rc_inv net fd wcb s' \<and> batch_done s1 s') r2" by blast
    moreover from this(2) have "safe (batch_done s1) r2" by (rule safe_mono) simp
    ultimately show ?thesis by blast
  qed
  with r(2) have "safe (\<lambda>s1. list_done s s1 \<and>
      ((\<forall>i t. R_conn i t \<in> set (lp_batch (rc_loop s1)) \<longrightarrow> \<not> raw_task t) \<longrightarrow>
       (\<exists>r2. rc_run (length (lp_batch (rc_loop s1)) + 1) net now s1 = Some r2 \<and> safe (batch_done s1) r2))) r"
    unfolding Suc_eq_plus1 by (auto elim!: safe_mono)
  with r(1) show ?thesis unfolding Suc_eq_plus1 by blast
qed

theorem reactor_round_ends_witness:
  "\<exists>s r. rc_reach slow_net 5 False (Inr s) \<and> lp_pending (rc_loop s) = [R_insert 5 1] \<and>
     rc_run 3 slow_net 7 s = Some r \<and> safe (list_done s) r"
proof -
  obtain s where s: "rc_reach slow_net 5 False (Inr s)" "lp_pc (rc_loop s) = Handling True"
      "rc_active s = [A_ready (Ready_accept (Accepted 9) []), A_wakeup]" "lp_pending (rc_loop s) = [R_insert 5 1]"
    using woken_reactor by blast
  have n: "length (rc_active s) + 1 = 3" using s(3) by simp
  from reactor_round_ends [OF slow_net_ok(1) s(1,2), of 7] obtain r where
    r: "rc_run 3 slow_net 7 s = Some r" "safe (\<lambda>s1. list_done s s1 \<and>
      ((\<forall>i t. R_conn i t \<in> set (lp_batch (rc_loop s1)) \<longrightarrow> \<not> raw_task t) \<longrightarrow>
       (\<exists>r2. rc_run (length (lp_batch (rc_loop s1)) + 1) slow_net 7 s1 = Some r2 \<and> safe (batch_done s1) r2))) r"
    unfolding n by blast
  from r(2) have "safe (list_done s) r" by (rule safe_mono) simp
  with r(1) s(1,4) show ?thesis by blast
qed

text \<open>C6. 
  What waits is done in the next round: when the loop is in \<open>epoll_wait\<close> with pending tasks, of
  connections, timers or users, and no other thread is between its push and its wake-up, the eventfd
  is readable, so \<open>epoll_wait\<close> does not block; and whatever list it then returns, and however long,
  the loop thread left to itself has run all those tasks, in order and before any later one, when it
  comes back to the test of \<open>quit_\<close>, unless one of the batch does not hold its connection.
\<close>
theorem reactor_tasks_run:
  assumes "net_ok net" and "rc_reach net fd wcb (Inr s)" and "lp_pc (rc_loop s) = Polling"
    and "lp_owed (rc_loop s) = 0" and "lp_pending (rc_loop s) \<noteq> []"
    and "distinct as" and "poll_ok (turns as) (rc_server s)"
  shows "0 < lp_wake (rc_loop s) \<and>
    (\<exists>r. rc_run (length as + 1) net now (rc_poll as s) = Some r \<and>
      safe (\<lambda>s1. (\<forall>i t. R_conn i t \<in> set (lp_batch (rc_loop s1)) \<longrightarrow> \<not> raw_task t) \<longrightarrow>
        (\<exists>r2. rc_run (length (lp_batch (rc_loop s1)) + 1) net now s1 = Some r2 \<and>
          safe (\<lambda>s2. lp_pc (rc_loop s2) = Check \<and>
            prefix (lp_done (rc_loop s) @ lp_pending (rc_loop s)) (lp_done (rc_loop s2))) r2)) r)"
proof -
  have inv: "rc_inv net fd wcb s" using rc_reach_inv [OF assms(1,2)] by simp
  then have "loop_reach False (Inr (map_loop to_server (rc_loop s)))"
    using ls_reach_inv [OF assms(1), of fd wcb "Inr (server_part s)"] by (simp add: rc_inv_def ls_inv_def)
  then have "no_lost_wakeup (map_loop to_server (rc_loop s))" by (rule loop_reach_wakeup)
  then have w: "0 < lp_wake (rc_loop s)" using assms(3-5) by (simp add: no_lost_wakeup_def awake_def)
  let ?s = "rc_poll as s"
  have "rc_step False net s (Inr ?s)" by (rule rc_step.poll) (simp_all add: assms w)
  then have i: "rc_inv net fd wcb ?s" using rc_step_inv [OF assms(1) inv] by fastforce
  have p: "lp_pc (rc_loop ?s) = Handling (A_wakeup \<in> set as)" "rc_active ?s = as"
      "lp_pending (rc_loop ?s) = lp_pending (rc_loop s)" "lp_done (rc_loop ?s) = lp_done (rc_loop s)"
    by (simp_all add: rc_poll_def)
  obtain r where r: "rc_run (length as + 1) net now ?s = Some r"
      "safe (\<lambda>s1. rc_inv net fd wcb s1 \<and> list_done ?s s1) r"
    using handlers_run [OF assms(1) i p(1)] p(2) by auto
  have "\<exists>r2. rc_run (length (lp_batch (rc_loop s1)) + 1) net now s1 = Some r2 \<and>
          safe (\<lambda>s2. lp_pc (rc_loop s2) = Check \<and>
            prefix (lp_done (rc_loop s) @ lp_pending (rc_loop s)) (lp_done (rc_loop s2))) r2"
    if s1: "rc_inv net fd wcb s1 \<and> list_done ?s s1" and raw: "\<forall>i t. R_conn i t \<in> set (lp_batch (rc_loop s1)) \<longrightarrow> \<not> raw_task t" for s1
  proof -
    have d: "lp_pc (rc_loop s1) = Running" "prefix (lp_pending (rc_loop s)) (lp_batch (rc_loop s1))"
        "lp_done (rc_loop s1) = lp_done (rc_loop s)"
      using s1 p by (simp_all add: list_done_def)
    from tasks_run [OF assms(1) _ d(1)] s1 raw obtain r2 where
      r2: "rc_run (Suc (length (lp_batch (rc_loop s1)))) net now s1 = Some r2"
        "safe (\<lambda>s'. rc_inv net fd wcb s' \<and> batch_done s1 s') r2" by blast
    from r2(2) have "safe (\<lambda>s2. lp_pc (rc_loop s2) = Check \<and>
            prefix (lp_done (rc_loop s) @ lp_pending (rc_loop s)) (lp_done (rc_loop s2))) r2"
      by (rule safe_mono) (use d in \<open>simp add: batch_done_def\<close>)
    with r2(1) show ?thesis unfolding Suc_eq_plus1 by blast
  qed
  with r w show ?thesis by (auto elim!: safe_mono)
qed

theorem reactor_tasks_run_witness:
  "\<exists>s r. rc_reach slow_net 5 False (Inr s) \<and> lp_pending (rc_loop s) = [R_insert 5 1] \<and> 0 < lp_wake (rc_loop s) \<and>
     rc_run 3 slow_net 7 (rc_poll [A_wakeup, A_timer] s) = Some r"
proof -
  obtain s where s: "rc_reach slow_net 5 False (Inr s)" "lp_pc (rc_loop s) = Polling" "lp_owed (rc_loop s) = 0"
      "lp_pending (rc_loop s) = [R_insert 5 1]"
    using waiting_reactor by blast
  have ne: "lp_pending (rc_loop s) \<noteq> []" using s(4) by simp
  have d: "distinct [A_wakeup, A_timer]" by simp
  have k: "poll_ok (turns [A_wakeup, A_timer]) (rc_server s)" by (simp add: poll_ok_def reported_def)
  have n: "length [A_wakeup, A_timer] + 1 = 3" by simp
  from reactor_tasks_run [OF slow_net_ok(1) s(1-3) ne d k, of 7] s(1,4) show ?thesis unfolding n by blast
qed

end
