(* ===== verification/Monitor.thy ===== *)
theory Monitor
  imports Prelude
begin

text \<open>
  Waiting for a condition: \<open>base/Mutex.h\<close>, \<open>base/Condition.h\<close>, \<open>base/CountDownLatch.h\<close> and
  \<open>base/CountDownLatch.cpp\<close>. Data guarded by a \<open>MutexLock\<close> are only touched in critical
  sections, each of which is one step; \<open>Condition::wait\<close> releases the mutex and sleeps in one
  step. The locale \<open>condition\<close> is the contract of a condition variable used in the pattern
  \<open>while(!ready) cond.wait();\<close> and holds the proof that no wake-up is lost; the latch is one
  instance, the start of an event loop thread another.
\<close>

section \<open>Condition variables\<close>

text \<open>What a critical section does to the condition variable at its end.\<close>

datatype signal = No_signal | Notify | Notify_all

text \<open>
  Threads at the test of the waiting loop, threads asleep in \<open>pthread_cond_wait\<close>; the order in
  which waiting threads got through and the critical sections so far are recorded.
\<close>

record ('s, 'e) monitor =
  mo_data :: 's
  mo_testing :: "nat set"
  mo_sleeping :: "nat set"
  mo_returned :: "nat list"
  mo_log :: "'e list"

definition monitor_new :: "'s \<Rightarrow> ('s, 'e) monitor" where
  "monitor_new s = \<lparr>mo_data = s, mo_testing = {}, mo_sleeping = {}, mo_returned = [], mo_log = []\<rparr>"

definition mon_update :: "('e \<Rightarrow> 's \<Rightarrow> 's) \<Rightarrow> 'e \<Rightarrow> ('s, 'e) monitor \<Rightarrow> ('s, 'e) monitor" where
  "mon_update upd e m = m\<lparr>mo_data := upd e (mo_data m), mo_log := mo_log m @ [e]\<rparr>"

definition mon_wake :: "nat set \<Rightarrow> ('s, 'e) monitor \<Rightarrow> ('s, 'e) monitor" where
  "mon_wake ts m = m\<lparr>mo_testing := mo_testing m \<union> ts, mo_sleeping := mo_sleeping m - ts\<rparr>"

text \<open>
  \<open>upd e\<close> is a critical section and \<open>sig e s\<close> its signal, \<open>W\<close> the threads that ever wait.
  \<open>pthread_cond_signal\<close> wakes one sleeping thread, if any; threads also wake up spuriously.
\<close>

inductive mon_step ::
  "('s \<Rightarrow> bool) \<Rightarrow> ('e \<Rightarrow> 's \<Rightarrow> 's) \<Rightarrow> ('e \<Rightarrow> 's \<Rightarrow> signal) \<Rightarrow> nat set \<Rightarrow>
   ('s, 'e) monitor \<Rightarrow> ('s, 'e) monitor res \<Rightarrow> bool"
  for ready upd sig W where
  enter: "t \<in> W \<Longrightarrow> t \<notin> mo_testing m \<union> mo_sleeping m \<Longrightarrow>
    mon_step ready upd sig W m (Inr (m\<lparr>mo_testing := insert t (mo_testing m)\<rparr>))"
| pass: "t \<in> mo_testing m \<Longrightarrow> ready (mo_data m) \<Longrightarrow>
    mon_step ready upd sig W m
      (Inr (m\<lparr>mo_testing := mo_testing m - {t}, mo_returned := mo_returned m @ [t]\<rparr>))"
| sleep: "t \<in> mo_testing m \<Longrightarrow> \<not> ready (mo_data m) \<Longrightarrow>
    mon_step ready upd sig W m
      (Inr (m\<lparr>mo_testing := mo_testing m - {t}, mo_sleeping := insert t (mo_sleeping m)\<rparr>))"
| spurious: "t \<in> mo_sleeping m \<Longrightarrow> mon_step ready upd sig W m (Inr (mon_wake {t} m))"
| quiet: "sig e (mo_data m) = No_signal \<Longrightarrow>
    mon_step ready upd sig W m (Inr (mon_update upd e m))"
| notify_none: "sig e (mo_data m) = Notify \<Longrightarrow> mo_sleeping m = {} \<Longrightarrow>
    mon_step ready upd sig W m (Inr (mon_update upd e m))"
| notify: "sig e (mo_data m) = Notify \<Longrightarrow> t \<in> mo_sleeping m \<Longrightarrow>
    mon_step ready upd sig W m (Inr (mon_wake {t} (mon_update upd e m)))"
| notify_all: "sig e (mo_data m) = Notify_all \<Longrightarrow>
    mon_step ready upd sig W m (Inr (mon_wake (mo_sleeping m) (mon_update upd e m)))"

abbreviation mon_reach where
  "mon_reach ready upd sig W s \<equiv> reach (mon_step ready upd sig W) (monitor_new s)"

lemma mon_wake_simps [simp]:
  "mo_data (mon_wake ts m) = mo_data m" "mo_testing (mon_wake ts m) = mo_testing m \<union> ts"
  "mo_sleeping (mon_wake ts m) = mo_sleeping m - ts" "mo_returned (mon_wake ts m) = mo_returned m"
  "mo_log (mon_wake ts m) = mo_log m"
  by (simp_all add: mon_wake_def)

lemma mon_update_simps [simp]:
  "mo_data (mon_update upd e m) = upd e (mo_data m)" "mo_testing (mon_update upd e m) = mo_testing m"
  "mo_sleeping (mon_update upd e m) = mo_sleeping m" "mo_returned (mon_update upd e m) = mo_returned m"
  "mo_log (mon_update upd e m) = mo_log m @ [e]"
  by (simp_all add: mon_update_def)

text \<open>
  The contract: a critical section that makes the condition true wakes every waiting thread,
  which \<open>notify\<close> also does when there is only one.
\<close>

locale condition =
  fixes ready :: "'s \<Rightarrow> bool"
    and upd :: "'e \<Rightarrow> 's \<Rightarrow> 's"
    and sig :: "'e \<Rightarrow> 's \<Rightarrow> signal"
    and W :: "nat set"
  assumes announced: "\<not> ready s \<Longrightarrow> ready (upd e s) \<Longrightarrow>
    sig e s = Notify_all \<or> sig e s = Notify \<and> (\<exists>t. W \<subseteq> {t})"

context condition
begin

definition no_lost :: "('s, 'e) monitor \<Rightarrow> bool" where
  "no_lost m \<longleftrightarrow> mo_sleeping m \<subseteq> W \<and> mo_testing m \<subseteq> W \<and> (ready (mo_data m) \<longrightarrow> mo_sleeping m = {})"

lemma no_lost_step:
  assumes "mon_step ready upd sig W m r" "no_lost m"
  shows "\<exists>m'. r = Inr m' \<and> no_lost m'"
  using assms(1)
proof cases
  case (quiet e)
  with assms(2) announced [of "mo_data m" e] show ?thesis by (auto simp: no_lost_def)
next
  case (notify_none e)
  with assms(2) show ?thesis by (auto simp: no_lost_def)
next
  case (notify e t)
  have "mo_sleeping m - {t} = {}" if r: "ready (upd e (mo_data m))"
  proof (cases "ready (mo_data m)")
    case True
    then show ?thesis using assms(2) by (simp add: no_lost_def)
  next
    case False
    then obtain u where "W \<subseteq> {u}" using announced [OF False r] notify by auto
    then show ?thesis using assms(2) notify by (auto simp: no_lost_def)
  qed
  with notify assms(2) show ?thesis by (auto simp: no_lost_def)
qed (use assms(2) in \<open>auto simp: no_lost_def\<close>)

lemma no_lost_reach: "mon_reach ready upd sig W s r \<Longrightarrow> \<exists>m. r = Inr m \<and> no_lost m"
proof (induction rule: reach.induct)
  case reach_init
  then show ?case by (simp add: no_lost_def monitor_new_def)
next
  case (reach_step m r)
  then show ?case using no_lost_step by auto
qed

text \<open>When the condition holds nobody sleeps, and every waiting thread gets through.\<close>

lemma waiters_pass:
  assumes "mon_reach ready upd sig W s (Inr m)" "ready (mo_data m)"
  shows "mo_sleeping m = {} \<and>
    (\<forall>t \<in> mo_testing m. \<exists>m'. mon_step ready upd sig W m (Inr m') \<and> mo_returned m' = mo_returned m @ [t] \<and>
        mo_data m' = mo_data m)"
proof -
  have "mo_sleeping m = {}" using no_lost_reach [OF assms(1)] assms(2) by (simp add: no_lost_def)
  moreover have "\<exists>m'. mon_step ready upd sig W m (Inr m') \<and> mo_returned m' = mo_returned m @ [t] \<and>
      mo_data m' = mo_data m" if "t \<in> mo_testing m" for t
    using mon_step.pass [of t m ready upd sig W] that assms(2) by fastforce
  ultimately show ?thesis by blast
qed

lemma data_log:
  assumes "mon_reach ready upd sig W s r" "r = Inr m"
  shows "mo_data m = fold upd (mo_log m) s"
  using assms
proof (induction arbitrary: m rule: reach.induct)
  case reach_init
  then show ?case by (auto simp: monitor_new_def)
next
  case (reach_step m0 r)
  from reach_step.hyps(2) show ?case
    using reach_step.IH [OF refl] reach_step.prems by cases auto
qed

end

text \<open>A condition that stays true: a thread that got through finds it true ever after.\<close>

locale stable_condition = condition +
  assumes stays: "ready s \<Longrightarrow> ready (upd e s)"

context stable_condition
begin

lemma returned_ready:
  assumes "mon_reach ready upd sig W s r" "r = Inr m" "mo_returned m \<noteq> []"
  shows "ready (mo_data m)"
  using assms
proof (induction arbitrary: m rule: reach.induct)
  case reach_init
  then show ?case by (auto simp: monitor_new_def)
next
  case (reach_step m0 r)
  from reach_step.hyps(2) show ?case
    using reach_step.IH [OF refl] reach_step.prems stays by cases auto
qed

end

section \<open>The latch\<close>

text \<open>The count is an integer without bounds: it would take 2^31 calls of \<open>countDown\<close> on an open
  latch for the \<open>int\<close> of the code to overflow.\<close>

definition latch_new :: "int \<Rightarrow> int" where
  "latch_new count = count"

definition latch_open :: "int \<Rightarrow> bool" where
  "latch_open count = (\<not> count > 0)"

definition latch_countDown :: "int \<Rightarrow> int \<times> signal" where
  "latch_countDown count =
     (let count' = count - 1 in (count', if count' = 0 then Notify_all else No_signal))"

definition latch_getCount :: "int \<Rightarrow> int" where
  "latch_getCount count = count"

interpretation latch: stable_condition latch_open "\<lambda>(_ :: unit) c. fst (latch_countDown c)"
    "\<lambda>_ c. snd (latch_countDown c)" UNIV
  by unfold_locales (auto simp: latch_open_def latch_countDown_def Let_def)

abbreviation latch_reach :: "int \<Rightarrow> (int, unit) monitor res \<Rightarrow> bool" where
  "latch_reach n \<equiv> mon_reach latch_open (\<lambda>_ c. fst (latch_countDown c))
     (\<lambda>_ c. snd (latch_countDown c)) UNIV (latch_new n)"

lemma fold_countDown: "fold (\<lambda>(_ :: unit) c. fst (latch_countDown c)) es n = n - int (length es)"
  by (induction es arbitrary: n) (simp_all add: latch_countDown_def Let_def)

section \<open>Properties\<close>

text \<open>C33. The latch counts and loses no wake-up: with any number of threads waiting and counting
  down in any interleaving, and with spurious wake-ups, no thread gets through before the count
  has come to zero; from then on no thread is asleep and each one still inside \<open>wait\<close> can get
  through with its own next step.\<close>
theorem latch_correct:
  assumes "latch_reach n (Inr m)"
  shows "latch_getCount (mo_data m) = n - int (length (mo_log m)) \<and>
     (mo_returned m \<noteq> [] \<longrightarrow> n \<le> int (length (mo_log m))) \<and>
     (n \<le> int (length (mo_log m)) \<longrightarrow> mo_sleeping m = {} \<and>
        (\<forall>t \<in> mo_testing m. \<exists>m'. mon_step latch_open (\<lambda>_ c. fst (latch_countDown c))
            (\<lambda>_ c. snd (latch_countDown c)) UNIV m (Inr m') \<and> mo_returned m' = mo_returned m @ [t]))"
proof -
  have d: "mo_data m = n - int (length (mo_log m))"
    using latch.data_log [OF assms refl] fold_countDown by (simp add: latch_new_def)
  then have o: "latch_open (mo_data m) \<longleftrightarrow> n \<le> int (length (mo_log m))"
    by (auto simp: latch_open_def)
  show ?thesis
    using d o latch.returned_ready [OF assms refl] latch.waiters_pass [OF assms]
    by (auto simp: latch_getCount_def)
qed

theorem latch_correct_witness:
  "\<exists>m. latch_reach 1 (Inr m) \<and> mo_testing m = {7} \<and> mo_sleeping m = {} \<and> latch_getCount (mo_data m) = 0"
proof -
  let ?u = "\<lambda>(_ :: unit) c. fst (latch_countDown c)" and ?s = "\<lambda>(_ :: unit) c. snd (latch_countDown c)"
  define m0 where "m0 = (monitor_new (latch_new 1) :: (int, unit) monitor)"
  define m1 where "m1 = m0\<lparr>mo_testing := {7}\<rparr>"
  define m2 where "m2 = m1\<lparr>mo_testing := {}, mo_sleeping := {7}\<rparr>"
  define m3 where "m3 = mon_wake {7} (mon_update ?u () m2)"
  have s1: "mon_step latch_open ?u ?s UNIV m0 (Inr m1)"
    using mon_step.enter [of 7 UNIV m0 latch_open ?u ?s] by (simp add: m1_def m0_def monitor_new_def)
  have s2: "mon_step latch_open ?u ?s UNIV m1 (Inr m2)"
    using mon_step.sleep [of 7 m1 latch_open ?u ?s UNIV]
    by (simp add: m2_def m1_def m0_def monitor_new_def latch_open_def latch_new_def)
  have s3: "mon_step latch_open ?u ?s UNIV m2 (Inr m3)"
    using mon_step.notify_all [of ?s "()" m2 latch_open ?u UNIV]
    by (simp add: m3_def m2_def m1_def m0_def monitor_new_def latch_countDown_def latch_new_def)
  have "reach (mon_step latch_open ?u ?s UNIV) m0 (Inr m1)" by (rule reach_first) (rule s1)
  then have "reach (mon_step latch_open ?u ?s UNIV) m0 (Inr m2)" by (rule reach_step) (rule s2)
  then have "reach (mon_step latch_open ?u ?s UNIV) m0 (Inr m3)" by (rule reach_step) (rule s3)
  then have r: "latch_reach 1 (Inr m3)" by (simp add: m0_def)
  have "mo_log m3 = [()]" "mo_testing m3 = {7}"
    by (simp_all add: m3_def m2_def m1_def m0_def monitor_new_def)
  with latch_correct [OF r] r show ?thesis by auto
qed

end
