(* ===== verification/Threads.thy ===== *)
theory Threads
  imports Monitor Log_Stream
begin

text \<open>
  Threads: \<open>base/Thread.h\<close>, \<open>base/Thread.cpp\<close> and \<open>base/CurrentThread.h\<close>. A \<open>Thread\<close> object and
  the thread it starts run side by side; the thread publishes its id and counts a latch down,
  on which \<open>start()\<close> waits (by the theory of the latch a waiting thread can go on exactly when
  the latch is open). The lemmas show that \<open>start()\<close> returns with the id of the running thread,
  and what happens when \<open>start()\<close> and \<open>join()\<close> are called in the wrong order.
\<close>

section \<open>The current thread\<close>

text \<open>The thread-local variables; \<open>gettid\<close> is the id the system gives the thread.\<close>

record thread_local =
  t_cachedTid :: int
  t_tidString :: string
  t_tidStringLength :: int
  t_threadName :: string

definition thread_local_init :: thread_local where
  "thread_local_init =
     \<lparr>t_cachedTid = 0, t_tidString = [], t_tidStringLength = 6, t_threadName = ''default''\<rparr>"

text \<open>\<open>snprintf(buf, 32, "%5d ", tid)\<close>: the text kept and the length returned.\<close>

definition tid_text :: "int \<Rightarrow> string" where
  "tid_text tid = replicate (5 - length (int_decimal tid)) CHR '' '' @ int_decimal tid @ '' ''"

definition cacheTid :: "int \<Rightarrow> thread_local \<Rightarrow> thread_local" where
  "cacheTid gettid t =
     (if t_cachedTid t = 0
      then t\<lparr>t_cachedTid := gettid, t_tidString := take 31 (tid_text gettid),
             t_tidStringLength := int (length (tid_text gettid))\<rparr>
      else t)"

definition current_tid :: "int \<Rightarrow> thread_local \<Rightarrow> int \<times> thread_local" where
  "current_tid gettid t =
     (let t' = (if t_cachedTid t = 0 then cacheTid gettid t else t) in (t_cachedTid t', t'))"

text \<open>The accessors, which do not ask for the id first.\<close>

definition tidString :: "thread_local \<Rightarrow> string" where
  "tidString t = t_tidString t"

definition tidStringLength :: "thread_local \<Rightarrow> int" where
  "tidStringLength t = t_tidStringLength t"

definition current_name :: "thread_local \<Rightarrow> string" where
  "current_name t = t_threadName t"

section \<open>Thread objects\<close>

text \<open>
  Ghosts: where the started thread is, and what its owner waits for (\<open>start()\<close> for the latch,
  \<open>join()\<close> for the end of the thread).
\<close>

datatype child_pc = No_child | Child_begin | Child_tid_set | Child_running | Child_done

datatype owner_pc = Owner_free | Owner_in_latch | Owner_in_join

record thread =
  th_started :: bool
  th_joined :: bool
  th_tid :: int
  th_name :: string
  th_latch :: int
  th_child :: child_pc
  th_owner :: owner_pc

text \<open>\<open>numCreated_\<close> is fetched and incremented.\<close>

definition thread_new :: "int \<Rightarrow> string \<Rightarrow> thread \<times> int" where
  "thread_new numCreated name =
     (\<lparr>th_started = False, th_joined = False, th_tid = 0,
       th_name = (if name = [] then ''Thread'' @ int_decimal numCreated else name),
       th_latch = latch_new 1, th_child = No_child, th_owner = Owner_free\<rparr>, numCreated + 1)"

text \<open>\<open>ok\<close>: whether \<open>pthread_create\<close> succeeds.\<close>

definition thread_start :: "bool \<Rightarrow> thread \<Rightarrow> thread res" where
  "thread_start ok t =
     assertE (\<not> th_started t) ''!started_''
       (let t1 = t\<lparr>th_started := True\<rparr> in
        Inr (if ok then t1\<lparr>th_child := Child_begin, th_owner := Owner_in_latch\<rparr>
             else t1\<lparr>th_started := False\<rparr>))"

definition thread_join :: "thread \<Rightarrow> thread res" where
  "thread_join t =
     assertE (th_started t) ''started_'' (
     assertE (\<not> th_joined t) ''!joined_''
       (Inr (t\<lparr>th_joined := True, th_owner := Owner_in_join\<rparr>)))"

text \<open>\<open>runInThread\<close>: publish the id, count down, then the function, which returns some time.\<close>

definition child_step :: "int \<Rightarrow> thread \<Rightarrow> thread option" where
  "child_step gettid t =
     (case th_child t of
        Child_begin \<Rightarrow> Some (t\<lparr>th_tid := fst (current_tid gettid thread_local_init), th_child := Child_tid_set\<rparr>)
      | Child_tid_set \<Rightarrow> Some (t\<lparr>th_latch := fst (latch_countDown (th_latch t)), th_child := Child_running\<rparr>)
      | Child_running \<Rightarrow> Some (t\<lparr>th_child := Child_done\<rparr>)
      | _ \<Rightarrow> None)"

definition owner_step :: "thread \<Rightarrow> thread res option" where
  "owner_step t =
     (case th_owner t of
        Owner_free \<Rightarrow> None
      | Owner_in_latch \<Rightarrow>
          (if latch_open (th_latch t)
           then Some (assertE (th_tid t > 0) ''tid_ > 0'' (Inr (t\<lparr>th_owner := Owner_free\<rparr>))) else None)
      | Owner_in_join \<Rightarrow> (if th_child t = Child_done then Some (Inr (t\<lparr>th_owner := Owner_free\<rparr>)) else None))"

text \<open>A thread in use: started at most once, joined at most once, after that.\<close>

inductive thread_use :: "int \<Rightarrow> thread \<Rightarrow> thread res \<Rightarrow> bool" for gettid where
  start: "th_owner t = Owner_free \<Longrightarrow> \<not> th_started t \<Longrightarrow> thread_use gettid t (thread_start ok t)"
| join: "th_owner t = Owner_free \<Longrightarrow> th_started t \<Longrightarrow> \<not> th_joined t \<Longrightarrow>
    thread_use gettid t (thread_join t)"
| child: "child_step gettid t = Some t' \<Longrightarrow> thread_use gettid t (Inr t')"
| owner: "owner_step t = Some r \<Longrightarrow> thread_use gettid t r"

abbreviation thread_reach :: "int \<Rightarrow> int \<Rightarrow> string \<Rightarrow> thread res \<Rightarrow> bool" where
  "thread_reach gettid num name \<equiv> reach (thread_use gettid) (fst (thread_new num name))"

text \<open>The owner and the thread left to themselves: the thread moves when the owner cannot.\<close>

fun thread_steps :: "nat \<Rightarrow> int \<Rightarrow> thread \<Rightarrow> thread res option" where
  "thread_steps 0 gettid t = Some (Inr t)"
| "thread_steps (Suc n) gettid t =
     (case owner_step t of
        Some (Inr t') \<Rightarrow> thread_steps n gettid t'
      | Some (Inl e) \<Rightarrow> Some (Inl e)
      | None \<Rightarrow> (case child_step gettid t of Some t' \<Rightarrow> thread_steps n gettid t' | None \<Rightarrow> None))"

section \<open>Invariant\<close>

definition thread_inv :: "int \<Rightarrow> thread \<Rightarrow> bool" where
  "thread_inv gettid t \<longleftrightarrow>
     th_latch t = (if th_child t \<in> {Child_running, Child_done} then 0 else 1) \<and>
     (th_started t \<longleftrightarrow> th_child t \<noteq> No_child) \<and>
     (th_child t \<in> {Child_tid_set, Child_running, Child_done} \<longrightarrow> th_tid t = gettid) \<and>
     (th_owner t = Owner_in_latch \<longrightarrow> th_child t \<noteq> No_child) \<and>
     (th_owner t = Owner_in_join \<longrightarrow> th_joined t) \<and>
     (th_joined t \<longrightarrow> th_started t) \<and>
     (th_owner t \<noteq> Owner_in_latch \<and> th_started t \<longrightarrow> th_child t \<in> {Child_running, Child_done})"

lemma current_tid_init [simp]: "fst (current_tid gettid thread_local_init) = gettid"
  by (simp add: current_tid_def cacheTid_def thread_local_init_def)

lemmas thread_defs = thread_start_def thread_join_def child_step_def owner_step_def
  latch_countDown_def latch_open_def latch_new_def

lemma thread_use_inv:
  assumes "0 < gettid" "thread_inv gettid t" "thread_use gettid t r"
  shows "case r of Inl _ \<Rightarrow> False | Inr t' \<Rightarrow> thread_inv gettid t'"
  using assms(3)
proof cases
  case (start ok)
  with assms(2) show ?thesis by (cases ok; cases "th_child t") (simp_all add: thread_inv_def thread_defs)
next
  case join
  with assms(2) show ?thesis by (cases "th_child t") (simp_all add: thread_inv_def thread_defs)
next
  case (child t')
  with assms(2) show ?thesis
    by (cases "th_child t"; cases "th_owner t"; clarsimp simp: thread_inv_def thread_defs)
next
  case owner
  with assms(1,2) show ?thesis
    by (cases "th_child t"; cases "th_owner t"; clarsimp simp: thread_inv_def thread_defs)
qed

lemma thread_reach_inv:
  assumes "0 < gettid" "thread_reach gettid num name r"
  shows "case r of Inl _ \<Rightarrow> False | Inr t \<Rightarrow> thread_inv gettid t"
  using assms(2)
proof (induction rule: reach.induct)
  case reach_init
  then show ?case by (simp add: thread_inv_def thread_new_def latch_new_def)
next
  case (reach_step t r)
  then show ?case using thread_use_inv [OF assms(1)] by auto
qed

section \<open>Properties\<close>

text \<open>\<open>start()\<close> returns with a running thread: used in order, a thread object never fails an
  assertion; once \<open>start()\<close> has returned successfully \<open>tid()\<close> is the id of the thread, which is
  in its function or behind it; and nobody waits for ever: an owner inside \<open>start()\<close> or \<open>join()\<close>
  gets out after at most three steps (in \<open>join()\<close>, once the function returns).\<close>
theorem thread_start_returns:
  assumes "0 < gettid" and "thread_reach gettid num name r"
  shows "\<exists>t. r = Inr t \<and>
     (th_owner t = Owner_free \<and> th_started t \<longrightarrow>
        th_tid t = gettid \<and> th_child t \<in> {Child_running, Child_done}) \<and>
     (th_owner t \<noteq> Owner_free \<longrightarrow>
        (\<exists>n t'. n \<le> 3 \<and> thread_steps n gettid t = Some (Inr t') \<and> th_owner t' = Owner_free))"
proof -
  obtain t where t: "r = Inr t" "thread_inv gettid t"
    using thread_reach_inv [OF assms] by (auto split: sum.splits)
  have "\<exists>n t'. n \<le> 3 \<and> thread_steps n gettid t = Some (Inr t') \<and> th_owner t' = Owner_free"
    if "th_owner t \<noteq> Owner_free"
  proof -
    have ex: "\<exists>t'. thread_steps n gettid t = Some (Inr t') \<and> th_owner t' = Owner_free"
      if "n = (case th_owner t of Owner_free \<Rightarrow> 0
            | Owner_in_latch \<Rightarrow> (case th_child t of Child_begin \<Rightarrow> 3 | Child_tid_set \<Rightarrow> 2 | _ \<Rightarrow> 1)
            | Owner_in_join \<Rightarrow> (case th_child t of Child_running \<Rightarrow> 2 | _ \<Rightarrow> 1))" for n
      using t(2) that assms(1)
      by (cases "th_owner t"; cases "th_child t")
        (simp_all add: thread_inv_def thread_defs eval_nat_numeral)
    let ?n = "case th_owner t of Owner_free \<Rightarrow> 0
            | Owner_in_latch \<Rightarrow> (case th_child t of Child_begin \<Rightarrow> 3 | Child_tid_set \<Rightarrow> 2 | _ \<Rightarrow> 1)
            | Owner_in_join \<Rightarrow> (case th_child t of Child_running \<Rightarrow> 2 | _ \<Rightarrow> 1)"
    have "?n \<le> (3 :: nat)" by (cases "th_owner t"; cases "th_child t") simp_all
    then show ?thesis using ex [of ?n] by blast
  qed
  with t show ?thesis by (auto simp: thread_inv_def)
qed

theorem thread_start_returns_witness:
  "\<exists>t n t'. thread_reach 42 0 [] (Inr t) \<and> th_owner t = Owner_in_latch \<and>
     thread_steps n 42 t = Some (Inr t') \<and> th_owner t' = Owner_free"
proof -
  let ?t0 = "fst (thread_new 0 [])"
  obtain t where t: "thread_start True ?t0 = Inr t" "th_owner t = Owner_in_latch"
    by (simp add: thread_start_def thread_new_def)
  have "thread_use 42 ?t0 (thread_start True ?t0)"
    by (rule thread_use.start) (simp_all add: thread_new_def)
  then have r: "thread_reach 42 0 [] (Inr t)" using t(1) by (simp add: reach_first)
  have "(0 :: int) < 42" "th_owner t \<noteq> Owner_free" using t(2) by simp_all
  with thread_start_returns [OF _ r] r t(2) show ?thesis by blast
qed

text \<open>Calls in the wrong order abort, a failed start does not: starting a started thread,
  joining one that was never started or was already joined are assertion failures; when
  \<open>pthread_create\<close> fails \<open>start()\<close> just returns with the thread not started, so \<open>join()\<close> would
  abort and \<open>start()\<close> may be tried again.\<close>
theorem thread_misuse:
  "(th_started t \<longrightarrow> thread_start ok t = Inl (Assertion ''!started_'')) \<and>
   (\<not> th_started t \<longrightarrow> thread_join t = Inl (Assertion ''started_'') \<and> thread_start False t = Inr t) \<and>
   (th_started t \<and> th_joined t \<longrightarrow> thread_join t = Inl (Assertion ''!joined_''))"
  by (simp add: thread_start_def thread_join_def)

theorem thread_misuse_witness:
  "thread_join (fst (thread_new 3 ''worker'')) = Inl (Assertion ''started_'') \<and>
   thread_start False (fst (thread_new 3 ''worker'')) = Inr (fst (thread_new 3 ''worker''))"
  using thread_misuse [of "fst (thread_new 3 ''worker'')"] by (simp add: thread_new_def)

text \<open>The id of a thread is asked for once; its text is at least six characters long and complete.\<close>

lemma current_tid_cached:
  assumes "gettid \<noteq> 0"
  shows "current_tid other (snd (current_tid gettid thread_local_init))
    = (gettid, snd (current_tid gettid thread_local_init))"
  using assms by (simp add: current_tid_def cacheTid_def thread_local_init_def)

lemma tid_text_complete:
  assumes "0 < gettid" "gettid < 2 ^ 31"
  shows "t_tidString (snd (current_tid gettid thread_local_init)) = tid_text gettid"
    and "t_tidStringLength (snd (current_tid gettid thread_local_init)) = int (length (tid_text gettid))"
    and "6 \<le> length (tid_text gettid)"
proof -
  have "nat gettid < 10 ^ 10" using assms by (simp add: nat_less_iff)
  then have "length (int_decimal gettid) \<le> 10"
    using assms by (simp add: int_decimal_def length_decimal)
  then have "length (tid_text gettid) \<le> 31" by (simp add: tid_text_def)
  then show "t_tidString (snd (current_tid gettid thread_local_init)) = tid_text gettid"
    by (simp add: current_tid_def cacheTid_def thread_local_init_def)
  show "t_tidStringLength (snd (current_tid gettid thread_local_init)) = int (length (tid_text gettid))"
    by (simp add: current_tid_def cacheTid_def thread_local_init_def)
  show "6 \<le> length (tid_text gettid)" by (simp add: tid_text_def)
qed

text \<open>\<open>tidString\<close> and \<open>tidStringLength\<close> fit each other once \<open>tid()\<close> was called, and not before.\<close>

lemma tidString_length:
  assumes "0 < gettid" "gettid < 2 ^ 31"
  shows "int (length (tidString (snd (current_tid gettid thread_local_init)))) =
      tidStringLength (snd (current_tid gettid thread_local_init))"
    and "tidString thread_local_init = []" and "tidStringLength thread_local_init = 6"
    and "current_name (snd (current_tid gettid thread_local_init)) = ''default''"
  using tid_text_complete(1,2) [OF assms]
  by (simp_all add: tidString_def tidStringLength_def current_name_def thread_local_init_def
      current_tid_def cacheTid_def)

end
