(* ===== verification/Multi_Server.thy ===== *)
theory Multi_Server
  imports Tcp_Server Threads
begin

text \<open>
  The multi-threaded server: \<open>TcpServer.h\<close> and \<open>TcpServer.cpp\<close>. \<open>start()\<close>, called in the base
  loop, starts the base server and then creates one thread after the other, each time waiting
  until the thread has entered its loop into \<open>eventLoops_\<close>. A thread object runs its function
  only when it was started. The lemmas say which configurations can be started, what the missing
  start of the threads prevents, and what becomes of a server that is destroyed.
\<close>

section \<open>State\<close>

text \<open>
  Where \<open>startInLoop\<close> is: not called, waiting for loop \<open>i\<close>, or done; and where \<open>runInThread\<close> is in
  the thread of an index: its server built, its loop published, the server listening and the loop
  running, and the end.
\<close>

datatype start_pc = Start_not_called | Start_waiting nat | Start_done

datatype run_pc = Run_not_begun | Run_built | Run_published | Run_looping | Run_ended

text \<open>
  \<open>ts_loops\<close>: which entries of \<open>eventLoops_\<close> are set; \<open>ts_created\<close>: the threads created so far,
  by index; \<open>ts_servers\<close>: the servers on the stacks of the threads; \<open>ts_quit\<close>: the loops asked to
  quit; \<open>ts_inits\<close> records the calls of the thread-init callback.
\<close>

record tcp_server =
  ts_numThreads :: nat
  ts_started :: bool
  ts_loops :: "bool list"
  ts_threads :: "thread list"
  ts_base :: "single_server option"
  ts_created :: "nat \<rightharpoonup> thread"
  ts_pc :: start_pc
  ts_run :: "nat \<Rightarrow> run_pc"
  ts_servers :: "nat \<Rightarrow> single_server"
  ts_quit :: "nat list"
  ts_inits :: "nat list"

section \<open>Operations\<close>

definition tcp_server_new :: tcp_server where
  "tcp_server_new =
     \<lparr>ts_numThreads = 1, ts_started = False, ts_loops = [], ts_threads = [], ts_base = None,
      ts_created = Map.empty, ts_pc = Start_not_called, ts_run = (\<lambda>_. Run_not_begun),
      ts_servers = (\<lambda>_. server_new (- 1) False), ts_quit = [], ts_inits = []\<rparr>"

definition setNumThread :: "nat \<Rightarrow> tcp_server \<Rightarrow> tcp_server res" where
  "setNumThread n s =
     assertE (n > 0) ''n > 0'' (
     assertE (\<not> ts_started s) ''!started_''
       (Inr (s\<lparr>ts_numThreads := n,
               ts_loops := take n (ts_loops s) @ replicate (n - length (ts_loops s)) False\<rparr>)))"

text \<open>The head of one round of the loop over the threads.\<close>

definition next_thread :: "nat \<Rightarrow> tcp_server \<Rightarrow> tcp_server" where
  "next_thread i s =
     (if i < ts_numThreads s
      then s\<lparr>ts_created := (ts_created s)(i \<mapsto> fst (thread_new (int i) [])), ts_pc := Start_waiting i\<rparr>
      else s\<lparr>ts_pc := Start_done\<rparr>)"

text \<open>\<open>fd\<close> is the listening descriptor of the base server.\<close>

definition startInLoop :: "int \<Rightarrow> bool \<Rightarrow> tcp_server \<Rightarrow> tcp_server res" where
  "startInLoop fd wcb s =
     bindE (server_start (server_new fd wcb)) (\<lambda>b.
       Inr (next_thread 1 (s\<lparr>ts_base := Some b, ts_inits := ts_inits s @ [0]\<rparr>)))"

definition tcp_server_start :: "int \<Rightarrow> bool \<Rightarrow> tcp_server \<Rightarrow> tcp_server res" where
  "tcp_server_start fd wcb s =
     (if ts_started s then Inr s else startInLoop fd wcb (s\<lparr>ts_started := True\<rparr>))"

text \<open>
  The wait of \<open>startInLoop\<close>, and the rest of the round when it ends: the loop tests and reads
  \<open>eventLoops_[i]\<close>. \<open>None\<close>: it waits.
\<close>

definition start_wait :: "tcp_server \<Rightarrow> tcp_server res option" where
  "start_wait s =
     (case ts_pc s of
        Start_waiting i \<Rightarrow>
          if i < length (ts_loops s)
          then (if ts_loops s ! i
                then (case ts_created s i of
                        Some t \<Rightarrow> Some (Inr (next_thread (i + 1) (s\<lparr>ts_threads := ts_threads s @ [t]\<rparr>)))
                      | None \<Rightarrow> Some (Inl Null_pointer))
                else None)
          else Some (Inl Out_of_bounds)
      | _ \<Rightarrow> None)"

text \<open>
  The next step of \<open>runInThread(i)\<close>, on a listening descriptor \<open>fd\<close> of its own; \<open>loop()\<close> returns when
  the loop was asked to quit, and then the server on the stack is destroyed.
\<close>

definition runInThread :: "int \<Rightarrow> bool \<Rightarrow> nat \<Rightarrow> tcp_server \<Rightarrow> tcp_server res option" where
  "runInThread fd wcb i s =
     (case ts_run s i of
        Run_not_begun \<Rightarrow>
          (case ts_created s i of
             Some t \<Rightarrow>
               if th_started t
               then Some (Inr (s\<lparr>ts_servers := (ts_servers s)(i := server_new fd wcb),
                                 ts_run := (ts_run s)(i := Run_built)\<rparr>))
               else None
           | None \<Rightarrow> None)
      | Run_built \<Rightarrow>
          Some (if i < length (ts_loops s)
                then Inr (s\<lparr>ts_loops := (ts_loops s)[i := True], ts_run := (ts_run s)(i := Run_published)\<rparr>)
                else Inl Out_of_bounds)
      | Run_published \<Rightarrow>
          Some (bindE (server_start (ts_servers s i)) (\<lambda>sv.
            Inr (s\<lparr>ts_inits := ts_inits s @ [i], ts_servers := (ts_servers s)(i := sv),
                   ts_run := (ts_run s)(i := Run_looping)\<rparr>)))
      | Run_looping \<Rightarrow>
          if i \<in> set (ts_quit s)
          then Some (bindE (server_dtor (ts_servers s i)) (\<lambda>_.
            Inr (s\<lparr>ts_loops := (ts_loops s)[i := False], ts_run := (ts_run s)(i := Run_ended)\<rparr>)))
          else None
      | Run_ended \<Rightarrow> None)"

inductive tcp_server_step :: "tcp_server \<Rightarrow> tcp_server res \<Rightarrow> bool" where
  base: "start_wait s = Some r \<Longrightarrow> tcp_server_step s r"
| thread: "runInThread fd wcb i s = Some r \<Longrightarrow> tcp_server_step s r"

inductive_cases tcp_server_step_cases: "tcp_server_step s r"

text \<open>The destructor: the loops that are set are asked to quit, the threads are joined, and the
  base server is destroyed.\<close>

fun join_all :: "thread list \<Rightarrow> unit res" where
  "join_all [] = Inr ()"
| "join_all (t # ts) = bindE (thread_join t) (\<lambda>_. join_all ts)"

definition quit_all :: "tcp_server \<Rightarrow> tcp_server" where
  "quit_all s = s\<lparr>ts_quit := filter (\<lambda>i. ts_loops s ! i) [0..<length (ts_loops s)]\<rparr>"

definition tcp_server_dtor :: "tcp_server \<Rightarrow> unit res" where
  "tcp_server_dtor s =
     (let s1 = quit_all s in
      bindE (join_all (ts_threads s1)) (\<lambda>_.
        case ts_base s1 of None \<Rightarrow> Inr () | Some b \<Rightarrow> server_dtor b))"

section \<open>Starting\<close>

lemma server_start_new:
  "\<exists>b. server_start (server_new fd wcb) = Inr b \<and> isReading (ac_channel (sv_acceptor b))"
  by (simp add: server_start_def server_new_def acceptor_listen_def acceptor_new_def enableRead_def
      updateChannel_def isNoneEvent_def channel_new_def isReading_def has_def)

lemma server_dtor_started:
  assumes "server_start (server_new fd wcb) = Inr b"
  shows "\<exists>w. server_dtor b = Inl (Assertion w)"
  using acceptor_dtor_fails assms by (auto simp: server_start_def server_new_def server_dtor_def bindE_Inr_iff)

lemma not_started_stuck:
  assumes "ts_pc s = Start_waiting i" "i < length (ts_loops s)" "\<not> ts_loops s ! i"
    and "\<forall>j. ts_run s j = Run_not_begun" "\<forall>j t. ts_created s j = Some t \<longrightarrow> \<not> th_started t"
  shows "\<not> tcp_server_step s r"
proof
  assume "tcp_server_step s r"
  then show False
    by (cases rule: tcp_server_step_cases)
      (use assms in \<open>auto simp: start_wait_def runInThread_def split: option.splits if_splits\<close>)
qed

text \<open>Had the thread been started, two steps of it would end the wait.\<close>

definition started_thread :: "nat \<Rightarrow> tcp_server \<Rightarrow> tcp_server" where
  "started_thread i s =
     s\<lparr>ts_created := (ts_created s)(i := map_option (\<lambda>t. t\<lparr>th_started := True\<rparr>) (ts_created s i))\<rparr>"

lemma started_passes:
  assumes "ts_pc s = Start_waiting i" "i < length (ts_loops s)" "ts_run s i = Run_not_begun"
    and "ts_created s i = Some t"
  shows "\<exists>s1 s2 s3. tcp_server_step (started_thread i s) (Inr s1) \<and> tcp_server_step s1 (Inr s2) \<and>
     tcp_server_step s2 (Inr s3) \<and> ts_pc s3 = ts_pc (next_thread (i + 1) s)"
proof -
  let ?s = "started_thread i s"
  let ?s1 = "?s\<lparr>ts_servers := (ts_servers ?s)(i := server_new 0 False), ts_run := (ts_run ?s)(i := Run_built)\<rparr>"
  let ?s2 = "?s1\<lparr>ts_loops := (ts_loops ?s1)[i := True], ts_run := (ts_run ?s1)(i := Run_published)\<rparr>"
  let ?t = "t\<lparr>th_started := True\<rparr>"
  let ?s3 = "next_thread (i + 1) (?s2\<lparr>ts_threads := ts_threads ?s2 @ [?t]\<rparr>)"
  have c: "ts_created ?s i = Some ?t" "ts_run ?s = ts_run s" "ts_loops ?s = ts_loops s" "ts_pc ?s = ts_pc s"
      "ts_numThreads ?s = ts_numThreads s"
    using assms(4) by (simp_all add: started_thread_def)
  have "tcp_server_step ?s (Inr ?s1)"
    by (rule tcp_server_step.thread [of 0 False i]) (simp add: runInThread_def assms(3) c)
  moreover have "tcp_server_step ?s1 (Inr ?s2)"
    by (rule tcp_server_step.thread [of 0 False i]) (simp add: runInThread_def assms(2) c)
  moreover have "tcp_server_step ?s2 (Inr ?s3)"
    by (rule tcp_server_step.base) (simp add: start_wait_def assms(1,2) c)
  moreover have "ts_pc ?s3 = ts_pc (next_thread (i + 1) s)" by (simp add: next_thread_def c)
  ultimately show ?thesis by blast
qed

section \<open>Properties\<close>

text \<open>A server with more than one thread never starts: \<open>startInLoop\<close> creates the first
  thread but does not start it and waits for the loop that this thread would publish, so the
  base loop, which runs it, is stuck with no step possible, its listening socket open and
  never served, though two steps of the thread would end the wait had it been started. With one
  thread, the default, starting succeeds at once; but a server that was started cannot be
  destroyed, as the destructor of its base server aborts, while one that was not started can.\<close>
theorem multi_server_hangs:
  assumes "setNumThread n tcp_server_new = Inr s0"
  shows "tcp_server_dtor s0 = Inr () \<and>
     (\<exists>s b. tcp_server_start fd wcb s0 = Inr s \<and> ts_base s = Some b \<and> isReading (ac_channel (sv_acceptor b)) \<and>
     (if n = 1 then ts_pc s = Start_done \<and> (\<exists>w. tcp_server_dtor s = Inl (Assertion w))
      else ts_pc s = Start_waiting 1 \<and> (\<nexists>r. tcp_server_step s r) \<and>
           (\<exists>s1 s2 s3. tcp_server_step (started_thread 1 s) (Inr s1) \<and> tcp_server_step s1 (Inr s2) \<and>
              tcp_server_step s2 (Inr s3) \<and> ts_pc s3 \<noteq> Start_waiting 1)))"
proof -
  have n: "0 < n" and s0: "s0 = tcp_server_new\<lparr>ts_numThreads := n, ts_loops := replicate n False\<rparr>"
    using assms by (auto simp: setNumThread_def res_simps tcp_server_new_def)
  obtain b where b: "server_start (server_new fd wcb) = Inr b" "isReading (ac_channel (sv_acceptor b))"
    using server_start_new by blast
  define s where "s = next_thread 1 (s0\<lparr>ts_started := True, ts_base := Some b, ts_inits := [0]\<rparr>)"
  have start: "tcp_server_start fd wcb s0 = Inr s"
    using b(1) by (simp add: tcp_server_start_def startInLoop_def s_def s0 tcp_server_new_def)
  have base: "ts_base s = Some b" by (simp add: s_def next_thread_def)
  have new: "tcp_server_dtor s0 = Inr ()"
    by (simp add: tcp_server_dtor_def quit_all_def s0 tcp_server_new_def)
  show ?thesis
  proof (cases "n = 1")
    case True
    have "\<exists>w. tcp_server_dtor s = Inl (Assertion w)"
      using server_dtor_started [OF b(1)] True
      by (auto simp: tcp_server_dtor_def quit_all_def s_def s0 next_thread_def tcp_server_new_def)
    with new start base b(2) True show ?thesis by (auto simp: s_def s0 next_thread_def)
  next
    case False
    have st: "ts_pc s = Start_waiting 1" "ts_created s = [1 \<mapsto> fst (thread_new 1 [])]"
        "ts_loops s = replicate n False" "ts_run s = (\<lambda>_. Run_not_begun)"
      using n False by (simp_all add: s_def s0 next_thread_def tcp_server_new_def)
    have l: "1 < length (ts_loops s)" "\<not> ts_loops s ! 1" using st(3) n False by simp_all
    have stuck: "\<nexists>r. tcp_server_step s r"
      using not_started_stuck [OF st(1) l] st by (auto simp: thread_new_def split: if_splits)
    have p: "ts_pc (next_thread (1 + 1) s) \<noteq> Start_waiting 1" by (simp add: next_thread_def)
    have "\<exists>s1 s2 s3. tcp_server_step (started_thread 1 s) (Inr s1) \<and> tcp_server_step s1 (Inr s2) \<and>
        tcp_server_step s2 (Inr s3) \<and> ts_pc s3 \<noteq> Start_waiting 1"
      using started_passes [OF st(1) l(1)] st(2,4) p by force
    with new start base b(2) st(1) stuck False show ?thesis by auto
  qed
qed

theorem multi_server_hangs_witness:
  "\<exists>s0 s. setNumThread 4 tcp_server_new = Inr s0 \<and> tcp_server_start 5 False s0 = Inr s \<and>
     ts_pc s = Start_waiting 1 \<and> (\<nexists>r. tcp_server_step s r)"
proof -
  obtain s0 where s0: "setNumThread 4 tcp_server_new = Inr s0"
    by (simp add: setNumThread_def tcp_server_new_def)
  from multi_server_hangs [OF s0, of 5 False] s0 show ?thesis by auto
qed

end
