(* ===== verification/Server_Callbacks.thy ===== *)
theory Server_Callbacks
  imports Tcp_Server
begin

text \<open>
  How the functions that a user gives to a server come to be called: the callback members of
  \<open>TcpServer\<close>, \<open>TcpServerSingle\<close>, \<open>TcpConnection\<close>, \<open>Acceptor\<close> and \<open>Channel\<close>, their setters, and the
  places where one object hands them to the next. A member is a \<open>std::function\<close>, which may be empty;
  some calls are guarded by a test, the others throw \<open>std::bad_function_call\<close>. The other theories
  take the callbacks as given and say what happens when they are called; here they are values. The
  lemmas show that a \<open>TcpServer\<close> calls an empty function only if its user set one, and which functions are
  called for a connection, and what a \<open>TcpServerSingle\<close> does whose user sets none. Setting a callback and
  handing it on are one step each: the members are not protected against a setter in another thread.
\<close>

section \<open>Functions\<close>

text \<open>What a member may hold: a function of the user, one of the defaults of \<open>TcpConnection.cpp\<close>, or
  one that the library itself binds.\<close>

datatype 'f func =
    User_func 'f
  | Default_thread_init
  | Default_connection
  | Default_message
  | Bound string

type_synonym 'f slot = "'f func option"

text \<open>The calls made so far, each with the server or connection it is about.\<close>

type_synonym 'f calls = "('f func \<times> nat) list"

definition invoke :: "'f slot \<Rightarrow> nat \<Rightarrow> 'f calls \<Rightarrow> 'f calls res" where
  "invoke f i cs = (case f of None \<Rightarrow> Inl (Exception ''bad_function_call'') | Some g \<Rightarrow> Inr (cs @ [(g, i)]))"

text \<open>\<open>if(f) f(...)\<close>\<close>

definition invoke_if :: "'f slot \<Rightarrow> nat \<Rightarrow> 'f calls \<Rightarrow> 'f calls res" where
  "invoke_if f i cs = (if f \<noteq> None then invoke f i cs else Inr cs)"

section \<open>Channel\<close>

record 'f channel_callbacks =
  hb_read :: "'f slot"
  hb_write :: "'f slot"
  hb_close :: "'f slot"
  hb_error :: "'f slot"

definition channel_callbacks_new :: "'f channel_callbacks" where
  "channel_callbacks_new = \<lparr>hb_read = None, hb_write = None, hb_close = None, hb_error = None\<rparr>"

definition setReadCallback :: "'f slot \<Rightarrow> 'f channel_callbacks \<Rightarrow> 'f channel_callbacks" where
  "setReadCallback cb h = h\<lparr>hb_read := cb\<rparr>"

definition setWriteCallback :: "'f slot \<Rightarrow> 'f channel_callbacks \<Rightarrow> 'f channel_callbacks" where
  "setWriteCallback cb h = h\<lparr>hb_write := cb\<rparr>"

definition channel_setCloseCallback :: "'f slot \<Rightarrow> 'f channel_callbacks \<Rightarrow> 'f channel_callbacks" where
  "channel_setCloseCallback cb h = h\<lparr>hb_close := cb\<rparr>"

definition setErrorCallback :: "'f slot \<Rightarrow> 'f channel_callbacks \<Rightarrow> 'f channel_callbacks" where
  "setErrorCallback cb h = h\<lparr>hb_error := cb\<rparr>"

section \<open>Connection\<close>

record 'f conn_slots =
  cc_channel :: "'f channel_callbacks"
  cc_message :: "'f slot"
  cc_writeComplete :: "'f slot"
  cc_highWaterMark :: "'f slot"
  cc_mark :: size_t
  cc_close :: "'f slot"

text \<open>The constructor sets the callbacks of the channel and leaves its own empty.\<close>

definition conn_slots_new :: "'f conn_slots" where
  "conn_slots_new =
     \<lparr>cc_channel =
        setErrorCallback (Some (Bound ''handleError'')) (channel_setCloseCallback (Some (Bound ''handleClose''))
          (setWriteCallback (Some (Bound ''handleWrite'')) (setReadCallback (Some (Bound ''handleRead''))
            channel_callbacks_new))),
      cc_message = None, cc_writeComplete = None, cc_highWaterMark = None, cc_mark = 0, cc_close = None\<rparr>"

definition conn_setMessageCallback :: "'f slot \<Rightarrow> 'f conn_slots \<Rightarrow> 'f conn_slots" where
  "conn_setMessageCallback cb c = c\<lparr>cc_message := cb\<rparr>"

definition conn_setWriteCompleteCallback :: "'f slot \<Rightarrow> 'f conn_slots \<Rightarrow> 'f conn_slots" where
  "conn_setWriteCompleteCallback cb c = c\<lparr>cc_writeComplete := cb\<rparr>"

definition setHighWaterMarkCallback :: "'f slot \<Rightarrow> size_t \<Rightarrow> 'f conn_slots \<Rightarrow> 'f conn_slots" where
  "setHighWaterMarkCallback cb mark c = c\<lparr>cc_highWaterMark := cb, cc_mark := mark\<rparr>"

definition setCloseCallBack :: "'f slot \<Rightarrow> 'f conn_slots \<Rightarrow> 'f conn_slots" where
  "setCloseCallBack cb c = c\<lparr>cc_close := cb\<rparr>"

section \<open>Server of one loop\<close>

record 'f single_callbacks =
  sg_newConnection :: "'f slot"
  sg_connection :: "'f slot"
  sg_message :: "'f slot"
  sg_writeComplete :: "'f slot"

definition setNewConnectionCallback :: "'f slot \<Rightarrow> 'f single_callbacks \<Rightarrow> 'f single_callbacks" where
  "setNewConnectionCallback cb s = s\<lparr>sg_newConnection := cb\<rparr>"

text \<open>The constructor: only the acceptor's callback is set.\<close>

definition single_callbacks_new :: "'f single_callbacks" where
  "single_callbacks_new =
     setNewConnectionCallback (Some (Bound ''newConnection''))
       \<lparr>sg_newConnection = None, sg_connection = None, sg_message = None, sg_writeComplete = None\<rparr>"

definition single_setConnectionCallback :: "'f slot \<Rightarrow> 'f single_callbacks \<Rightarrow> 'f single_callbacks" where
  "single_setConnectionCallback cb s = s\<lparr>sg_connection := cb\<rparr>"

definition single_setMessageCallback :: "'f slot \<Rightarrow> 'f single_callbacks \<Rightarrow> 'f single_callbacks" where
  "single_setMessageCallback cb s = s\<lparr>sg_message := cb\<rparr>"

definition single_setWriteCompleteCallback :: "'f slot \<Rightarrow> 'f single_callbacks \<Rightarrow> 'f single_callbacks" where
  "single_setWriteCompleteCallback cb s = s\<lparr>sg_writeComplete := cb\<rparr>"

text \<open>What \<open>newConnection\<close> sets in the new connection.\<close>

definition new_conn_callbacks :: "'f single_callbacks \<Rightarrow> 'f conn_slots" where
  "new_conn_callbacks s =
     setCloseCallBack (Some (Bound ''closeConnection''))
       (conn_setWriteCompleteCallback (sg_writeComplete s)
         (conn_setMessageCallback (sg_message s) conn_slots_new))"

section \<open>Server of several loops\<close>

record 'f server_callbacks =
  sc_threadInit :: "'f slot"
  sc_connection :: "'f slot"
  sc_message :: "'f slot"
  sc_writeComplete :: "'f slot"

definition server_callbacks_new :: "'f server_callbacks" where
  "server_callbacks_new =
     \<lparr>sc_threadInit = Some Default_thread_init, sc_connection = Some Default_connection,
      sc_message = Some Default_message, sc_writeComplete = None\<rparr>"

definition setThreadInitCallback :: "'f slot \<Rightarrow> 'f server_callbacks \<Rightarrow> 'f server_callbacks" where
  "setThreadInitCallback cb s = s\<lparr>sc_threadInit := cb\<rparr>"

definition setConnectionCallback :: "'f slot \<Rightarrow> 'f server_callbacks \<Rightarrow> 'f server_callbacks" where
  "setConnectionCallback cb s = s\<lparr>sc_connection := cb\<rparr>"

definition setMessageCallback :: "'f slot \<Rightarrow> 'f server_callbacks \<Rightarrow> 'f server_callbacks" where
  "setMessageCallback cb s = s\<lparr>sc_message := cb\<rparr>"

definition setWriteCompleteCallback :: "'f slot \<Rightarrow> 'f server_callbacks \<Rightarrow> 'f server_callbacks" where
  "setWriteCompleteCallback cb s = s\<lparr>sc_writeComplete := cb\<rparr>"

text \<open>What \<open>startInLoop\<close> and \<open>runInThread\<close> set in the server that they build.\<close>

definition copy_callbacks :: "'f server_callbacks \<Rightarrow> 'f single_callbacks" where
  "copy_callbacks s =
     single_setWriteCompleteCallback (sc_writeComplete s)
       (single_setMessageCallback (sc_message s)
         (single_setConnectionCallback (sc_connection s) single_callbacks_new))"

section \<open>A running server\<close>

text \<open>\<open>su_singles\<close>: the servers of the loops, by index; \<open>su_conns\<close>: the connections accepted so
  far, each with the index of its server.\<close>

record 'f wiring =
  su_server :: "'f server_callbacks"
  su_singles :: "nat \<rightharpoonup> 'f single_callbacks"
  su_conns :: "(nat \<times> 'f conn_slots) list"
  su_calls :: "'f calls"

definition wiring_new :: "'f wiring" where
  "wiring_new =
     \<lparr>su_server = server_callbacks_new, su_singles = Map.empty, su_conns = [], su_calls = []\<rparr>"

definition on_calls :: "'f wiring \<Rightarrow> 'f calls res \<Rightarrow> 'f wiring res" where
  "on_calls s r = bindE r (\<lambda>cs. Inr (s\<lparr>su_calls := cs\<rparr>))"

text \<open>Building the server of loop \<open>i\<close>, up to the call of the thread-init callback.\<close>

definition start_single :: "nat \<Rightarrow> 'f wiring \<Rightarrow> 'f wiring res" where
  "start_single i s =
     (let s1 = s\<lparr>su_singles := (su_singles s)(i \<mapsto> copy_callbacks (su_server s))\<rparr>
      in on_calls s1 (invoke (sc_threadInit (su_server s1)) i (su_calls s1)))"

text \<open>A client connects to the server of loop \<open>i\<close>: \<open>Acceptor::handleRead\<close>, then \<open>newConnection\<close>.\<close>

definition accept_conn :: "nat \<Rightarrow> 'f single_callbacks \<Rightarrow> 'f wiring \<Rightarrow> 'f wiring res" where
  "accept_conn i c s =
     (if sg_newConnection c \<noteq> None
      then on_calls (s\<lparr>su_conns := su_conns s @ [(i, new_conn_callbacks c)]\<rparr>)
             (invoke (sg_connection c) (length (su_conns s)) (su_calls s))
      else Inr s)"

text \<open>What happens to connection \<open>k\<close>: data (\<open>handleRead\<close>), output written or over the mark
  (\<open>sendInLoop\<close>, \<open>handleWrite\<close>), the close (\<open>handleClose\<close>, then \<open>closeConnection\<close>).\<close>

datatype conn_moment = Data_read | Output_written | Mark_passed | Closing

fun conn_calls :: "conn_moment \<Rightarrow> nat \<Rightarrow> 'f single_callbacks \<Rightarrow> 'f conn_slots \<Rightarrow> 'f calls \<Rightarrow> 'f calls res" where
  "conn_calls Data_read k sg c cs = invoke (cc_message c) k cs"
| "conn_calls Output_written k sg c cs = invoke_if (cc_writeComplete c) k cs"
| "conn_calls Mark_passed k sg c cs = invoke_if (cc_highWaterMark c) k cs"
| "conn_calls Closing k sg c cs = bindE (invoke (cc_close c) k cs) (invoke (sg_connection sg) k)"

text \<open>The steps: the user sets a callback of the server, or of a connection it was given, to a function or
  to the empty one; a loop gets its server, a client comes, something happens to a connection.\<close>

datatype server_slot = Thread_init_slot | Connection_slot | Message_slot | Write_complete_slot

fun server_setter :: "server_slot \<Rightarrow> 'f slot \<Rightarrow> 'f server_callbacks \<Rightarrow> 'f server_callbacks" where
  "server_setter Thread_init_slot = setThreadInitCallback"
| "server_setter Connection_slot = setConnectionCallback"
| "server_setter Message_slot = setMessageCallback"
| "server_setter Write_complete_slot = setWriteCompleteCallback"

datatype conn_slot = Conn_message | Conn_write_complete | Conn_high_water size_t

fun conn_setter :: "conn_slot \<Rightarrow> 'f slot \<Rightarrow> 'f conn_slots \<Rightarrow> 'f conn_slots" where
  "conn_setter Conn_message = conn_setMessageCallback"
| "conn_setter Conn_write_complete = conn_setWriteCompleteCallback"
| "conn_setter (Conn_high_water mark) = (\<lambda>f. setHighWaterMarkCallback f mark)"

datatype 'f wiring_event =
    Set_server server_slot "'f option"
  | Set_conn nat conn_slot "'f option"
  | Start_single nat
  | Accept_conn nat
  | Conn_moment nat conn_moment

fun wiring_step :: "'f wiring_event \<Rightarrow> 'f wiring \<Rightarrow> 'f wiring res" where
  "wiring_step (Set_server sl f) s =
     Inr (s\<lparr>su_server := server_setter sl (map_option User_func f) (su_server s)\<rparr>)"
| "wiring_step (Set_conn k sl f) s =
     Inr (s\<lparr>su_conns := (su_conns s)[k := map_prod id (conn_setter sl (map_option User_func f)) (su_conns s ! k)]\<rparr>)"
| "wiring_step (Start_single i) s = start_single i s"
| "wiring_step (Accept_conn i) s =
     (case su_singles s i of None \<Rightarrow> Inr s | Some c \<Rightarrow> accept_conn i c s)"
| "wiring_step (Conn_moment k m) s =
     (case su_conns s ! k of (i, c) \<Rightarrow>
        case su_singles s i of None \<Rightarrow> Inr s | Some sg \<Rightarrow> on_calls s (conn_calls m k sg c (su_calls s)))"

fun wiring_run :: "'f wiring_event list \<Rightarrow> 'f wiring \<Rightarrow> 'f wiring res" where
  "wiring_run [] s = Inr s"
| "wiring_run (ev # evs) s = bindE (wiring_step ev s) (wiring_run evs)"

text \<open>Only connections that exist are used, and a loop gets its server once.\<close>

fun wiring_ok :: "'f wiring_event \<Rightarrow> 'f wiring \<Rightarrow> bool" where
  "wiring_ok (Set_conn k sl f) s = (k < length (su_conns s))"
| "wiring_ok (Conn_moment k m) s = (k < length (su_conns s))"
| "wiring_ok (Start_single i) s = (su_singles s i = None)"
| "wiring_ok _ s = True"

fun wiring_all_ok :: "'f wiring_event list \<Rightarrow> 'f wiring \<Rightarrow> bool" where
  "wiring_all_ok [] s = True"
| "wiring_all_ok (ev # evs) s =
     (wiring_ok ev s \<and> (case wiring_step ev s of Inl e \<Rightarrow> True | Inr s' \<Rightarrow> wiring_all_ok evs s'))"

section \<open>No function is empty\<close>

lemmas setter_defs =
  setReadCallback_def setWriteCallback_def channel_setCloseCallback_def setErrorCallback_def
  conn_setMessageCallback_def conn_setWriteCompleteCallback_def setHighWaterMarkCallback_def
  setCloseCallBack_def setNewConnectionCallback_def single_setConnectionCallback_def
  single_setMessageCallback_def single_setWriteCompleteCallback_def setThreadInitCallback_def
  setConnectionCallback_def setMessageCallback_def setWriteCompleteCallback_def

lemmas new_defs =
  channel_callbacks_new_def conn_slots_new_def single_callbacks_new_def new_conn_callbacks_def
  server_callbacks_new_def copy_callbacks_def wiring_new_def

lemma invoke_simps [simp]: "invoke (Some f) i cs = Inr (cs @ [(f, i)])"
  by (simp add: invoke_def)

text \<open>The functions that may be called: what the events set, the defaults, and the bound ones.\<close>

fun funcs_of :: "'f wiring_event list \<Rightarrow> 'f func set" where
  "funcs_of [] = {Default_thread_init, Default_connection, Default_message, Bound ''closeConnection'',
     Bound ''newConnection''}"
| "funcs_of (Set_server sl f # evs) = User_func ` set_option f \<union> funcs_of evs"
| "funcs_of (Set_conn k sl f # evs) = User_func ` set_option f \<union> funcs_of evs"
| "funcs_of (_ # evs) = funcs_of evs"

text \<open>The events that leave a callback empty which is called without a test.\<close>

fun sets_empty :: "'f wiring_event \<Rightarrow> bool" where
  "sets_empty (Set_server sl f) = (f = None \<and> sl \<noteq> Write_complete_slot)"
| "sets_empty (Set_conn k sl f) = (f = None \<and> sl = Conn_message)"
| "sets_empty _ = False"

text \<open>What a slot may hold: \<open>E\<close> says whether such an event occurs.\<close>

definition holds_func :: "'f func set \<Rightarrow> 'f slot \<Rightarrow> bool" where
  "holds_func F f \<longleftrightarrow> (\<exists>g \<in> F. f = Some g)"

definition may_hold_func :: "'f func set \<Rightarrow> 'f slot \<Rightarrow> bool" where
  "may_hold_func F f \<longleftrightarrow> f = None \<or> holds_func F f"

definition needs_func :: "bool \<Rightarrow> 'f func set \<Rightarrow> 'f slot \<Rightarrow> bool" where
  "needs_func E F f \<longleftrightarrow> holds_func F f \<or> E \<and> f = None"

definition server_filled :: "bool \<Rightarrow> 'f func set \<Rightarrow> 'f server_callbacks \<Rightarrow> bool" where
  "server_filled E F s \<longleftrightarrow>
     needs_func E F (sc_threadInit s) \<and> needs_func E F (sc_connection s) \<and> needs_func E F (sc_message s) \<and>
     may_hold_func F (sc_writeComplete s)"

definition single_filled :: "bool \<Rightarrow> 'f func set \<Rightarrow> 'f single_callbacks \<Rightarrow> bool" where
  "single_filled E F s \<longleftrightarrow>
     holds_func F (sg_newConnection s) \<and> needs_func E F (sg_connection s) \<and> needs_func E F (sg_message s) \<and>
     may_hold_func F (sg_writeComplete s)"

definition conn_filled :: "bool \<Rightarrow> 'f func set \<Rightarrow> 'f conn_slots \<Rightarrow> bool" where
  "conn_filled E F c \<longleftrightarrow>
     needs_func E F (cc_message c) \<and> holds_func F (cc_close c) \<and> may_hold_func F (cc_writeComplete c) \<and>
     may_hold_func F (cc_highWaterMark c)"

definition wiring_inv :: "bool \<Rightarrow> 'f func set \<Rightarrow> 'f wiring \<Rightarrow> bool" where
  "wiring_inv E F s \<longleftrightarrow>
     server_filled E F (su_server s) \<and> (\<forall>i c. su_singles s i = Some c \<longrightarrow> single_filled E F c) \<and>
     (\<forall>x \<in> set (su_conns s). conn_filled E F (snd x) \<and> su_singles s (fst x) \<noteq> None) \<and> fst ` set (su_calls s) \<subseteq> F"

lemmas filled_defs =
  server_filled_def single_filled_def conn_filled_def holds_func_def may_hold_func_def needs_func_def

text \<open>The result satisfies \<open>P\<close>, or an empty function was called, after an event that set one.\<close>

definition called :: "bool \<Rightarrow> ('a \<Rightarrow> bool) \<Rightarrow> 'a res \<Rightarrow> bool" where
  "called E P r = (case r of Inl e \<Rightarrow> E \<and> e = Exception ''bad_function_call'' | Inr x \<Rightarrow> P x)"

lemma called_simps [simp]:
  "called E P (Inr x) = P x" "called E P (Inl e) = (E \<and> e = Exception ''bad_function_call'')"
  by (simp_all add: called_def)

lemma called_bind: "called E P m \<Longrightarrow> (\<And>x. P x \<Longrightarrow> called E Q (f x)) \<Longrightarrow> called E Q (bindE m f)"
  by (cases m) simp_all

lemma invoke_called:
  "needs_func E F f \<Longrightarrow> fst ` set cs \<subseteq> F \<Longrightarrow> called E (\<lambda>cs'. fst ` set cs' \<subseteq> F) (invoke f i cs)"
  by (auto simp: filled_defs invoke_def)

lemma conn_calls_filled:
  assumes "single_filled E F sg" "conn_filled E F c" "fst ` set cs \<subseteq> F"
  shows "called E (\<lambda>cs'. fst ` set cs' \<subseteq> F) (conn_calls m k sg c cs)"
proof (cases m)
  case Closing
  have "called E (\<lambda>cs'. fst ` set cs' \<subseteq> F) (invoke (cc_close c) k cs)"
    by (rule invoke_called) (use assms in \<open>simp_all add: conn_filled_def needs_func_def\<close>)
  then have "called E (\<lambda>cs'. fst ` set cs' \<subseteq> F) (bindE (invoke (cc_close c) k cs) (invoke (sg_connection sg) k))"
    by (rule called_bind) (use assms in \<open>simp add: single_filled_def invoke_called\<close>)
  with Closing show ?thesis by simp
qed (use assms in \<open>auto simp: conn_filled_def invoke_called invoke_if_def filled_defs\<close>)

lemma on_calls_inv:
  assumes "called E (\<lambda>cs. fst ` set cs \<subseteq> F) r" "\<And>cs. fst ` set cs \<subseteq> F \<Longrightarrow> wiring_inv E F (s\<lparr>su_calls := cs\<rparr>)"
  shows "called E (wiring_inv E F) (on_calls s r)"
  unfolding on_calls_def using assms by (cases r) simp_all

lemma wiring_step_inv:
  assumes inv: "wiring_inv E F s" and ok: "wiring_ok ev s" and F: "funcs_of [ev] \<subseteq> F" and E: "sets_empty ev \<Longrightarrow> E"
  shows "called E (wiring_inv E F) (wiring_step ev s)"
proof (cases ev)
  case (Set_server sl f)
  then show ?thesis
    using inv F E by (cases sl; cases f) (auto simp: wiring_inv_def filled_defs setter_defs)
next
  case (Set_conn k sl f)
  have "conn_filled E F (conn_setter sl (map_option User_func f) c)" if "conn_filled E F c" for c
    using that F E Set_conn by (cases sl; cases f) (auto simp: filled_defs setter_defs)
  moreover have "conn_filled E F (snd (su_conns s ! k))" "su_singles s (fst (su_conns s ! k)) \<noteq> None"
    using inv ok Set_conn nth_mem [of k "su_conns s"] unfolding wiring_inv_def by simp_all
  ultimately show ?thesis
    using inv Set_conn by (auto simp: wiring_inv_def dest!: set_update_subset_insert [THEN subsetD])
next
  case (Start_single i)
  let ?s1 = "s\<lparr>su_singles := (su_singles s)(i \<mapsto> copy_callbacks (su_server s))\<rparr>"
  have "single_filled E F (copy_callbacks (su_server s))"
    using inv F Start_single
    by (auto simp: wiring_inv_def filled_defs copy_callbacks_def single_callbacks_new_def setter_defs)
  then have "wiring_inv E F ?s1" using inv by (auto simp: wiring_inv_def)
  then have "called E (wiring_inv E F) (on_calls ?s1 (invoke (sc_threadInit (su_server ?s1)) i (su_calls ?s1)))"
    by (intro on_calls_inv invoke_called) (auto simp: wiring_inv_def server_filled_def)
  with Start_single show ?thesis by (simp add: start_single_def)
next
  case (Accept_conn i)
  show ?thesis
  proof (cases "su_singles s i")
    case None
    with inv Accept_conn show ?thesis by simp
  next
    case (Some c)
    let ?s1 = "s\<lparr>su_conns := su_conns s @ [(i, new_conn_callbacks c)]\<rparr>"
    have f: "single_filled E F c" using inv Some by (simp add: wiring_inv_def)
    then have "conn_filled E F (new_conn_callbacks c)"
      using F Accept_conn by (auto simp: filled_defs new_conn_callbacks_def conn_slots_new_def setter_defs)
    then have "wiring_inv E F ?s1" using inv Some by (auto simp: wiring_inv_def)
    then have "called E (wiring_inv E F) (on_calls ?s1 (invoke (sg_connection c) (length (su_conns s)) (su_calls s)))"
      by (intro on_calls_inv invoke_called) (use f in \<open>auto simp: wiring_inv_def single_filled_def\<close>)
    with f Some Accept_conn show ?thesis by (auto simp: accept_conn_def single_filled_def holds_func_def)
  qed
next
  case (Conn_moment k m)
  obtain i c where k: "su_conns s ! k = (i, c)" by (cases "su_conns s ! k")
  then have c: "conn_filled E F c" and "su_singles s i \<noteq> None"
    using inv ok Conn_moment nth_mem [of k "su_conns s"] by (auto simp: wiring_inv_def)
  then obtain sg where sg: "su_singles s i = Some sg" by blast
  have "called E (wiring_inv E F) (on_calls s (conn_calls m k sg c (su_calls s)))"
    by (intro on_calls_inv conn_calls_filled) (use inv c sg in \<open>auto simp: wiring_inv_def\<close>)
  with k sg Conn_moment show ?thesis by simp
qed

lemma funcs_of_Cons: "funcs_of (ev # evs) = funcs_of [ev] \<union> funcs_of evs"
proof -
  have "funcs_of [] \<subseteq> funcs_of evs" for evs :: "'a wiring_event list"
    by (induction evs rule: funcs_of.induct) auto
  then show ?thesis by (cases ev) auto
qed

lemma wiring_run_inv:
  assumes "wiring_inv E F s" "wiring_all_ok evs s" "funcs_of evs \<subseteq> F" "\<exists>ev \<in> set evs. sets_empty ev \<Longrightarrow> E"
  shows "called E (wiring_inv E F) (wiring_run evs s)"
  using assms
proof (induction evs arbitrary: s)
  case (Cons ev evs)
  have F: "funcs_of [ev] \<subseteq> F" "funcs_of evs \<subseteq> F" using Cons.prems(3) funcs_of_Cons [of ev evs] by auto
  have "called E (wiring_inv E F) (wiring_step ev s)"
    by (rule wiring_step_inv [OF Cons.prems(1) _ F(1)]) (use Cons.prems(2,4) in auto)
  then show ?case using Cons.IH [OF _ _ F(2)] Cons.prems(2,4) by (cases "wiring_step ev s") auto
qed simp

section \<open>Which functions a connection gets\<close>

fun is_setting :: "'f wiring_event \<Rightarrow> bool" where
  "is_setting (Set_server sl f) = True"
| "is_setting (Set_conn k sl f) = True"
| "is_setting _ = False"

definition alike :: "'f server_callbacks \<Rightarrow> 'f wiring \<Rightarrow> bool" where
  "alike srv s \<longleftrightarrow> su_server s = srv \<and>
     (\<forall>i c. su_singles s i = Some c \<longrightarrow> c = copy_callbacks srv) \<and>
     (\<forall>x \<in> set (su_conns s). snd x = new_conn_callbacks (copy_callbacks srv))"

lemma on_calls_Inr: "on_calls s r = Inr s' \<Longrightarrow> \<exists>cs. s' = s\<lparr>su_calls := cs\<rparr>"
  by (auto simp: on_calls_def res_simps)

lemma wiring_step_alike:
  assumes "alike srv s" "\<not> is_setting ev" "wiring_step ev s = Inr s'"
  shows "alike srv s'"
proof (cases ev)
  case (Start_single i)
  then show ?thesis
    using assms by (auto simp: start_single_def Let_def alike_def dest!: on_calls_Inr split: if_splits)
next
  case (Accept_conn i)
  show ?thesis
  proof (cases "su_singles s i")
    case None
    with assms Accept_conn show ?thesis by simp
  next
    case (Some c)
    then have "c = copy_callbacks srv" using assms(1) by (simp add: alike_def)
    then have "accept_conn i (copy_callbacks srv) s = Inr s'" using assms(3) Accept_conn Some by simp
    with assms(1) show ?thesis
      by (auto simp: accept_conn_def alike_def dest!: on_calls_Inr split: if_splits)
  qed
next
  case (Conn_moment k m)
  then have "s' = s \<or> (\<exists>cs. s' = s\<lparr>su_calls := cs\<rparr>)"
    using assms(3) by (auto dest!: on_calls_Inr split: prod.splits option.splits)
  with assms(1) show ?thesis by (auto simp: alike_def)
qed (use assms(2) in simp_all)

lemma wiring_run_alike:
  "alike srv s \<Longrightarrow> (\<And>ev. ev \<in> set evs \<Longrightarrow> \<not> is_setting ev) \<Longrightarrow> wiring_run evs s = Inr s' \<Longrightarrow> alike srv s'"
proof (induction evs arbitrary: s)
  case (Cons ev evs)
  then obtain s1 where s1: "wiring_step ev s = Inr s1" "wiring_run evs s1 = Inr s'" by (auto simp: res_simps)
  have "alike srv s1" using wiring_step_alike [OF Cons.prems(1) _ s1(1)] Cons.prems(2) by simp
  with Cons.IH Cons.prems(2) s1(2) show ?case by simp
qed simp

text \<open>The server after its callbacks were set: for each slot the last function given to it.\<close>

fun set_all :: "(server_slot \<times> 'f option) list \<Rightarrow> 'f server_callbacks \<Rightarrow> 'f server_callbacks" where
  "set_all [] s = s"
| "set_all ((sl, f) # xs) s = set_all xs (server_setter sl (map_option User_func f) s)"

abbreviation settings :: "(server_slot \<times> 'f option) list \<Rightarrow> 'f wiring_event list" where
  "settings xs \<equiv> map (\<lambda>(sl, f). Set_server sl f) xs"

lemma run_settings: "wiring_run (settings xs) s = Inr (s\<lparr>su_server := set_all xs (su_server s)\<rparr>)"
  by (induction xs arbitrary: s) auto

lemma wiring_run_append: "wiring_run (xs @ ys) s = bindE (wiring_run xs s) (wiring_run ys)"
  by (induction xs arbitrary: s) (auto simp: bindE_assoc intro!: bindE_cong)

text \<open>All calls made up to the end of a step.\<close>

definition calls_after :: "'f wiring_event \<Rightarrow> 'f wiring \<Rightarrow> 'f calls res" where
  "calls_after ev s = bindE (wiring_step ev s) (\<lambda>s'. Inr (su_calls s'))"

lemma calls_on_calls [simp]: "bindE (on_calls s r) (\<lambda>s'. Inr (su_calls s')) = r"
  by (cases r) (simp_all add: on_calls_def)

lemma alike_accepts:
  assumes "alike srv s" "su_singles s i \<noteq> None"
  shows "calls_after (Accept_conn i) s = invoke (sc_connection srv) (length (su_conns s)) (su_calls s)"
proof -
  have "su_singles s i = Some (copy_callbacks srv)" using assms by (auto simp: alike_def)
  then show ?thesis
    by (simp add: calls_after_def accept_conn_def) (simp add: copy_callbacks_def single_callbacks_new_def setter_defs)
qed

lemma alike_moments:
  assumes "alike srv s" "k < length (su_conns s)" "su_singles s (fst (su_conns s ! k)) \<noteq> None"
  shows "calls_after (Conn_moment k Data_read) s = invoke (sc_message srv) k (su_calls s)"
    "calls_after (Conn_moment k Output_written) s = invoke_if (sc_writeComplete srv) k (su_calls s)"
    "calls_after (Conn_moment k Mark_passed) s = Inr (su_calls s)"
    "calls_after (Conn_moment k Closing) s =
       invoke (sc_connection srv) k (su_calls s @ [(Bound ''closeConnection'', k)])"
proof -
  obtain i c where k: "su_conns s ! k = (i, c)" by (cases "su_conns s ! k")
  have "c = new_conn_callbacks (copy_callbacks srv)" "su_singles s i = Some (copy_callbacks srv)"
    using assms k nth_mem [OF assms(2)] by (auto simp: alike_def)
  then have m: "calls_after (Conn_moment k m) s =
      conn_calls m k (copy_callbacks srv) (new_conn_callbacks (copy_callbacks srv)) (su_calls s)" for m
    using k by (simp add: calls_after_def)
  show "calls_after (Conn_moment k Data_read) s = invoke (sc_message srv) k (su_calls s)"
    "calls_after (Conn_moment k Output_written) s = invoke_if (sc_writeComplete srv) k (su_calls s)"
    "calls_after (Conn_moment k Mark_passed) s = Inr (su_calls s)"
    "calls_after (Conn_moment k Closing) s =
       invoke (sc_connection srv) k (su_calls s @ [(Bound ''closeConnection'', k)])"
    unfolding m
    by (simp_all add: new_conn_callbacks_def conn_slots_new_def copy_callbacks_def single_callbacks_new_def
        setter_defs invoke_if_def)
qed

text \<open>C15. 
  The callbacks are whole: whatever callbacks a user of a \<open>TcpServer\<close> sets, empty ones included, in whatever
  order and whenever, on the server or on connections, and whatever happens to the connections of its
  loops, every call is of a function that was set, of a default or of one that the library bound. An empty
  function is called (\<open>std::bad_function_call\<close>) only if the user set one: as the thread-init, connection or
  message callback of the server or as the message callback of a connection. If nothing is set
  after the start, then every loop calls for every connection the callbacks last set on the server before: the
  connection callback when the connection is accepted and, after the server's own, when it is closed,
  the message callback for data, the write-complete callback when the output is written if there is one,
  and nothing at a high-water mark.
\<close>
theorem callbacks_whole:
  assumes "wiring_all_ok (settings xs @ evs) wiring_new"
  shows "case wiring_run (settings xs @ evs) wiring_new of
      Inl e \<Rightarrow> e = Exception ''bad_function_call'' \<and> (\<exists>ev \<in> set (settings xs @ evs). sets_empty ev)
    | Inr s \<Rightarrow>
        fst ` set (su_calls s) \<subseteq> funcs_of (settings xs @ evs) \<and>
        ((\<forall>ev \<in> set evs. \<not> is_setting ev) \<longrightarrow>
         (\<forall>i. su_singles s i \<noteq> None \<longrightarrow> calls_after (Accept_conn i) s =
            invoke (sc_connection (set_all xs server_callbacks_new)) (length (su_conns s)) (su_calls s)) \<and>
         (\<forall>k < length (su_conns s).
            calls_after (Conn_moment k Data_read) s =
              invoke (sc_message (set_all xs server_callbacks_new)) k (su_calls s) \<and>
            calls_after (Conn_moment k Output_written) s =
              invoke_if (sc_writeComplete (set_all xs server_callbacks_new)) k (su_calls s) \<and>
            calls_after (Conn_moment k Mark_passed) s = Inr (su_calls s) \<and>
            calls_after (Conn_moment k Closing) s =
              invoke (sc_connection (set_all xs server_callbacks_new)) k
                (su_calls s @ [(Bound ''closeConnection'', k)])))"
proof -
  let ?srv = "set_all xs server_callbacks_new" and ?F = "funcs_of (settings xs @ evs)"
    and ?E = "\<exists>ev \<in> set (settings xs @ evs). sets_empty ev"
  have base: "{Default_thread_init, Default_connection, Default_message, Bound ''closeConnection'',
     Bound ''newConnection''} \<subseteq> funcs_of es" for es :: "'a wiring_event list"
    by (induction es rule: funcs_of.induct) auto
  have "wiring_inv ?E ?F wiring_new"
    using base [of "settings xs @ evs"] by (simp add: wiring_inv_def wiring_new_def server_callbacks_new_def filled_defs)
  then have inv: "called ?E (wiring_inv ?E ?F) (wiring_run (settings xs @ evs) wiring_new)"
    by (rule wiring_run_inv [OF _ assms subset_refl])
  show ?thesis
  proof (cases "wiring_run (settings xs @ evs) wiring_new")
    case (Inl e)
    with inv show ?thesis by simp
  next
    case (Inr s)
    then have s: "wiring_inv ?E ?F s" using inv by simp
    have a: "alike ?srv s" if no: "\<forall>ev \<in> set evs. \<not> is_setting ev"
    proof -
      have "wiring_run evs (wiring_new\<lparr>su_server := ?srv\<rparr>) = Inr s"
        using Inr by (simp add: wiring_run_append run_settings) (simp add: wiring_new_def)
      moreover have "alike ?srv (wiring_new\<lparr>su_server := ?srv\<rparr>)" by (simp add: alike_def wiring_new_def)
      ultimately show ?thesis using no wiring_run_alike by blast
    qed
    have i: "su_singles s (fst (su_conns s ! k)) \<noteq> None" if "k < length (su_conns s)" for k
      using s nth_mem [OF that] unfolding wiring_inv_def by blast
    have f: "fst ` set (su_calls s) \<subseteq> ?F" using s by (simp add: wiring_inv_def)
    show ?thesis
      unfolding Inr sum.case using f alike_accepts [OF a] alike_moments [OF a _ i] by simp
  qed
qed

text \<open>Two loops and two connections; the message callback of the user is called for the second, and the
  connection callback of the user for both.\<close>
theorem callbacks_whole_witness:
  "\<exists>s. wiring_run [Set_server Message_slot (Some (7 :: nat)), Set_server Connection_slot (Some 8), Start_single 0,
       Start_single 1, Accept_conn 0, Accept_conn 1] wiring_new = Inr s \<and>
     su_calls s = [(Default_thread_init, 0), (Default_thread_init, 1), (User_func 8, 0), (User_func 8, 1)] \<and>
     calls_after (Conn_moment 1 Data_read) s = Inr (su_calls s @ [(User_func 7, 1)]) \<and>
     calls_after (Conn_moment 0 Closing) s = Inr (su_calls s @ [(Bound ''closeConnection'', 0), (User_func 8, 0)])"
proof -
  let ?xs = "[(Message_slot, Some (7 :: nat)), (Connection_slot, Some 8)]"
  let ?evs = "[Start_single 0, Start_single 1, Accept_conn 0, Accept_conn 1]"
  note d = start_single_def accept_conn_def on_calls_def new_defs setter_defs Let_def
  have ok: "wiring_all_ok (settings ?xs @ ?evs) wiring_new" by (simp add: d)
  obtain s where s: "wiring_run (settings ?xs @ ?evs) wiring_new = Inr s" "length (su_conns s) = 2"
      "su_calls s = [(Default_thread_init, 0), (Default_thread_init, 1), (User_func 8, 0), (User_func 8, 1)]"
    by (simp add: d)
  have srv: "sc_message (set_all ?xs server_callbacks_new) = Some (User_func 7)"
      "sc_connection (set_all ?xs server_callbacks_new) = Some (User_func 8)"
    by (simp_all add: d)
  have "\<forall>ev \<in> set ?evs. \<not> is_setting ev" by simp
  with callbacks_whole [OF ok, unfolded s(1) sum.case]
  have m: "\<forall>k < length (su_conns s).
      calls_after (Conn_moment k Data_read) s = invoke (Some (User_func 7)) k (su_calls s) \<and>
      calls_after (Conn_moment k Closing) s =
        invoke (Some (User_func 8)) k (su_calls s @ [(Bound ''closeConnection'', k)])"
    unfolding srv by blast
  from m [rule_format, of 0] m [rule_format, of 1] s show ?thesis by simp
qed

text \<open>
  Unlike \<open>TcpServer\<close>, a \<open>TcpServerSingle\<close> has no default callbacks: if its user sets no connection
  callback, the first client ends the loop with \<open>std::bad_function_call\<close>; if only the message
  callback is missing, the first bytes that a client sends do.
\<close>
theorem single_without_callbacks:
  "accept_conn i single_callbacks_new s = Inl (Exception ''bad_function_call'') \<and>
   (\<exists>s'. accept_conn i (single_setConnectionCallback (Some f) single_callbacks_new) s = Inr s' \<and>
     su_conns s' = su_conns s @ [(i, new_conn_callbacks (single_setConnectionCallback (Some f) single_callbacks_new))] \<and>
     conn_calls Data_read (length (su_conns s)) (single_setConnectionCallback (Some f) single_callbacks_new)
       (snd (last (su_conns s'))) (su_calls s') = Inl (Exception ''bad_function_call''))"
  by (simp_all add: accept_conn_def on_calls_def new_defs setter_defs invoke_def)

text \<open>A callback that is set while the loops are being started reaches some connections only.\<close>

lemma late_callback:
  "\<exists>s. wiring_run [Start_single 0, Set_server Message_slot (Some f), Start_single 1, Accept_conn 0, Accept_conn 1]
       wiring_new = Inr s \<and>
     map (\<lambda>(i, c). cc_message c) (su_conns s) = [Some Default_message, Some (User_func f)]"
  by (simp add: start_single_def accept_conn_def on_calls_def new_defs setter_defs Let_def)

end
