(* ===== verification/Thread_Pool.thy ===== *)
theory Thread_Pool
  imports Threads
begin

text \<open>
  The thread pool: \<open>ThreadPool.h\<close> and \<open>ThreadPool.cpp\<close>. Tasks are opaque. \<open>runInThread\<close>,
  \<open>take\<close> and \<open>stop\<close> are declared but defined nowhere, and no thread is ever started, so the
  constructor and \<open>runTask\<close> are all there is. The lemmas show what becomes of the tasks.
\<close>

text \<open>\<open>tp_ran\<close> records the tasks that \<open>runTask\<close> ran itself.\<close>

record 't thread_pool =
  tp_threads :: "thread list"
  tp_queue :: "'t list"
  tp_max :: nat
  tp_running :: bool
  tp_ran :: "'t list"

text \<open>\<open>new Thread\<close> so many times; \<open>k\<close> counts the threads created.\<close>

fun new_threads :: "nat \<Rightarrow> int \<Rightarrow> thread list" where
  "new_threads 0 k = []"
| "new_threads (Suc n) k = (case thread_new k [] of (t, k') \<Rightarrow> t # new_threads n k')"

definition pool_new :: "nat \<Rightarrow> nat \<Rightarrow> int \<Rightarrow> 't thread_pool res" where
  "pool_new numThread maxQueueSize k =
     assertE (maxQueueSize > 0) ''maxQueueSize > 0''
       (Inr \<lparr>tp_threads = new_threads numThread k, tp_queue = [], tp_max = maxQueueSize,
             tp_running = True, tp_ran = []\<rparr>)"

text \<open>\<open>None\<close>: the caller waits on \<open>notFull_\<close>, which nothing ever notifies.\<close>

definition runTask :: "'t \<Rightarrow> 't thread_pool \<Rightarrow> 't thread_pool res option" where
  "runTask t p =
     (if \<not> tp_running p then Some (Inl (Assertion ''running_''))
      else if tp_threads p = [] then Some (Inr (p\<lparr>tp_ran := tp_ran p @ [t]\<rparr>))
      else if length (tp_queue p) \<ge> tp_max p then None
      else Some (Inr (p\<lparr>tp_queue := tp_queue p @ [t]\<rparr>)))"

fun runTasks :: "'t list \<Rightarrow> 't thread_pool \<Rightarrow> 't thread_pool res option" where
  "runTasks [] p = Some (Inr p)"
| "runTasks (t # ts) p =
     (case runTask t p of Some (Inr p') \<Rightarrow> runTasks ts p' | r \<Rightarrow> r)"

definition numThreads :: "'t thread_pool \<Rightarrow> nat" where
  "numThreads p = length (tp_threads p)"

lemma new_threads_spec: "length (new_threads n k) = n \<and> (\<forall>t \<in> set (new_threads n k). \<not> th_started t)"
  by (induction n arbitrary: k) (auto simp: thread_new_def)

lemma runTasks_inline:
  "tp_running p \<Longrightarrow> tp_threads p = [] \<Longrightarrow> runTasks ts p = Some (Inr (p\<lparr>tp_ran := tp_ran p @ ts\<rparr>))"
  by (induction ts arbitrary: p) (simp_all add: runTask_def)

lemma runTasks_queue:
  "tp_running p \<Longrightarrow> tp_threads p \<noteq> [] \<Longrightarrow> length (tp_queue p) \<le> tp_max p \<Longrightarrow>
   runTasks ts p =
     (if length (tp_queue p) + length ts \<le> tp_max p then Some (Inr (p\<lparr>tp_queue := tp_queue p @ ts\<rparr>))
      else None)"
  by (induction ts arbitrary: p) (auto simp: runTask_def)

text \<open>A pool with threads runs nothing: its threads are created but never started, so the
  tasks pile up in the queue, none of them runs, and the first \<open>runTask\<close> beyond the size of the
  queue blocks for ever. Only a pool without threads works: it runs every task in the caller.\<close>
theorem pool_runs_nothing:
  assumes "0 < maxQueueSize"
  shows "\<exists>p. pool_new n maxQueueSize k = Inr p \<and> numThreads p = n \<and>
     (\<forall>t \<in> set (tp_threads p). \<not> th_started t) \<and>
     (if n = 0 then \<exists>p'. runTasks ts p = Some (Inr p') \<and> tp_ran p' = ts \<and> tp_queue p' = []
      else if length ts \<le> maxQueueSize
      then \<exists>p'. runTasks ts p = Some (Inr p') \<and> tp_ran p' = [] \<and> tp_queue p' = ts
      else runTasks ts p = None)"
proof -
  let ?p = "\<lparr>tp_threads = new_threads n k, tp_queue = [], tp_max = maxQueueSize, tp_running = True,
             tp_ran = []\<rparr> :: 'a thread_pool"
  have n: "length (new_threads n k) = n" "\<forall>t \<in> set (new_threads n k). \<not> th_started t"
    using new_threads_spec by simp_all
  have e: "new_threads n k = [] \<longleftrightarrow> n = 0" using n(1) by (metis length_0_conv)
  have "pool_new n maxQueueSize k = Inr ?p" using assms by (simp add: pool_new_def)
  moreover have "if n = 0 then \<exists>p'. runTasks ts ?p = Some (Inr p') \<and> tp_ran p' = ts \<and> tp_queue p' = []
      else if length ts \<le> maxQueueSize
      then \<exists>p'. runTasks ts ?p = Some (Inr p') \<and> tp_ran p' = [] \<and> tp_queue p' = ts
      else runTasks ts ?p = None"
    using runTasks_inline [of ?p ts] runTasks_queue [of ?p ts] e by auto
  ultimately show ?thesis using n by (simp add: numThreads_def)
qed

theorem pool_runs_nothing_witness:
  "\<exists>p. pool_new 4 2 0 = Inr p \<and> runTasks [1 :: nat, 2, 3] p = None"
  using pool_runs_nothing [of 2 4 0 "[1 :: nat, 2, 3]"] by auto

end
