(* ===== verification/Connector.thy ===== *)
theory Connector
  imports Channel
begin

text \<open>
  The client side: \<open>Connector.h\<close> and \<open>Connector.cpp\<close>. What \<open>connect\<close> answers and the error that
  \<open>getsockopt\<close> finds are arguments; \<open>cn_notes\<close> records the callbacks. The lemmas say what each
  function does on every branch, and that no connector ever reports anything.
\<close>

unbundle bit_operations_syntax

section \<open>The class\<close>

datatype connector_note = Error_callback | New_connection int

record connector =
  cn_connected :: bool
  cn_started :: bool
  cn_channel :: channel
  cn_error_cb :: bool
  cn_new_cb :: bool
  cn_ctl :: "ctl_call list"
  cn_notes :: "connector_note list"

definition connector_new :: "int \<Rightarrow> bool \<Rightarrow> bool \<Rightarrow> connector" where
  "connector_new sockfd error_cb new_cb =
     \<lparr>cn_connected = False, cn_started = False, cn_channel = channel_new sockfd,
      cn_error_cb = error_cb, cn_new_cb = new_cb, cn_ctl = [], cn_notes = []\<rparr>"

definition cn_on_channel :: "(channel \<Rightarrow> (channel \<times> ctl_call) res) \<Rightarrow> connector \<Rightarrow> connector res" where
  "cn_on_channel f c =
     bindE (f (cn_channel c)) (\<lambda>(ch, call). Inr (c\<lparr>cn_channel := ch, cn_ctl := cn_ctl c @ [call]\<rparr>))"

text \<open>\<open>err\<close> is \<open>errno\<close> after \<open>getsockopt\<close>: the pending error of the socket, or that of the call.\<close>

definition connector_handleWrite :: "int \<Rightarrow> connector \<Rightarrow> connector res" where
  "connector_handleWrite err c =
     assertE (cn_started c) ''started_''
       (bindE (cn_on_channel removeChannel c) (\<lambda>c1.
          Inr (if err \<noteq> 0
               then (if cn_error_cb c1 then c1\<lparr>cn_notes := cn_notes c1 @ [Error_callback]\<rparr> else c1)
               else if cn_new_cb c1
               then c1\<lparr>cn_connected := True,
                       cn_notes := cn_notes c1 @ [New_connection (ch_fd (cn_channel c1))]\<rparr>
               else c1)))"

datatype connect_result = Connect_ok | Connect_in_progress | Connect_failed

definition connector_start :: "connect_result \<Rightarrow> int \<Rightarrow> connector \<Rightarrow> connector res" where
  "connector_start r err c =
     assertE (\<not> cn_started c) ''!started_''
       (case r of
          Connect_failed \<Rightarrow> connector_handleWrite err c
        | Connect_in_progress \<Rightarrow> cn_on_channel enableWrite c
        | Connect_ok \<Rightarrow> connector_handleWrite err c)"

text \<open>The destructor closes the descriptor unless it was handed on; the result says so.\<close>

definition connector_dtor :: "connector \<Rightarrow> bool" where
  "connector_dtor c = (\<not> cn_connected c)"

section \<open>Runs\<close>

datatype connector_event = Cn_start connect_result int | Cn_writable int

fun connector_step :: "connector_event \<Rightarrow> connector \<Rightarrow> connector res" where
  "connector_step (Cn_start r err) c = connector_start r err c"
| "connector_step (Cn_writable err) c = connector_handleWrite err c"

definition connector_reach :: "int \<Rightarrow> bool \<Rightarrow> bool \<Rightarrow> connector res \<Rightarrow> bool" where
  "connector_reach fd ecb ncb =
     reach (\<lambda>c r. \<exists>ev. r = connector_step ev c) (connector_new fd ecb ncb)"

definition cn_idle :: "connector \<Rightarrow> bool" where
  "cn_idle c \<longleftrightarrow> \<not> cn_started c \<and> \<not> cn_connected c \<and> cn_notes c = []"

lemma connector_step_idle:
  assumes "cn_idle c"
  shows "case connector_step ev c of Inr c' \<Rightarrow> cn_idle c' | Inl e \<Rightarrow> e = Assertion ''started_''"
proof -
  obtain call where u: "enableWrite (cn_channel c) =
      Inr ((cn_channel c)\<lparr>ch_events := ch_events (cn_channel c) OR EPOLLOUT, ch_polling := True\<rparr>, call)"
    using updateChannel_ok [of "ch_events (cn_channel c) OR EPOLLOUT" "cn_channel c"]
      has_nonzero [OF has_simps(2)]
    by (auto simp: enableWrite_def)
  show ?thesis
    using assms u
    by (cases ev)
      (auto simp: connector_start_def connector_handleWrite_def cn_idle_def cn_on_channel_def
        split: connect_result.split)
qed

lemma connector_reach_idle:
  assumes "connector_reach fd ecb ncb r"
  shows "case r of Inr c \<Rightarrow> cn_idle c | Inl e \<Rightarrow> e = Assertion ''started_''"
  using assms unfolding connector_reach_def
proof (induction rule: reach.induct)
  case reach_init
  then show ?case by (simp add: cn_idle_def connector_new_def)
next
  case (reach_step c r)
  then obtain ev where "r = connector_step ev c" by blast
  with connector_step_idle [of c ev] reach_step.IH show ?case by simp
qed

section \<open>Properties\<close>

text \<open>A connector never connects: nothing sets \<open>started_\<close>, which \<open>handleWrite\<close> asserts. In
  every reachable state neither callback was called and the descriptor still is the connector's;
  a connection that succeeds or fails at once aborts the process in \<open>start\<close>, and one in progress
  does as soon as the descriptor is writable.\<close>
theorem connector_never_connects:
  assumes "connector_reach fd ecb ncb r"
  shows "case r of
      Inl e \<Rightarrow> e = Assertion ''started_''
    | Inr c \<Rightarrow> cn_notes c = [] \<and> connector_dtor c \<and>
        connector_handleWrite err c = Inl (Assertion ''started_'') \<and>
        (answer \<noteq> Connect_in_progress \<longrightarrow> connector_start answer err c = Inl (Assertion ''started_''))"
  using connector_reach_idle [OF assms]
  by (cases r; cases answer)
    (auto simp: cn_idle_def connector_dtor_def connector_handleWrite_def connector_start_def)

theorem connector_never_connects_witness:
  "\<exists>c. connector_reach 5 True True (Inr c) \<and> isWriting (cn_channel c) \<and>
     connector_handleWrite 0 c = Inl (Assertion ''started_'')"
proof -
  obtain c where c: "connector_step (Cn_start Connect_in_progress 0) (connector_new 5 True True) = Inr c"
      "isWriting (cn_channel c)"
    by (simp add: connector_start_def connector_new_def cn_on_channel_def enableWrite_def
        updateChannel_def isNoneEvent_def channel_new_def isWriting_def has_def)
  have r: "connector_reach 5 True True (Inr c)"
    unfolding connector_reach_def by (rule reach_first, rule exI, rule c(1) [symmetric])
  from connector_never_connects [OF r, of 0 Connect_ok] r c(2) show ?thesis by auto
qed

text \<open>What \<open>handleWrite\<close> would do on a started connector: with the descriptor registered it
  takes it out of the epoll set and reports exactly once, an error or the connection; reached
  straight from \<open>start\<close>, before anything was registered, removing the channel aborts.\<close>
theorem connector_handleWrite_started:
  assumes "cn_started c" and "cn_error_cb c" and "cn_new_cb c"
  shows "if ch_polling (cn_channel c)
    then \<exists>c'. connector_handleWrite err c = Inr c' \<and> \<not> ch_polling (cn_channel c') \<and>
        cn_notes c' = cn_notes c @ [if err \<noteq> 0 then Error_callback else New_connection (ch_fd (cn_channel c))] \<and>
        cn_connected c' = (err = 0 \<or> cn_connected c)
    else \<exists>w. connector_handleWrite err c = Inl (Assertion w)"
  using assms
  by (simp add: connector_handleWrite_def cn_on_channel_def channel_op_defs updateChannel_def isNoneEvent_def)

theorem connector_handleWrite_started_witness:
  "\<exists>w. connector_handleWrite 0 ((connector_new 5 True True)\<lparr>cn_started := True\<rparr>) = Inl (Assertion w)"
  using connector_handleWrite_started [of "(connector_new 5 True True)\<lparr>cn_started := True\<rparr>" 0]
  by (simp add: connector_new_def channel_new_def)

end
