(* ===== verification/Event_Loop_Thread.thy ===== *)
theory Event_Loop_Thread
  imports Event_Loop Monitor
begin

text \<open>
  A thread that runs an event loop: \<open>EventLoopThread.h\<close> and \<open>EventLoopThread.cpp\<close>, composed with
  the model of the loop. The owner calls \<open>startLoop()\<close>, which waits for the thread to publish its
  loop in \<open>loop_\<close>, uses the loop from outside, and destroys the object, which asks the loop to
  quit and joins the thread. The lemmas show that \<open>startLoop()\<close> hands out a live loop, that the
  destructor ends when the loop has been entered, and how it hangs or crashes otherwise.
\<close>

section \<open>State\<close>

text \<open>Where \<open>threadFunc\<close> is; \<open>T_cleared\<close>: \<open>loop_\<close> is \<open>NULL\<close> again, the loop about to be destroyed.\<close>

datatype thread_pc = T_unborn | T_building | T_published | T_looping | T_cleared | T_dead

text \<open>Where the owner is: in \<open>startLoop()\<close>, past the destructor's test of \<open>loop_\<close>, in \<open>join()\<close>.\<close>

datatype owner_state = O_new | O_starting | O_running | O_quitting | O_joining | O_gone

record 't loop_thread_object =
  et_exiting :: bool
  et_ptr :: bool
  et_loop :: "'t event_loop"
  et_pc :: thread_pc
  et_owner :: owner_state

definition elt_new :: "'t loop_thread_object" where
  "elt_new =
     \<lparr>et_exiting = False, et_ptr = False, et_loop = loop_new, et_pc = T_unborn, et_owner = O_new\<rparr>"

section \<open>Operations\<close>

definition elt_startLoop :: "'t loop_thread_object \<Rightarrow> 't loop_thread_object res" where
  "elt_startLoop s =
     assertE (et_pc s = T_unborn) ''!thread_.started()''
       (Inr (s\<lparr>et_pc := T_building, et_owner := O_starting\<rparr>))"

text \<open>The destructor up to its test; it then quits the loop through \<open>loop_\<close>, read again.\<close>

definition elt_dtor :: "'t loop_thread_object \<Rightarrow> 't loop_thread_object" where
  "elt_dtor s = s\<lparr>et_exiting := True, et_owner := (if et_ptr s then O_quitting else O_gone)\<rparr>"

definition elt_thread :: "'t loop_thread_object \<Rightarrow> 't loop_thread_object res option" where
  "elt_thread s =
     (case et_pc s of
        T_unborn \<Rightarrow> None
      | T_building \<Rightarrow> Some (Inr (s\<lparr>et_ptr := True, et_pc := T_published\<rparr>))
      | T_published \<Rightarrow>
          Some (bindE (loop_enter (et_loop s)) (\<lambda>l. Inr (s\<lparr>et_loop := l, et_pc := T_looping\<rparr>)))
      | T_looping \<Rightarrow>
          if lp_pc (et_loop s) = Ended then Some (Inr (s\<lparr>et_ptr := False, et_pc := T_cleared\<rparr>))
          else map_option (\<lambda>l. Inr (s\<lparr>et_loop := l\<rparr>)) (loop_thread (et_loop s))
      | T_cleared \<Rightarrow>
          Some (assertE (\<not> lp_looping (et_loop s)) ''!looping_'' (Inr (s\<lparr>et_pc := T_dead\<rparr>)))
      | T_dead \<Rightarrow> None)"

definition elt_owner :: "'t loop_thread_object \<Rightarrow> 't loop_thread_object res option" where
  "elt_owner s =
     (case et_owner s of
        O_starting \<Rightarrow> (if et_ptr s then Some (Inr (s\<lparr>et_owner := O_running\<rparr>)) else None)
      | O_quitting \<Rightarrow>
          Some (if \<not> et_ptr s then Inl Null_pointer
                else bindE (loop_quit False (et_loop s)) (\<lambda>l. Inr (s\<lparr>et_loop := l, et_owner := O_joining\<rparr>)))
      | O_joining \<Rightarrow> (if et_pc s = T_dead then Some (Inr (s\<lparr>et_owner := O_gone\<rparr>)) else None)
      | _ \<Rightarrow> None)"

section \<open>The system\<close>

text \<open>
  Whatever else happens to the loop: its own steps, events, tasks queued from anywhere; and,
  with \<open>ext\<close>, calls of \<open>quit()\<close> by others than the destructor.
\<close>

definition env_ok :: "bool \<Rightarrow> 't event_loop \<Rightarrow> 't event_loop \<Rightarrow> bool" where
  "env_ok ext l l' \<longleftrightarrow> loop_step True l (Inr l') \<and> (lp_pc l' = Before \<longleftrightarrow> lp_pc l = Before) \<and>
     (ext \<or> lp_quit l' = lp_quit l)"

inductive elt_step :: "bool \<Rightarrow> 't loop_thread_object \<Rightarrow> 't loop_thread_object res \<Rightarrow> bool" for ext where
  startLoop: "et_owner s = O_new \<Longrightarrow> elt_step ext s (elt_startLoop s)"
| dtor: "et_owner s = O_new \<or> et_owner s = O_running \<Longrightarrow> elt_step ext s (Inr (elt_dtor s))"
| thread: "elt_thread s = Some r \<Longrightarrow> elt_step ext s r"
| owner: "elt_owner s = Some r \<Longrightarrow> elt_step ext s r"
| env: "et_pc s = T_published \<or> et_pc s = T_looping \<Longrightarrow> env_ok ext (et_loop s) l \<Longrightarrow>
    elt_step ext s (Inr (s\<lparr>et_loop := l\<rparr>))"

abbreviation elt_reach :: "bool \<Rightarrow> 't loop_thread_object res \<Rightarrow> bool" where
  "elt_reach ext \<equiv> reach (elt_step ext) elt_new"

text \<open>Thread and owner left to themselves.\<close>

definition elt_next :: "'t loop_thread_object \<Rightarrow> 't loop_thread_object res option" where
  "elt_next s = (case elt_thread s of Some r \<Rightarrow> Some r | None \<Rightarrow> elt_owner s)"

fun elt_run :: "nat \<Rightarrow> 't loop_thread_object \<Rightarrow> 't loop_thread_object res option" where
  "elt_run 0 s = Some (Inr s)"
| "elt_run (Suc n) s =
     (case elt_next s of None \<Rightarrow> None | Some (Inl e) \<Rightarrow> Some (Inl e) | Some (Inr s') \<Rightarrow> elt_run n s')"

section \<open>The handshake as a condition variable\<close>

text \<open>
  \<open>startLoop()\<close> waits for \<open>loop_ != NULL\<close>, with the owner (thread 0) the only one that waits; the
  thread sets \<open>loop_\<close> and notifies, and clears it in the end.
\<close>

datatype ptr_section = Publish | Clear

fun ptr_update :: "ptr_section \<Rightarrow> bool \<Rightarrow> bool" where
  "ptr_update Publish _ = True"
| "ptr_update Clear _ = False"

fun ptr_signal :: "ptr_section \<Rightarrow> bool \<Rightarrow> signal" where
  "ptr_signal Publish _ = Notify"
| "ptr_signal Clear _ = No_signal"

interpretation handshake: condition "\<lambda>p. p" ptr_update ptr_signal "{0}"
proof
  fix s e assume "\<not> s" "ptr_update e s"
  then show "ptr_signal e s = Notify_all \<or> ptr_signal e s = Notify \<and> (\<exists>t. {0} \<subseteq> {t})"
    by (cases e) auto
qed

section \<open>Invariant\<close>

definition elt_inv :: "'t loop_thread_object \<Rightarrow> bool" where
  "elt_inv s \<longleftrightarrow>
     fifo (et_loop s) \<and> (et_ptr s \<longleftrightarrow> et_pc s = T_published \<or> et_pc s = T_looping) \<and>
     (et_owner s = O_new \<longrightarrow> et_pc s = T_unborn) \<and>
     (et_owner s = O_gone \<longrightarrow> et_pc s = T_unborn \<or> et_pc s = T_dead) \<and>
     (et_owner s \<noteq> O_new \<and> et_owner s \<noteq> O_gone \<longrightarrow> et_pc s \<noteq> T_unborn) \<and>
     (et_pc s = T_unborn \<or> et_pc s = T_building \<or> et_pc s = T_published \<longrightarrow> lp_pc (et_loop s) = Before) \<and>
     (et_pc s = T_looping \<longrightarrow> lp_pc (et_loop s) \<noteq> Before) \<and>
     (et_pc s = T_cleared \<or> et_pc s = T_dead \<longrightarrow> lp_pc (et_loop s) = Ended) \<and>
     (et_owner s = O_new \<or> et_owner s = O_starting \<or> et_owner s = O_running \<or> et_owner s = O_quitting \<longrightarrow>
        \<not> lp_quit (et_loop s) \<and> lp_pc (et_loop s) \<noteq> Ended) \<and>
     (et_owner s = O_running \<or> et_owner s = O_quitting \<longrightarrow> et_ptr s) \<and>
     (et_owner s = O_joining \<longrightarrow> et_pc s \<noteq> T_building \<and>
        (lp_quit (et_loop s) \<longrightarrow> lp_pc (et_loop s) = Polling \<longrightarrow> 0 < lp_wake (et_loop s)))"

lemma elt_new_inv: "elt_inv elt_new"
  by (simp add: elt_inv_def elt_new_def fifo_def loop_new_def)

text \<open>What a step of the loop keeps when nobody calls \<open>quit()\<close>.\<close>

lemma env_keeps:
  assumes "env_ok False l l'" "fifo l"
  shows "fifo l'" "lp_quit l' = lp_quit l" "lp_pc l' = Before \<longleftrightarrow> lp_pc l = Before"
    and "\<not> lp_quit l \<Longrightarrow> lp_pc l \<noteq> Ended \<Longrightarrow> lp_pc l' \<noteq> Ended"
    and "lp_quit l \<Longrightarrow> (lp_pc l = Polling \<Longrightarrow> 0 < lp_wake l) \<Longrightarrow> lp_pc l' = Polling \<Longrightarrow> 0 < lp_wake l'"
proof -
  have st: "loop_step True l (Inr l')" and q: "lp_quit l' = lp_quit l"
    using assms(1) by (simp_all add: env_ok_def)
  show "fifo l'" by (rule loop_step_fifo [OF assms(2) st])
  show "lp_quit l' = lp_quit l" "lp_pc l' = Before \<longleftrightarrow> lp_pc l = Before"
    using assms(1) by (simp_all add: env_ok_def)
  show "lp_pc l' \<noteq> Ended" if "\<not> lp_quit l" "lp_pc l \<noteq> Ended"
    using st
  proof (cases rule: loop_step_cases)
    case thread
    with that show ?thesis
      by (cases "lp_pc l"; cases "lp_batch l")
        (auto simp: loop_thread_def swap_tasks_def loop_handleRead_def split: if_splits)
  qed (use that in auto)
  show "0 < lp_wake l'" if "lp_quit l" "lp_pc l = Polling \<Longrightarrow> 0 < lp_wake l" "lp_pc l' = Polling"
    using st
  proof (cases rule: loop_step_cases)
    case thread
    with that show ?thesis
      by (cases "lp_pc l"; cases "lp_batch l")
        (auto simp: loop_thread_def swap_tasks_def loop_handleRead_def split: if_splits)
  qed (use that q in \<open>auto simp: queueInLoop_keeps\<close>)
qed

lemma loop_thread_env: "loop_thread l = Some l' \<Longrightarrow> env_ok ext l l'"
  unfolding env_ok_def
  by (intro conjI loop_step.thread)
    (auto simp: loop_thread_def swap_tasks_def loop_handleRead_def split: loop_pc.splits list.splits if_splits)

lemma env_inv:
  assumes "elt_inv s" "et_pc s = T_published \<or> et_pc s = T_looping" "env_ok False (et_loop s) l"
  shows "elt_inv (s\<lparr>et_loop := l\<rparr>)"
proof -
  have f: "fifo (et_loop s)" using assms(1) by (simp add: elt_inv_def)
  note k = env_keeps [OF assms(3) f]
  have w: "0 < lp_wake l" if "et_owner s = O_joining" "lp_quit l" "lp_pc l = Polling"
    using k(5) that k(2) assms(1) by (simp add: elt_inv_def)
  have e: "lp_pc l \<noteq> Ended"
    if "et_owner s = O_new \<or> et_owner s = O_starting \<or> et_owner s = O_running \<or> et_owner s = O_quitting"
    using k(4) that assms(1) by (simp add: elt_inv_def)
  show ?thesis
    using assms(2)
  proof (elim disjE)
    assume "et_pc s = T_published"
    with w e k(1-3) assms(1) show ?thesis by (cases "et_owner s") (simp_all add: elt_inv_def)
  next
    assume "et_pc s = T_looping"
    with w e k(1-3) assms(1) show ?thesis by (cases "et_owner s") (simp_all add: elt_inv_def)
  qed
qed

lemma elt_thread_inv:
  assumes inv: "elt_inv s" and step: "elt_thread s = Some r"
  shows "\<exists>s'. r = Inr s' \<and> elt_inv s' \<and> et_owner s' = et_owner s"
proof (cases "et_pc s")
  case T_building
  with assms show ?thesis by (auto simp: elt_thread_def elt_inv_def)
next
  case T_published
  then have "\<not> lp_looping (et_loop s)" using inv by (simp add: elt_inv_def fifo_def)
  then have r: "r = Inr (s\<lparr>et_loop := (et_loop s)\<lparr>lp_looping := True, lp_quit := False, lp_pc := Check\<rparr>,
      et_pc := T_looping\<rparr>)"
    using step T_published by (simp add: elt_thread_def loop_enter_def)
  have "lp_batch (et_loop s) = []" using inv T_published by (auto simp: elt_inv_def fifo_def)
  then show ?thesis
    unfolding r using inv T_published by (cases "et_owner s") (simp_all add: elt_inv_def fifo_def)
next
  case T_looping
  show ?thesis
  proof (cases "lp_pc (et_loop s) = Ended")
    case True
    with T_looping assms show ?thesis by (auto simp: elt_thread_def elt_inv_def)
  next
    case False
    then obtain l where "loop_thread (et_loop s) = Some l" "r = Inr (s\<lparr>et_loop := l\<rparr>)"
      using step T_looping by (auto simp: elt_thread_def)
    with env_inv [OF inv _ loop_thread_env] T_looping show ?thesis by auto
  qed
next
  case T_cleared
  then have "\<not> lp_looping (et_loop s)" using inv by (simp add: elt_inv_def fifo_def)
  with T_cleared assms show ?thesis by (auto simp: elt_thread_def elt_inv_def)
qed (use step in \<open>simp_all add: elt_thread_def\<close>)

lemma elt_owner_inv:
  assumes inv: "elt_inv s" and step: "elt_owner s = Some r"
  shows "\<exists>s'. r = Inr s' \<and> elt_inv s'"
proof (cases "et_owner s")
  case O_starting
  then have "r = Inr (s\<lparr>et_owner := O_running\<rparr>)" "et_ptr s"
    using step by (simp_all add: elt_owner_def split: if_splits)
  moreover from this have "et_pc s = T_published \<or> et_pc s = T_looping"
    using inv unfolding elt_inv_def by blast
  ultimately show ?thesis using inv O_starting by (elim disjE) (simp_all add: elt_inv_def)
next
  case O_quitting
  then have p: "et_ptr s" "\<not> lp_quit (et_loop s)" using inv unfolding elt_inv_def by blast+
  then have pc: "et_pc s = T_published \<or> et_pc s = T_looping" using inv unfolding elt_inv_def by blast
  have "r = Inr (s\<lparr>et_loop := wakeup ((et_loop s)\<lparr>lp_quit := True\<rparr>), et_owner := O_joining\<rparr>)"
    using step O_quitting p by (simp add: elt_owner_def loop_quit_def set_quit_def)
  with inv O_quitting p pc show ?thesis by (elim disjE) (auto simp: elt_inv_def fifo_def)
next
  case O_joining
  then have "r = Inr (s\<lparr>et_owner := O_gone\<rparr>)" "et_pc s = T_dead"
    using step by (simp_all add: elt_owner_def split: if_splits)
  with inv O_joining show ?thesis by (simp add: elt_inv_def)
qed (use step in \<open>simp_all add: elt_owner_def\<close>)

lemma elt_step_inv:
  assumes "elt_inv s" "elt_step False s r"
  shows "\<exists>s'. r = Inr s' \<and> elt_inv s'"
  using assms(2)
proof cases
  case startLoop
  with assms(1) show ?thesis by (simp add: elt_inv_def elt_startLoop_def)
next
  case dtor
  with assms(1) show ?thesis by (auto simp: elt_inv_def elt_dtor_def)
next
  case thread
  with elt_thread_inv [OF assms(1)] show ?thesis by blast
next
  case owner
  with elt_owner_inv [OF assms(1)] show ?thesis by blast
next
  case (env l)
  with env_inv [OF assms(1)] show ?thesis by blast
qed

lemma elt_reach_inv: "elt_reach False r \<Longrightarrow> \<exists>s. r = Inr s \<and> elt_inv s"
  by (erule reach_inv [where I = elt_inv]) (rule elt_new_inv, rule elt_step_inv)

section \<open>The end of the loop\<close>

text \<open>How far a loop that was asked to quit is from its end.\<close>

definition to_end :: "'t event_loop \<Rightarrow> nat" where
  "to_end l =
     (case lp_pc l of
        Check \<Rightarrow> 1
      | Running \<Rightarrow> 2 + length (lp_batch l)
      | Handling b \<Rightarrow> 4 + length (lp_pending l) + (if b then 1 else 0)
      | Polling \<Rightarrow> 6 + length (lp_pending l)
      | _ \<Rightarrow> 0)"

lemma quitting_step:
  assumes "lp_quit l" "lp_pc l = Polling \<Longrightarrow> 0 < lp_wake l" "lp_pc l \<noteq> Before" "lp_pc l \<noteq> Ended"
  shows "\<exists>l'. loop_thread l = Some l' \<and> to_end l' < to_end l"
  using assms
  by (cases "lp_pc l"; cases "lp_batch l")
    (auto simp: loop_thread_def to_end_def swap_tasks_def loop_handleRead_def)

lemma thread_ends:
  assumes "elt_inv s" "et_owner s = O_joining" "et_pc s = T_looping" "lp_quit (et_loop s)"
  shows "\<exists>n s'. elt_run n s = Some (Inr s') \<and> et_owner s' = O_gone"
  using assms
proof (induction "to_end (et_loop s)" arbitrary: s rule: less_induct)
  case less
  note inv = less.prems(1)
  show ?case
  proof (cases "lp_pc (et_loop s) = Ended")
    case True
    then have "\<not> lp_looping (et_loop s)" using inv by (simp add: elt_inv_def fifo_def)
    then have "elt_run 3 s = Some (Inr (s\<lparr>et_ptr := False, et_pc := T_dead, et_owner := O_gone\<rparr>))"
      using True less.prems
      by (simp add: eval_nat_numeral elt_next_def elt_thread_def elt_owner_def)
    then show ?thesis by (intro exI) auto
  next
    case False
    then obtain l where l: "loop_thread (et_loop s) = Some l" "to_end l < to_end (et_loop s)"
      using quitting_step [of "et_loop s"] less.prems by (auto simp: elt_inv_def)
    let ?s = "s\<lparr>et_loop := l\<rparr>"
    have n: "elt_next s = Some (Inr ?s)"
      using False less.prems(3) l(1) by (simp add: elt_next_def elt_thread_def)
    have e: "env_ok False (et_loop s) l" using l(1) by (rule loop_thread_env)
    have "elt_inv ?s" using env_inv [OF inv _ e] less.prems(3) by simp
    moreover have "lp_quit (et_loop ?s)" using e less.prems(4) by (simp add: env_ok_def)
    ultimately obtain k s' where "elt_run k ?s = Some (Inr s')" "et_owner s' = O_gone"
      using less.hyps [of ?s] l(2) less.prems(2,3) by auto
    then have "elt_run (Suc k) s = Some (Inr s')" "et_owner s' = O_gone" using n by simp_all
    then show ?thesis by blast
  qed
qed

section \<open>Properties\<close>

text \<open>C29. \<open>startLoop()\<close> hands out a live loop: as long as nobody but the destructor calls \<open>quit()\<close>,
  no assertion fails and no null pointer is used, whatever the interleaving; between the return of
  \<open>startLoop()\<close> and the destructor \<open>loop_\<close> points to a loop that exists and has not ended; and the
  destructor returns only when the thread is gone.\<close>
theorem start_loop_live:
  assumes "elt_reach False r"
  shows "\<exists>s. r = Inr s \<and>
     (et_owner s = O_running \<longrightarrow>
        et_ptr s \<and> (et_pc s = T_published \<or> et_pc s = T_looping) \<and> lp_pc (et_loop s) \<noteq> Ended) \<and>
     (et_owner s = O_gone \<longrightarrow> et_pc s = T_unborn \<or> et_pc s = T_dead)"
proof -
  obtain s where s: "r = Inr s" "elt_inv s" using elt_reach_inv [OF assms] by blast
  then show ?thesis unfolding elt_inv_def by blast
qed

text \<open>C30. The destructor ends: once it has asked a loop that was entered to quit, the thread on its
  own runs what is pending, leaves the loop and finishes, and \<open>join()\<close> returns.\<close>
theorem dtor_joins:
  assumes "elt_reach False (Inr s)" and "et_owner s = O_joining" and "et_pc s = T_looping"
    and "lp_quit (et_loop s)"
  shows "\<exists>n s'. elt_run n s = Some (Inr s') \<and> et_owner s' = O_gone"
  using elt_reach_inv [OF assms(1)] thread_ends [OF _ assms(2-4)] by auto

text \<open>The start of a run: published, and the owner back from \<open>startLoop()\<close>.\<close>

definition elt_published :: "'t loop_thread_object" where
  "elt_published =
     \<lparr>et_exiting = False, et_ptr = True, et_loop = loop_new, et_pc = T_published, et_owner = O_running\<rparr>"

lemma reach_published: "elt_reach ext (Inr elt_published)"
proof -
  let ?s1 = "elt_new\<lparr>et_pc := T_building, et_owner := O_starting\<rparr>"
  let ?s2 = "?s1\<lparr>et_ptr := True, et_pc := T_published\<rparr>"
  have "elt_step ext elt_new (elt_startLoop elt_new)" by (rule elt_step.startLoop) (simp add: elt_new_def)
  then have "elt_step ext elt_new (Inr ?s1)" by (simp add: elt_startLoop_def elt_new_def)
  then have "elt_reach ext (Inr ?s1)" by (rule reach_first)
  moreover have "elt_step ext ?s1 (Inr ?s2)" by (rule elt_step.thread) (simp add: elt_thread_def)
  ultimately have "elt_reach ext (Inr ?s2)" by (rule reach_step)
  moreover have "elt_step ext ?s2 (Inr elt_published)"
    by (rule elt_step.owner) (simp add: elt_owner_def elt_published_def elt_new_def)
  ultimately show ?thesis by (rule reach_step)
qed

theorem start_loop_live_witness:
  "\<exists>s. elt_reach False (Inr s :: nat loop_thread_object res) \<and> et_owner s = O_running \<and> et_ptr s"
proof -
  have r: "elt_reach False (Inr elt_published :: nat loop_thread_object res)" by (rule reach_published)
  have o: "et_owner (elt_published :: nat loop_thread_object) = O_running" by (simp add: elt_published_def)
  from start_loop_live [OF r] o have "et_ptr (elt_published :: nat loop_thread_object)" by auto
  with o r show ?thesis by blast
qed

lemma reach_owner: "elt_reach ext (Inr s) \<Longrightarrow> elt_owner s = Some r \<Longrightarrow> elt_reach ext r"
  by (erule reach_step) (rule elt_step.owner)

lemma reach_thread: "elt_reach ext (Inr s) \<Longrightarrow> elt_thread s = Some r \<Longrightarrow> elt_reach ext r"
  by (erule reach_step) (rule elt_step.thread)

lemma run_reach:
  assumes "elt_reach ext (Inr s)" "elt_run n s = Some r"
  shows "elt_reach ext r"
  using assms
proof (induction n arbitrary: s)
  case 0
  then show ?case by simp
next
  case (Suc n)
  then obtain r1 where r1: "elt_next s = Some r1" by (cases "elt_next s") auto
  then have "elt_thread s = Some r1 \<or> elt_owner s = Some r1"
    by (auto simp: elt_next_def split: option.splits)
  then have "elt_reach ext r1"
    using Suc.prems(1) by (auto intro: reach_step elt_step.thread elt_step.owner)
  with Suc r1 show ?case by (cases r1) auto
qed

text \<open>The destructor's call of \<open>quit()\<close>, before the loop was entered and after.\<close>

definition elt_quitted :: "'t event_loop \<Rightarrow> thread_pc \<Rightarrow> 't loop_thread_object" where
  "elt_quitted l pc =
     \<lparr>et_exiting = True, et_ptr = True, et_loop = wakeup (l\<lparr>lp_quit := True\<rparr>), et_pc = pc,
      et_owner = O_joining\<rparr>"

lemma reach_quitted:
  assumes "elt_reach ext (Inr s)" "et_owner s = O_running" "et_ptr s" "\<not> lp_quit (et_loop s)"
  shows "elt_reach ext (Inr (elt_quitted (et_loop s) (et_pc s)))"
proof -
  have "elt_reach ext (Inr (elt_dtor s))"
    using assms(1) by (rule reach_step) (rule elt_step.dtor, simp add: assms(2))
  moreover have "elt_owner (elt_dtor s) = Some (Inr (elt_quitted (et_loop s) (et_pc s)))"
    using assms(3,4)
    by (simp add: elt_owner_def elt_dtor_def elt_quitted_def loop_quit_def set_quit_def)
  ultimately show ?thesis by (rule reach_owner)
qed

definition elt_entered :: "'t loop_thread_object" where
  "elt_entered =
     elt_published\<lparr>et_loop := loop_new\<lparr>lp_looping := True, lp_pc := Check\<rparr>, et_pc := T_looping\<rparr>"

lemma reach_entered: "elt_reach ext (Inr elt_entered)"
proof -
  have "elt_thread elt_published = Some (Inr elt_entered)"
    by (simp add: elt_thread_def elt_published_def elt_entered_def loop_enter_def loop_new_def)
  then show ?thesis by (rule reach_thread [OF reach_published])
qed

theorem dtor_joins_witness:
  "\<exists>s n s'. elt_reach False (Inr s :: nat loop_thread_object res) \<and> et_owner s = O_joining \<and>
     elt_run n s = Some (Inr s') \<and> et_owner s' = O_gone"
proof -
  let ?e = "elt_entered :: nat loop_thread_object"
  let ?s = "elt_quitted (et_loop ?e) (et_pc ?e)"
  have r: "elt_reach False (Inr ?s)"
    by (rule reach_quitted [OF reach_entered]) (simp_all add: elt_entered_def elt_published_def loop_new_def)
  have "et_owner ?s = O_joining" "et_pc ?s = T_looping" "lp_quit (et_loop ?s)"
    by (simp_all add: elt_quitted_def elt_entered_def)
  from dtor_joins [OF r this] r \<open>et_owner ?s = O_joining\<close> show ?thesis by blast
qed

text \<open>The destructor can hang: when it calls \<open>quit()\<close> between the return of \<open>startLoop()\<close> and
  the thread's entry into \<open>loop()\<close>, entering clears \<open>quit_\<close>; one idle round uses up the wake-up,
  and then the loop sleeps in \<open>epoll_wait\<close> with nothing pending, nobody about to wake it, and
  the owner in \<open>join()\<close>: neither can move.\<close>
theorem dtor_hangs:
  "\<exists>s :: 't loop_thread_object. elt_reach False (Inr s) \<and> et_owner s = O_joining \<and> et_pc s = T_looping \<and>
     \<not> lp_quit (et_loop s) \<and> lp_pc (et_loop s) = Polling \<and> lp_pending (et_loop s) = [] \<and>
     lp_owed (et_loop s) = 0 \<and> elt_next s = None"
proof -
  let ?e = "elt_published :: 't loop_thread_object"
  let ?s = "elt_quitted (et_loop ?e) (et_pc ?e)"
  have r: "elt_reach False (Inr ?s)"
    by (rule reach_quitted [OF reach_published]) (simp_all add: elt_published_def loop_new_def)
  have "elt_run (Suc (Suc (Suc (Suc (Suc (Suc (Suc 0))))))) ?s =
      Some (Inr (?s\<lparr>et_loop := loop_new\<lparr>lp_looping := True, lp_pc := Polling\<rparr>, et_pc := T_looping\<rparr>))"
    by (simp add: elt_quitted_def elt_published_def elt_next_def elt_thread_def loop_enter_def loop_new_def
        wakeup_once loop_thread_def loop_handleRead_def swap_tasks_def)
  from run_reach [OF r this] show ?thesis
    by (intro exI conjI, assumption)
      (simp_all add: elt_quitted_def loop_new_def elt_next_def elt_thread_def elt_owner_def loop_thread_def)
qed

text \<open>The destructor can crash: it tests \<open>loop_\<close> without the mutex. If somebody else makes the
  loop quit, either the thread clears \<open>loop_\<close> between the test and the call, which then goes
  through a null pointer, or the destructor's own \<open>quit()\<close> finds \<open>quit_\<close> already set and aborts.\<close>
theorem dtor_crashes:
  "elt_reach True (Inl Null_pointer :: 't loop_thread_object res) \<and>
   elt_reach True (Inl (Assertion ''!quit_'') :: 't loop_thread_object res)"
proof -
  let ?e = "elt_entered :: 't loop_thread_object"
  let ?d = "elt_dtor ?e"
  let ?q = "\<lambda>s. s\<lparr>et_loop := (et_loop s)\<lparr>lp_quit := True, lp_owed := lp_owed (et_loop s) + 1\<rparr>\<rparr>
              :: 't loop_thread_object"
  have quit: "elt_reach True (Inr (?q s))"
    if "elt_reach True (Inr s)" "et_pc s = T_looping" "\<not> lp_quit (et_loop s)" "lp_pc (et_loop s) \<noteq> Before" for s
    using that(1)
  proof (rule reach_step)
    have "env_ok True (et_loop s) ((et_loop s)\<lparr>lp_quit := True, lp_owed := lp_owed (et_loop s) + 1\<rparr>)"
      using loop_step.remote_quit [of "et_loop s" True] that(3) by (simp add: env_ok_def set_quit_def)
    then show "elt_step True s (Inr (?q s))" using that(2) by (intro elt_step.env) simp_all
  qed
  have d: "elt_reach True (Inr ?d)"
    using reach_entered by (rule reach_step) (rule elt_step.dtor, simp add: elt_entered_def elt_published_def)
  have "elt_reach True (Inr (?q ?d))"
    by (rule quit [OF d]) (simp_all add: elt_dtor_def elt_entered_def loop_new_def)
  moreover have "elt_run (Suc (Suc 0)) (?q ?d) =
      Some (Inr ((?q ?d)\<lparr>et_loop := (et_loop (?q ?d))\<lparr>lp_looping := False, lp_pc := Ended\<rparr>,
        et_ptr := False, et_pc := T_cleared\<rparr>))"
    by (simp add: elt_next_def elt_thread_def elt_dtor_def elt_entered_def loop_thread_def)
  ultimately have c: "elt_reach True (Inr ((?q ?d)\<lparr>et_loop := (et_loop (?q ?d))\<lparr>lp_looping := False, lp_pc := Ended\<rparr>,
        et_ptr := False, et_pc := T_cleared\<rparr>))"
    by (rule run_reach)
  have 1: "elt_reach True (Inl Null_pointer :: 't loop_thread_object res)"
    using c by (rule reach_step)
      (rule elt_step.owner, simp add: elt_owner_def elt_dtor_def elt_entered_def elt_published_def)
  have "elt_reach True (Inr (?q ?e))"
    by (rule quit [OF reach_entered]) (simp_all add: elt_entered_def loop_new_def)
  then have "elt_reach True (Inr (elt_dtor (?q ?e)))"
    by (rule reach_step) (rule elt_step.dtor, simp add: elt_entered_def elt_published_def)
  then have 2: "elt_reach True (Inl (Assertion ''!quit_'') :: 't loop_thread_object res)"
    by (rule reach_step)
      (rule elt_step.owner, simp add: elt_owner_def elt_dtor_def elt_entered_def elt_published_def
        loop_quit_def set_quit_def)
  from 1 2 show ?thesis by blast
qed

end
