(* ===== verification/Mutex.thy ===== *)
theory Mutex
  imports Monitor
begin

text \<open>
  What a critical section is: \<open>base/Mutex.h\<close>, \<open>base/Condition.h\<close> and the latch in the single
  accesses of its threads. \<open>Monitor\<close> takes a critical section to be one step; here a thread locks
  the mutex (\<open>MutexLockGuard\<close>), reads and writes one after the other, signals, and unlocks when the
  guard goes out of scope, and \<open>pthread_cond_wait\<close> gives up the mutex and takes it again. The
  lemmas show that the mutex is held by one thread at a time and only unlocked by its holder, and
  that every run is, up to the order of steps that nobody can see, a run of the monitor.
\<close>

section \<open>The mutex\<close>

text \<open>The mutex is the thread that holds it; \<open>lock\<close> blocks (\<open>None\<close>) while there is one. Unlocking a
  mutex that the thread does not hold is undefined.\<close>

type_synonym mutex = "nat option"

definition mutex_new :: mutex where
  "mutex_new = None"

definition mutex_lock :: "nat \<Rightarrow> mutex \<Rightarrow> mutex option" where
  "mutex_lock t m = (if m = None then Some (Some t) else None)"

definition mutex_unlock :: "nat \<Rightarrow> mutex \<Rightarrow> mutex res" where
  "mutex_unlock t m = assertE (m = Some t) ''holds the mutex'' (Inr None)"

definition guard_new :: "nat \<Rightarrow> mutex \<Rightarrow> mutex option" where
  "guard_new t m = mutex_lock t m"

definition guard_dtor :: "nat \<Rightarrow> mutex \<Rightarrow> mutex res" where
  "guard_dtor t m = mutex_unlock t m"

section \<open>Threads\<close>

text \<open>
  A waiting thread: it waits for the mutex, tests, sleeps, or leaves. An updating thread: it waits
  for the mutex, has accesses left to do (with a register of its own), signals, or leaves.
\<close>

datatype ('s, 'r, 'e) lock_pc =
    Out
  | Wait_lock | Wait_test | Wait_sleep | Wait_leave
  | Upd_lock 'e | Upd_body 'e "('s \<times> 'r \<Rightarrow> 's \<times> 'r) list" 'r | Upd_signal 'e | Upd_leave

fun holds :: "('s, 'r, 'e) lock_pc \<Rightarrow> bool" where
  "holds Wait_test = True"
| "holds Wait_leave = True"
| "holds (Upd_body e fs r) = True"
| "holds (Upd_signal e) = True"
| "holds Upd_leave = True"
| "holds _ = False"

fun in_wait :: "('s, 'r, 'e) lock_pc \<Rightarrow> bool" where
  "in_wait Wait_lock = True"
| "in_wait Wait_test = True"
| "in_wait _ = False"

record ('s, 'r, 'e) locked =
  lk_mutex :: mutex
  lk_data :: 's
  lk_pc :: "nat \<Rightarrow> ('s, 'r, 'e) lock_pc"

definition locked_new :: "'s \<Rightarrow> ('s, 'r, 'e) locked" where
  "locked_new s = \<lparr>lk_mutex = mutex_new, lk_data = s, lk_pc = (\<lambda>_. Out)\<rparr>"

definition goto :: "nat \<Rightarrow> ('s, 'r, 'e) lock_pc \<Rightarrow> ('s, 'r, 'e) locked \<Rightarrow> ('s, 'r, 'e) locked" where
  "goto t pc c = c\<lparr>lk_pc := (lk_pc c)(t := pc)\<rparr>"

text \<open>Sleeping threads that are signalled have to lock the mutex again.\<close>

definition wake :: "nat set \<Rightarrow> ('s, 'r, 'e) locked \<Rightarrow> ('s, 'r, 'e) locked" where
  "wake ts c = c\<lparr>lk_pc := \<lambda>t. if t \<in> ts then Wait_lock else lk_pc c t\<rparr>"

definition sleepers :: "('s, 'r, 'e) locked \<Rightarrow> nat set" where
  "sleepers c = {t. lk_pc c t = Wait_sleep}"

text \<open>Leaving a section, by the end of the guard or into \<open>pthread_cond_wait\<close>.\<close>

definition leave :: "nat \<Rightarrow> ('s, 'r, 'e) lock_pc \<Rightarrow> ('s, 'r, 'e) locked \<Rightarrow> ('s, 'r, 'e) locked res" where
  "leave t pc c = bindE (guard_dtor t (lk_mutex c)) (\<lambda>m. Inr (goto t pc (c\<lparr>lk_mutex := m\<rparr>)))"

text \<open>
  \<open>body e\<close> are the accesses of the section \<open>e\<close> and \<open>fsig e s\<close> its signal, for the data \<open>s\<close> it has
  written.
\<close>

inductive lock_step ::
  "('s \<Rightarrow> bool) \<Rightarrow> ('e \<Rightarrow> ('s \<times> 'r \<Rightarrow> 's \<times> 'r) list) \<Rightarrow> ('e \<Rightarrow> 's \<Rightarrow> signal) \<Rightarrow> nat set \<Rightarrow>
   ('s, 'r, 'e) locked \<Rightarrow> ('s, 'r, 'e) locked res \<Rightarrow> bool"
  for ready body fsig W where
  wait_call: "t \<in> W \<Longrightarrow> lk_pc c t = Out \<Longrightarrow> lock_step ready body fsig W c (Inr (goto t Wait_lock c))"
| wait_lock: "lk_pc c t = Wait_lock \<Longrightarrow> guard_new t (lk_mutex c) = Some m \<Longrightarrow>
    lock_step ready body fsig W c (Inr (goto t Wait_test (c\<lparr>lk_mutex := m\<rparr>)))"
| wait_pass: "lk_pc c t = Wait_test \<Longrightarrow> ready (lk_data c) \<Longrightarrow>
    lock_step ready body fsig W c (Inr (goto t Wait_leave c))"
| wait_sleep: "lk_pc c t = Wait_test \<Longrightarrow> \<not> ready (lk_data c) \<Longrightarrow>
    lock_step ready body fsig W c (leave t Wait_sleep c)"
| wait_leave: "lk_pc c t = Wait_leave \<Longrightarrow> lock_step ready body fsig W c (leave t Out c)"
| spurious: "t \<in> sleepers c \<Longrightarrow> lock_step ready body fsig W c (Inr (wake {t} c))"
| upd_call: "lk_pc c t = Out \<Longrightarrow> lock_step ready body fsig W c (Inr (goto t (Upd_lock e) c))"
| upd_lock: "lk_pc c t = Upd_lock e \<Longrightarrow> guard_new t (lk_mutex c) = Some m \<Longrightarrow>
    lock_step ready body fsig W c (Inr (goto t (Upd_body e (body e) r) (c\<lparr>lk_mutex := m\<rparr>)))"
| upd_access: "lk_pc c t = Upd_body e (f # fs) r \<Longrightarrow> f (lk_data c, r) = (s, r') \<Longrightarrow>
    lock_step ready body fsig W c (Inr (goto t (Upd_body e fs r') (c\<lparr>lk_data := s\<rparr>)))"
| upd_done: "lk_pc c t = Upd_body e [] r \<Longrightarrow>
    lock_step ready body fsig W c (Inr (goto t (Upd_signal e) c))"
| quiet: "lk_pc c t = Upd_signal e \<Longrightarrow>
    fsig e (lk_data c) = No_signal \<or> fsig e (lk_data c) = Notify \<and> sleepers c = {} \<Longrightarrow>
    lock_step ready body fsig W c (Inr (goto t Upd_leave c))"
| notify: "lk_pc c t = Upd_signal e \<Longrightarrow> fsig e (lk_data c) = Notify \<Longrightarrow> u \<in> sleepers c \<Longrightarrow>
    lock_step ready body fsig W c (Inr (wake {u} (goto t Upd_leave c)))"
| notify_all: "lk_pc c t = Upd_signal e \<Longrightarrow> fsig e (lk_data c) = Notify_all \<Longrightarrow>
    lock_step ready body fsig W c (Inr (wake (sleepers c) (goto t Upd_leave c)))"
| upd_leave: "lk_pc c t = Upd_leave \<Longrightarrow> lock_step ready body fsig W c (leave t Out c)"

section \<open>Mutual exclusion\<close>

definition exclusive :: "('s, 'r, 'e) locked \<Rightarrow> bool" where
  "exclusive c \<longleftrightarrow> (\<forall>t. holds (lk_pc c t) \<longleftrightarrow> lk_mutex c = Some t)"

lemma exclusive_one: "exclusive c \<Longrightarrow> holds (lk_pc c t) \<Longrightarrow> holds (lk_pc c u) \<Longrightarrow> t = u"
  by (simp add: exclusive_def)

lemma leave_Inr:
  "exclusive c \<Longrightarrow> holds (lk_pc c t) \<Longrightarrow> leave t pc c = Inr (goto t pc (c\<lparr>lk_mutex := None\<rparr>))"
  by (simp add: leave_def guard_dtor_def mutex_unlock_def exclusive_def)

lemma exclusive_goto:
  assumes "exclusive c" "holds pc \<longleftrightarrow> holds (lk_pc c t)"
  shows "exclusive (goto t pc (c\<lparr>lk_data := s\<rparr>))" "exclusive (goto t pc c)"
  using assms by (auto simp: exclusive_def goto_def)

lemma exclusive_lock:
  assumes "exclusive c" "guard_new t (lk_mutex c) = Some m" "holds pc"
  shows "exclusive (goto t pc (c\<lparr>lk_mutex := m\<rparr>))"
  using assms by (auto simp: exclusive_def goto_def guard_new_def mutex_lock_def split: if_splits)

lemma exclusive_leave:
  assumes "exclusive c" "holds (lk_pc c t)" "\<not> holds pc"
  shows "exclusive (goto t pc (c\<lparr>lk_mutex := None\<rparr>))"
  using assms by (auto simp: exclusive_def goto_def)

lemma exclusive_wake: "exclusive c \<Longrightarrow> (\<And>t. t \<in> ts \<Longrightarrow> \<not> holds (lk_pc c t)) \<Longrightarrow> exclusive (wake ts c)"
  by (auto simp: exclusive_def wake_def)

section \<open>Sections are steps\<close>

text \<open>
  \<open>d\<close> are the data as the monitor sees them: those of before the section that a thread is in the
  middle of, until the section gives its signal.
\<close>

fun seen :: "('e \<Rightarrow> 's \<Rightarrow> 's) \<Rightarrow> ('s, 'r, 'e) lock_pc \<Rightarrow> 's \<Rightarrow> 's \<Rightarrow> bool" where
  "seen upd (Upd_body e fs r) s d = (fst (fold (\<lambda>f. f) fs (s, r)) = upd e d)"
| "seen upd (Upd_signal e) s d = (s = upd e d)"
| "seen upd _ s d = (s = d)"

definition data_rel :: "('e \<Rightarrow> 's \<Rightarrow> 's) \<Rightarrow> ('s, 'r, 'e) locked \<Rightarrow> 's \<Rightarrow> bool" where
  "data_rel upd c d \<longleftrightarrow>
     (case lk_mutex c of None \<Rightarrow> lk_data c = d | Some t \<Rightarrow> seen upd (lk_pc c t) (lk_data c) d)"

definition lock_rel :: "('e \<Rightarrow> 's \<Rightarrow> 's) \<Rightarrow> ('s, 'r, 'e) locked \<Rightarrow> ('s, 'e) monitor \<Rightarrow> bool" where
  "lock_rel upd c m \<longleftrightarrow>
     mo_testing m = {t. in_wait (lk_pc c t)} \<and> mo_sleeping m = sleepers c \<and> data_rel upd c (mo_data m)"

lemma lock_relI:
  assumes "mo_testing m = {t. in_wait (lk_pc c t)}" "mo_sleeping m = sleepers c" "data_rel upd c (mo_data m)"
  shows "lock_rel upd c m"
  using assms by (simp add: lock_rel_def)

lemma data_rel_free: "lk_mutex c = None \<Longrightarrow> data_rel upd c d \<longleftrightarrow> lk_data c = d"
  by (simp add: data_rel_def)

lemma data_rel_held:
  "exclusive c \<Longrightarrow> holds (lk_pc c t) \<Longrightarrow> data_rel upd c d \<longleftrightarrow> seen upd (lk_pc c t) (lk_data c) d"
  by (simp add: data_rel_def exclusive_def)

text \<open>Steps of threads that do not hold the mutex leave the holder alone.\<close>

lemma data_rel_same:
  assumes "exclusive c" "lk_mutex c' = lk_mutex c" "lk_data c' = lk_data c"
    and "\<And>t. holds (lk_pc c t) \<Longrightarrow> lk_pc c' t = lk_pc c t"
  shows "data_rel upd c' d = data_rel upd c d"
proof (cases "lk_mutex c")
  case (Some t)
  then have "lk_pc c' t = lk_pc c t" using assms(1,4) by (simp add: exclusive_def)
  with Some assms(2,3) show ?thesis by (simp add: data_rel_def)
qed (use assms in \<open>simp add: data_rel_def\<close>)

lemma data_rel_other:
  assumes "exclusive c" "\<not> holds (lk_pc c t)" "\<not> holds pc"
  shows "data_rel upd (goto t pc c) d = data_rel upd c d"
  by (rule data_rel_same [OF assms(1)]) (use assms(2) in \<open>auto simp: goto_def\<close>)

lemma data_rel_wake:
  assumes "exclusive c" "\<And>t. t \<in> ts \<Longrightarrow> \<not> holds (lk_pc c t)"
  shows "data_rel upd (wake ts c) d = data_rel upd c d"
  by (rule data_rel_same [OF assms(1)]) (use assms(2) in \<open>auto simp: wake_def\<close>)

lemma goto_sets:
  "{u. in_wait (lk_pc (goto t pc c) u)} =
     (if in_wait pc then insert t {u. in_wait (lk_pc c u)} else {u. in_wait (lk_pc c u)} - {t})"
  "sleepers (goto t pc c) = (if pc = Wait_sleep then insert t (sleepers c) else sleepers c - {t})"
  by (auto simp: goto_def sleepers_def)

lemma wake_sets:
  "{u. in_wait (lk_pc (wake ts c) u)} = {u. in_wait (lk_pc c u)} \<union> ts"
  "sleepers (wake ts c) = sleepers c - ts"
  by (auto simp: wake_def sleepers_def)

lemma in_sleepers: "t \<in> sleepers c \<longleftrightarrow> lk_pc c t = Wait_sleep"
  by (simp add: sleepers_def)

lemma set_mutex_sets:
  "sleepers (c\<lparr>lk_mutex := x\<rparr>) = sleepers c" "sleepers (c\<lparr>lk_data := s\<rparr>) = sleepers c"
  by (simp_all add: sleepers_def)

lemma goto_simps [simp]:
  "lk_pc (goto t pc c) t = pc" "lk_data (goto t pc c) = lk_data c" "lk_mutex (goto t pc c) = lk_mutex c"
  "lk_data (wake ts c) = lk_data c"
  by (simp_all add: goto_def wake_def)

lemma sleeper_free: "t \<in> sleepers c \<Longrightarrow> \<not> holds (lk_pc c t)" "t \<in> sleepers c \<Longrightarrow> \<not> in_wait (lk_pc c t)"
  by (simp_all add: sleepers_def)

text \<open>The contract of the accesses: together they are the section, and the signal is the one of
  what they wrote.\<close>

locale critical_section =
  fixes ready :: "'s \<Rightarrow> bool"
    and upd :: "'e \<Rightarrow> 's \<Rightarrow> 's"
    and sig :: "'e \<Rightarrow> 's \<Rightarrow> signal"
    and W :: "nat set"
    and body :: "'e \<Rightarrow> ('s \<times> 'r \<Rightarrow> 's \<times> 'r) list"
    and fsig :: "'e \<Rightarrow> 's \<Rightarrow> signal"
  assumes body_upd: "fst (fold (\<lambda>f. f) (body e) (s, r)) = upd e s"
    and sig_end: "sig e s = fsig e (upd e s)"

context critical_section
begin

definition simulated :: "('s, 'e) monitor \<Rightarrow> ('s, 'r, 'e) locked res \<Rightarrow> bool" where
  "simulated m r \<longleftrightarrow>
     (\<exists>c' m'. r = Inr c' \<and> exclusive c' \<and> (m' = m \<or> mon_step ready upd sig W m (Inr m')) \<and> lock_rel upd c' m')"

lemma simulatedI:
  assumes "r = Inr c'" "exclusive c'" "m' = m \<or> mon_step ready upd sig W m (Inr m')"
    and "mo_testing m' = {t. in_wait (lk_pc c' t)}" "mo_sleeping m' = sleepers c'" "data_rel upd c' (mo_data m')"
  shows "simulated m r"
  using assms unfolding simulated_def lock_rel_def by blast

lemma signal_sim:
  assumes ex: "exclusive c" and rel: "lock_rel upd c m" and pc: "lk_pc c t = Upd_signal e"
    and ts: "ts \<subseteq> sleepers c" and step: "mon_step ready upd sig W m (Inr (mon_wake ts (mon_update upd e m)))"
  shows "simulated m (Inr (wake ts (goto t Upd_leave c)))"
proof (rule simulatedI [OF refl _ disjI2 [OF step]])
  let ?c = "goto t Upd_leave c"
  have x: "exclusive ?c" using exclusive_goto(2) [OF ex, of Upd_leave t] pc by simp
  have f: "\<not> holds (lk_pc ?c u)" if "u \<in> ts" for u
    using that ts pc by (auto simp: goto_def in_sleepers)
  show "exclusive (wake ts ?c)" by (rule exclusive_wake [OF x f])
  have "lk_data c = upd e (mo_data m)" using rel data_rel_held [OF ex, of t] pc by (simp add: lock_rel_def)
  then have "data_rel upd ?c (upd e (mo_data m))" using data_rel_held [OF x, of t] by simp
  then show "data_rel upd (wake ts ?c) (mo_data (mon_wake ts (mon_update upd e m)))"
    using data_rel_wake [OF x f] by simp
  have "t \<notin> {u. in_wait (lk_pc c u)}" "t \<notin> sleepers c" using pc by (simp_all add: in_sleepers)
  then show "mo_testing (mon_wake ts (mon_update upd e m)) = {u. in_wait (lk_pc (wake ts ?c) u)}"
    "mo_sleeping (mon_wake ts (mon_update upd e m)) = sleepers (wake ts ?c)"
    using rel by (simp_all add: wake_sets goto_sets lock_rel_def)
qed

lemma sim_step:
  assumes ex: "exclusive c" and rel: "lock_rel upd c m" and step: "lock_step ready body fsig W c r"
  shows "simulated m r"
proof -
  note R = rel [unfolded lock_rel_def]
  note held = data_rel_held [OF ex, of _ upd "mo_data m"]
  from step show ?thesis
  proof cases
    case (wait_call t)
    have nt: "t \<notin> mo_testing m \<union> mo_sleeping m" using R wait_call by (simp add: in_sleepers)
    show ?thesis
    proof (rule simulatedI [OF wait_call(1)])
      show "m\<lparr>mo_testing := insert t (mo_testing m)\<rparr> = m \<or>
          mon_step ready upd sig W m (Inr (m\<lparr>mo_testing := insert t (mo_testing m)\<rparr>))"
        using mon_step.enter [OF wait_call(2) nt] by blast
    qed (use R nt wait_call exclusive_goto(2) [OF ex] data_rel_other [OF ex] in \<open>auto simp: goto_sets\<close>)
  next
    case (wait_lock t m')
    then have free: "lk_mutex c = None" "m' = Some t"
      by (auto simp: guard_new_def mutex_lock_def split: if_splits)
    have x: "exclusive (goto t Wait_test (c\<lparr>lk_mutex := m'\<rparr>))"
      by (rule exclusive_lock [OF ex wait_lock(3)]) simp
    show ?thesis
    proof (rule simulatedI [OF wait_lock(1) x disjI1 [OF refl]])
      show "data_rel upd (goto t Wait_test (c\<lparr>lk_mutex := m'\<rparr>)) (mo_data m)"
        using R data_rel_free [OF free(1)] data_rel_held [OF x, of t] by simp
    qed (use R wait_lock(2) in \<open>auto simp: goto_sets set_mutex_sets in_sleepers\<close>)
  next
    case (wait_pass t)
    have d: "lk_data c = mo_data m" using R held [of t] wait_pass by simp
    have x: "exclusive (goto t Wait_leave c)" using exclusive_goto(2) [OF ex] wait_pass by simp
    let ?m = "m\<lparr>mo_testing := mo_testing m - {t}, mo_returned := mo_returned m @ [t]\<rparr>"
    show ?thesis
    proof (rule simulatedI [OF wait_pass(1) x])
      show "?m = m \<or> mon_step ready upd sig W m (Inr ?m)"
        using mon_step.pass [of t m ready upd sig W] R wait_pass d by simp
    qed (use R d data_rel_held [OF x, of t] wait_pass in \<open>auto simp: goto_sets in_sleepers\<close>)
  next
    case (wait_sleep t)
    have d: "lk_data c = mo_data m" using R held [of t] wait_sleep by simp
    let ?c = "goto t Wait_sleep (c\<lparr>lk_mutex := None\<rparr>)"
    let ?m = "m\<lparr>mo_testing := mo_testing m - {t}, mo_sleeping := insert t (mo_sleeping m)\<rparr>"
    have r: "r = Inr ?c" using leave_Inr [OF ex] wait_sleep by simp
    show ?thesis
    proof (rule simulatedI [OF r])
      show "?m = m \<or> mon_step ready upd sig W m (Inr ?m)"
        using mon_step.sleep [of t m ready upd sig W] R wait_sleep d by simp
      show "exclusive ?c" by (rule exclusive_leave [OF ex]) (use wait_sleep in simp_all)
    qed (use R d in \<open>auto simp: goto_sets set_mutex_sets data_rel_def\<close>)
  next
    case (wait_leave t)
    have d: "lk_data c = mo_data m" using R held [of t] wait_leave by simp
    let ?c = "goto t Out (c\<lparr>lk_mutex := None\<rparr>)"
    have r: "r = Inr ?c" using leave_Inr [OF ex] wait_leave by simp
    show ?thesis
    proof (rule simulatedI [OF r _ disjI1 [OF refl]])
      show "exclusive ?c" by (rule exclusive_leave [OF ex]) (use wait_leave in simp_all)
    qed (use R d wait_leave in \<open>auto simp: goto_sets set_mutex_sets data_rel_def in_sleepers\<close>)
  next
    case (spurious t)
    show ?thesis
    proof (rule simulatedI [OF spurious(1)])
      show "mon_wake {t} m = m \<or> mon_step ready upd sig W m (Inr (mon_wake {t} m))"
        using mon_step.spurious [of t m ready upd sig W] R spurious(2) by simp
      show "exclusive (wake {t} c)" by (rule exclusive_wake [OF ex]) (use spurious(2) sleeper_free in blast)
      show "data_rel upd (wake {t} c) (mo_data (mon_wake {t} m))"
        using R data_rel_wake [OF ex, of "{t}"] spurious(2) sleeper_free(1) by auto
    qed (use R in \<open>simp_all add: wake_sets\<close>)
  next
    case (upd_call t e)
    show ?thesis
      by (rule simulatedI [OF upd_call(1) _ disjI1 [OF refl]])
        (use R upd_call exclusive_goto(2) [OF ex] data_rel_other [OF ex] in \<open>auto simp: goto_sets in_sleepers\<close>)
  next
    case (upd_lock t e m' r')
    then have free: "lk_mutex c = None" by (auto simp: guard_new_def mutex_lock_def split: if_splits)
    let ?c = "goto t (Upd_body e (body e) r') (c\<lparr>lk_mutex := m'\<rparr>)"
    have x: "exclusive ?c" by (rule exclusive_lock [OF ex upd_lock(3)]) simp
    have "data_rel upd ?c (mo_data m)"
      using R data_rel_free [OF free] data_rel_held [OF x, of t] body_upd by simp
    then show ?thesis
      by (rule simulatedI [OF upd_lock(1) x disjI1 [OF refl], rotated 2])
        (use R upd_lock(2) in \<open>auto simp: goto_sets set_mutex_sets in_sleepers\<close>)
  next
    case (upd_access t e f fs r1 s' r2)
    let ?c = "goto t (Upd_body e fs r2) (c\<lparr>lk_data := s'\<rparr>)"
    have x: "exclusive ?c" by (rule exclusive_goto(1) [OF ex]) (simp add: upd_access(2))
    have "fst (fold (\<lambda>f. f) fs (s', r2)) = upd e (mo_data m)"
      using R held [of t] upd_access(2,3) by simp
    then have "data_rel upd ?c (mo_data m)" using data_rel_held [OF x, of t] by simp
    then show ?thesis
      by (rule simulatedI [OF upd_access(1) x disjI1 [OF refl], rotated 2])
        (use R upd_access(2) in \<open>auto simp: goto_sets set_mutex_sets in_sleepers\<close>)
  next
    case (upd_done t e r')
    have x: "exclusive (goto t (Upd_signal e) c)" using exclusive_goto(2) [OF ex] upd_done by simp
    have "data_rel upd (goto t (Upd_signal e) c) (mo_data m)"
      using R held [of t] upd_done(2) data_rel_held [OF x, of t] by simp
    then show ?thesis
      by (rule simulatedI [OF upd_done(1) x disjI1 [OF refl], rotated 2])
        (use R upd_done(2) in \<open>auto simp: goto_sets in_sleepers\<close>)
  next
    case (quiet t e)
    have d: "lk_data c = upd e (mo_data m)" using R held [of t] quiet by simp
    have "mon_step ready upd sig W m (Inr (mon_update upd e m))"
      using quiet(3) R mon_step.quiet [of sig e m ready upd W] mon_step.notify_none [of sig e m ready upd W]
      by (auto simp: sig_end d)
    moreover have "mon_wake {} (mon_update upd e m) = mon_update upd e m"
      by (cases m) (simp add: mon_wake_def mon_update_def)
    ultimately have "mon_step ready upd sig W m (Inr (mon_wake {} (mon_update upd e m)))" by (simp only:)
    from signal_sim [OF ex rel quiet(2) empty_subsetI this] show ?thesis unfolding quiet(1) by (simp add: wake_def)
  next
    case (notify t e u)
    have d: "lk_data c = upd e (mo_data m)" using R held [of t] notify by simp
    have "mon_step ready upd sig W m (Inr (mon_wake {u} (mon_update upd e m)))"
      by (rule mon_step.notify) (use notify R in \<open>simp_all add: sig_end d\<close>)
    with signal_sim [OF ex rel notify(2)] notify(1,4) show ?thesis by simp
  next
    case (notify_all t e)
    have d: "lk_data c = upd e (mo_data m)" using R held [of t] notify_all by simp
    have "mon_step ready upd sig W m (Inr (mon_wake (mo_sleeping m) (mon_update upd e m)))"
      by (rule mon_step.notify_all) (use notify_all in \<open>simp add: sig_end d\<close>)
    with signal_sim [OF ex rel notify_all(2), of "sleepers c"] notify_all(1) R show ?thesis by simp
  next
    case (upd_leave t)
    have d: "lk_data c = mo_data m" using R held [of t] upd_leave by simp
    let ?c = "goto t Out (c\<lparr>lk_mutex := None\<rparr>)"
    have r: "r = Inr ?c" using leave_Inr [OF ex] upd_leave by simp
    show ?thesis
    proof (rule simulatedI [OF r _ disjI1 [OF refl]])
      show "exclusive ?c" by (rule exclusive_leave [OF ex]) (use upd_leave in simp_all)
    qed (use R d upd_leave in \<open>auto simp: goto_sets set_mutex_sets data_rel_def in_sleepers\<close>)
  qed
qed

lemma lock_refines:
  assumes "reach (lock_step ready body fsig W) (locked_new s) r"
  shows "\<exists>c m. r = Inr c \<and> exclusive c \<and> mon_reach ready upd sig W s (Inr m) \<and> lock_rel upd c m"
  using assms
proof (induction rule: reach.induct)
  case reach_init
  have "mon_reach ready upd sig W s (Inr (monitor_new s))" by (rule reach_init)
  moreover have "exclusive (locked_new s)" "lock_rel upd (locked_new s) (monitor_new s)"
    by (simp_all add: exclusive_def locked_new_def mutex_new_def lock_rel_def monitor_new_def sleepers_def
        data_rel_def)
  ultimately show ?case by blast
next
  case (reach_step c r)
  then obtain m where m: "exclusive c" "mon_reach ready upd sig W s (Inr m)" "lock_rel upd c m" by auto
  obtain c' m' where s: "r = Inr c'" "exclusive c'" "m' = m \<or> mon_step ready upd sig W m (Inr m')"
      "lock_rel upd c' m'"
    using sim_step [OF m(1,3) reach_step(2)] unfolding simulated_def by blast
  have "mon_reach ready upd sig W s (Inr m')"
    using s(3)
  proof
    assume "mon_step ready upd sig W m (Inr m')"
    with m(2) show ?thesis by (rule reach.reach_step)
  qed (use m(2) in simp)
  with s(1,2,4) show ?case by blast
qed

end

section \<open>The latch, access by access\<close>

text \<open>\<open>--count_\<close> reads, decrements and writes back; then \<open>count_ == 0\<close> decides about the signal.\<close>

definition countDown_body :: "unit \<Rightarrow> (int \<times> int \<Rightarrow> int \<times> int) list" where
  "countDown_body e =
     [\<lambda>(count, r). (count, count), \<lambda>(count, r). (count, r - 1), \<lambda>(count, r). (r, r)]"

definition countDown_signal :: "unit \<Rightarrow> int \<Rightarrow> signal" where
  "countDown_signal e count = (if count = 0 then Notify_all else No_signal)"

interpretation latch_section: critical_section latch_open "\<lambda>(_ :: unit) c. fst (latch_countDown c)"
    "\<lambda>_ c. snd (latch_countDown c)" UNIV countDown_body countDown_signal
  by unfold_locales (simp_all add: countDown_body_def countDown_signal_def latch_countDown_def Let_def)

abbreviation latch_locked_reach :: "int \<Rightarrow> (int, int, unit) locked res \<Rightarrow> bool" where
  "latch_locked_reach n \<equiv>
     reach (lock_step latch_open countDown_body countDown_signal UNIV) (locked_new (latch_new n))"

section \<open>Properties\<close>

text \<open>C32. 
  Critical sections are atomic: in every run of any threads that wait for the latch and count it
  down, interleaved access by access, at most one thread is between its lock and its unlock, and
  no thread unlocks a mutex it does not hold. The run is one of the monitor, in which the sections
  are single steps: it has the same threads waiting and asleep, and when the mutex is free the
  same count, that is the initial one less the sections completed. Once the count is not
  positive and the mutex is free, no thread sleeps.
\<close>
theorem critical_sections_atomic:
  assumes "latch_locked_reach n r"
  shows "\<exists>c m. r = Inr c \<and> (\<forall>t u. holds (lk_pc c t) \<longrightarrow> holds (lk_pc c u) \<longrightarrow> t = u) \<and>
    latch_reach n (Inr m) \<and> mo_sleeping m = sleepers c \<and> mo_testing m = {t. in_wait (lk_pc c t)} \<and>
    (lk_mutex c = None \<longrightarrow> lk_data c = mo_data m \<and> lk_data c = n - int (length (mo_log m)) \<and>
       (lk_data c \<le> 0 \<longrightarrow> sleepers c = {}))"
proof -
  obtain c m where c: "r = Inr c" "exclusive c" "latch_reach n (Inr m)"
      "lock_rel (\<lambda>(_ :: unit) c. fst (latch_countDown c)) c m"
    using latch_section.lock_refines [OF assms] by blast
  have "mo_data m = n - int (length (mo_log m))"
    using latch.data_log [OF c(3) refl] fold_countDown by (simp add: latch_new_def)
  moreover have "mo_sleeping m = {}" if "mo_data m \<le> 0"
    using latch.waiters_pass [OF c(3)] that by (simp add: latch_open_def)
  moreover have "lk_data c = mo_data m" if "lk_mutex c = None"
    using c(4) data_rel_free [OF that] by (simp add: lock_rel_def)
  ultimately show ?thesis using c exclusive_one [OF c(2)] unfolding lock_rel_def by metis
qed

text \<open>A thread in the middle of \<open>countDown\<close>, having read but not yet written.\<close>

lemma latch_in_section:
  "\<exists>c. latch_locked_reach 1 (Inr c) \<and> lk_pc c 4 = Upd_body () (tl (countDown_body ())) 1 \<and>
     lk_pc c 7 = Wait_lock \<and> lk_data c = 1"
proof -
  let ?step = "lock_step latch_open countDown_body countDown_signal UNIV"
  let ?b = "countDown_body ()"
  define c0 where "c0 = (locked_new (latch_new 1) :: (int, int, unit) locked)"
  define c1 where "c1 = goto 4 (Upd_lock ()) c0"
  define c2 where "c2 = goto 4 (Upd_body () ?b 0) (c1\<lparr>lk_mutex := Some 4\<rparr>)"
  define c3 where "c3 = goto 4 (Upd_body () (tl ?b) 1) (c2\<lparr>lk_data := 1\<rparr>)"
  define c4 where "c4 = goto 7 Wait_lock c3"
  have s1: "?step c0 (Inr c1)" unfolding c1_def by (rule lock_step.upd_call) (simp add: c0_def locked_new_def)
  have s2: "?step c1 (Inr c2)" unfolding c2_def
    by (rule lock_step.upd_lock)
      (simp_all add: c1_def c0_def locked_new_def mutex_new_def guard_new_def mutex_lock_def)
  have s3: "?step c2 (Inr c3)" unfolding c3_def
  proof (rule lock_step.upd_access)
    show "lk_pc c2 4 = Upd_body () ((\<lambda>(count, r). (count, count)) # tl ?b) 0"
      by (simp add: c2_def countDown_body_def)
    show "(\<lambda>(count, r). (count, count)) (lk_data c2, 0 :: int) = (1, 1)"
      by (simp add: c2_def c1_def c0_def locked_new_def latch_new_def)
  qed
  have s4: "?step c3 (Inr c4)" unfolding c4_def
    by (rule lock_step.wait_call) (simp_all add: c3_def c2_def c1_def c0_def goto_def locked_new_def)
  have "reach ?step c0 (Inr c1)" by (rule reach_first) (rule s1)
  then have "reach ?step c0 (Inr c2)" by (rule reach_step) (rule s2)
  then have "reach ?step c0 (Inr c3)" by (rule reach_step) (rule s3)
  then have "reach ?step c0 (Inr c4)" by (rule reach_step) (rule s4)
  then show ?thesis
    by (intro exI [of _ c4]) (simp add: c4_def c3_def c0_def goto_def)
qed

theorem critical_sections_atomic_witness:
  "\<exists>c m. latch_locked_reach 1 (Inr c) \<and> holds (lk_pc c 4) \<and> latch_reach 1 (Inr m) \<and>
     mo_testing m = {t. in_wait (lk_pc c t)} \<and> 7 \<in> mo_testing m"
proof -
  obtain c where c: "latch_locked_reach 1 (Inr c)" "lk_pc c 4 = Upd_body () (tl (countDown_body ())) 1"
      "lk_pc c 7 = Wait_lock"
    using latch_in_section by blast
  have "holds (lk_pc c 4)" "in_wait (lk_pc c 7)" unfolding c(2,3) by simp_all
  with critical_sections_atomic [OF c(1)] c(1) show ?thesis by (intro exI [of _ c]) auto
qed

end
