(* ===== verification/Inet_Address.thy ===== *)
theory Inet_Address
  imports Byte_Order Log_Stream
begin

text \<open>
  Internet addresses: \<open>InetAddress.h\<close> and \<open>InetAddress.cpp\<close>. An address is its
  \<open>sockaddr_in\<close>, with port and address in network byte order; \<open>le\<close> is the byte order of the
  host. Of the C library, \<open>inet_pton\<close> and \<open>inet_ntop\<close> for \<open>AF_INET\<close> are written out. The
  lemmas show that the text of an address determines it and reads back as the same address, on
  every host, and what the constructors build, a malformed text included.
\<close>

section \<open>Dotted decimal text\<close>

definition is_digit :: "char \<Rightarrow> bool" where
  "is_digit c \<longleftrightarrow> c \<in> set ''0123456789''"

text \<open>The parts of a text between dots.\<close>

fun dot_fields :: "string \<Rightarrow> string list" where
  "dot_fields [] = [[]]"
| "dot_fields (c # cs) =
     (if c = CHR ''.'' then [] # dot_fields cs
      else case dot_fields cs of [] \<Rightarrow> [[c]] | f # fs \<Rightarrow> (c # f) # fs)"

text \<open>One to three digits, without a leading zero, at most 255.\<close>

definition octet :: "string \<Rightarrow> byte option" where
  "octet s =
     (if s \<noteq> [] \<and> length s \<le> 3 \<and> list_all is_digit s \<and> (hd s = CHR ''0'' \<longrightarrow> length s = 1) \<and>
         parse_decimal s \<le> 255
      then Some (word_of_nat (parse_decimal s)) else None)"

definition inet_pton :: "bool \<Rightarrow> string \<Rightarrow> 32 word option" where
  "inet_pton le s =
     (let bs = map octet (dot_fields s) in
      if length bs = 4 \<and> None \<notin> set bs then Some (of_mem_bytes le (map the bs)) else None)"

definition dotted :: "byte list \<Rightarrow> string" where
  "dotted bs = concat (map (\<lambda>b. decimal (unat b) @ ''.'') (butlast bs)) @ decimal (unat (last bs))"

text \<open>\<open>inet_ntop\<close> fails when text and terminator do not fit.\<close>

definition inet_ntop :: "bool \<Rightarrow> 32 word \<Rightarrow> nat \<Rightarrow> string option" where
  "inet_ntop le a room =
     (let s = dotted (mem_bytes le a) in if length s < room then Some s else None)"

section \<open>The class\<close>

definition AF_INET :: "16 word" where
  "AF_INET = 2"

definition INET_ADDRSTRLEN :: nat where
  "INET_ADDRSTRLEN = 16"

record inet_address =
  sin_family :: "16 word"
  sin_port :: "16 word"
  s_addr :: "32 word"

text \<open>The default constructor's arguments are port 0 and no loopback.\<close>

definition inet_port :: "bool \<Rightarrow> 16 word \<Rightarrow> bool \<Rightarrow> inet_address" where
  "inet_port le port loopback =
     (let ip = (if loopback then 0x7F000001 else 0)
      in \<lparr>sin_family = AF_INET, sin_port = htobe le port, s_addr = htobe le ip\<rparr>)"

definition c_str :: "string \<Rightarrow> string" where
  "c_str s = takeWhile (\<lambda>c. c \<noteq> CHR 0x00) s"

text \<open>A malformed text is only logged; the address stays as \<open>bzero\<close> left it.\<close>

definition inet_ip_port :: "bool \<Rightarrow> string \<Rightarrow> 16 word \<Rightarrow> inet_address" where
  "inet_ip_port le ip port =
     (let a = \<lparr>sin_family = AF_INET, sin_port = 0, s_addr = 0\<rparr>;
          a1 = (case inet_pton le (c_str ip) of Some x \<Rightarrow> a\<lparr>s_addr := x\<rparr> | None \<Rightarrow> a)
      in a1\<lparr>sin_port := htobe le port\<rparr>)"

definition toIp :: "bool \<Rightarrow> inet_address \<Rightarrow> string" where
  "toIp le a =
     (case inet_ntop le (s_addr a) INET_ADDRSTRLEN of Some s \<Rightarrow> s | None \<Rightarrow> [])"

definition toPort :: "bool \<Rightarrow> inet_address \<Rightarrow> 16 word" where
  "toPort le a = betoh le (sin_port a)"

definition toIpPort :: "bool \<Rightarrow> inet_address \<Rightarrow> string" where
  "toIpPort le a = (toIp le a @ '':'') @ decimal (unat (toPort le a))"

section \<open>Decimal texts\<close>

lemma is_digit_char: "d < 10 \<Longrightarrow> is_digit (digit_char d)"
  by (drule less_10_cases) (auto simp: is_digit_def digit_char_def)

lemma decimal_digits: "list_all is_digit (decimal n)"
proof (induction n rule: decimal.induct)
  case (1 n)
  then show ?case by (cases "n < 10") (simp_all add: decimal.simps [of n] is_digit_char)
qed

lemma decimal_not_empty [simp]: "decimal n \<noteq> []"
  using decimal_head [of n] by auto

lemma decimal_leading_zero: "hd (decimal n) = CHR ''0'' \<Longrightarrow> n = 0"
proof (induction n rule: decimal.induct)
  case (1 n)
  show ?case
  proof (cases "n < 10")
    case True
    then show ?thesis using "1.prems" less_10_cases [OF True]
      by (auto simp: decimal.simps [of n] digit_char_def)
  next
    case False
    then have "hd (decimal (n div 10)) = CHR ''0''"
      using "1.prems" by (simp add: decimal.simps [of n])
    with 1 False have "n div 10 = 0" by blast
    with False show ?thesis by simp
  qed
qed

lemma octet_decimal:
  assumes "n < 256"
  shows "octet (decimal n) = Some (word_of_nat n)"
proof -
  have "length (decimal n) \<le> 3" using assms by (intro length_decimal) simp_all
  moreover have "length (decimal n) = 1" if "hd (decimal n) = CHR ''0''"
    using decimal_leading_zero [OF that] by (simp add: decimal.simps [of 0])
  ultimately show ?thesis
    using assms by (simp add: octet_def decimal_digits parse_decimal_decimal)
qed

lemma separators: "\<not> is_digit CHR ''.''" "\<not> is_digit CHR '':''" "\<not> is_digit CHR 0x00"
  by (simp_all add: is_digit_def)

lemma digits_no_sep: "list_all is_digit s \<Longrightarrow> CHR ''.'' \<notin> set s \<and> CHR '':'' \<notin> set s \<and> CHR 0x00 \<notin> set s"
  using separators unfolding list_all_iff by blast

lemma dot_fields_last: "CHR ''.'' \<notin> set s \<Longrightarrow> dot_fields s = [s]"
  by (induction s) auto

lemma dot_fields_append: "CHR ''.'' \<notin> set s \<Longrightarrow> dot_fields (s @ CHR ''.'' # t) = s # dot_fields t"
  by (induction s) auto

text \<open>The text of four octets, without colons and terminators, of at most 15 characters.\<close>

lemma four_octets:
  assumes "length bs = 4"
  obtains a b c d :: byte where "bs = [a, b, c, d]"
proof -
  have "length bs = Suc (Suc (Suc (Suc 0)))" using assms by simp
  then show thesis using that by (auto simp: length_Suc_conv)
qed

lemma dotted_fields: "dot_fields (dotted [a, b, c, d]) = map (\<lambda>x. decimal (unat x)) [a, b, c, d]"
  using digits_no_sep [OF decimal_digits] by (simp add: dotted_def dot_fields_append dot_fields_last)

lemma dotted_chars: "CHR '':'' \<notin> set (dotted [a, b, c, d]) \<and> CHR 0x00 \<notin> set (dotted [a, b, c, d])"
  using digits_no_sep [OF decimal_digits] by (simp add: dotted_def)

lemma length_octet_text: "length (decimal (unat (b :: byte))) \<le> 3"
  using unat_byte_lt [of b] by (intro length_decimal) simp_all

lemma length_dotted: "length (dotted [a, b, c, d]) \<le> 15"
  using length_octet_text [of a] length_octet_text [of b] length_octet_text [of c] length_octet_text [of d]
  by (simp add: dotted_def)

lemma map_octet_dotted: "map octet (dot_fields (dotted [a, b, c, d])) = [Some a, Some b, Some c, Some d]"
  using unat_byte_lt by (simp add: dotted_fields octet_decimal)

section \<open>Addresses\<close>

lemma of_mem_bytes_mem_bytes:
  assumes "8 dvd LENGTH('a::len)"
  shows "of_mem_bytes le (mem_bytes le (w :: 'a word)) = w"
  using assms by (simp add: of_mem_bytes_def mem_bytes_def of_le_bytes_le_bytes)

lemma betoh_htobe:
  assumes "8 dvd LENGTH('a::len)"
  shows "betoh le (htobe le (w :: 'a word)) = w"
  using assms by (simp add: betoh_def htobe_def bswap_def le_bytes_of_le_bytes of_le_bytes_le_bytes)

lemma htobe_betoh:
  assumes "8 dvd LENGTH('a::len)"
  shows "htobe le (betoh le (w :: 'a word)) = w"
  using assms by (simp add: betoh_def htobe_def bswap_def le_bytes_of_le_bytes of_le_bytes_le_bytes)

lemma toIp_dotted: "toIp le a = dotted (mem_bytes le (s_addr a))"
proof -
  have "length (mem_bytes le (s_addr a)) = 4" by (simp add: mem_bytes_def)
  then obtain x y z w where "mem_bytes le (s_addr a) = [x, y, z, w]" by (rule four_octets)
  then show ?thesis
    using length_dotted [of x y z w] by (simp add: toIp_def inet_ntop_def INET_ADDRSTRLEN_def Let_def)
qed

lemma pton_toIp:
  shows "inet_pton le (c_str (toIp le a)) = Some (s_addr a)"
    and "CHR '':'' \<notin> set (toIp le a)" and "length (toIp le a) \<le> 15"
proof -
  have l: "length (mem_bytes le (s_addr a)) = 4" by (simp add: mem_bytes_def)
  then obtain x y z w where m: "mem_bytes le (s_addr a) = [x, y, z, w]" by (rule four_octets)
  have s: "s_addr a = of_mem_bytes le [x, y, z, w]"
    using of_mem_bytes_mem_bytes [of le "s_addr a"] m by simp
  have "c_str (toIp le a) = dotted [x, y, z, w]"
    using dotted_chars [of x y z w] by (auto simp: c_str_def toIp_dotted m takeWhile_eq_all_conv)
  then show "inet_pton le (c_str (toIp le a)) = Some (s_addr a)"
    by (simp add: inet_pton_def map_octet_dotted s)
  show "CHR '':'' \<notin> set (toIp le a)" "length (toIp le a) \<le> 15"
    using dotted_chars length_dotted by (simp_all add: toIp_dotted m)
qed

lemma split_at_char:
  assumes "s @ c # t = s' @ c # t'" "c \<notin> set s" "c \<notin> set s'"
  shows "s = s' \<and> t = t'"
  using assms
proof (induction s arbitrary: s')
  case Nil
  then show ?case by (cases s') auto
next
  case (Cons d s)
  then show ?case by (cases s') auto
qed

lemma inet_reads_back: "sin_family a = AF_INET \<Longrightarrow> inet_ip_port le (toIp le a) (toPort le a) = a"
  by (simp add: inet_ip_port_def pton_toIp(1) toPort_def htobe_betoh)

lemma toIpPort_inj:
  assumes "sin_family a = AF_INET" "sin_family b = AF_INET" "toIpPort le a = toIpPort le b"
  shows "a = b"
proof -
  have "toIp le a = toIp le b \<and> decimal (unat (toPort le a)) = decimal (unat (toPort le b))"
    using assms(3) pton_toIp(2) [of le a] pton_toIp(2) [of le b]
    by (intro split_at_char [of _ "CHR '':''"]) (simp_all add: toIpPort_def)
  then have ip: "toIp le a = toIp le b" and "unat (toPort le a) = unat (toPort le b)"
    by (simp, metis parse_decimal_decimal)
  then have "toPort le a = toPort le b" by (simp add: word_unat_eq_iff)
  then show ?thesis using ip inet_reads_back [OF assms(1)] inet_reads_back [OF assms(2)] by metis
qed

section \<open>Properties\<close>

text \<open>C37. The text of an address identifies it: on a host of either byte order, parsing the
  address text and port of any IPv4 address gives the same address again, the text fits the
  buffer of \<open>toIp\<close>, and two addresses with the same \<open>toIpPort\<close> text are equal.\<close>
theorem inet_roundtrip:
  assumes "sin_family a = AF_INET" and "sin_family b = AF_INET"
  shows "inet_ip_port le (toIp le a) (toPort le a) = a \<and> length (toIp le a) < INET_ADDRSTRLEN \<and>
         (toIpPort le a = toIpPort le b \<longrightarrow> a = b)"
  using inet_reads_back [OF assms(1)] pton_toIp(3) [of le a] toIpPort_inj [OF assms]
  by (auto simp: INET_ADDRSTRLEN_def)

theorem inet_roundtrip_witness:
  "inet_ip_port True (toIp True \<lparr>sin_family = 2, sin_port = 0x5000, s_addr = 0x0100007F\<rparr>)
      (toPort True \<lparr>sin_family = 2, sin_port = 0x5000, s_addr = 0x0100007F\<rparr>) =
    \<lparr>sin_family = 2, sin_port = 0x5000, s_addr = 0x0100007F\<rparr>"
proof -
  let ?a = "\<lparr>sin_family = 2, sin_port = 0x5000, s_addr = 0x0100007F\<rparr> :: inet_address"
  have f: "sin_family ?a = AF_INET" by (simp add: AF_INET_def)
  from inet_roundtrip [OF f f, of True] show ?thesis by blast
qed

text \<open>What the constructors build: the address of a port is all interfaces or the loopback
  interface, as asked, and prints as such; a text that is no IPv4 address is not rejected but
  silently becomes the address of all interfaces.\<close>
theorem inet_constructors:
  "toIpPort le (inet_port le port loopback) =
     (if loopback then ''127.0.0.1'' else ''0.0.0.0'') @ '':'' @ decimal (unat port) \<and>
   (inet_pton le (c_str ip) = None \<longrightarrow> inet_ip_port le ip port = inet_port le port False)"
proof -
  have "4 = Suc (Suc (Suc (Suc 0)))" by simp
  then have n: "nat_bytes 4 k = [word_of_nat (k mod 256), word_of_nat (k div 256 mod 256),
      word_of_nat (k div 256 div 256 mod 256), word_of_nat (k div 256 div 256 div 256 mod 256)]" for k
    by (simp only: nat_bytes.simps)
  have b: "mem_bytes le (htobe le (0x7F000001 :: 32 word)) = [127, 0, 0, 1]"
      "mem_bytes le (htobe le (0 :: 32 word)) = [0, 0, 0, 0]"
    by (simp_all add: mem_bytes_htobe be_bytes_def le_bytes_def n)
  have d: "decimal 127 = ''127''" "decimal 0 = ''0''" "decimal (Suc 0) = ''1''"
    by (simp_all add: decimal.simps digit_char_def)
  have "toIp le (inet_port le port loopback) = (if loopback then ''127.0.0.1'' else ''0.0.0.0'')"
    by (simp add: toIp_dotted inet_port_def b dotted_def d)
  moreover have "htobe le 0 = (0 :: 32 word)"
    by (simp add: htobe_def bswap_def le_bytes_def n of_le_bytes_def)
  ultimately show ?thesis
    by (simp add: toIpPort_def toPort_def inet_port_def betoh_htobe inet_ip_port_def)
qed

theorem inet_constructors_witness:
  "inet_ip_port True ''1.2.3.256'' 80 = inet_port True 80 False \<and>
   inet_ip_port True ''1.2.3'' 80 = inet_port True 80 False"
proof -
  have d: "parse_decimal ''256'' = 256" by (simp add: parse_decimal_def digit_val_def)
  have "inet_pton True (c_str ''1.2.3.256'') = None" "inet_pton True (c_str ''1.2.3'') = None"
    by (simp_all add: c_str_def inet_pton_def octet_def d)
  then show ?thesis using inet_constructors [of True] by blast
qed

end
