(* ===== verification/Default_Callbacks.thy ===== *)
theory Default_Callbacks
  imports Inet_Address Logger Tcp_Connection
begin

text \<open>
  What a connection tells about itself (\<open>connected\<close>, \<open>disconnected\<close>, \<open>name\<close>) and the callbacks
  that \<open>TcpConnection.cpp\<close> provides for users who set none: they log, and the message callback
  empties the input buffer. The addresses of the two ends are arguments, since the connection
  only stores them. The lemmas show that the name identifies both ends, and that the line a
  connection logs is complete, fits the logger's buffer and tells which connection it was.
\<close>

section \<open>Definitions\<close>

definition connected :: "tcp_conn \<Rightarrow> bool" where
  "connected c = (tc_state c = kConnected)"

definition disconnected :: "tcp_conn \<Rightarrow> bool" where
  "disconnected c = (tc_state c = kDisconnected)"

definition conn_name :: "bool \<Rightarrow> inet_address \<Rightarrow> inet_address \<Rightarrow> string" where
  "conn_name le local peer = toIpPort le peer @ ''->'' @ toIpPort le local"

definition sendInLoop_string :: "net \<Rightarrow> byte list \<Rightarrow> tcp_conn \<Rightarrow> tcp_conn res" where
  "sendInLoop_string net message c = sendInLoop net message c"

definition defaultThreadInitCallback ::
  "('d \<Rightarrow> string) \<Rightarrow> string \<Rightarrow> string \<Rightarrow> 64 word \<Rightarrow> string res" where
  "defaultThreadInitCallback fmt tid time index =
     log_statement fmt tid time ''TcpConnection.cpp'' 18 TRACE
       [LCString (Some ''EventLoop thread #''), LULong index, LCString (Some '' started'')]"

text \<open>The operands of the connection callback's statement, and the statement.\<close>

definition connection_operands ::
  "bool \<Rightarrow> inet_address \<Rightarrow> inet_address \<Rightarrow> tcp_conn \<Rightarrow> 'd log_arg list" where
  "connection_operands le local peer conn =
     [LCString (Some ''connection ''), LCString (Some (c_str (toIpPort le peer))),
      LCString (Some '' -> ''), LCString (Some (c_str (toIpPort le local))), LCString (Some '' ''),
      LCString (Some (if connected conn then ''up'' else ''down''))]"

definition defaultConnectionCallback ::
  "('d \<Rightarrow> string) \<Rightarrow> string \<Rightarrow> string \<Rightarrow> bool \<Rightarrow> inet_address \<Rightarrow> inet_address \<Rightarrow> tcp_conn \<Rightarrow> string res" where
  "defaultConnectionCallback fmt tid time le local peer conn =
     log_statement fmt tid time ''TcpConnection.cpp'' 23 INFO (connection_operands le local peer conn)"

definition defaultMessageCallback :: "buffer \<Rightarrow> buffer" where
  "defaultMessageCallback buffer = retrieveAll buffer"

section \<open>Address texts\<close>

lemma toIpPort_text:
  "CHR ''-'' \<notin> set (toIpPort le a) \<and> CHR '' '' \<notin> set (toIpPort le a) \<and> CHR 0x00 \<notin> set (toIpPort le a) \<and>
   length (toIpPort le a) \<le> 21"
proof -
  have l: "length (mem_bytes le (s_addr a)) = 4" by (simp add: mem_bytes_def)
  then obtain x y z w where m: "mem_bytes le (s_addr a) = [x, y, z, w]" by (rule four_octets)
  have sep: "\<not> is_digit CHR ''-''" "\<not> is_digit CHR '' ''" "\<not> is_digit CHR 0x00"
    by (simp_all add: is_digit_def)
  then have d: "c \<notin> set (decimal n)" if "c \<in> {CHR ''-'', CHR '' '', CHR 0x00}" for c n
    using decimal_digits [of n] that by (auto simp: list_all_iff)
  have "unat (toPort le a) < 2 ^ LENGTH(16)" by (rule unsigned_less)
  then have "unat (toPort le a) < 10 ^ 5" by simp
  then have "length (decimal (unat (toPort le a))) \<le> 5" by (rule length_decimal) simp
  then show ?thesis
    using d length_dotted [of x y z w] by (simp add: toIpPort_def toIp_dotted m dotted_def)
qed

lemma no_separator: "CHR ''-'' \<notin> set (toIpPort le a)" "CHR '' '' \<notin> set (toIpPort le a)"
  using toIpPort_text [of le a] by blast+

lemma c_str_toIpPort [simp]: "c_str (toIpPort le a) = toIpPort le a"
  using toIpPort_text [of le a] by (auto simp: c_str_def takeWhile_eq_all_conv)

lemma int_decimal_23: "int_decimal 23 = ''23''"
  by (simp add: int_decimal_def decimal.simps digit_char_def)

text \<open>The line of the connection callback, up to the operands and from them on.\<close>

definition connection_text :: "bool \<Rightarrow> inet_address \<Rightarrow> inet_address \<Rightarrow> tcp_conn \<Rightarrow> string" where
  "connection_text le local peer conn =
     ''connection '' @ toIpPort le peer @ '' -> '' @ toIpPort le local @ '' '' @
     (if connected conn then ''up'' else ''down'')"

lemma connection_operands_text:
  "render_all fmt (connection_operands le local peer conn) = connection_text le local peer conn"
  by (simp add: connection_operands_def connection_text_def)

lemma connection_text_length: "length (connection_text le local peer conn) \<le> 62"
  using toIpPort_text [of le peer] toIpPort_text [of le local] by (simp add: connection_text_def)

lemma connection_text_inj:
  assumes "sin_family peer = AF_INET" "sin_family local = AF_INET"
    and "sin_family peer' = AF_INET" "sin_family local' = AF_INET"
    and "connection_text le local peer conn = connection_text le local' peer' conn'"
  shows "peer = peer' \<and> local = local' \<and> connected conn = connected conn'"
proof -
  let ?u = "if connected conn then ''up'' else ''down''" and ?u' = "if connected conn' then ''up'' else ''down''"
  have e: "toIpPort le peer @ CHR '' '' # (''-> '' @ toIpPort le local @ '' '' @ ?u) =
      toIpPort le peer' @ CHR '' '' # (''-> '' @ toIpPort le local' @ '' '' @ ?u')"
    using assms(5) by (simp add: connection_text_def)
  note p = split_at_char [OF e no_separator(2) no_separator(2)]
  then have "toIpPort le local @ CHR '' '' # ?u = toIpPort le local' @ CHR '' '' # ?u'" by simp
  note l = split_at_char [OF this no_separator(2) no_separator(2)]
  then have "connected conn = connected conn'" by (simp split: if_splits)
  moreover have "local = local'" using toIpPort_inj [OF assms(2,4), of le] l by simp
  moreover have "peer = peer'" using toIpPort_inj [OF assms(1,3), of le] p by simp
  ultimately show ?thesis by simp
qed

section \<open>Properties\<close>

text \<open>The name of a connection identifies its ends: two IPv4 connections with the same name have
  the same local and the same peer address.\<close>
theorem conn_name_identifies:
  assumes "sin_family peer = AF_INET" "sin_family local = AF_INET"
    and "sin_family peer' = AF_INET" "sin_family local' = AF_INET"
    and "conn_name le local peer = conn_name le local' peer'"
  shows "local = local' \<and> peer = peer'"
proof -
  have e: "toIpPort le peer @ CHR ''-'' # (CHR ''>'' # toIpPort le local) =
      toIpPort le peer' @ CHR ''-'' # (CHR ''>'' # toIpPort le local')"
    using assms(5) by (simp add: conn_name_def)
  from split_at_char [OF e no_separator(1) no_separator(1)]
  show ?thesis using toIpPort_inj [OF assms(1,3), of le] toIpPort_inj [OF assms(2,4), of le] by simp
qed

theorem conn_name_identifies_witness:
  "conn_name True \<lparr>sin_family = AF_INET, sin_port = 0x5000, s_addr = 0x0100007F\<rparr>
      \<lparr>sin_family = AF_INET, sin_port = 0x5000, s_addr = 0x0200007F\<rparr> \<noteq>
    conn_name True \<lparr>sin_family = AF_INET, sin_port = 0x5000, s_addr = 0x0200007F\<rparr>
      \<lparr>sin_family = AF_INET, sin_port = 0x5000, s_addr = 0x0100007F\<rparr>"
proof
  let ?a = "\<lparr>sin_family = AF_INET, sin_port = 0x5000, s_addr = 0x0100007F\<rparr> :: inet_address"
  let ?b = "\<lparr>sin_family = AF_INET, sin_port = 0x5000, s_addr = 0x0200007F\<rparr> :: inet_address"
  assume eq: "conn_name True ?a ?b = conn_name True ?b ?a"
  have f: "sin_family ?a = AF_INET" "sin_family ?b = AF_INET" by simp_all
  from conn_name_identifies [OF f(2,1) f(1,2) eq] show False by simp
qed

text \<open>The default connection callback reports every connection and its state: its line is always
  complete (it fits the logger's buffer, for times and thread ids of the usual size), and two lines
  of the same thread and time are equal only for the same addresses and the same state, up or down.
  The default message callback empties the input buffer and keeps it well-formed.\<close>
theorem default_callbacks:
  assumes "\<And>d. length (fmt d) < 32" and "length tid \<le> 32" and "length time \<le> 64"
    and "sin_family peer = AF_INET" "sin_family local = AF_INET"
    and "sin_family peer' = AF_INET" "sin_family local' = AF_INET" and "buffer_inv b"
  shows "defaultConnectionCallback fmt tid time le local peer conn =
      Inr (''INFO  '' @ tid @ '' '' @ time @ connection_text le local peer conn @ ''--TcpConnection.cpp:23'' @ [CHR 0x0A]) \<and>
    (defaultConnectionCallback fmt tid time le local peer conn =
       defaultConnectionCallback fmt tid time le local' peer' conn' \<longrightarrow>
     peer = peer' \<and> local = local' \<and> connected conn = connected conn') \<and>
    buffer_inv (defaultMessageCallback b) \<and> content (defaultMessageCallback b) = []"
proof -
  have line: "defaultConnectionCallback fmt tid time le l p c =
      Inr (''INFO  '' @ tid @ '' '' @ time @ connection_text le l p c @ ''--TcpConnection.cpp:23'' @ [CHR 0x0A])" for l p c
  proof -
    let ?line = "log_line fmt tid time ''TcpConnection.cpp'' 23 INFO (connection_operands le l p c)"
    have eq: "?line = ''INFO  '' @ tid @ '' '' @ time @ connection_text le l p c @ ''--TcpConnection.cpp:23'' @ [CHR 0x0A]"
      by (simp add: log_line_def connection_operands_text int_decimal_23)
    then have "length ?line + 32 \<le> kSmallBuffer"
      using assms(2,3) connection_text_length [of le l p c] by (simp add: kSmallBuffer_def)
    with log_statement_spec [where fmt = fmt, OF assms(1)] eq show ?thesis by (simp add: defaultConnectionCallback_def)
  qed
  have "buffer_inv (retrieveAll b) \<and> content (retrieveAll b) = []"
    using assms(8) by (auto simp: buffer_inv_def retrieveAll_def content_def)
  then show ?thesis
    using connection_text_inj [OF assms(4-7)] unfolding line defaultMessageCallback_def by auto
qed

theorem default_callbacks_witness:
  "\<exists>c. defaultConnectionCallback (\<lambda>_ :: unit. ''0.5'') ''  42 '' ''2019-01-01 00:00:00'' True
      \<lparr>sin_family = AF_INET, sin_port = 0x5000, s_addr = 0x0100007F\<rparr>
      \<lparr>sin_family = AF_INET, sin_port = 0x5000, s_addr = 0x0200007F\<rparr> c \<noteq>
    defaultConnectionCallback (\<lambda>_ :: unit. ''0.5'') ''  42 '' ''2019-01-01 00:00:00'' True
      \<lparr>sin_family = AF_INET, sin_port = 0x5000, s_addr = 0x0100007F\<rparr>
      \<lparr>sin_family = AF_INET, sin_port = 0x5000, s_addr = 0x0100007F\<rparr> c"
proof -
  let ?a = "\<lparr>sin_family = AF_INET, sin_port = 0x5000, s_addr = 0x0100007F\<rparr> :: inet_address"
  let ?b = "\<lparr>sin_family = AF_INET, sin_port = 0x5000, s_addr = 0x0200007F\<rparr> :: inet_address"
  let ?f = "\<lambda>_ :: unit. ''0.5''"
  have f: "length (?f d) < 32" for d by simp
  have l: "length ''  42 '' \<le> 32" "length ''2019-01-01 00:00:00'' \<le> 64" by simp_all
  have fam: "sin_family ?a = AF_INET" "sin_family ?b = AF_INET" by simp_all
  have "buffer_inv \<lparr>buf_data = replicate 10 0, readerIndex = 8, writerIndex = 8\<rparr>"
    by (simp add: buffer_inv_def vec_max_size_val)
  note t = default_callbacks [where fmt = ?f, OF f l fam(2,1) fam(1,1) this, of True]
  have "defaultConnectionCallback ?f ''  42 '' ''2019-01-01 00:00:00'' True ?a ?b c =
      defaultConnectionCallback ?f ''  42 '' ''2019-01-01 00:00:00'' True ?a ?a c \<longrightarrow> ?b = ?a" for c
    using t by blast
  moreover have "?b \<noteq> ?a" by simp
  ultimately show ?thesis by blast
qed

end
