(* ===== verification/Atomic_Integer.thy ===== *)
theory Atomic_Integer
  imports Prelude
begin

text \<open>
  Atomic integers: \<open>base/Atomic.h\<close>, at any width. Each operation is one atomic access, so calls
  from several threads are a sequence of operations in some order. The lemmas show that the
  value is the sum of what was added, modulo the width, and that counters hand out distinct
  tickets until they wrap.
\<close>

definition atomic_new :: "'a::len word" where
  "atomic_new = 0"

text \<open>\<open>get\<close> is a compare-and-swap of 0 by 0, and returns the old value.\<close>

definition atomic_get :: "'a::len word \<Rightarrow> 'a word \<times> 'a word" where
  "atomic_get v = (v, if v = 0 then 0 else v)"

definition getAndAdd :: "'a::len word \<Rightarrow> 'a word \<Rightarrow> 'a word \<times> 'a word" where
  "getAndAdd x v = (v, v + x)"

definition addAndGet :: "'a::len word \<Rightarrow> 'a word \<Rightarrow> 'a word \<times> 'a word" where
  "addAndGet x v = (case getAndAdd x v of (r, v') \<Rightarrow> (r + x, v'))"

definition incrementAndGet :: "'a::len word \<Rightarrow> 'a word \<times> 'a word" where
  "incrementAndGet v = addAndGet 1 v"

definition decrementAndGet :: "'a::len word \<Rightarrow> 'a word \<times> 'a word" where
  "decrementAndGet v = addAndGet (- 1) v"

definition getAndSet :: "'a::len word \<Rightarrow> 'a word \<Rightarrow> 'a word \<times> 'a word" where
  "getAndSet x v = (v, x)"

datatype 'x atomic_op = At_get | At_add 'x | At_add_get 'x | At_inc | At_dec

text \<open>One operation, with its result; a run of several, with all results.\<close>

fun atomic_do :: "'a::len word atomic_op \<Rightarrow> 'a word \<Rightarrow> 'a word \<times> 'a word" where
  "atomic_do At_get v = atomic_get v"
| "atomic_do (At_add x) v = getAndAdd x v"
| "atomic_do (At_add_get x) v = addAndGet x v"
| "atomic_do At_inc v = incrementAndGet v"
| "atomic_do At_dec v = decrementAndGet v"

fun atomic_run :: "'a::len word atomic_op list \<Rightarrow> 'a word \<Rightarrow> 'a word list \<times> 'a word" where
  "atomic_run [] v = ([], v)"
| "atomic_run (op # ops) v =
     (case atomic_do op v of (r, v') \<Rightarrow> case atomic_run ops v' of (rs, v'') \<Rightarrow> (r # rs, v''))"

fun amount :: "'a::len word atomic_op \<Rightarrow> int" where
  "amount At_get = 0"
| "amount (At_add x) = sint x"
| "amount (At_add_get x) = sint x"
| "amount At_inc = 1"
| "amount At_dec = - 1"

lemmas atomic_defs = atomic_get_def getAndAdd_def addAndGet_def incrementAndGet_def decrementAndGet_def

lemma atomic_do_value: "snd (atomic_do op v) = v + word_of_int (amount op)"
  by (cases op) (auto simp: atomic_defs)

lemma atomic_run_value: "snd (atomic_run ops v) = v + word_of_int (sum_list (map amount ops))"
proof (induction ops arbitrary: v)
  case Nil
  then show ?case by simp
next
  case (Cons op ops)
  then show ?case using atomic_do_value [of op v]
    by (simp add: case_prod_unfold algebra_simps)
qed

lemma increments:
  "fst (atomic_run (replicate n At_inc) v) = map (\<lambda>k. v + word_of_nat (Suc k)) [0..<n]"
proof (induction n arbitrary: v)
  case 0
  then show ?case by simp
next
  case (Suc n)
  have "map (\<lambda>k. v + word_of_nat (Suc k)) [0..<Suc n]
      = (v + 1) # map (\<lambda>k. (v + 1) + word_of_nat (Suc k)) [0..<n]"
    by (simp only: upt_conv_Cons [of 0 "Suc n"] map_Suc_upt [symmetric] list.map map_map)
      (simp add: algebra_simps)
  then show ?case
    using Suc.IH [of "v + 1"] by (simp add: atomic_defs case_prod_unfold)
qed

text \<open>No update is lost: after any operations, in any order, an atomic integer is its initial
  value plus everything added, modulo its width; it reads as that sum as long as the sum is in
  range; and up to \<open>2 ^ w\<close> increments return pairwise different values.\<close>
theorem atomic_sum:
  fixes v :: "'a::len word"
  assumes "n \<le> 2 ^ LENGTH('a)"
  shows "snd (atomic_run ops v) = v + word_of_int (sum_list (map amount ops)) \<and>
     (- (2 ^ (LENGTH('a) - 1)) \<le> sint v + sum_list (map amount ops) \<longrightarrow>
      sint v + sum_list (map amount ops) < 2 ^ (LENGTH('a) - 1) \<longrightarrow>
        sint (snd (atomic_run ops v)) = sint v + sum_list (map amount ops)) \<and>
     distinct (fst (atomic_run (replicate n At_inc) v))"
proof -
  let ?s = "sum_list (map amount ops)"
  have val: "snd (atomic_run ops v) = word_of_int (sint v + ?s)"
    by (simp add: atomic_run_value)
  have "sint (word_of_int (sint v + ?s) :: 'a word) = sint v + ?s"
    if "- (2 ^ (LENGTH('a) - 1)) \<le> sint v + ?s" "sint v + ?s < 2 ^ (LENGTH('a) - 1)"
    unfolding sint_sbintrunc' by (rule signed_take_bit_int_eq_self) (use that in simp_all)
  moreover have "distinct (map (\<lambda>k. v + word_of_nat (Suc k)) [0..<n])"
  proof -
    have "i = j" if "i < n" "j < n" "v + word_of_nat (Suc i) = v + word_of_nat (Suc j)" for i j
    proof -
      have "(word_of_nat i :: 'a word) = word_of_nat j" using that(3) by simp
      then have "i mod 2 ^ LENGTH('a) = j mod 2 ^ LENGTH('a)"
        by (simp add: word_of_nat_eq_iff take_bit_eq_mod)
      then show ?thesis using that(1,2) assms by simp
    qed
    then show ?thesis by (auto simp: distinct_map inj_on_def)
  qed
  ultimately show ?thesis using val by (simp add: increments atomic_run_value)
qed

theorem atomic_sum_witness:
  "sint (snd (atomic_run [At_inc, At_dec, At_add 5, At_dec] (0 :: 32 word))) = 4 \<and>
   distinct (fst (atomic_run (replicate 3 At_inc) (0xFFFFFFFE :: 32 word)))"
proof -
  have n: "3 \<le> (2 :: nat) ^ LENGTH(32)" by simp
  have s: "sint (5 :: 32 word) = 5" by simp
  show ?thesis
    using atomic_sum [OF n, of "[At_inc, At_dec, At_add 5, At_dec]" 0] s
      atomic_sum [OF n, of "[]" "0xFFFFFFFE"]
    by simp
qed

end
