(* ===== verification/Spec2Isabelle.thy ===== *)
theory Spec2Isabelle
  imports Ring_Test Any_Value Logging_Test Connection_Pair Loop_Object Reactor Multi_Server Server_Callbacks
    Thread_Pool Connector Event_Loop_Thread Mutex Default_Callbacks Atomic_Integer
begin

text \<open>
  A verification development for ccServer, a C++11 network library of the reactor kind: one event
  loop per thread around \<open>epoll\<close>, non-blocking connections with buffers, timers, thread helpers
  and an asynchronous logger.

  \<^bold>\<open>The parts and how they interact.\<close> \<open>Channel\<close> connects a descriptor and its callbacks to the
  poller (\<open>Epoll\<close>) of an \<open>EventLoop\<close>. The loop dispatches ready channels and then runs the tasks
  queued by its own or other threads, who wake it through an eventfd. A \<open>TcpConnection\<close> is a state
  machine over a channel and two \<open>Buffer\<close>s; calls from other threads become tasks of its loop.
  \<open>Acceptor\<close> and \<open>TcpServerSingle\<close> create the connections of one loop and own them;
  \<open>TcpServer\<close> wants to run several of those in threads of their own; \<open>Connector\<close> is the client
  side. \<open>TimerQueue\<close> drives timers from a timerfd. \<open>EventLoopThread\<close>, \<open>Thread\<close>, \<open>ThreadPool\<close>
  and \<open>CountDownLatch\<close> are built on a mutex and condition variables. A log statement (\<open>Logger\<close>)
  formats one line in a \<open>LogStream\<close> and hands it to \<open>AsyncLogging\<close>, whose thread writes whole
  buffers to a \<open>LogFile\<close>. A connection carries a value of any type (\<open>any\<close>) for its user.

  \<^bold>\<open>Conventions\<close> (theory \<open>Prelude\<close>). A fallible operation returns \<open>error + 'a\<close>: a failed \<open>assert\<close>,
  a C++ exception, an access outside of an array, a use of freed memory and a null pointer are
  values, so that "never fails" is a statement. \<open>bindE\<close> and \<open>assertE\<close> compose; the facts that invert
  a composition are in \<open>res_simps\<close>. \<open>safe P r\<close> says that \<open>r\<close> is a value with \<open>P\<close> or the exception
  of a vector that grows beyond its maximal size, the only failure left open. \<open>reach\<close> is
  reachability of states and failures for a step relation. \<open>size_t\<close> is a 64-bit word, counters that
  cannot wrap are numbers; bytes are 8-bit words, the text of log lines is a character list.

  \<^bold>\<open>Theories and sources\<close> (all names as under \<open>src/\<close>).
  \<^item> \<open>Byte_Order\<close>: host memory layout of integers and \<open>htobe64\<close> etc., for both byte orders.
  \<^item> \<open>Byte_Stream\<close>: the locale \<open>byte_stream\<close>, the contract of a first-in first-out byte store.
  \<^item> \<open>Buffer\<close> (\<open>Buffer.h\<close>, \<open>Buffer.cpp\<close>): one definition per member function over the vector and
    its two indices. \<open>buffer_inv\<close>, \<open>content\<close>; each operation's effect on the content; \<open>Buffer\<close>
    interprets \<open>byte_stream\<close>.
  \<^item> \<open>Circular_Buffer\<close> (\<open>base/CircularBuffer.h\<close>, \<open>base/CircularBufferImpl.h\<close>): the ring with its
    cells (raw, live, destroyed) and iterators. \<open>Ring_Test\<close> (\<open>base/Test1/main.cpp\<close>): the iterator's
    copying operations and the test program, whose comparison loop is a partial function.
  \<^item> \<open>Log_Stream\<close> (\<open>base/LogStream.h\<close>, \<open>.cpp\<close>), \<open>Log_File\<close> (\<open>base/FileUtil\<close>, \<open>base/LogFile\<close>),
    \<open>Async_Logging\<close> (\<open>base/AsyncLogging\<close>), \<open>Logger\<close> (\<open>base/Logging\<close>): formatting, the file, the
    two-sided buffer exchange as a transition system of the appending threads and the logging
    thread, and the composition of a statement. \<open>Log_Process\<close> puts them together: statements of any threads,
    the first of which starts the log, down to the file. \<open>Logging_Test\<close> (\<open>base/Test/LoggingTest.cpp\<close>):
    the test of the logger, a main thread and four others that log, on top of that.
  \<^item> \<open>Any_Value\<close> (\<open>anyone.h\<close>): objects, holders on the free store, casts.
  \<^item> \<open>Channel\<close> (\<open>Channel.h\<close>, \<open>Channel.cpp\<close>, \<open>Epoll.cpp\<close>): interest sets, registration, dispatch.
    \<open>kernel_replay\<close> runs the \<open>epoll_ctl\<close> calls on the kernel's table.
  \<^item> \<open>Event_Loop\<close> (\<open>EventLoop.h\<close>, \<open>EventLoop.cpp\<close>): the loop thread as a state machine interleaved
    with other threads, each of whose calls is two steps, the change and the wake-up.
  \<^item> \<open>Timer_Queue\<close> (\<open>Timer.h\<close>, \<open>TimerQueue.h\<close>, \<open>TimerQueue.cpp\<close>): timers in a heap of addresses, the
    ordered set of pairs (deadline, address), callbacks that add and cancel.
  \<^item> \<open>Tcp_Connection\<close> (\<open>TcpConnection.h\<close>, \<open>TcpConnection.cpp\<close>): the connection under arbitrary
    sequences of readiness events, user calls, calls from other threads and queued tasks.
  \<^item> \<open>Default_Callbacks\<close> (\<open>TcpConnection\<close>): the callbacks for users who set none, and names.
  \<^item> \<open>Connection_Pair\<close>: two connections joined by a network, from \<open>send\<close> at one end to the user at
    the other.
  \<^item> \<open>Connection_Spec\<close>: an abstract connection without buffers, channels or tasks, and the proof that
    the model refines it.
  \<^item> \<open>Loop_Object\<close> (\<open>EventLoop\<close>, \<open>TimerQueue\<close>): construction and destruction of a loop with its
    channels and timers, the thread-local pointer, and \<open>runAt\<close>, \<open>runAfter\<close>, \<open>runEvery\<close>.
  \<^item> \<open>Loop_Timers\<close>: the composition of \<open>Timer_Queue\<close> with \<open>Event_Loop\<close>; timers added and cancelled
    from any thread, through the queue of the loop.
  \<^item> \<open>Loop_Server\<close>: the composition of \<open>Tcp_Server\<close> with \<open>Event_Loop\<close>. The tasks of all connections lie
    in the one queue of the loop; every run is a run of both models, so their properties carry over.
  \<^item> \<open>Poll_Round\<close>: one round of the loop over a server, the list of ready channels handled one after
    the other with calls of users in between.
  \<^item> \<open>Reactor\<close> (\<open>EventLoop.cpp\<close> with all that hangs on it): the loop, its timers, a server with its
    connections and the list of active channels at once, with one vector of pending tasks for all of
    them. \<open>map_loop\<close> renames the tasks of a loop; \<open>server_part\<close> and \<open>timer_part\<close> project a state on
    those of \<open>Loop_Server\<close> and \<open>Loop_Timers\<close>, and every step is one or more steps of both.
  \<^item> \<open>Tcp_Server\<close> (\<open>Acceptor.h\<close>, \<open>Accept.cpp\<close>, \<open>TcpServerSingle\<close>): connection objects in a heap, the
    server's set of references to them, accepting, closing and destroying.
  \<^item> \<open>Inet_Address\<close> (\<open>InetAddress\<close>), \<open>Connector\<close> (\<open>Connector\<close>), \<open>Multi_Server\<close> (\<open>TcpServer\<close>),
    \<open>Atomic_Integer\<close> (\<open>base/Atomic.h\<close>), \<open>Timestamp\<close> (\<open>base/Timestamp.h\<close>).
  \<^item> \<open>Server_Callbacks\<close> (the setters in \<open>TcpServer.h\<close>, \<open>TcpServerSingle.h\<close>, \<open>TcpConnection.h\<close>,
    \<open>Acceptor.h\<close>, \<open>Channel.h\<close>, the types of \<open>Callbacks.h\<close>): callbacks as values, from the user of a
    server to the calls that a connection makes, with the exception that calling an empty one throws.
  \<^item> \<open>Monitor\<close> (\<open>base/Mutex.h\<close>, \<open>base/Condition.h\<close>, \<open>base/CountDownLatch\<close>): data under a mutex with a
    condition variable, critical sections as atomic steps, spurious wake-ups. The locales
    \<open>condition\<close> (every section that makes the condition true signals enough, so no sleeper is left
    behind) and \<open>stable_condition\<close> (once true it stays true, so every waiter passes) are
    interpreted by the latch here and by the hand-over of the loop in \<open>Event_Loop_Thread\<close>.
  \<^item> \<open>Mutex\<close> (the same files): the latch with every lock, access, signal and unlock a step of its own.
    The locale \<open>critical_section\<close> holds the proof that this refines \<open>Monitor\<close>, from two laws about
    the accesses of a section; the latch interprets it.
  \<^item> \<open>Threads\<close> (\<open>base/Thread\<close>, \<open>base/CurrentThread.h\<close>), \<open>Thread_Pool\<close> (\<open>ThreadPool\<close>),
    \<open>Event_Loop_Thread\<close> (\<open>EventLoopThread\<close>, composed with the model of the loop).

  \<^bold>\<open>What the properties show.\<close> Data paths: buffers, rings, log lines and connections neither lose,
  duplicate nor reorder what is put into them, also between the two ends of a connection, and a
  buffer never takes more than about twice the memory of what it holds at most. Values: \<open>any\<close>
  is a value type whose casts are safe. Control: no wake-up is lost, tasks run once and in
  order, what other threads send is written, repeating timers do not drift, registration in the kernel is always the wanted one, timers fire when due, also those
  added by other threads, the list of ready channels stays valid while it
  is worked off, a round of the loop ends and runs what waited before it, an empty callback is called only
  if the user set it, critical sections are atomic, shutdown comes
  after the data, \<open>startLoop()\<close> and \<open>start()\<close> hand out what they promise. Absence of failures: which
  sequences of calls can never reach an assertion. For the compositions (\<open>Reactor\<close>, \<open>Loop_Server\<close>) these
  are the sequences in which the loop does not come to a task that a user left stale, a \<open>startRead\<close> or
  \<open>stopRead\<close> of another thread on a connection that is freed or closed by then; a step that does come to
  one can fail in the ways that the properties list and in no other. And where the code does not keep such a promise,
  the run that breaks it: a remote \<open>send\<close> overtaken by \<open>shutdown\<close>, late events on a closed
  connection, \<open>stopRead\<close> on a freed one, servers that cannot be destroyed, a multi-threaded server
  that never starts, lines lost by \<open>stop()\<close>, timers cancelled from their own callback or before their insertion ran, a destructor
  of \<open>EventLoopThread\<close> that hangs.

  \<^bold>\<open>Parameters.\<close> What the kernel does is an argument: \<open>net\<close> answers the k-th system call on a socket
  (assumed only not to accept or deliver more than offered; for \<open>connection_drains\<close> also to take at
  least a byte; for two joined connections to deliver, in order, what the other end wrote), \<open>wr\<close> answers the k-th \<open>fwrite\<close>, \<open>fmt\<close> renders a time, \<open>le\<close> is the byte order, the
  answers of \<open>accept4\<close>, \<open>connect\<close>, \<open>pthread_create\<close> and \<open>gettid\<close> are arguments of the operations.

  \<^bold>\<open>Bounds and fuel.\<close> \<open>AppendFile::append\<close> may retry a write for ever and is a partial function;
  its termination for every behaviour of the writes is a property. \<open>loop_run\<close>, \<open>thread_steps\<close>,
  \<open>elt_run\<close>, \<open>ls_run\<close>, \<open>tl_run\<close> and \<open>rc_run\<close> count steps of a system left to itself, and the properties say how many are enough.
  Lengths of messages are below 2 ^ 63 and of log lines below 2 ^ 31, where the code's casts are
  exact; what happens beyond is a property of its own.

  \<^bold>\<open>Not modelled.\<close> \<open>base/noncopyable.h\<close> has no state. Left out of files that are modelled:
  includes, forward and member declarations, accessors that only return a member, the empty cookie
  functions of \<open>FixedBuffer\<close>, and \<open>IgnoreSigPipe\<close>, whose only effect is that a \<open>write\<close> to a closed
  peer fails instead of ending the process, which is how \<open>net\<close> answers. \<open>Condition::waitForSeconds\<close>
  is, in \<open>Async_Logging\<close>, a wait that may end at any time. Failing system calls that are only logged
  have no effect in the models. What is declared and defined nowhere (\<open>ThreadPool::stop\<close>, \<open>take\<close>,
  \<open>runInThread\<close>) has no model, and code that does not compile as it stands is read as what it plainly
  means.

  \<^bold>\<open>What is left.\<close> In \<open>Reactor\<close> one handler, callback or task is one step: another thread acts before or
  after it, which is exact for what the handlers share with other threads through the mutex, and
  \<open>Mutex\<close> shows it for the latch. The test and the exchange of \<open>state_\<close> in \<open>shutdown\<close> and
  \<open>forceClose\<close> are two definitions, but one step of the systems, also for other threads; \<open>Tcp_Connection\<close>
  shows the run that a finer interleaving allows (\<open>shutdown_races_close\<close>). Overflow of times and of the
  latch's count, addresses that are used again, files that cannot be opened and channels on an invalid
  descriptor are outside of the models, as their theories say. Several
  reactors at once, as \<open>TcpServer\<close> wants them, share nothing but the callbacks of \<open>Server_Callbacks\<close>
  and the starting protocol of \<open>Multi_Server\<close>.
\<close>

end
